(* ===== verification/Prelude.thy ===== *)
theory Prelude
  imports Main "HOL-Library.Word" "HOL-Library.Sublist"
begin

unbundle bit_operations_syntax

section \<open>Prelude: machine integers, byte memory and kernel outcomes\<close>

text \<open>
  What every component of the development shares:
  \<^item> names for the C integer types of \<^verbatim>\<open>riscv/kernel/types.h\<close> as words of their width;
  \<^item> little-endian encoding of words as byte lists, with its round trips;
  \<^item> the byte-addressed physical memory and reads and writes of byte runs in it;
  \<^item> the outcome of a kernel call: it returns, it goes to sleep on a channel, or the kernel
    panics; sequencing of such calls and the rule for total correctness.
\<close>

type_synonym uint8 = "8 word"
type_synonym uint16 = "16 word"
type_synonym uint32 = "32 word"
type_synonym uint64 = "64 word"

type_synonym memory = "uint64 \<Rightarrow> uint8"

subsection \<open>The development's theorem collections\<close>

text \<open>
  \<open>wp\<close> collects the total-correctness facts of the kernel's operations, \<open>ret_iff\<close>
  the characterisations of \<open>m = Ret x s\<close>, \<open>mem_simps\<close> the read-over-write facts
  of the byte memory.
\<close>

named_theorems wp
named_theorems ret_iff
named_theorems mem_simps

subsection \<open>Channels, locks and outcomes\<close>

text \<open>
  The kernel uses the address of an object as a sleep channel and as the identity of a
  spin lock. The model names the objects instead.
\<close>

datatype chan =
    Chan_log
  | Chan_buf_lock nat
  | Chan_inode_lock nat
  | Chan_nread uint64
  | Chan_nwrite uint64
  | Chan_proc nat
  | Chan_ticks
  | Chan_cons_r
  | Chan_tx
  | Chan_disk_free
  | Chan_disk_buf nat
  | Chan_exit

datatype lock =
    Lk_kmem
  | Lk_pid
  | Lk_wait
  | Lk_proc nat
  | Lk_bcache
  | Lk_buf nat
  | Lk_log
  | Lk_itable
  | Lk_inode nat
  | Lk_ftable
  | Lk_pipe uint64
  | Lk_ticks
  | Lk_cons
  | Lk_tx
  | Lk_pr
  | Lk_vdisk

text \<open>
  \<open>Ret x s\<close>: the call returned \<open>x\<close> in the state \<open>s\<close>. \<open>Sleep c s\<close>: the calling thread
  gave up the CPU on channel \<open>c\<close>, leaving \<open>s\<close>; it cannot go on before another thread
  wakes \<open>c\<close>. Nothing wakes \<open>Chan_exit\<close>: the thread of an exited process never runs again.
  \<open>Panic m\<close>: the kernel called \<^verbatim>\<open>panic(m)\<close>, which never returns.
\<close>

datatype ('s, 'a) outcome = Ret 'a 's | Sleep chan 's | Panic string

fun bnd :: "('s, 'a) outcome \<Rightarrow> ('a \<Rightarrow> 's \<Rightarrow> ('s, 'b) outcome) \<Rightarrow> ('s, 'b) outcome" where
  "bnd (Ret x s) f = f x s"
| "bnd (Sleep c s) f = Sleep c s"
| "bnd (Panic m) f = Panic m"

definition ok :: "('s, 'a) outcome \<Rightarrow> ('a \<Rightarrow> 's \<Rightarrow> bool) \<Rightarrow> bool" where
  "ok m P = (case m of Ret x s \<Rightarrow> P x s | Sleep c s \<Rightarrow> False | Panic e \<Rightarrow> False)"

lemma bnd_cong [fundef_cong]:
  "m = m' \<Longrightarrow> (\<And>x s. m' = Ret x s \<Longrightarrow> f x s = g x s) \<Longrightarrow> bnd m f = bnd m' g"
  by (cases m') auto

lemma bnd_Ret_right [simp]: "bnd m Ret = m"
  by (cases m) auto

lemma bnd_assoc: "bnd (bnd m f) g = bnd m (\<lambda>x s. bnd (f x s) g)"
  by (cases m) auto

lemma bnd_eq_Ret [ret_iff]:
  "bnd m f = Ret y t \<longleftrightarrow> (\<exists>x s. m = Ret x s \<and> f x s = Ret y t)"
  by (cases m) auto

lemma bnd_eq_Panic:
  "bnd m f = Panic e \<longleftrightarrow> m = Panic e \<or> (\<exists>x s. m = Ret x s \<and> f x s = Panic e)"
  by (cases m) auto

lemma if_Ret_iff [ret_iff]:
  "(if b then m else n) = Ret y t \<longleftrightarrow> (b \<and> m = Ret y t) \<or> (\<not> b \<and> n = Ret y t)"
  by simp

lemma Let_Ret_iff [ret_iff]: "(let x = v in f x) = Ret y t \<longleftrightarrow> f v = Ret y t"
  by simp

lemma case_option_Ret_iff [ret_iff]:
  "(case z of None \<Rightarrow> m | Some x \<Rightarrow> f x) = Ret y t \<longleftrightarrow>
   (z = None \<and> m = Ret y t) \<or> (\<exists>x. z = Some x \<and> f x = Ret y t)"
  by (cases z) simp_all

lemma ok_Ret [simp]: "ok (Ret x s) P = P x s"
  by (simp add: ok_def)

lemma ok_Sleep [simp]: "\<not> ok (Sleep c s) P"
  by (simp add: ok_def)

lemma ok_Panic [simp]: "\<not> ok (Panic e) P"
  by (simp add: ok_def)

lemma ok_bnd [simp]: "ok (bnd m f) P \<longleftrightarrow> ok m (\<lambda>x s. ok (f x s) P)"
  by (cases m) auto

lemma ok_mono: "ok m P \<Longrightarrow> (\<And>x s. P x s \<Longrightarrow> Q x s) \<Longrightarrow> ok m Q"
  by (cases m) auto

lemma ok_conj: "ok m P \<Longrightarrow> ok m Q \<Longrightarrow> ok m (\<lambda>x s. P x s \<and> Q x s)"
  by (cases m) auto

lemma ok_iff: "ok m P \<longleftrightarrow> (\<exists>x s. m = Ret x s \<and> P x s)"
  by (cases m) auto

lemma okD: "ok m P \<Longrightarrow> m = Ret x s \<Longrightarrow> P x s"
  by simp

lemma ok_if [simp]:
  "ok (if b then m else n) P \<longleftrightarrow> (b \<longrightarrow> ok m P) \<and> (\<not> b \<longrightarrow> ok n P)"
  by simp

text \<open>
  A C loop over a fixed range: \<open>for_each\<close> runs its body on every element in turn,
  \<open>for_return\<close> stops at the first element for which the body returns from the function.
\<close>

fun for_each :: "'x list \<Rightarrow> ('x \<Rightarrow> 's \<Rightarrow> ('s, unit) outcome) \<Rightarrow> 's \<Rightarrow> ('s, unit) outcome" where
  "for_each [] f s = Ret () s"
| "for_each (x # xs) f s = bnd (f x s) (\<lambda>_ s. for_each xs f s)"

fun for_return :: "'x list \<Rightarrow> ('x \<Rightarrow> 's \<Rightarrow> ('s, 'r option) outcome) \<Rightarrow> 's \<Rightarrow> ('s, 'r option) outcome" where
  "for_return [] f s = Ret None s"
| "for_return (x # xs) f s =
     bnd (f x s) (\<lambda>r s. case r of None \<Rightarrow> for_return xs f s | Some y \<Rightarrow> Ret (Some y) s)"

lemma ok_for_each:
  assumes "I 0 s"
    and "\<And>i s. i < length xs \<Longrightarrow> I i s \<Longrightarrow> ok (f (xs ! i) s) (\<lambda>_ s. I (Suc i) s)"
  shows "ok (for_each xs f s) (\<lambda>_ s. I (length xs) s)"
  using assms
proof (induction xs arbitrary: s I)
  case (Cons x xs)
  have "ok (f x s) (\<lambda>_ s. I (Suc 0) s)"
    using Cons.prems(1) Cons.prems(2) [of 0 s] by simp
  moreover have "ok (for_each xs f t) (\<lambda>_ s. I (Suc (length xs)) s)" if "I (Suc 0) t" for t
    by (rule Cons.IH [of "\<lambda>i. I (Suc i)"]) (use that Cons.prems(2) [of "Suc i" for i] in auto)
  ultimately show ?case
    by (auto intro: ok_mono)
qed simp

lemma ok_for_upt:
  assumes "I 0 s" and "\<And>i s. i < n \<Longrightarrow> I i s \<Longrightarrow> ok (f i s) (\<lambda>_. I (Suc i))"
  shows "ok (for_each [0..<n] f s) (\<lambda>_. I n)"
  using ok_for_each [of I s "[0..<n]" f] assms by simp

lemma for_each_ret:
  assumes "\<And>x s. x \<in> set xs \<Longrightarrow> P s \<Longrightarrow> f x s = Ret () (g x s) \<and> P (g x s)" and "P s"
  shows "for_each xs f s = Ret () (fold g xs s) \<and> P (fold g xs s)"
  using assms
proof (induction xs arbitrary: s)
  case (Cons x xs)
  have "f x s = Ret () (g x s)" "P (g x s)"
    using Cons.prems(1) [of x s] Cons.prems(2) by auto
  then show ?case
    using Cons.IH [of "g x s"] Cons.prems(1) by simp
qed simp

subsection \<open>Little-endian bytes of a word\<close>

fun le_word :: "uint8 list \<Rightarrow> 'a::len word" where
  "le_word [] = 0"
| "le_word (b # bs) = ucast b OR push_bit 8 (le_word bs)"

fun le_bytes :: "nat \<Rightarrow> 'a::len word \<Rightarrow> uint8 list" where
  "le_bytes 0 w = []"
| "le_bytes (Suc n) w = ucast w # le_bytes n (drop_bit 8 w)"

lemma length_le_bytes [simp]: "length (le_bytes n w) = n"
  by (induction n w rule: le_bytes.induct) auto

lemma ucast_or_push_take:
  "(ucast (ucast w :: uint8) OR push_bit 8 (take_bit n (drop_bit 8 w)) :: 'a::len word) =
   take_bit (n + 8) w"
  by (rule bit_word_eqI) (auto simp: bit_simps)

lemma le_word_bytes_take: "le_word (le_bytes n w) = (take_bit (8 * n) w :: 'a::len word)"
  by (induction n w rule: le_bytes.induct) (auto simp: ucast_or_push_take add.commute)

lemma le_word_bytes [simp]:
  assumes "LENGTH('a) \<le> 8 * n"
  shows "le_word (le_bytes n w) = (w :: 'a::len word)"
  by (simp add: le_word_bytes_take take_bit_word_eq_self assms)

lemma le_bytes_word [simp]:
  "8 * length bs \<le> LENGTH('a) \<Longrightarrow> le_bytes (length bs) (le_word bs :: 'a::len word) = bs"
proof (induction bs)
  case Nil
  then show ?case by simp
next
  case (Cons b bs)
  have lo: "ucast (ucast b OR push_bit 8 (le_word bs) :: 'a word) = b"
    using Cons.prems by (intro bit_word_eqI) (auto simp: bit_simps)
  have small: "take_bit (LENGTH('a) - 8) (le_word bs :: 'a word) = le_word bs"
  proof -
    have "le_word bs = (le_word (le_bytes (length bs) (le_word bs :: 'a word)) :: 'a word)"
      using Cons by simp
    also have "\<dots> = take_bit (8 * length bs) (le_word bs)"
      by (rule le_word_bytes_take)
    finally have "le_word bs = (take_bit (8 * length bs) (le_word bs) :: 'a word)" .
    moreover have "take_bit (LENGTH('a) - 8) (take_bit (8 * length bs) w) =
        take_bit (8 * length bs) w" for w :: "'a word"
      using Cons.prems by (intro bit_word_eqI) (auto simp: bit_simps)
    ultimately show ?thesis by metis
  qed
  have hi: "drop_bit 8 (ucast b OR push_bit 8 (le_word bs) :: 'a word) = le_word bs"
  proof (rule bit_word_eqI)
    fix n
    assume n: "n < LENGTH('a)"
    have "bit (le_word bs :: 'a word) n \<longleftrightarrow> n < LENGTH('a) - 8 \<and> bit (le_word bs :: 'a word) n"
      by (metis bit_take_bit_iff small)
    then show "bit (drop_bit 8 (ucast b OR push_bit 8 (le_word bs) :: 'a word)) n =
        bit (le_word bs :: 'a word) n"
      using n by (auto simp: bit_simps dest: bit_imp_le_length)
  qed
  show ?case using Cons by (simp add: lo hi del: drop_bit_or)
qed

subsection \<open>Byte runs in memory\<close>

text \<open>
  \<open>load_bytes m a n\<close> are the \<open>n\<close> bytes from address \<open>a\<close> on; \<open>store_bytes m a bs\<close> is
  the memory after writing \<open>bs\<close> there. Addresses wrap around at \<open>2 ^ 64\<close>, as pointers do.
\<close>

definition load_bytes :: "memory \<Rightarrow> uint64 \<Rightarrow> nat \<Rightarrow> uint8 list" where
  "load_bytes m a n = map (\<lambda>i. m (a + of_nat i)) [0..<n]"

definition store_bytes :: "memory \<Rightarrow> uint64 \<Rightarrow> uint8 list \<Rightarrow> memory" where
  "store_bytes m a bs = (\<lambda>x. if unat (x - a) < length bs then bs ! unat (x - a) else m x)"

definition load64 :: "memory \<Rightarrow> uint64 \<Rightarrow> uint64" where
  "load64 m a = le_word (load_bytes m a 8)"

definition store64 :: "memory \<Rightarrow> uint64 \<Rightarrow> uint64 \<Rightarrow> memory" where
  "store64 m a v = store_bytes m a (le_bytes 8 v)"

text \<open>The run of \<open>n\<close> addresses from \<open>a\<close> on.\<close>

definition run_at :: "uint64 \<Rightarrow> nat \<Rightarrow> uint64 set" where
  "run_at a n = {x. unat (x - a) < n}"

lemma unat64_less: "unat (a :: uint64) < 2 ^ 64"
  using unsigned_less [where 'a = nat, of a] by simp

lemma unat_eq_of_nat64: "unat (a :: uint64) = n \<Longrightarrow> a = of_nat n"
  by auto

lemma unat_of_nat64:"i < 2 ^ 64 \<Longrightarrow> unat (of_nat i :: uint64) = i"
  by (simp add: unat_of_nat take_bit_eq_mod)

lemma length_load_bytes [simp]: "length (load_bytes m a n) = n"
  by (simp add: load_bytes_def)

lemma nth_load_bytes [simp]: "i < n \<Longrightarrow> load_bytes m a n ! i = m (a + of_nat i)"
  by (simp add: load_bytes_def)

lemma store_bytes_Nil [simp]: "store_bytes m a [] = m"
  by (simp add: store_bytes_def)

lemma run_at_0 [simp]: "run_at a 0 = {}"
  by (simp add: run_at_def)

lemma run_at_self [simp]: "a \<in> run_at a n \<longleftrightarrow> 0 < n"
  by (simp add: run_at_def)

lemma run_at_offset: "i < n \<Longrightarrow> n \<le> 2 ^ 64 \<Longrightarrow> a + of_nat i \<in> run_at a n"
  by (simp add: run_at_def unat_of_nat64)

lemma run_atE:
  assumes "x \<in> run_at a n"
  obtains i where "i < n" "x = a + of_nat i"
proof -
  have "x = a + of_nat (unat (x - a))" by simp
  with assms show ?thesis using that unfolding run_at_def by blast
qed

lemma store_bytes_out [mem_simps]: "x \<notin> run_at a (length bs) \<Longrightarrow> store_bytes m a bs x = m x"
  by (simp add: store_bytes_def run_at_def)

lemma load_bytes_cong:
  "(\<And>x. x \<in> run_at a n \<Longrightarrow> m x = m' x) \<Longrightarrow> n \<le> 2 ^ 64 \<Longrightarrow> load_bytes m a n = load_bytes m' a n"
  using run_at_offset by (auto simp: load_bytes_def)

lemma load_store_bytes_same [mem_simps]:
  "length bs \<le> 2 ^ 64 \<Longrightarrow> load_bytes (store_bytes m a bs) a (length bs) = bs"
  by (rule nth_equalityI) (auto simp: store_bytes_def unat_of_nat64)

lemma load_store_bytes_disjoint [mem_simps]:
  "run_at b n \<inter> run_at a (length bs) = {} \<Longrightarrow> n \<le> 2 ^ 64 \<Longrightarrow>
   load_bytes (store_bytes m a bs) b n = load_bytes m b n"
  by (rule load_bytes_cong) (auto intro: store_bytes_out)

lemma load64_store64_same [mem_simps]: "load64 (store64 m a v) a = v"
  using load_store_bytes_same [of "le_bytes 8 v" m a] by (simp add: load64_def store64_def)

lemma load64_store64_disjoint [mem_simps]:
  "run_at b 8 \<inter> run_at a 8 = {} \<Longrightarrow> load64 (store64 m a v) b = load64 m b"
  by (simp add: load64_def store64_def load_store_bytes_disjoint)

lemma load64_cong: "(\<And>x. x \<in> run_at a 8 \<Longrightarrow> m x = m' x) \<Longrightarrow> load64 m a = load64 m' a"
  unfolding load64_def by (simp cong: load_bytes_cong)

lemma store64_out [mem_simps]: "x \<notin> run_at a 8 \<Longrightarrow> store64 m a v x = m x"
  by (simp add: store64_def store_bytes_out)

lemma load64_store_bytes_disjoint [mem_simps]:
  "run_at b 8 \<inter> run_at a (length bs) = {} \<Longrightarrow> load64 (store_bytes m a bs) b = load64 m b"
  by (simp add: load64_def load_store_bytes_disjoint)

end
