(* ===== verification/Riscv.thy ===== *)
theory Riscv
  imports Prelude
begin

section \<open>Machine and kernel constants\<close>

text \<open>
  The constants of \<^verbatim>\<open>riscv/kernel/param.h\<close> and \<^verbatim>\<open>memlayout.h\<close> and the paging macros of
  \<^verbatim>\<open>riscv.h\<close>, on 64-bit words, so that rounding up past the top of the address space
  wraps as it does in C. The lemmas say what the macros compute in arithmetic: rounding
  to a page, splitting a virtual address into three 9-bit indices, and packing a physical
  address and flag bits into a page-table entry and back.
\<close>

subsection \<open>param.h\<close>

definition NPROC :: nat where [simp]: "NPROC = 64"
definition NCPU :: nat where [simp]: "NCPU = 8"
definition NOFILE :: nat where [simp]: "NOFILE = 16"
definition NFILE :: nat where [simp]: "NFILE = 100"
definition NINODE :: nat where [simp]: "NINODE = 50"
definition NDEV :: nat where [simp]: "NDEV = 10"
definition ROOTDEV :: uint32 where [simp]: "ROOTDEV = 1"
definition MAXARG :: nat where [simp]: "MAXARG = 32"
definition MAXOPBLOCKS :: nat where [simp]: "MAXOPBLOCKS = 10"
definition LOGBLOCKS :: nat where [simp]: "LOGBLOCKS = MAXOPBLOCKS * 3"
definition NBUF :: nat where [simp]: "NBUF = MAXOPBLOCKS * 3"
definition FSSIZE :: nat where [simp]: "FSSIZE = 2000"
definition MAXPATH :: nat where [simp]: "MAXPATH = 128"
definition USERSTACK :: nat where [simp]: "USERSTACK = 1"

subsection \<open>riscv.h: pages, page-table entries, virtual addresses\<close>

definition PGSIZE :: uint64 where [simp]: "PGSIZE = 4096"
definition PGSHIFT :: nat where [simp]: "PGSHIFT = 12"

definition PGROUNDUP :: "uint64 \<Rightarrow> uint64" where
  "PGROUNDUP sz = (sz + PGSIZE - 1) AND NOT (PGSIZE - 1)"

definition PGROUNDDOWN :: "uint64 \<Rightarrow> uint64" where
  "PGROUNDDOWN a = a AND NOT (PGSIZE - 1)"

definition PTE_V :: uint64 where [simp]: "PTE_V = 1"
definition PTE_R :: uint64 where [simp]: "PTE_R = 2"
definition PTE_W :: uint64 where [simp]: "PTE_W = 4"
definition PTE_X :: uint64 where [simp]: "PTE_X = 8"
definition PTE_U :: uint64 where [simp]: "PTE_U = 16"

definition PA2PTE :: "uint64 \<Rightarrow> uint64" where
  "PA2PTE pa = push_bit 10 (drop_bit 12 pa)"

definition PTE2PA :: "uint64 \<Rightarrow> uint64" where
  "PTE2PA pte = push_bit 12 (drop_bit 10 pte)"

definition PTE_FLAGS :: "uint64 \<Rightarrow> uint64" where
  "PTE_FLAGS pte = pte AND 0x3FF"

definition PXMASK :: uint64 where [simp]: "PXMASK = 0x1FF"

definition PXSHIFT :: "nat \<Rightarrow> nat" where
  "PXSHIFT level = PGSHIFT + 9 * level"

definition PX :: "nat \<Rightarrow> uint64 \<Rightarrow> uint64" where
  "PX level va = drop_bit (PXSHIFT level) va AND PXMASK"

definition MAXVA :: uint64 where
  "MAXVA = push_bit (9 + 9 + 9 + 12 - 1) 1"

subsection \<open>memlayout.h\<close>

definition KERNBASE :: uint64 where [simp]: "KERNBASE = 0x80000000"
definition PHYSTOP :: uint64 where "PHYSTOP = KERNBASE + 128 * 1024 * 1024"
definition TRAMPOLINE :: uint64 where "TRAMPOLINE = MAXVA - PGSIZE"
definition TRAPFRAME :: uint64 where "TRAPFRAME = TRAMPOLINE - PGSIZE"
definition KSTACK :: "nat \<Rightarrow> uint64" where
  "KSTACK p = TRAMPOLINE - (of_nat p + 1) * 2 * PGSIZE"

subsection \<open>Rounding to pages\<close>

lemma MAXVA_val [simp]: "MAXVA = 0x4000000000"
  by (simp add: MAXVA_def)

lemma PHYSTOP_val [simp]: "PHYSTOP = 0x88000000"
  by (simp add: PHYSTOP_def)

lemma TRAMPOLINE_val [simp]: "TRAMPOLINE = 0x3FFFFFF000"
  by (simp add: TRAMPOLINE_def)

lemma TRAPFRAME_val [simp]: "TRAPFRAME = 0x3FFFFFE000"
  by (simp add: TRAPFRAME_def)

lemma page_mask_eq: "a AND - 4096 = push_bit 12 (drop_bit 12 (a :: uint64))"
proof -
  have eq: "- 4096 = (NOT (mask 12) :: uint64)" by (simp add: mask_eq_exp_minus_1)
  show ?thesis unfolding eq by (rule bit_word_eqI) (auto simp: bit_simps)
qed

lemma unat_page_of: "unat (push_bit 12 (drop_bit 12 (a :: uint64))) = unat a div 4096 * 4096"
proof -
  have q: "unat (drop_bit 12 a) = unat a div 4096"
    by (simp only: unat_drop_bit_eq) (simp add: drop_bit_eq_div)
  have "unat a div 4096 * 4096 < 2 ^ 64"
    using unat64_less [of a] by simp
  then have "unat (drop_bit 12 a * 4096) = unat a div 4096 * 4096"
    by (subst unat_mult_lem [THEN iffD1]) (auto simp: q)
  then show ?thesis by (simp add: push_bit_eq_mult mult.commute)
qed

lemma unat_PGROUNDDOWN: "unat (PGROUNDDOWN a) = unat a div 4096 * 4096"
  by (simp add: PGROUNDDOWN_def page_mask_eq unat_page_of)

lemma unat_PGROUNDUP:
  assumes "unat sz + 4095 < 2 ^ 64"
  shows "unat (PGROUNDUP sz) = (unat sz + 4095) div 4096 * 4096"
proof -
  have "unat (sz + 4095) = unat sz + 4095"
    using assms by (subst unat_add_lem [THEN iffD1]) auto
  then show ?thesis by (simp add: PGROUNDUP_def page_mask_eq unat_page_of add.commute)
qed

lemma PGROUNDDOWN_aligned [simp]: "unat (PGROUNDDOWN a) mod 4096 = 0"
  by (simp add: unat_PGROUNDDOWN)

lemma PGROUNDUP_aligned [simp]: "unat (PGROUNDUP a) mod 4096 = 0"
  by (simp add: PGROUNDUP_def page_mask_eq unat_page_of add.commute)

lemma word_mod_PGSIZE: "(a mod PGSIZE \<noteq> 0) \<longleftrightarrow> unat a mod 4096 \<noteq> 0"
  by (simp add: unat_mod_distrib flip: unat_eq_zero)

lemma PGROUNDDOWN_le: "unat (PGROUNDDOWN a) \<le> unat a"
  by (simp add: unat_PGROUNDDOWN)

lemma PGROUNDDOWN_offset: "unat (a - PGROUNDDOWN a) = unat a mod 4096"
proof -
  have "unat (a - PGROUNDDOWN a) = unat a - unat (PGROUNDDOWN a)"
    by (rule unat_sub) (simp add: word_le_nat_alt PGROUNDDOWN_le)
  then show ?thesis by (simp add: unat_PGROUNDDOWN minus_div_mult_eq_mod)
qed

subsection \<open>Page-table entries\<close>

definition page_aligned :: "uint64 \<Rightarrow> bool" where
  "page_aligned a \<longleftrightarrow> unat a mod 4096 = 0"

lemma page_aligned_0 [simp]: "page_aligned 0"
  by (simp add: page_aligned_def)

lemma page_aligned_PGROUNDUP [simp]: "page_aligned (PGROUNDUP a)"
  by (simp add: page_aligned_def)

lemma page_aligned_PGROUNDDOWN [simp]: "page_aligned (PGROUNDDOWN a)"
  by (simp add: page_aligned_def)

lemma unat_take_bit64: "unat (take_bit n (a :: uint64)) = unat a mod 2 ^ n"
  by (simp add: unsigned_take_bit_eq flip: take_bit_eq_mod)

lemma page_aligned_bits: "page_aligned a \<longleftrightarrow> take_bit 12 a = 0"
  by (simp add: page_aligned_def unat_take_bit64 flip: unat_eq_zero)

lemma page_aligned_not_bit: "page_aligned a \<Longrightarrow> n < 12 \<Longrightarrow> \<not> bit a n"
  by (metis bit_0_eq bit_take_bit_iff bot_apply bot_bool_def page_aligned_bits)

lemma small_take_bit: "unat (f :: uint64) < 2 ^ k \<Longrightarrow> take_bit k f = f"
  by (simp add: unat_take_bit64 word_unat_eq_iff)

lemma small_not_bit: "unat (f :: uint64) < 2 ^ k \<Longrightarrow> k \<le> n \<Longrightarrow> \<not> bit f n"
  by (metis bit_take_bit_iff not_le small_take_bit)

lemma PTE2PA_PA2PTE_or:
  assumes "page_aligned pa" "unat f < 1024"
  shows "PTE2PA (PA2PTE pa OR f) = pa"
proof (rule bit_word_eqI)
  fix n
  assume "n < LENGTH(64)"
  then show "bit (PTE2PA (PA2PTE pa OR f)) n = bit pa n"
    using page_aligned_not_bit [OF assms(1)] small_not_bit [of f 10] assms(2)
    by (cases "n < 12") (auto simp: PTE2PA_def PA2PTE_def bit_simps)
qed

lemma PTE_FLAGS_take: "PTE_FLAGS pte = take_bit 10 pte"
  by (simp add: PTE_FLAGS_def take_bit_eq_mask mask_eq_exp_minus_1)

lemma PTE_FLAGS_PA2PTE_or:
  assumes "unat f < 1024"
  shows "PTE_FLAGS (PA2PTE pa OR f) = f"
  using small_take_bit [of f 10] small_not_bit [of f 10] assms
  by (intro bit_word_eqI) (auto simp: PTE_FLAGS_take PA2PTE_def bit_simps)

lemma page_aligned_PTE2PA [simp]: "page_aligned (PTE2PA pte)"
  unfolding page_aligned_bits PTE2PA_def
  by (rule bit_word_eqI) (auto simp: bit_simps)

lemma PTE2PA_0 [simp]: "PTE2PA 0 = 0"
  by (simp add: PTE2PA_def)

subsection \<open>The three indices of a virtual address\<close>

lemma PX_take: "PX l va = take_bit 9 (drop_bit (PXSHIFT l) va)"
  by (simp add: PX_def take_bit_eq_mask mask_eq_exp_minus_1)

lemma unat_PX: "unat (PX l va) = unat va div 2 ^ (12 + 9 * l) mod 512"
proof -
  have "unat (drop_bit k va) = unat va div 2 ^ k" for k
    by (simp only: unat_drop_bit_eq) (simp add: drop_bit_eq_div)
  then show ?thesis by (simp only: PX_take unat_take_bit64) (simp add: PXSHIFT_def)
qed

lemma unat_PX_less: "unat (PX l va) < 512"
  by (simp add: unat_PX)

text \<open>The three indices determine the page of a 39-bit address.\<close>

definition SV39 :: uint64 where
  [simp]: "SV39 = 0x8000000000"

lemma MAXVA_SV39: "va < MAXVA \<Longrightarrow> va < SV39"
  by (simp add: word_less_nat_alt)

lemma PX_inj_page:
  assumes "va < SV39" "va' < SV39"
    and "PX 2 va = PX 2 va'" "PX 1 va = PX 1 va'" "PX 0 va = PX 0 va'"
  shows "PGROUNDDOWN va = PGROUNDDOWN va'"
proof -
  let ?a = "unat va div 4096" and ?b = "unat va' div 4096"
  have lt: "unat va < 2 ^ 39" "unat va' < 2 ^ 39"
    using assms(1,2) by (simp_all add: word_less_nat_alt)
  have p0: "?a mod 512 = ?b mod 512"
    using assms(5) unat_PX [of 0 va] unat_PX [of 0 va'] by simp
  have p1: "?a div 512 mod 512 = ?b div 512 mod 512"
    using assms(4) unat_PX [of 1 va] unat_PX [of 1 va'] by (simp add: div_mult2_eq [symmetric])
  have p2: "?a div 512 div 512 mod 512 = ?b div 512 div 512 mod 512"
    using assms(3) unat_PX [of 2 va] unat_PX [of 2 va'] by (simp add: div_mult2_eq [symmetric])
  have "?a div 512 div 512 < 512" "?b div 512 div 512 < 512"
    using lt by (simp_all add: div_mult2_eq [symmetric] less_mult_imp_div_less)
  with p2 have "?a div 512 div 512 = ?b div 512 div 512" by simp
  with p1 have "?a div 512 = ?b div 512" by (metis div_mult_mod_eq)
  with p0 have "?a = ?b" by (metis div_mult_mod_eq)
  then have "unat (PGROUNDDOWN va) = unat (PGROUNDDOWN va')" by (simp add: unat_PGROUNDDOWN)
  then show ?thesis by (simp add: word_unat_eq_iff)
qed

lemma PX_cong_page: "PGROUNDDOWN va = PGROUNDDOWN va' \<Longrightarrow> PX l va = PX l va'"
proof -
  assume "PGROUNDDOWN va = PGROUNDDOWN va'"
  then have "unat va div 4096 * 4096 = unat va' div 4096 * 4096"
    by (metis unat_PGROUNDDOWN)
  then have "unat va div 4096 div 2 ^ (9 * l) = unat va' div 4096 div 2 ^ (9 * l)" by simp
  then have "unat va div (4096 * 2 ^ (9 * l)) = unat va' div (4096 * 2 ^ (9 * l))"
    by (simp add: div_mult2_eq)
  then have "unat (PX l va) = unat (PX l va')"
    by (simp add: unat_PX power_add)
  then show "PX l va = PX l va'" by (simp add: word_unat_eq_iff)
qed

lemma PX_PGROUNDDOWN [simp]: "PX l (PGROUNDDOWN va) = PX l va"
  by (rule PX_cong_page) (simp add: word_unat_eq_iff unat_PGROUNDDOWN)

end
