(* ===== verification/KString.thy ===== *)
theory KString
  imports Prelude
begin

section \<open>Memory and string routines (string.c)\<close>

text \<open>
  \<^verbatim>\<open>riscv/kernel/string.c\<close>. The memory routines work on the byte memory, so that overlapping
  source and destination regions are real. The string routines read and write through an
  array of bytes (a function from the offset to the byte), which is either a run of memory
  or the content of a \<^verbatim>\<open>char\<close> array inside a structure.
\<close>

subsection \<open>Memory routines\<close>

function memset_loop :: "memory \<Rightarrow> uint64 \<Rightarrow> uint8 \<Rightarrow> nat \<Rightarrow> nat \<Rightarrow> memory" where
  "memset_loop m cdst c i n =
     (if i < n then memset_loop (m(cdst + of_nat i := c)) cdst c (Suc i) n else m)"
  by pat_completeness auto
termination
  by (relation "measure (\<lambda>(m, cdst, c, i, n). n - i)") auto

definition memset :: "memory \<Rightarrow> uint64 \<Rightarrow> uint32 \<Rightarrow> uint32 \<Rightarrow> memory" where
  "memset m dst c n = memset_loop m dst (ucast c) 0 (unat n)"

fun memcmp_loop :: "memory \<Rightarrow> uint64 \<Rightarrow> uint64 \<Rightarrow> nat \<Rightarrow> int" where
  "memcmp_loop m s1 s2 0 = 0"
| "memcmp_loop m s1 s2 (Suc n) =
     (if m s1 \<noteq> m s2 then uint (m s1) - uint (m s2)
      else memcmp_loop m (s1 + 1) (s2 + 1) n)"

definition memcmp :: "memory \<Rightarrow> uint64 \<Rightarrow> uint64 \<Rightarrow> uint32 \<Rightarrow> int" where
  "memcmp m v1 v2 n = memcmp_loop m v1 v2 (unat n)"

fun copy_forward :: "memory \<Rightarrow> uint64 \<Rightarrow> uint64 \<Rightarrow> nat \<Rightarrow> memory" where
  "copy_forward m d s 0 = m"
| "copy_forward m d s (Suc n) = copy_forward (m(d := m s)) (d + 1) (s + 1) n"

fun copy_backward :: "memory \<Rightarrow> uint64 \<Rightarrow> uint64 \<Rightarrow> nat \<Rightarrow> memory" where
  "copy_backward m d s 0 = m"
| "copy_backward m d s (Suc n) = copy_backward (m(d - 1 := m (s - 1))) (d - 1) (s - 1) n"

definition memmove :: "memory \<Rightarrow> uint64 \<Rightarrow> uint64 \<Rightarrow> uint32 \<Rightarrow> memory" where
  "memmove m dst src n =
     (if n = 0 then m
      else if src < dst \<and> dst < src + ucast n
      then copy_backward m (dst + ucast n) (src + ucast n) (unat n)
      else copy_forward m dst src (unat n))"

definition memcpy :: "memory \<Rightarrow> uint64 \<Rightarrow> uint64 \<Rightarrow> uint32 \<Rightarrow> memory" where
  "memcpy m dst src n = memmove m dst src n"

subsection \<open>String routines\<close>

type_synonym bytes = "nat \<Rightarrow> uint8"

fun strncmp_from :: "bytes \<Rightarrow> bytes \<Rightarrow> nat \<Rightarrow> nat \<Rightarrow> int" where
  "strncmp_from p q i 0 = 0"
| "strncmp_from p q i (Suc n) =
     (if p i \<noteq> 0 \<and> p i = q i then strncmp_from p q (Suc i) n
      else uint (p i) - uint (q i))"

definition strncmp :: "bytes \<Rightarrow> bytes \<Rightarrow> nat \<Rightarrow> int" where
  "strncmp p q n = strncmp_from p q 0 n"

fun strncpy_pad :: "bytes \<Rightarrow> nat \<Rightarrow> nat \<Rightarrow> bytes" where
  "strncpy_pad s i 0 = s"
| "strncpy_pad s i (Suc n) = strncpy_pad (s(i := 0)) (Suc i) n"

fun strncpy_from :: "bytes \<Rightarrow> bytes \<Rightarrow> nat \<Rightarrow> nat \<Rightarrow> bytes" where
  "strncpy_from s t i 0 = s"
| "strncpy_from s t i (Suc n) =
     (if t i \<noteq> 0 then strncpy_from (s(i := t i)) t (Suc i) n
      else strncpy_pad (s(i := t i)) (Suc i) n)"

definition strncpy :: "bytes \<Rightarrow> bytes \<Rightarrow> int \<Rightarrow> bytes" where
  "strncpy s t n = strncpy_from s t 0 (nat n)"

text \<open>
  In \<^verbatim>\<open>safestrcpy\<close> the counter is decremented before it is tested, and the pointer has
  already moved past a copied NUL when the final \<^verbatim>\<open>*s = 0\<close> runs.
\<close>

fun safestrcpy_from :: "bytes \<Rightarrow> bytes \<Rightarrow> nat \<Rightarrow> nat \<Rightarrow> bytes" where
  "safestrcpy_from s t i 0 = s(i := 0)"
| "safestrcpy_from s t i (Suc n) =
     (if t i \<noteq> 0 then safestrcpy_from (s(i := t i)) t (Suc i) n
      else (s(i := t i))(Suc i := 0))"

definition safestrcpy :: "bytes \<Rightarrow> bytes \<Rightarrow> int \<Rightarrow> bytes" where
  "safestrcpy s t n = (if n \<le> 0 then s else safestrcpy_from s t 0 (nat (n - 1)))"

partial_function (option) strlen_from :: "bytes \<Rightarrow> nat \<Rightarrow> nat option" where
  "strlen_from s n = (if s n \<noteq> 0 then strlen_from s (Suc n) else Some n)"

definition strlen :: "bytes \<Rightarrow> nat option" where
  "strlen s = strlen_from s 0"

subsection \<open>memset fills, memmove copies\<close>

lemma store_bytes_Cons:
  assumes "length bs < 2 ^ 64"
  shows "store_bytes m a (b # bs) = store_bytes (m(a := b)) (a + 1) bs"
proof
  fix x
  show "store_bytes m a (b # bs) x = store_bytes (m(a := b)) (a + 1) bs x"
  proof (cases "x = a")
    case True
    have "unat (a - (a + 1)) = 2 ^ 64 - 1" by (simp add: unat_word_ariths(4) unsigned_minus_1_eq_mask mask_eq_exp_minus_1)
    with True assms show ?thesis by (simp add: store_bytes_def)
  next
    case False
    then have pos: "0 < unat (x - a)" by (simp add: unat_gt_0)
    have "x - (a + 1) = (x - a) - 1" by simp
    then have u: "unat (x - (a + 1)) = unat (x - a) - 1"
      using pos by (metis False right_minus_eq unat_minus_one)
    with pos False show ?thesis by (simp add: store_bytes_def nth_Cons' less_diff_conv2 Suc_le_eq)
  qed
qed

lemma store_bytes_snoc:
  assumes "length bs < 2 ^ 64"
  shows "store_bytes m a (bs @ [b]) = store_bytes (m(a + of_nat (length bs) := b)) a bs"
proof
  fix x
  show "store_bytes m a (bs @ [b]) x = store_bytes (m(a + of_nat (length bs) := b)) a bs x"
  proof (cases "x = a + of_nat (length bs)")
    case True
    with assms show ?thesis by (simp add: store_bytes_def unat_of_nat64)
  next
    case False
    have "unat (x - a) \<noteq> length bs"
    proof
      assume "unat (x - a) = length bs"
      then have "x - a = of_nat (length bs)" by (rule unat_eq_of_nat64)
      then have "x = of_nat (length bs) + a" by (simp add: diff_eq_eq)
      with False show False by (simp add: add.commute)
    qed
    with False show ?thesis by (auto simp: store_bytes_def nth_append less_Suc_eq)
  qed
qed

declare memset_loop.simps [simp del]

lemma memset_loop_store:
  assumes "n \<le> 2 ^ 64" "i \<le> n"
  shows "memset_loop m a c i n = store_bytes m (a + of_nat i) (replicate (n - i) c)"
  using assms
proof (induction "n - i" arbitrary: m i)
  case 0
  then show ?case by (subst memset_loop.simps) simp
next
  case (Suc k)
  then have lt: "i < n" and k: "k = n - Suc i" by auto
  have r: "replicate (n - i) c = c # replicate (n - Suc i) c"
    using lt by (metis Suc_diff_Suc replicate_Suc)
  have l: "length (replicate (n - Suc i) c) < 2 ^ 64"
    using Suc.prems lt by simp
  have ih: "memset_loop (m(a + of_nat i := c)) a c (Suc i) n =
      store_bytes (m(a + of_nat i := c)) (a + of_nat (Suc i)) (replicate (n - Suc i) c)"
    by (rule Suc.hyps(1) [OF k]) (use Suc.prems lt in auto)
  have next_addr: "a + of_nat (Suc i) = a + of_nat i + 1" by simp
  show ?case
    unfolding memset_loop.simps [of m a c i n] r store_bytes_Cons [OF l] ih next_addr
    using lt by simp
qed

lemma unat32_less: "unat (n :: uint32) < 2 ^ 32"
  using unsigned_less [where 'a = nat, of n] by simp

lemma memset_store: "memset m dst c n = store_bytes m dst (replicate (unat n) (ucast c))"
  using memset_loop_store [of "unat n" 0 m dst "ucast c"] unat32_less [of n]
  by (simp add: memset_def)

lemma copy_forward_store:
  assumes "n \<le> 2 ^ 64"
    and "\<And>i j. i < j \<Longrightarrow> j < n \<Longrightarrow> d + of_nat i \<noteq> s + of_nat j"
  shows "copy_forward m d s n = store_bytes m d (load_bytes m s n)"
  using assms
proof (induction n arbitrary: m d s)
  case 0
  then show ?case by (simp add: load_bytes_def)
next
  case (Suc n)
  have ne: "s + 1 + of_nat i \<noteq> d" if "i < n" for i
    using Suc.prems(2) [of 0 "Suc i"] that by (auto simp: add.assoc)
  have ne': "d + 1 + of_nat i \<noteq> s + 1 + of_nat j" if "i < j" "j < n" for i j
    using Suc.prems(2) [of "Suc i" "Suc j"] that by (simp add: add.assoc)
  have same: "load_bytes (m(d := m s)) (s + 1) n = load_bytes m (s + 1) n"
    unfolding load_bytes_def by (rule map_cong) (simp_all add: ne)
  have cons: "load_bytes m s (Suc n) = m s # load_bytes m (s + 1) n"
    by (rule nth_equalityI) (auto simp: nth_Cons add.assoc split: nat.split)
  have "copy_forward (m(d := m s)) (d + 1) (s + 1) n =
      store_bytes (m(d := m s)) (d + 1) (load_bytes (m(d := m s)) (s + 1) n)"
    by (rule Suc.IH) (use Suc.prems(1) ne' in auto)
  then show ?case
    using Suc.prems(1) by (simp add: cons same store_bytes_Cons)
qed

lemma copy_backward_store:
  assumes "n \<le> 2 ^ 64"
    and "\<And>i j. i < j \<Longrightarrow> j < n \<Longrightarrow> d + of_nat j \<noteq> s + of_nat i"
  shows "copy_backward m (d + of_nat n) (s + of_nat n) n = store_bytes m d (load_bytes m s n)"
  using assms
proof (induction n arbitrary: m)
  case 0
  then show ?case by (simp add: load_bytes_def)
next
  case (Suc n)
  let ?m = "m(d + of_nat n := m (s + of_nat n))"
  have ne: "s + of_nat i \<noteq> d + of_nat n" if "i < n" for i
    using Suc.prems(2) [of i n] that by auto
  have same: "load_bytes ?m s n = load_bytes m s n"
    unfolding load_bytes_def by (rule map_cong) (simp_all add: ne)
  have snoc: "load_bytes m s (Suc n) = load_bytes m s n @ [m (s + of_nat n)]"
    by (simp add: load_bytes_def)
  have "copy_backward ?m (d + of_nat n) (s + of_nat n) n = store_bytes ?m d (load_bytes ?m s n)"
    by (rule Suc.IH) (use Suc.prems in auto)
  then show ?case
    using Suc.prems(1)
      store_bytes_snoc [of "load_bytes m s n" m d "m (s + of_nat n)"]
    by (simp add: snoc same)
qed

text \<open>
  The regions may overlap in either direction. What is excluded is a region that wraps
  around the end of the address space.
\<close>

lemma memmove_store:
  assumes "unat src + unat n < 2 ^ 64" "unat dst + unat n < 2 ^ 64"
  shows "memmove m dst src n = store_bytes m dst (load_bytes m src (unat n))"
proof -
  have n64: "unat (ucast n :: uint64) = unat n" 
    using unat32_less [of n] by (simp add: unsigned_ucast_eq take_bit_nat_eq_self_iff)
  have off: "unat (a + of_nat i) = unat a + i" if "unat a + unat n < 2 ^ 64" "i \<le> unat n" for a :: uint64 and i
    using that by (subst unat_add_lem [THEN iffD1]) (auto simp: unat_of_nat64)
  have end_src: "unat (src + ucast n) = unat src + unat n"
    using assms(1) by (subst unat_add_lem [THEN iffD1]) (auto simp: n64)
  have small: "unat n \<le> 2 ^ 64" using unat32_less [of n] by simp
  have nn: "(ucast n :: uint64) = of_nat (unat n)" by (rule unat_eq_of_nat64 [OF n64])
  show ?thesis
  proof (cases "src < dst \<and> dst < src + ucast n")
    case True
    then have lt: "unat src < unat dst" by (simp add: word_less_nat_alt)
    have "copy_backward m (dst + ucast n) (src + ucast n) (unat n) =
        store_bytes m dst (load_bytes m src (unat n))"
      unfolding nn
    proof (rule copy_backward_store [OF small])
      fix i j
      assume "i < j" "j < unat n"
      then have "unat (dst + of_nat j) \<noteq> unat (src + of_nat i)"
        using lt off [OF assms(2), of j] off [OF assms(1), of i] by linarith
      then show "dst + of_nat j \<noteq> src + of_nat i" by metis
    qed
    with True show ?thesis by (auto simp: memmove_def load_bytes_def)
  next
    case False
    then have ge: "unat dst \<le> unat src \<or> unat src + unat n \<le> unat dst"
      by (auto simp: word_less_nat_alt end_src)
    have "copy_forward m dst src (unat n) = store_bytes m dst (load_bytes m src (unat n))"
    proof (rule copy_forward_store [OF small])
      fix i j
      assume "i < j" "j < unat n"
      then have "unat (dst + of_nat i) \<noteq> unat (src + of_nat j)"
        using ge off [OF assms(2), of i] off [OF assms(1), of j] by linarith
      then show "dst + of_nat i \<noteq> src + of_nat j" by metis
    qed
    with False show ?thesis by (auto simp: memmove_def load_bytes_def)
  qed
qed

subsection \<open>The string in a byte array\<close>

definition cstr_from :: "bytes \<Rightarrow> nat \<Rightarrow> nat \<Rightarrow> uint8 list" where
  "cstr_from p i n = takeWhile (\<lambda>b. b \<noteq> 0) (map p [i..<i + n])"

definition cstr :: "bytes \<Rightarrow> nat \<Rightarrow> uint8 list" where
  "cstr p n = cstr_from p 0 n"

lemma cstr_from_0 [simp]: "cstr_from p i 0 = []"
  by (simp add: cstr_from_def)

lemma cstr_from_Suc [simp]:
  "cstr_from p i (Suc n) = (if p i = 0 then [] else p i # cstr_from p (Suc i) n)"
  by (simp add: cstr_from_def upt_conv_Cons del: upt_Suc)

lemma cstr_from_cong:
  "(\<And>k. i \<le> k \<Longrightarrow> k < i + n \<Longrightarrow> p k = q k) \<Longrightarrow> cstr_from p i n = cstr_from q i n"
  unfolding cstr_from_def by (rule arg_cong [where f = "takeWhile _"]) auto

lemma strncmp_from_eq_0: "strncmp_from p q i n = 0 \<longleftrightarrow> cstr_from p i n = cstr_from q i n"
  by (induction n arbitrary: i) (auto simp: word_uint_eq_iff)

lemma strncmp_eq_0: "strncmp p q n = 0 \<longleftrightarrow> cstr p n = cstr q n"
  by (simp add: strncmp_def cstr_def strncmp_from_eq_0)

lemma strncpy_pad_apply: "strncpy_pad s i n k = (if i \<le> k \<and> k < i + n then 0 else s k)"
  by (induction n arbitrary: s i) auto

lemma strncpy_from_outside: "k < i \<or> i + n \<le> k \<Longrightarrow> strncpy_from s t i n k = s k"
  by (induction n arbitrary: s i) (auto simp: strncpy_pad_apply)

lemma strncpy_from_cstr: "cstr_from (strncpy_from s t i n) i n = cstr_from t i n"
proof (induction n arbitrary: s i)
  case 0
  then show ?case by simp
next
  case (Suc n)
  then show ?case
    by (auto simp: strncpy_from_outside strncpy_pad_apply)
qed

lemma strncpy_from_padded:
  "i + length (cstr_from t i n) \<le> k \<Longrightarrow> k < i + n \<Longrightarrow> strncpy_from s t i n k = 0"
  by (induction n arbitrary: s i) (auto simp: strncpy_pad_apply split: if_splits)

lemma safestrcpy_from_outside: "k < i \<or> i + n < k \<Longrightarrow> safestrcpy_from s t i n k = s k"
  by (induction n arbitrary: s i) auto

lemma safestrcpy_from_nul: "\<exists>k. i \<le> k \<and> k \<le> i + n \<and> safestrcpy_from s t i n k = 0"
proof (induction n arbitrary: s i)
  case 0
  then show ?case by (intro exI [of _ i]) simp
next
  case (Suc n)
  obtain k where "Suc i \<le> k" "k \<le> Suc i + n"
      "safestrcpy_from (s(i := t i)) t (Suc i) n k = 0"
    using Suc.IH [of "Suc i" "s(i := t i)"] by blast
  then have "t i \<noteq> 0 \<Longrightarrow> ?case" by (intro exI [of _ k]) simp
  moreover have "t i = 0 \<Longrightarrow> ?case" by (intro exI [of _ "Suc i"]) simp
  ultimately show ?case by blast
qed

lemma safestrcpy_from_cstr: "cstr_from (safestrcpy_from s t i n) i (Suc n) = cstr_from t i n"
proof (induction n arbitrary: s i)
  case 0
  then show ?case by simp
next
  case (Suc n)
  then show ?case
    by (cases "t i = 0") (simp_all add: safestrcpy_from_outside)
qed

lemma strlen_from_found:
  "(\<And>i. j \<le> i \<Longrightarrow> i < k \<Longrightarrow> s i \<noteq> 0) \<Longrightarrow> s k = 0 \<Longrightarrow> j \<le> k \<Longrightarrow> strlen_from s j = Some k"
proof (induction "k - j" arbitrary: j)
  case 0
  then show ?case by (subst strlen_from.simps) simp
next
  case (Suc d)
  then show ?case by (subst strlen_from.simps) simp
qed

subsection \<open>Properties\<close>

text \<open>
  C14: \<^verbatim>\<open>memmove\<close> copies a region onto another, whatever their overlap: afterwards the
  destination holds the bytes the source held before the call, and no other byte changed.
\<close>

theorem memmove_correct:
  assumes "unat src + unat n < 2 ^ 64" "unat dst + unat n < 2 ^ 64"
  shows "load_bytes (memmove m dst src n) dst (unat n) = load_bytes m src (unat n) \<and>
         (\<forall>x. x \<notin> run_at dst (unat n) \<longrightarrow> memmove m dst src n x = m x)"
proof -
  have "length (load_bytes m src (unat n)) \<le> 2 ^ 64" using unat32_less [of n] by simp
  from load_store_bytes_same [OF this, of m dst] show ?thesis
    unfolding memmove_store [OF assms] by (simp add: store_bytes_out)
qed

text \<open>Five bytes moved up by two within one buffer, a move that overlaps itself.\<close>

theorem memmove_correct_witness:
  "unat (0x1000 :: uint64) + unat (5 :: uint32) < 2 ^ 64 \<and>
   unat (0x1002 :: uint64) + unat (5 :: uint32) < 2 ^ 64 \<and>
   load_bytes (memmove (\<lambda>a. ucast a) 0x1002 0x1000 5) 0x1002 5 = [0, 1, 2, 3, 4] \<and>
   memmove (\<lambda>a. ucast a) 0x1002 0x1000 5 0x1001 = 1"
proof -
  have h: "unat (0x1000 :: uint64) + unat (5 :: uint32) < 2 ^ 64"
    "unat (0x1002 :: uint64) + unat (5 :: uint32) < 2 ^ 64"
    by simp_all
  have l: "load_bytes (\<lambda>a. ucast a) 0x1000 5 = [0, 1, 2, 3, 4]"
    by (simp add: load_bytes_def upt_rec)
  have o: "(0x1001 :: uint64) \<notin> run_at 0x1002 5"
    by (simp add: run_at_def unsigned_minus_1_eq_mask mask_eq_exp_minus_1)
  show ?thesis
    using h l o memmove_correct [OF h, of "\<lambda>a. ucast a"] by simp
qed

text \<open>
  \<^verbatim>\<open>safestrcpy\<close> into an array of \<open>n > 0\<close> bytes leaves a terminated string in the array,
  the source's string cut off at \<open>n - 1\<close> characters, and writes nothing past the array.
\<close>

theorem safestrcpy_correct:
  assumes "0 < n"
  shows "cstr (safestrcpy s t n) (nat n) = cstr t (nat n - 1) \<and>
         (\<exists>k < nat n. safestrcpy s t n k = 0) \<and>
         (\<forall>k \<ge> nat n. safestrcpy s t n k = s k)"
proof -
  obtain d where d: "nat n = Suc d" using assms by (metis gr0_implies_Suc zero_less_nat_eq)
  then have e: "safestrcpy s t n = safestrcpy_from s t 0 d"
    using assms by (simp add: safestrcpy_def nat_diff_distrib)
  from safestrcpy_from_nul [of 0 d s t]
  have "\<exists>k < Suc d. safestrcpy_from s t 0 d k = 0" by (auto simp: less_Suc_eq_le)
  then show ?thesis
    using safestrcpy_from_cstr [of s t 0 d] unfolding e d cstr_def
    by (auto simp: safestrcpy_from_outside)
qed

text \<open>\<^verbatim>\<open>"abc"\<close> into an array of three bytes: two characters fit.\<close>

theorem safestrcpy_correct_witness:
  "(0::int) < 3 \<and>
   cstr (safestrcpy (\<lambda>_. 7) (\<lambda>i. if i < 3 then 97 + of_nat i else 0) 3) 3 = [97, 98]"
proof -
  have "cstr (\<lambda>i. if i < 3 then 97 + of_nat i else 0) 2 = [97, 98]"
    by (simp add: cstr_def cstr_from_def upt_rec)
  then show ?thesis
    using safestrcpy_correct [of 3 "\<lambda>_. 7" "\<lambda>i. if i < 3 then 97 + of_nat i else 0"] by simp
qed

end
