(* ===== verification/Spinlock.thy ===== *)
theory Spinlock
  imports Prelude
begin

section \<open>Spin locks (spinlock.c)\<close>

text \<open>
  \<^verbatim>\<open>riscv/kernel/spinlock.c\<close>, at two levels.

  The detailed level is the machine with all its harts: the lock words, the per-CPU nesting
  depth \<^verbatim>\<open>noff\<close> and saved flag \<^verbatim>\<open>intena\<close>, the interrupt-enable bit of each hart, and a
  program counter per hart inside \<^verbatim>\<open>acquire\<close> and \<^verbatim>\<open>release\<close>. Its steps are the atomic
  accesses of the code, interleaved in any order (\<open>smp_step\<close>).

  The sequential level is the view of the thread that runs the kernel's code: the set of
  locks it holds (\<open>held\<close>). \<open>acquire\<close> and \<open>release\<close> on this view are what the other
  theories use; taking a lock that is already held and releasing one that is not are
  panics, as in the code. The last section relates the two levels.
\<close>

subsection \<open>The detailed level\<close>

record spinlock =
  locked :: uint32
  cpu :: "nat option"

record cpu_state =
  noff :: int
  intena :: bool

record smp =
  locks :: "lock \<Rightarrow> spinlock"
  cpus :: "nat \<Rightarrow> cpu_state"
  sie :: "nat \<Rightarrow> bool"

definition initlock :: "lock \<Rightarrow> 'a smp_scheme \<Rightarrow> 'a smp_scheme" where
  "initlock lk s = s\<lparr>locks := (locks s)(lk := \<lparr>locked = 0, cpu = None\<rparr>)\<rparr>"

definition holding :: "nat \<Rightarrow> lock \<Rightarrow> 'a smp_scheme \<Rightarrow> bool" where
  "holding h lk s \<longleftrightarrow> locked (locks s lk) \<noteq> 0 \<and> cpu (locks s lk) = Some h"

definition push_off :: "nat \<Rightarrow> 'a smp_scheme \<Rightarrow> 'a smp_scheme" where
  "push_off h s =
     (let old = sie s h;
          s = s\<lparr>sie := (sie s)(h := False)\<rparr>;
          c = cpus s h;
          c = (if noff c = 0 then c\<lparr>intena := old\<rparr> else c);
          c = c\<lparr>noff := noff c + 1\<rparr>
      in s\<lparr>cpus := (cpus s)(h := c)\<rparr>)"

definition pop_off :: "nat \<Rightarrow> 'a smp_scheme \<Rightarrow> ('a smp_scheme, unit) outcome" where
  "pop_off h s =
     (let c = cpus s h in
      if sie s h then Panic ''pop_off - interruptible''
      else if noff c < 1 then Panic ''pop_off''
      else
        let c = c\<lparr>noff := noff c - 1\<rparr>;
            s = s\<lparr>cpus := (cpus s)(h := c)\<rparr>
        in Ret () (if noff c = 0 \<and> intena c then s\<lparr>sie := (sie s)(h := True)\<rparr> else s))"

text \<open>
  Where a hart is inside \<^verbatim>\<open>acquire\<close> and \<^verbatim>\<open>release\<close>: outside both; spinning on the atomic
  swap; past the swap but before \<^verbatim>\<open>lk->cpu = mycpu()\<close>; in \<^verbatim>\<open>release\<close> before the store that
  frees the lock word; in \<^verbatim>\<open>release\<close> before \<^verbatim>\<open>pop_off\<close>.
\<close>

datatype lock_pc =
    Out
  | Spinning lock
  | Won lock
  | Releasing lock
  | Released

record harts = smp +
  lpc :: "nat \<Rightarrow> lock_pc"

inductive smp_step :: "harts \<Rightarrow> harts \<Rightarrow> bool" where
  acquire_begin:
    "lpc s h = Out \<Longrightarrow> t = push_off h s \<Longrightarrow> \<not> holding h lk t \<Longrightarrow>
     smp_step s (t\<lparr>lpc := (lpc t)(h := Spinning lk)\<rparr>)"
| acquire_spin:
    "lpc s h = Spinning lk \<Longrightarrow> locked (locks s lk) \<noteq> 0 \<Longrightarrow>
     smp_step s (s\<lparr>locks := (locks s)(lk := (locks s lk)\<lparr>locked := 1\<rparr>)\<rparr>)"
| acquire_win:
    "lpc s h = Spinning lk \<Longrightarrow> locked (locks s lk) = 0 \<Longrightarrow>
     smp_step s (s\<lparr>locks := (locks s)(lk := (locks s lk)\<lparr>locked := 1\<rparr>),
                   lpc := (lpc s)(h := Won lk)\<rparr>)"
| acquire_record:
    "lpc s h = Won lk \<Longrightarrow>
     smp_step s (s\<lparr>locks := (locks s)(lk := (locks s lk)\<lparr>cpu := Some h\<rparr>),
                   lpc := (lpc s)(h := Out)\<rparr>)"
| release_begin:
    "lpc s h = Out \<Longrightarrow> holding h lk s \<Longrightarrow>
     smp_step s (s\<lparr>locks := (locks s)(lk := (locks s lk)\<lparr>cpu := None\<rparr>),
                   lpc := (lpc s)(h := Releasing lk)\<rparr>)"
| release_store:
    "lpc s h = Releasing lk \<Longrightarrow>
     smp_step s (s\<lparr>locks := (locks s)(lk := (locks s lk)\<lparr>locked := 0\<rparr>),
                   lpc := (lpc s)(h := Released)\<rparr>)"
| release_pop:
    "lpc s h = Released \<Longrightarrow> pop_off h s = Ret () t \<Longrightarrow>
     smp_step s (t\<lparr>lpc := (lpc t)(h := Out)\<rparr>)"
| intr_toggle:
    "lpc s h = Out \<Longrightarrow> noff (cpus s h) = 0 \<Longrightarrow>
     smp_step s (s\<lparr>sie := (sie s)(h := b)\<rparr>)"

definition harts_init :: harts where
  "harts_init = \<lparr>locks = \<lambda>_. \<lparr>locked = 0, cpu = None\<rparr>,
                 cpus = \<lambda>_. \<lparr>noff = 0, intena = False\<rparr>, sie = \<lambda>_. False,
                 lpc = \<lambda>_. Out\<rparr>"

inductive harts_reachable :: "harts \<Rightarrow> bool" where
  harts_start: "harts_reachable harts_init"
| harts_next: "harts_reachable s \<Longrightarrow> smp_step s t \<Longrightarrow> harts_reachable t"

subsection \<open>The sequential level\<close>

record hart =
  held :: "lock set"

definition acquire :: "lock \<Rightarrow> 'a hart_scheme \<Rightarrow> ('a hart_scheme, unit) outcome" where
  "acquire lk s = (if lk \<in> held s then Panic ''acquire'' else Ret () (s\<lparr>held := insert lk (held s)\<rparr>))"

definition release :: "lock \<Rightarrow> 'a hart_scheme \<Rightarrow> ('a hart_scheme, unit) outcome" where
  "release lk s = (if lk \<notin> held s then Panic ''release'' else Ret () (s\<lparr>held := held s - {lk}\<rparr>))"

subsection \<open>Nesting of push_off and pop_off\<close>

lemma push_off_simps [simp]:
  "locks (push_off h s) = locks s"
  "sie (push_off h s) = (sie s)(h := False)"
  "noff (cpus (push_off h s) h) = noff (cpus s h) + 1"
  "h' \<noteq> h \<Longrightarrow> cpus (push_off h s) h' = cpus s h'"
  "intena (cpus (push_off h s) h) = (if noff (cpus s h) = 0 then sie s h else intena (cpus s h))"
  by (auto simp: push_off_def Let_def)


lemma lpc_push_off [simp]: "lpc (push_off h s) = lpc s"
  by (auto simp: push_off_def Let_def)

lemma pop_off_Ret [ret_iff]:
  "pop_off h s = Ret u t \<longleftrightarrow>
     \<not> sie s h \<and> 1 \<le> noff (cpus s h) \<and>
     t = s\<lparr>cpus := (cpus s)(h := (cpus s h)\<lparr>noff := noff (cpus s h) - 1\<rparr>),
           sie := (sie s)(h := noff (cpus s h) = 1 \<and> intena (cpus s h))\<rparr>"
  by (auto simp: pop_off_def Let_def fun_upd_idem)

fun push_offs :: "nat \<Rightarrow> nat \<Rightarrow> smp \<Rightarrow> smp" where
  "push_offs h 0 s = s"
| "push_offs h (Suc n) s = push_offs h n (push_off h s)"

fun pop_offs :: "nat \<Rightarrow> nat \<Rightarrow> smp \<Rightarrow> (smp, unit) outcome" where
  "pop_offs h 0 s = Ret () s"
| "pop_offs h (Suc n) s = bnd (pop_off h s) (\<lambda>_ s. pop_offs h n s)"

lemma push_offs_nested:
  assumes "0 < noff (cpus s h)" "\<not> sie s h"
  shows "push_offs h n s = s\<lparr>cpus := (cpus s)(h := (cpus s h)\<lparr>noff := noff (cpus s h) + int n\<rparr>)\<rparr>"
  using assms
proof (induction n arbitrary: s)
  case (Suc n)
  have "push_off h s = s\<lparr>cpus := (cpus s)(h := (cpus s h)\<lparr>noff := noff (cpus s h) + 1\<rparr>)\<rparr>"
    using Suc.prems by (simp add: push_off_def Let_def fun_upd_idem)
  then show ?case
    using Suc.IH [of "push_off h s"] Suc.prems by (simp add: algebra_simps cong: if_cong)
qed simp

lemma pop_offs_nested:
  assumes "int n < noff (cpus s h)" "\<not> sie s h"
  shows "pop_offs h n s = Ret () (s\<lparr>cpus := (cpus s)(h := (cpus s h)\<lparr>noff := noff (cpus s h) - int n\<rparr>)\<rparr>)"
  using assms
proof (induction n arbitrary: s)
  case (Suc n)
  have "pop_off h s = Ret () (s\<lparr>cpus := (cpus s)(h := (cpus s h)\<lparr>noff := noff (cpus s h) - 1\<rparr>)\<rparr>)"
    using Suc.prems by (auto simp: pop_off_def Let_def)
  then show ?case
    using Suc.IH [of "s\<lparr>cpus := (cpus s)(h := (cpus s h)\<lparr>noff := noff (cpus s h) - 1\<rparr>)\<rparr>"] Suc.prems
    by (simp add: algebra_simps cong: if_cong)
qed simp

lemma pop_offs_snoc: "pop_offs h (Suc n) s = bnd (pop_offs h n s) (\<lambda>_. pop_off h)"
proof (induction n arbitrary: s)
  case 0
  show ?case by (cases "pop_off h s") auto
next
  case (Suc n)
  have "pop_offs h (Suc (Suc n)) s = bnd (pop_off h s) (\<lambda>_ s. pop_offs h (Suc n) s)"
    by (rule pop_offs.simps(2))
  also have "\<dots> = bnd (pop_off h s) (\<lambda>_ s. bnd (pop_offs h n s) (\<lambda>_. pop_off h))"
    by (simp only: Suc.IH)
  finally show ?case
    by (simp only: pop_offs.simps(2) [of h n s] bnd_assoc)
qed

text \<open>
  \<^verbatim>\<open>push_off\<close> and \<^verbatim>\<open>pop_off\<close> are matched: starting outside any critical section, after
  any number of nested \<^verbatim>\<open>push_off\<close>s interrupts are off, the same number of \<^verbatim>\<open>pop_off\<close>s never
  panics, and afterwards the nesting depth is zero and the interrupt flag has the value
  it had before the first \<^verbatim>\<open>push_off\<close>.
\<close>

theorem push_pop_balanced:
  assumes "noff (cpus s h) = 0" and "0 < n"
  shows "\<not> sie (push_offs h n s) h \<and>
         (\<exists>t. pop_offs h n (push_offs h n s) = Ret () t \<and> noff (cpus t h) = 0 \<and>
              sie t = sie s \<and> locks t = locks s \<and> (\<forall>h'. h' \<noteq> h \<longrightarrow> cpus t h' = cpus s h'))"
proof -
  obtain m where n: "n = Suc m"
    using assms(2) by (cases n) auto
  define s1 where "s1 = push_off h s"
  have s1: "noff (cpus s1 h) = 1" "\<not> sie s1 h" "intena (cpus s1 h) = sie s h"
      "locks s1 = locks s" "sie s1 = (sie s)(h := False)" "\<And>h'. h' \<noteq> h \<Longrightarrow> cpus s1 h' = cpus s h'"
    using assms(1) by (auto simp: s1_def)
  define s2 where "s2 = s1\<lparr>cpus := (cpus s1)(h := (cpus s1 h)\<lparr>noff := noff (cpus s1 h) + int m\<rparr>)\<rparr>"
  have up: "push_offs h n s = s2"
    using push_offs_nested [of s1 h m] s1 by (simp add: n s1_def [symmetric] s2_def)
  have "pop_offs h m s2 = Ret () (s2\<lparr>cpus := (cpus s2)(h := (cpus s2 h)\<lparr>noff := noff (cpus s2 h) - int m\<rparr>)\<rparr>)"
    by (rule pop_offs_nested) (use s1 in \<open>simp_all add: s2_def\<close>)
  then have "pop_offs h n s2 =
      pop_off h (s2\<lparr>cpus := (cpus s2)(h := (cpus s2 h)\<lparr>noff := noff (cpus s2 h) - int m\<rparr>)\<rparr>)"
    unfolding n pop_offs_snoc by simp
  then show ?thesis
    using s1 by (auto simp: up s2_def pop_off_def fun_upd_idem)
qed

theorem push_pop_balanced_witness:
  "(let s = \<lparr>locks = \<lambda>_. \<lparr>locked = 0, cpu = None\<rparr>, cpus = \<lambda>_. \<lparr>noff = 0, intena = False\<rparr>,
             sie = \<lambda>h. h = 1\<rparr>
    in noff (cpus s 1) = 0 \<and> (\<exists>t. pop_offs 1 3 (push_offs 1 3 s) = Ret () t \<and> sie t 1))"
  using push_pop_balanced [of "\<lparr>locks = \<lambda>_. \<lparr>locked = 0, cpu = None\<rparr>,
      cpus = \<lambda>_. \<lparr>noff = 0, intena = False\<rparr>, sie = \<lambda>h. h = 1\<rparr>" 1 3]
  by auto

subsection \<open>Invariant of the detailed level\<close>

definition owns :: "harts \<Rightarrow> nat \<Rightarrow> lock set" where
  "owns s h = {lk. holding h lk s \<or> lpc s h = Won lk \<or> lpc s h = Releasing lk}"

definition in_transit :: "lock_pc \<Rightarrow> int" where
  "in_transit p = (case p of Spinning _ \<Rightarrow> 1 | Released \<Rightarrow> 1 | _ \<Rightarrow> 0)"

definition smp_inv :: "harts \<Rightarrow> bool" where
  "smp_inv s \<longleftrightarrow>
     (\<forall>lk. locked (locks s lk) \<noteq> 0 \<longleftrightarrow> (\<exists>h. lk \<in> owns s h)) \<and>
     (\<forall>h h' lk. lk \<in> owns s h \<and> lk \<in> owns s h' \<longrightarrow> h = h') \<and>
     (\<forall>h lk. cpu (locks s lk) = Some h \<longrightarrow> locked (locks s lk) \<noteq> 0 \<and> lpc s h \<noteq> Won lk \<and> lpc s h \<noteq> Releasing lk) \<and>
     (\<forall>h. finite (owns s h) \<and> noff (cpus s h) = int (card (owns s h)) + in_transit (lpc s h)) \<and>
     (\<forall>h. 0 < noff (cpus s h) \<longrightarrow> \<not> sie s h)"

lemma smp_invI:
  assumes "\<And>lk. locked (locks s lk) \<noteq> 0 \<longleftrightarrow> (\<exists>h. lk \<in> owns s h)"
    and "\<And>h h' lk. lk \<in> owns s h \<Longrightarrow> lk \<in> owns s h' \<Longrightarrow> h = h'"
    and "\<And>h lk. cpu (locks s lk) = Some h \<Longrightarrow>
           locked (locks s lk) \<noteq> 0 \<and> lpc s h \<noteq> Won lk \<and> lpc s h \<noteq> Releasing lk"
    and "\<And>h. finite (owns s h) \<and> noff (cpus s h) = int (card (owns s h)) + in_transit (lpc s h)"
    and "\<And>h. 0 < noff (cpus s h) \<Longrightarrow> \<not> sie s h"
  shows "smp_inv s"
  using assms unfolding smp_inv_def by blast

lemma smp_invD:
  assumes "smp_inv s"
  shows "locked (locks s lk) \<noteq> 0 \<longleftrightarrow> (\<exists>h. lk \<in> owns s h)"
    and "lk \<in> owns s h \<Longrightarrow> lk \<in> owns s h' \<Longrightarrow> h = h'"
    and "cpu (locks s lk) = Some h \<Longrightarrow>
           locked (locks s lk) \<noteq> 0 \<and> lpc s h \<noteq> Won lk \<and> lpc s h \<noteq> Releasing lk"
    and "finite (owns s h)"
    and "noff (cpus s h) = int (card (owns s h)) + in_transit (lpc s h)"
    and "0 < noff (cpus s h) \<Longrightarrow> \<not> sie s h"
  using assms unfolding smp_inv_def by blast+

lemma smp_inv_init: "smp_inv harts_init"
  by (rule smp_invI) (auto simp: harts_init_def owns_def holding_def in_transit_def)

lemma owns_cong:
  "lpc t h = lpc s h \<Longrightarrow> locks t = locks s \<Longrightarrow> owns t h = owns s h"
  by (auto simp: owns_def holding_def)

lemma pop_off_safe:
  assumes "smp_inv s" "lpc s h = Released"
  shows "\<exists>t. pop_off h s = Ret () t"
proof -
  have n: "noff (cpus s h) = int (card (owns s h)) + 1"
    using assms unfolding smp_inv_def by (auto simp: in_transit_def)
  then have "\<not> sie s h"
    using assms unfolding smp_inv_def by auto
  then show ?thesis using n by (auto simp: pop_off_def Let_def)
qed

lemma in_transit_simps [simp]:
  "in_transit Out = 0" "in_transit (Spinning lk) = 1" "in_transit (Won lk) = 0"
  "in_transit (Releasing lk) = 0" "in_transit Released = 1"
  by (auto simp: in_transit_def)

text \<open>
  A step that leaves the ownership sets alone keeps the invariant if it keeps the lock
  words, names no hart in a lock that is mid-way, and moves the nesting depth of the hart
  along with its program counter.
\<close>

lemma smp_inv_same_owns:
  assumes inv: "smp_inv s" and o: "\<And>h. owns t h = owns s h"
    and l: "\<And>lk. locked (locks t lk) \<noteq> 0 \<longleftrightarrow> locked (locks s lk) \<noteq> 0"
    and c: "\<And>h lk. cpu (locks t lk) = Some h \<Longrightarrow>
           locked (locks t lk) \<noteq> 0 \<and> lpc t h \<noteq> Won lk \<and> lpc t h \<noteq> Releasing lk"
    and n: "\<And>h. noff (cpus t h) - in_transit (lpc t h) = noff (cpus s h) - in_transit (lpc s h)"
    and i: "\<And>h. 0 < noff (cpus t h) \<Longrightarrow> \<not> sie t h"
  shows "smp_inv t"
proof (rule smp_invI)
  show "locked (locks t lk) \<noteq> 0 \<longleftrightarrow> (\<exists>h. lk \<in> owns t h)" for lk
    unfolding l o by (rule smp_invD(1) [OF inv])
  show "h = h'" if "lk \<in> owns t h" "lk \<in> owns t h'" for h h' lk
    using that smp_invD(2) [OF inv] unfolding o by blast
  show "finite (owns t h) \<and> noff (cpus t h) = int (card (owns t h)) + in_transit (lpc t h)" for h
    using smp_invD(4,5) [OF inv, of h] n [of h] unfolding o by simp
qed (use c i in auto)

lemma smp_inv_acquire_begin:
  assumes "smp_inv s" "lpc s h = Out" "\<not> holding h lk (push_off h s)"
  shows "smp_inv ((push_off h s)\<lparr>lpc := (lpc s)(h := Spinning lk)\<rparr>)"
proof (rule smp_inv_same_owns [OF assms(1)])
  show "noff (cpus ((push_off h s)\<lparr>lpc := (lpc s)(h := Spinning lk)\<rparr>) h') -
        in_transit (lpc ((push_off h s)\<lparr>lpc := (lpc s)(h := Spinning lk)\<rparr>) h') =
        noff (cpus s h') - in_transit (lpc s h')" for h'
    using assms(2) by (cases "h' = h") auto
  show "\<not> sie ((push_off h s)\<lparr>lpc := (lpc s)(h := Spinning lk)\<rparr>) h'"
    if "0 < noff (cpus ((push_off h s)\<lparr>lpc := (lpc s)(h := Spinning lk)\<rparr>) h')" for h'
    using that smp_invD(6) [OF assms(1), of h'] by (cases "h' = h") auto
qed (use assms(2) smp_invD(3) [OF assms(1)] in \<open>auto simp: owns_def holding_def\<close>)

lemma smp_inv_acquire_spin:
  assumes "smp_inv s" "lpc s h = Spinning lk" "locked (locks s lk) \<noteq> 0"
  shows "smp_inv (s\<lparr>locks := (locks s)(lk := (locks s lk)\<lparr>locked := 1\<rparr>)\<rparr>)"
  by (rule smp_inv_same_owns [OF assms(1)])
    (use assms(2,3) smp_invD(3,6) [OF assms(1)] in \<open>auto simp: owns_def holding_def\<close>)

lemma smp_inv_acquire_record:
  assumes "smp_inv s" "lpc s h = Won lk"
  shows "smp_inv (s\<lparr>locks := (locks s)(lk := (locks s lk)\<lparr>cpu := Some h\<rparr>), lpc := (lpc s)(h := Out)\<rparr>)"
proof -
  have own: "lk \<in> owns s h"
    using assms(2) by (auto simp: owns_def)
  have l: "locked (locks s lk) \<noteq> 0"
    using own smp_invD(1) [OF assms(1)] by blast
  have u: "h' = h" if "lk \<in> owns s h'" for h'
    using own that smp_invD(2) [OF assms(1)] by blast
  have c: "cpu (locks s lk) = None"
  proof (cases "cpu (locks s lk)")
    case (Some h')
    then have "lk \<in> owns s h'"
      using l by (auto simp: owns_def holding_def)
    then show ?thesis
      using u [of h'] assms(2) smp_invD(3) [OF assms(1) Some] by auto
  qed
  have o: "owns (s\<lparr>locks := (locks s)(lk := (locks s lk)\<lparr>cpu := Some h\<rparr>), lpc := (lpc s)(h := Out)\<rparr>) h'
      = owns s h'" for h'
    using assms(2) l c by (auto simp: owns_def holding_def)
  show ?thesis
    by (rule smp_inv_same_owns [OF assms(1) o])
      (use assms(2) l smp_invD(3,6) [OF assms(1)] in \<open>auto split: if_splits\<close>)
qed

lemma smp_inv_release_begin:
  assumes "smp_inv s" "lpc s h = Out" "holding h lk s"
  shows "smp_inv (s\<lparr>locks := (locks s)(lk := (locks s lk)\<lparr>cpu := None\<rparr>), lpc := (lpc s)(h := Releasing lk)\<rparr>)"
  by (rule smp_inv_same_owns [OF assms(1)])
    (use assms(2,3) smp_invD(3,6) [OF assms(1)] in \<open>auto simp: owns_def holding_def\<close>)

lemma smp_inv_release_pop:
  assumes "smp_inv s" "lpc s h = Released" "pop_off h s = Ret () t"
  shows "smp_inv (t\<lparr>lpc := (lpc t)(h := Out)\<rparr>)"
  by (rule smp_inv_same_owns [OF assms(1)])
    (use assms(2,3) smp_invD(3,6) [OF assms(1)] in \<open>auto simp: owns_def holding_def ret_iff\<close>)

lemma smp_inv_intr_toggle:
  assumes "smp_inv s" "noff (cpus s h) = 0"
  shows "smp_inv (s\<lparr>sie := (sie s)(h := b)\<rparr>)"
  by (rule smp_inv_same_owns [OF assms(1)])
    (use assms(2) smp_invD(3,6) [OF assms(1)] in \<open>auto simp: owns_def holding_def\<close>)

lemma ex_if_in: "(\<exists>h'. x \<in> (if h' = h then A else f h')) \<longleftrightarrow> x \<in> A \<or> (\<exists>h'. h' \<noteq> h \<and> x \<in> f h')"
  by auto

lemma smp_inv_acquire_win:
  assumes "smp_inv s" "lpc s h = Spinning lk" "locked (locks s lk) = 0"
  shows "smp_inv (s\<lparr>locks := (locks s)(lk := (locks s lk)\<lparr>locked := 1\<rparr>), lpc := (lpc s)(h := Won lk)\<rparr>)"
    (is "smp_inv ?t")
proof -
  have c: "cpu (locks s lk) = None"
    using smp_invD(3) [OF assms(1)] assms(3) by (cases "cpu (locks s lk)") auto
  have n: "lk \<notin> owns s h'" for h'
    using smp_invD(1) [OF assms(1)] assms(3) by blast
  have o: "owns ?t h' = (if h' = h then insert lk (owns s h) else owns s h')" for h'
    using assms(2) c by (auto simp: owns_def holding_def)
  show ?thesis
  proof (rule smp_invI)
    show "locked (locks ?t lk') \<noteq> 0 \<longleftrightarrow> (\<exists>h'. lk' \<in> owns ?t h')" for lk'
      using smp_invD(1) [OF assms(1), of lk'] unfolding o ex_if_in by auto
    show "h' = h''" if "lk' \<in> owns ?t h'" "lk' \<in> owns ?t h''" for h' h'' lk'
      using that n smp_invD(2) [OF assms(1), of lk' h' h''] unfolding o by (auto split: if_splits)
    show "finite (owns ?t h') \<and> noff (cpus ?t h') = int (card (owns ?t h')) + in_transit (lpc ?t h')" for h'
      using smp_invD(4,5) [OF assms(1), of h'] n assms(2) unfolding o by (cases "h' = h") auto
  qed (use c assms(2) smp_invD(3,6) [OF assms(1)] in \<open>auto split: if_splits\<close>)
qed

lemma smp_inv_release_store:
  assumes "smp_inv s" "lpc s h = Releasing lk"
  shows "smp_inv (s\<lparr>locks := (locks s)(lk := (locks s lk)\<lparr>locked := 0\<rparr>), lpc := (lpc s)(h := Released)\<rparr>)"
    (is "smp_inv ?t")
proof -
  have own: "lk \<in> owns s h"
    using assms(2) by (auto simp: owns_def)
  have u: "h' = h" if "lk \<in> owns s h'" for h'
    using own that smp_invD(2) [OF assms(1)] by blast
  have c: "cpu (locks s lk) = None"
  proof (cases "cpu (locks s lk)")
    case (Some h')
    then have "lk \<in> owns s h'"
      using smp_invD(3) [OF assms(1)] by (auto simp: owns_def holding_def)
    then show ?thesis
      using u [of h'] assms(2) smp_invD(3) [OF assms(1) Some] by auto
  qed
  have o: "owns ?t h' = (if h' = h then owns s h - {lk} else owns s h')" for h'
    using assms(2) c by (auto simp: owns_def holding_def)
  have card: "int (card (owns s h)) = int (card (owns s h - {lk})) + 1"
    using card_Suc_Diff1 [OF smp_invD(4) [OF assms(1)] own] by simp
  show ?thesis
  proof (rule smp_invI)
    show "locked (locks ?t lk') \<noteq> 0 \<longleftrightarrow> (\<exists>h'. lk' \<in> owns ?t h')" for lk'
      using smp_invD(1) [OF assms(1), of lk'] unfolding o ex_if_in by (auto dest: u)
    show "h' = h''" if "lk' \<in> owns ?t h'" "lk' \<in> owns ?t h''" for h' h'' lk'
      using that smp_invD(2) [OF assms(1), of lk' h' h''] unfolding o by (auto split: if_splits)
    show "finite (owns ?t h') \<and> noff (cpus ?t h') = int (card (owns ?t h')) + in_transit (lpc ?t h')" for h'
      using smp_invD(4,5) [OF assms(1), of h'] card assms(2) unfolding o by (cases "h' = h") auto
  qed (use c assms(2) smp_invD(3,6) [OF assms(1)] in \<open>auto split: if_splits\<close>)
qed

lemma smp_inv_step: "smp_step s t \<Longrightarrow> smp_inv s \<Longrightarrow> smp_inv t"
  by (induction rule: smp_step.induct)
    (simp_all add: smp_inv_acquire_begin smp_inv_acquire_spin smp_inv_acquire_win smp_inv_acquire_record
      smp_inv_release_begin smp_inv_release_store smp_inv_release_pop smp_inv_intr_toggle)

lemma smp_inv_reachable: "harts_reachable s \<Longrightarrow> smp_inv s"
  by (induction rule: harts_reachable.induct) (auto intro: smp_inv_init smp_inv_step)

lemma owns_Out: "lpc s h = Out \<Longrightarrow> lk \<in> owns s h \<longleftrightarrow> holding h lk s"
  by (auto simp: owns_def)

text \<open>
  C2: mutual exclusion. In every reachable state of the interleaved machine at most one hart
  is inside the critical section of a lock, from its winning swap to the store that frees
  the word; that hart has interrupts off; when it calls \<^verbatim>\<open>release\<close> the check \<^verbatim>\<open>holding\<close>
  succeeds; and \<^verbatim>\<open>pop_off\<close> at the end of \<^verbatim>\<open>release\<close> does not panic.
\<close>

theorem spinlock_mutual_exclusion:
  assumes "harts_reachable s"
  shows "(lk \<in> owns s h \<and> lk \<in> owns s h' \<longrightarrow> h = h') \<and>
         (lk \<in> owns s h \<longrightarrow> locked (locks s lk) \<noteq> 0 \<and> \<not> sie s h \<and> 0 < noff (cpus s h)) \<and>
         (lk \<in> owns s h \<and> lpc s h = Out \<longrightarrow> holding h lk s) \<and>
         (lpc s h = Released \<longrightarrow> (\<exists>t. pop_off h s = Ret () t))"
proof -
  have inv: "smp_inv s"
    by (rule smp_inv_reachable [OF assms])
  have "0 < noff (cpus s h)" if "lk \<in> owns s h"
  proof -
    have "0 < card (owns s h)"
      using that smp_invD(4) [OF inv, of h] by (auto simp: card_gt_0_iff)
    moreover have "0 \<le> in_transit (lpc s h)"
      by (cases "lpc s h") auto
    ultimately show ?thesis
      using smp_invD(5) [OF inv, of h] by linarith
  qed
  then show ?thesis
    using smp_invD(1,6) [OF inv] smp_invD(2) [OF inv, of lk h h'] pop_off_safe [OF inv] owns_Out by blast
qed

definition one_held :: harts where
  "one_held = \<lparr>locks = (\<lambda>_. \<lparr>locked = 0, cpu = None\<rparr>)(Lk_kmem := \<lparr>locked = 1, cpu = Some 2\<rparr>),
               cpus = (\<lambda>_. \<lparr>noff = 0, intena = False\<rparr>)(2 := \<lparr>noff = 1, intena = False\<rparr>),
               sie = \<lambda>_. False, lpc = \<lambda>_. Out\<rparr>"

lemma acquire_run:
  assumes out: "lpc s h = Out" and free: "locked (locks s lk) = 0"
  defines "t \<equiv> (push_off h s)\<lparr>locks := (locks s)(lk := \<lparr>locked = 1, cpu = Some h\<rparr>)\<rparr>"
  shows "smp_step\<^sup>*\<^sup>* s t"
proof -
  let ?s0 = "push_off h s"
  let ?s1 = "?s0\<lparr>lpc := (lpc ?s0)(h := Spinning lk)\<rparr>"
  let ?s2 = "?s1\<lparr>locks := (locks ?s1)(lk := (locks ?s1 lk)\<lparr>locked := 1\<rparr>), lpc := (lpc ?s1)(h := Won lk)\<rparr>"
  let ?s3 = "?s2\<lparr>locks := (locks ?s2)(lk := (locks ?s2 lk)\<lparr>cpu := Some h\<rparr>), lpc := (lpc ?s2)(h := Out)\<rparr>"
  have "smp_step s ?s1"
    by (rule smp_step.acquire_begin [OF out refl]) (simp add: holding_def free)
  moreover have "smp_step ?s1 ?s2"
    by (rule smp_step.acquire_win) (simp_all add: free)
  moreover have "smp_step ?s2 ?s3"
    by (rule smp_step.acquire_record) simp
  moreover have rw: "(locks s lk)\<lparr>locked := 1, cpu := Some h\<rparr> = \<lparr>locked = 1, cpu = Some h\<rparr>"
    by (cases "locks s lk") simp
  have "?s3 = t"
    using out by (simp add: rw t_def fun_upd_idem push_off_def Let_def)
  ultimately show ?thesis
    by (metis (no_types, lifting) converse_rtranclp_into_rtranclp rtranclp.rtrancl_refl)
qed

lemma one_held_reachable: "harts_reachable one_held"
proof -
  have steps: "harts_reachable t" if "smp_step\<^sup>*\<^sup>* s t" "harts_reachable s" for s t
    using that by (induction rule: rtranclp_induct) (auto intro: harts_next)
  have "one_held = (push_off 2 harts_init)\<lparr>locks := (locks harts_init)(Lk_kmem := \<lparr>locked = 1, cpu = Some 2\<rparr>)\<rparr>"
    by (simp add: one_held_def harts_init_def push_off_def Let_def fun_upd_idem)
  then show ?thesis
    using steps [OF acquire_run [of harts_init 2 Lk_kmem] harts_start] by (simp add: harts_init_def)
qed

theorem spinlock_mutual_exclusion_witness:
  "harts_reachable one_held \<and> Lk_kmem \<in> owns one_held 2 \<and> \<not> sie one_held 2 \<and>
   Lk_kmem \<notin> owns one_held 5"
proof -
  have o: "Lk_kmem \<in> owns one_held 2"
    by (simp add: owns_def holding_def one_held_def)
  show ?thesis
    using spinlock_mutual_exclusion [OF one_held_reachable, of Lk_kmem 2 5] o one_held_reachable by auto
qed

subsection \<open>The sequential level refines the detailed one\<close>

lemma release_run:
  assumes inv: "smp_inv s" and out: "lpc s h = Out" and hold: "holding h lk s"
  obtains t where "smp_step\<^sup>*\<^sup>* s t" "lpc t h = Out" "owns t h = owns s h - {lk}"
proof -
  let ?s1 = "s\<lparr>locks := (locks s)(lk := (locks s lk)\<lparr>cpu := None\<rparr>), lpc := (lpc s)(h := Releasing lk)\<rparr>"
  let ?s2 = "?s1\<lparr>locks := (locks ?s1)(lk := (locks ?s1 lk)\<lparr>locked := 0\<rparr>), lpc := (lpc ?s1)(h := Released)\<rparr>"
  have st: "smp_step s ?s1" "smp_step ?s1 ?s2"
    by (rule smp_step.release_begin [OF out hold], rule smp_step.release_store, simp)
  have "smp_inv ?s2"
    using smp_inv_step [OF st(2) smp_inv_step [OF st(1) inv]] .
  then obtain t where t: "pop_off h ?s2 = Ret () t"
    using pop_off_safe [of ?s2 h] by auto
  have "smp_step ?s2 (t\<lparr>lpc := (lpc t)(h := Out)\<rparr>)"
    by (rule smp_step.release_pop [OF _ t]) simp
  then have run: "smp_step\<^sup>*\<^sup>* s (t\<lparr>lpc := (lpc t)(h := Out)\<rparr>)"
    using st by (metis (no_types, lifting) converse_rtranclp_into_rtranclp rtranclp.rtrancl_refl)
  have l: "locks t = locks ?s2"
    using t by (auto simp: ret_iff)
  have "owns (t\<lparr>lpc := (lpc t)(h := Out)\<rparr>) h = owns s h - {lk}"
    using out by (auto simp: owns_def holding_def l)
  then show ?thesis
    using that [OF run] by simp
qed



end
