(* ===== verification/Sched.thy ===== *)
theory Sched
  imports Spinlock Riscv KString
begin

section \<open>The process table, sleeping and waking (proc.c, sleeplock.c)\<close>

text \<open>
  The process table of \<^verbatim>\<open>riscv/kernel/proc.h\<close> and the operations of \<^verbatim>\<open>riscv/kernel/proc.c\<close>
  that only touch it: \<^verbatim>\<open>allocpid\<close>, \<^verbatim>\<open>sched\<close>, \<^verbatim>\<open>yield\<close>, \<^verbatim>\<open>sleep\<close>, \<^verbatim>\<open>wakeup\<close>, \<^verbatim>\<open>kkill\<close>,
  \<^verbatim>\<open>setkilled\<close>, \<^verbatim>\<open>killed\<close>, \<^verbatim>\<open>reparent\<close>, and the sleep locks of \<^verbatim>\<open>sleeplock.c\<close> built on them. A
  process is named by its index in \<^verbatim>\<open>proc[NPROC]\<close>; \<open>myproc s\<close> is the process whose kernel
  thread runs, if any.

  \<^verbatim>\<open>sleep\<close> ends in the outcome \<open>Sleep\<close>: the thread has left the CPU. What it does when the
  scheduler switches back to it is \<open>sleep_resume\<close>.

  The second part is the interleaving of waiters and wakers at the granularity of lock
  operations, with the proof that no wakeup is lost.
\<close>

subsection \<open>State\<close>

record kcontext =
  ra :: uint64
  sp :: uint64
  sregs :: "uint64 list"

datatype procstate = UNUSED | USED | SLEEPING | RUNNABLE | RUNNING | ZOMBIE

record proc =
  pstate :: procstate
  pchan :: "chan option"
  pkilled :: uint32
  xstate :: uint32
  pid :: uint32
  parent :: "nat option"
  kstack :: uint64
  sz :: uint64
  pagetable :: uint64
  trapframe :: uint64
  pcontext :: kcontext
  ofile :: "nat \<Rightarrow> nat option"
  cwd :: "nat option"
  pname :: bytes

record ptable = hart +
  procs :: "nat \<Rightarrow> proc"
  myproc :: "nat option"
  nextpid :: uint32
  initproc :: "nat option"

definition upd_proc :: "nat \<Rightarrow> (proc \<Rightarrow> proc) \<Rightarrow> 'a ptable_scheme \<Rightarrow> 'a ptable_scheme" where
  "upd_proc i f s = s\<lparr>procs := (procs s)(i := f (procs s i))\<rparr>"

text \<open>Dereferencing \<^verbatim>\<open>myproc()\<close> when no process runs is a page fault in the kernel.\<close>

definition with_myproc :: "(nat \<Rightarrow> 'a ptable_scheme \<Rightarrow> ('a ptable_scheme, 'r) outcome) \<Rightarrow>
    'a ptable_scheme \<Rightarrow> ('a ptable_scheme, 'r) outcome" where
  "with_myproc f s = (case myproc s of None \<Rightarrow> Panic ''kerneltrap'' | Some p \<Rightarrow> f p s)"

subsection \<open>Operations\<close>

definition procinit :: "'a ptable_scheme \<Rightarrow> 'a ptable_scheme" where
  "procinit s = fold (\<lambda>i. upd_proc i (\<lambda>p. p\<lparr>pstate := UNUSED, kstack := KSTACK (of_nat i)\<rparr>)) [0..<NPROC] s"

definition allocpid :: "'a ptable_scheme \<Rightarrow> ('a ptable_scheme, uint32) outcome" where
  "allocpid s =
     bnd (acquire Lk_pid s) (\<lambda>_ s.
     let pid = nextpid s; s = s\<lparr>nextpid := nextpid s + 1\<rparr> in
     bnd (release Lk_pid s) (\<lambda>_ s. Ret pid s))"

definition sched :: "'a ptable_scheme \<Rightarrow> ('a ptable_scheme, unit) outcome" where
  "sched = with_myproc (\<lambda>p s.
     if Lk_proc p \<notin> held s then Panic ''sched p->lock''
     else if card (held s) \<noteq> 1 then Panic ''sched locks''
     else if pstate (procs s p) = RUNNING then Panic ''sched RUNNING''
     else Ret () (s\<lparr>held := held s - {Lk_proc p}\<rparr>))"

definition yield :: "'a ptable_scheme \<Rightarrow> ('a ptable_scheme, unit) outcome" where
  "yield = with_myproc (\<lambda>p s.
     bnd (acquire (Lk_proc p) s) (\<lambda>_ s.
     sched (upd_proc p (\<lambda>q. q\<lparr>pstate := RUNNABLE\<rparr>) s)))"

definition sleep :: "chan \<Rightarrow> lock \<Rightarrow> 'a ptable_scheme \<Rightarrow> ('a ptable_scheme, 'r) outcome" where
  "sleep ch lk = with_myproc (\<lambda>p s.
     bnd (acquire (Lk_proc p) s) (\<lambda>_ s.
     bnd (release lk s) (\<lambda>_ s.
     bnd (sched (upd_proc p (\<lambda>q. q\<lparr>pchan := Some ch, pstate := SLEEPING\<rparr>) s)) (\<lambda>_ s.
     Sleep ch s))))"

definition sleep_resume :: "lock \<Rightarrow> 'a ptable_scheme \<Rightarrow> ('a ptable_scheme, unit) outcome" where
  "sleep_resume lk = with_myproc (\<lambda>p s.
     bnd (release (Lk_proc p) (upd_proc p (\<lambda>q. q\<lparr>pchan := None\<rparr>) s)) (\<lambda>_ s.
     acquire lk s))"

definition wakeup_one :: "chan option \<Rightarrow> nat \<Rightarrow> 'a ptable_scheme \<Rightarrow> ('a ptable_scheme, unit) outcome" where
  "wakeup_one ch i s =
     (if myproc s \<noteq> Some i then
        bnd (acquire (Lk_proc i) s) (\<lambda>_ s.
        release (Lk_proc i)
          (if pstate (procs s i) = SLEEPING \<and> pchan (procs s i) = ch
           then upd_proc i (\<lambda>q. q\<lparr>pstate := RUNNABLE\<rparr>) s else s))
      else Ret () s)"

definition wakeup :: "chan option \<Rightarrow> 'a ptable_scheme \<Rightarrow> ('a ptable_scheme, unit) outcome" where
  "wakeup ch s = for_each [0..<NPROC] (wakeup_one ch) s"

definition reparent :: "nat \<Rightarrow> 'a ptable_scheme \<Rightarrow> ('a ptable_scheme, unit) outcome" where
  "reparent p s =
     for_each [0..<NPROC] (\<lambda>pp s.
       if parent (procs s pp) = Some p
       then wakeup (map_option Chan_proc (initproc s)) (upd_proc pp (\<lambda>q. q\<lparr>parent := initproc s\<rparr>) s)
       else Ret () s) s"

definition kkill :: "uint32 \<Rightarrow> 'a ptable_scheme \<Rightarrow> ('a ptable_scheme, int) outcome" where
  "kkill pd s =
     bnd (for_return [0..<NPROC] (\<lambda>i s.
       bnd (acquire (Lk_proc i) s) (\<lambda>_ s.
       if pid (procs s i) = pd then
         let s = upd_proc i (\<lambda>q. q\<lparr>pkilled := 1\<rparr>) s;
             s = (if pstate (procs s i) = SLEEPING then upd_proc i (\<lambda>q. q\<lparr>pstate := RUNNABLE\<rparr>) s else s)
         in bnd (release (Lk_proc i) s) (\<lambda>_ s. Ret (Some 0) s)
       else bnd (release (Lk_proc i) s) (\<lambda>_ s. Ret None s))) s) (\<lambda>r s.
     Ret (case r of None \<Rightarrow> -1 | Some v \<Rightarrow> v) s)"

definition setkilled :: "nat \<Rightarrow> 'a ptable_scheme \<Rightarrow> ('a ptable_scheme, unit) outcome" where
  "setkilled p s =
     bnd (acquire (Lk_proc p) s) (\<lambda>_ s.
     release (Lk_proc p) (upd_proc p (\<lambda>q. q\<lparr>pkilled := 1\<rparr>) s))"

definition killed :: "nat \<Rightarrow> 'a ptable_scheme \<Rightarrow> ('a ptable_scheme, uint32) outcome" where
  "killed p s =
     bnd (acquire (Lk_proc p) s) (\<lambda>_ s.
     let k = pkilled (procs s p) in
     bnd (release (Lk_proc p) s) (\<lambda>_ s. Ret k s))"

text \<open>
  One pass of the scheduler over the table. \<open>run i\<close> stands for the context switch to process
  \<open>i\<close>: what its kernel thread does until it switches back.
\<close>

fun scheduler_scan :: "(nat \<Rightarrow> 'a ptable_scheme \<Rightarrow> ('a ptable_scheme, unit) outcome) \<Rightarrow>
    nat list \<Rightarrow> bool \<Rightarrow> 'a ptable_scheme \<Rightarrow> ('a ptable_scheme, bool) outcome" where
  "scheduler_scan run [] found s = Ret found s"
| "scheduler_scan run (i # is) found s =
     bnd (acquire (Lk_proc i) s) (\<lambda>_ s.
     if pstate (procs s i) = RUNNABLE then
       bnd (run i ((upd_proc i (\<lambda>q. q\<lparr>pstate := RUNNING\<rparr>) s)\<lparr>myproc := Some i\<rparr>)) (\<lambda>_ s.
       bnd (release (Lk_proc i) (s\<lparr>myproc := None\<rparr>)) (\<lambda>_ s.
       scheduler_scan run is True s))
     else
       bnd (release (Lk_proc i) s) (\<lambda>_ s.
       scheduler_scan run is found s))"

definition scheduler_pass :: "(nat \<Rightarrow> 'a ptable_scheme \<Rightarrow> ('a ptable_scheme, unit) outcome) \<Rightarrow>
    'a ptable_scheme \<Rightarrow> ('a ptable_scheme, bool) outcome" where
  "scheduler_pass run s = scheduler_scan run [0..<NPROC] False s"

subsection \<open>Sleep locks\<close>

record sleeplock =
  slocked :: uint32
  spid :: uint32

definition initsleeplock :: sleeplock where
  "initsleeplock = \<lparr>slocked = 0, spid = 0\<rparr>"

text \<open>
  A sleep lock is a field of a buffer or an inode: \<open>get\<close> and \<open>put\<close> read and write it in the
  kernel's state, \<open>lk\<close> is the spin lock inside it, \<open>ch\<close> its address as a channel.
\<close>

definition acquiresleep_loop :: "lock \<Rightarrow> chan \<Rightarrow> ('a ptable_scheme \<Rightarrow> sleeplock) \<Rightarrow>
    (sleeplock \<Rightarrow> 'a ptable_scheme \<Rightarrow> 'a ptable_scheme) \<Rightarrow>
    'a ptable_scheme \<Rightarrow> ('a ptable_scheme, unit) outcome" where
  "acquiresleep_loop lk ch get put s =
     (if slocked (get s) \<noteq> 0 then sleep ch lk s
      else with_myproc (\<lambda>p s. release lk (put \<lparr>slocked = 1, spid = pid (procs s p)\<rparr> s)) s)"

definition acquiresleep :: "lock \<Rightarrow> chan \<Rightarrow> ('a ptable_scheme \<Rightarrow> sleeplock) \<Rightarrow>
    (sleeplock \<Rightarrow> 'a ptable_scheme \<Rightarrow> 'a ptable_scheme) \<Rightarrow>
    'a ptable_scheme \<Rightarrow> ('a ptable_scheme, unit) outcome" where
  "acquiresleep lk ch get put s =
     bnd (acquire lk s) (\<lambda>_ s. acquiresleep_loop lk ch get put s)"

definition acquiresleep_resume :: "lock \<Rightarrow> chan \<Rightarrow> ('a ptable_scheme \<Rightarrow> sleeplock) \<Rightarrow>
    (sleeplock \<Rightarrow> 'a ptable_scheme \<Rightarrow> 'a ptable_scheme) \<Rightarrow>
    'a ptable_scheme \<Rightarrow> ('a ptable_scheme, unit) outcome" where
  "acquiresleep_resume lk ch get put s =
     bnd (sleep_resume lk s) (\<lambda>_ s. acquiresleep_loop lk ch get put s)"

definition releasesleep :: "lock \<Rightarrow> chan \<Rightarrow> (sleeplock \<Rightarrow> 'a ptable_scheme \<Rightarrow> 'a ptable_scheme) \<Rightarrow>
    'a ptable_scheme \<Rightarrow> ('a ptable_scheme, unit) outcome" where
  "releasesleep lk ch put s =
     bnd (acquire lk s) (\<lambda>_ s.
     bnd (wakeup (Some ch) (put \<lparr>slocked = 0, spid = 0\<rparr> s)) (\<lambda>_ s.
     release lk s))"

definition holdingsleep :: "lock \<Rightarrow> ('a ptable_scheme \<Rightarrow> sleeplock) \<Rightarrow>
    'a ptable_scheme \<Rightarrow> ('a ptable_scheme, bool) outcome" where
  "holdingsleep lk get s =
     bnd (acquire lk s) (\<lambda>_ s.
     bnd (if slocked (get s) \<noteq> 0 then with_myproc (\<lambda>p s. Ret (spid (get s) = pid (procs s p)) s) s
          else Ret False s) (\<lambda>r s.
     bnd (release lk s) (\<lambda>_ s. Ret r s)))"

subsection \<open>What the operations do\<close>

lemma acquire_ok [simp]: "lk \<notin> held s \<Longrightarrow> acquire lk s = Ret () (s\<lparr>held := insert lk (held s)\<rparr>)"
  by (simp add: acquire_def)

lemma release_ok [simp]: "lk \<in> held s \<Longrightarrow> release lk s = Ret () (s\<lparr>held := held s - {lk}\<rparr>)"
  by (simp add: release_def)

lemma held_id: "held s = h \<Longrightarrow> s\<lparr>held := h\<rparr> = s"
  by (metis hart.surjective hart.update_convs(1) hart.select_convs(1))

lemma upd_proc_simps [simp]:
  "held (upd_proc i f s) = held s"
  "myproc (upd_proc i f s) = myproc s"
  "initproc (upd_proc i f s) = initproc s"
  "procs (upd_proc i f s) = (procs s)(i := f (procs s i))"
  "(upd_proc i f s)\<lparr>held := h\<rparr> = upd_proc i f (s\<lparr>held := h\<rparr>)"
  by (simp_all add: upd_proc_def)

text \<open>The table after \<^verbatim>\<open>wakeup\<close>: every process asleep on the channel is runnable.\<close>

definition woken :: "chan option \<Rightarrow> nat option \<Rightarrow> nat set \<Rightarrow> (nat \<Rightarrow> proc) \<Rightarrow> nat \<Rightarrow> proc" where
  "woken ch me S ps i =
     (if i \<in> S \<and> me \<noteq> Some i \<and> pstate (ps i) = SLEEPING \<and> pchan (ps i) = ch
      then (ps i)\<lparr>pstate := RUNNABLE\<rparr> else ps i)"

definition proc_locks_free :: "'a ptable_scheme \<Rightarrow> bool" where
  "proc_locks_free s \<longleftrightarrow> (\<forall>i < NPROC. myproc s \<noteq> Some i \<longrightarrow> Lk_proc i \<notin> held s)"

lemma wakeup_one_eq:
  assumes "proc_locks_free s" "i < NPROC"
  shows "wakeup_one ch i s = Ret () (s\<lparr>procs := woken ch (myproc s) {i} (procs s)\<rparr>)"
proof -
  have w: "woken ch me {i} ps = ps(i := woken ch me {i} ps i)" for me ps
    by (auto simp: woken_def)
  have "myproc s \<noteq> Some i \<Longrightarrow> Lk_proc i \<notin> held s"
    using assms by (auto simp: proc_locks_free_def)
  then show ?thesis
    by (subst w) (auto simp: wakeup_one_def upd_proc_def woken_def fun_upd_idem)
qed

lemma fold_woken:
  "fold (\<lambda>i s. s\<lparr>procs := woken ch (myproc s) {i} (procs s)\<rparr>) [0..<n] s =
   s\<lparr>procs := woken ch (myproc s) {0..<n} (procs s)\<rparr>"
proof (induction n)
  case 0
  have "woken ch (myproc s) {} (procs s) = procs s"
    by (auto simp: woken_def)
  then show ?case by simp
next
  case (Suc n)
  have "woken ch me {n} (woken ch me {0..<n} ps) = woken ch me {0..<Suc n} ps" for me ps
    by (rule ext) (auto simp: woken_def less_Suc_eq)
  then show ?case
    using Suc by simp
qed

lemma wakeup_eq:
  assumes "proc_locks_free s"
  shows "wakeup ch s = Ret () (s\<lparr>procs := woken ch (myproc s) {0..<NPROC} (procs s)\<rparr>)"
proof -
  have "for_each [0..<NPROC] (wakeup_one ch) s =
      Ret () (fold (\<lambda>i s. s\<lparr>procs := woken ch (myproc s) {i} (procs s)\<rparr>) [0..<NPROC] s) \<and>
    proc_locks_free (fold (\<lambda>i s. s\<lparr>procs := woken ch (myproc s) {i} (procs s)\<rparr>) [0..<NPROC] s)"
    by (rule for_each_ret [where P = proc_locks_free])
      (use assms in \<open>auto simp: wakeup_one_eq proc_locks_free_def simp del: NPROC_def\<close>)
  then show ?thesis
    by (simp add: wakeup_def fold_woken del: NPROC_def)
qed

lemma wakeup_one_procs: "wakeup_one ch i s = Ret () s' \<Longrightarrow> \<exists>P. s' = s\<lparr>procs := P\<rparr>"
proof -
  assume r: "wakeup_one ch i s = Ret () s'"
  have "s\<lparr>procs := procs s\<rparr> = s"
    by simp
  then show ?thesis
    using r by (auto simp: wakeup_one_def acquire_def release_def upd_proc_def split: if_splits intro: exI [of _ "procs s"])
qed

lemma wakeup_procs: "wakeup ch s = Ret () s' \<Longrightarrow> \<exists>P. s' = s\<lparr>procs := P\<rparr>"
proof -
  have "for_each xs (wakeup_one ch) s = Ret () s' \<Longrightarrow> \<exists>P. s' = s\<lparr>procs := P\<rparr>" for xs s
  proof (induction xs arbitrary: s)
    case Nil
    then show ?case
      by (auto intro: exI [of _ "procs s"])
  next
    case (Cons x xs)
    then obtain P where "for_each xs (wakeup_one ch) (s\<lparr>procs := P\<rparr>) = Ret () s'"
      by (auto simp: ret_iff dest!: wakeup_one_procs)
    from Cons.IH [OF this] show ?case
      by auto
  qed
  then show "wakeup ch s = Ret () s' \<Longrightarrow> ?thesis"
    by (simp add: wakeup_def del: NPROC_def)
qed
lemma sched_ok:
  assumes "myproc s = Some p" "held s = {Lk_proc p}" "pstate (procs s p) \<noteq> RUNNING"
  shows "sched s = Ret () (s\<lparr>held := {}\<rparr>)"
  using assms by (simp add: sched_def with_myproc_def)

lemma swap_card_1:
  assumes "a \<noteq> b" "b \<in> A" "a \<notin> A"
  shows "card (insert a A - {b}) = 1 \<longleftrightarrow> A = {b}"
proof
  assume "card (insert a A - {b}) = 1"
  then obtain x where e: "insert a A - {b} = {x}"
    by (rule card_1_singletonE)
  have x: "y = x" if "y \<in> insert a A" "y \<noteq> b" for y
  proof -
    have "y \<in> insert a A - {b}"
      using that by simp
    then show ?thesis unfolding e by simp
  qed
  have "a = x"
    using assms(1) x [of a] by simp
  then have "y = b" if "y \<in> A" for y
    using that x [of y] assms(3) by (cases "y = b") simp_all
  then show "A = {b}"
    using assms(2) by blast
next
  assume A: "A = {b}"
  have "insert a {b} - {b} = {a}"
    using assms(1) by auto
  then show "card (insert a A - {b}) = 1"
    unfolding A by simp
qed

lemma sleep_eq:
  assumes "myproc s = Some p" and "lk \<in> held s" and "Lk_proc p \<notin> held s"
  shows "sleep ch lk s =
     (if held s = {lk}
      then Sleep ch (s\<lparr>held := {}, procs := (procs s)(p := (procs s p)\<lparr>pchan := Some ch, pstate := SLEEPING\<rparr>)\<rparr>)
      else Panic ''sched locks'')"
proof -
  have ne: "Lk_proc p \<noteq> lk"
    using assms by auto
  have unfold: "sleep ch lk s =
     (if card (insert (Lk_proc p) (held s) - {lk}) \<noteq> 1 then Panic ''sched locks''
      else Sleep ch (s\<lparr>held := insert (Lk_proc p) (held s) - {lk} - {Lk_proc p},
                     procs := (procs s)(p := (procs s p)\<lparr>pchan := Some ch, pstate := SLEEPING\<rparr>)\<rparr>))"
    using assms ne by (simp add: sleep_def with_myproc_def sched_def upd_proc_def acquire_def release_def
        del: insert_Diff_if)
  show ?thesis
    unfolding unfold swap_card_1 [OF ne assms(2,3)]
    by (cases "held s = {lk}") (auto simp: insert_Diff_if)
qed

text \<open>
  C16: \<^verbatim>\<open>sleep\<close> called by a running process that holds only the condition lock puts exactly
  that process to sleep on the channel and leaves the CPU with every lock released; with
  any further lock held the kernel panics instead of sleeping with it.
\<close>

theorem sleep_correct:
  assumes "myproc s = Some p" and "lk \<in> held s" and "Lk_proc p \<notin> held s"
  shows "sleep ch lk s =
     (if held s = {lk}
      then Sleep ch (s\<lparr>held := {}, procs := (procs s)(p := (procs s p)\<lparr>pchan := Some ch, pstate := SLEEPING\<rparr>)\<rparr>)
      else Panic ''sched locks'')"
  by (rule sleep_eq [OF assms])

definition two_procs :: ptable where
  "two_procs = \<lparr>held = {Lk_ticks},
     procs = (\<lambda>i. \<lparr>pstate = (if i = 0 then SLEEPING else if i = 2 then RUNNING else UNUSED),
                  pchan = (if i = 0 then Some Chan_ticks else None), pkilled = 0, xstate = 0,
                  pid = of_nat (i + 1), parent = None, kstack = 0, sz = 0, pagetable = 0, trapframe = 0,
                  pcontext = \<lparr>ra = 0, sp = 0, sregs = []\<rparr>, ofile = \<lambda>_. None, cwd = None, pname = \<lambda>_. 0\<rparr>),
     myproc = Some 2, nextpid = 3, initproc = Some 0\<rparr>"

lemma two_procs_sel:
  "held two_procs = {Lk_ticks}" "myproc two_procs = Some 2"
  "pstate (procs two_procs 0) = SLEEPING" "pchan (procs two_procs 0) = Some Chan_ticks"
  "pstate (procs two_procs 2) = RUNNING"
  by (simp_all add: two_procs_def)

theorem sleep_correct_witness:
  "\<exists>s'. sleep Chan_ticks Lk_ticks two_procs = Sleep Chan_ticks s' \<and>
        pstate (procs s' 2) = SLEEPING \<and> held s' = {}"
proof -
  have "myproc two_procs = Some 2" "Lk_ticks \<in> held two_procs"
      "Lk_proc 2 \<notin> held two_procs" and h: "held two_procs = {Lk_ticks}"
    by (simp_all add: two_procs_sel)
  from sleep_correct [OF this(1-3), of Chan_ticks] show ?thesis by (auto simp: h)
qed

text \<open>
  \<^verbatim>\<open>wakeup\<close> makes runnable every process asleep on the channel and changes nothing else:
  no other process, and no lock stays taken.
\<close>

theorem wakeup_correct:
  assumes "\<And>i. i < NPROC \<Longrightarrow> myproc s \<noteq> Some i \<Longrightarrow> Lk_proc i \<notin> held s"
  shows "\<exists>ps. wakeup ch s = Ret () (s\<lparr>procs := ps\<rparr>) \<and>
     (\<forall>i. ps i =
        (if i < NPROC \<and> myproc s \<noteq> Some i \<and> pstate (procs s i) = SLEEPING \<and> pchan (procs s i) = ch
         then (procs s i)\<lparr>pstate := RUNNABLE\<rparr> else procs s i))"
proof -
  have "proc_locks_free s"
    using assms by (simp add: proc_locks_free_def)
  then show ?thesis
    using wakeup_eq [of s ch] by (auto simp: woken_def simp del: NPROC_def)
qed

theorem wakeup_correct_witness:
  "\<exists>s'. wakeup (Some Chan_ticks) two_procs = Ret () s' \<and> pstate (procs s' 0) = RUNNABLE \<and>
        pstate (procs s' 2) = RUNNING"
proof -
  have "\<And>i. i < NPROC \<Longrightarrow> myproc two_procs \<noteq> Some i \<Longrightarrow> Lk_proc i \<notin> held two_procs"
    by (simp add: two_procs_sel)
  from wakeup_correct [OF this, of "Some Chan_ticks"]
  obtain ps where w: "wakeup (Some Chan_ticks) two_procs = Ret () (two_procs\<lparr>procs := ps\<rparr>)"
    and ps: "\<And>i. ps i =
        (if i < NPROC \<and> myproc two_procs \<noteq> Some i \<and> pstate (procs two_procs i) = SLEEPING \<and>
            pchan (procs two_procs i) = Some Chan_ticks
         then (procs two_procs i)\<lparr>pstate := RUNNABLE\<rparr> else procs two_procs i)"
    by blast
  show ?thesis
    using w ps [of 0] ps [of 2] by (simp add: two_procs_sel)
qed

subsection \<open>The contract of a sleep lock\<close>

text \<open>
  What the client of a sleep lock gets, for any field of the kernel's state that holds one:
  \<open>get\<close> and \<open>put\<close> must be a well-behaved accessor that does not touch the process table or
  the spin locks.
\<close>

locale sleeplock_field =
  fixes lk :: lock
    and get :: "'a ptable_scheme \<Rightarrow> sleeplock"
    and put :: "sleeplock \<Rightarrow> 'a ptable_scheme \<Rightarrow> 'a ptable_scheme"
  assumes get_put: "get (put x s) = x"
    and get_held: "get (s\<lparr>held := h\<rparr>) = get s"
    and get_procs: "get (s\<lparr>procs := ps\<rparr>) = get s"
    and put_held: "put x (s\<lparr>held := h\<rparr>) = (put x s)\<lparr>held := h\<rparr>"
    and held_put: "held (put x s) = held s"
    and procs_put: "procs (put x s) = procs s"
    and myproc_put: "myproc (put x s) = myproc s"
    and lk_not_proc: "lk \<noteq> Lk_proc i"
begin

lemmas field_laws = get_put get_held get_procs put_held held_put procs_put myproc_put

lemma acquiresleep_free:
  assumes "lk \<notin> held s" "slocked (get s) = 0" "myproc s = Some p"
  shows "acquiresleep lk ch get put s = Ret () (put \<lparr>slocked = 1, spid = pid (procs s p)\<rparr> s)"
proof -
  have "(put x s)\<lparr>held := held s\<rparr> = put x s" for x
    using held_put [of x s] by (rule held_id)
  then show ?thesis
    using assms by (simp add: acquiresleep_def acquiresleep_loop_def with_myproc_def field_laws)
qed

lemma acquiresleep_taken:
  assumes "held s = {}" "slocked (get s) \<noteq> 0" "myproc s = Some p"
  shows "acquiresleep lk ch get put s =
    Sleep ch (s\<lparr>procs := (procs s)(p := (procs s p)\<lparr>pchan := Some ch, pstate := SLEEPING\<rparr>)\<rparr>)"
proof -
  have s: "s\<lparr>held := {}\<rparr> = s"
    using assms(1) by (rule held_id)
  show ?thesis
    using assms lk_not_proc [of p] sleep_eq [of "s\<lparr>held := {lk}\<rparr>" p lk ch]
    by (simp add: acquiresleep_def acquiresleep_loop_def field_laws s)
qed

lemma holdingsleep_eq:
  assumes "lk \<notin> held s" "myproc s = Some p"
  shows "holdingsleep lk get s = Ret (slocked (get s) \<noteq> 0 \<and> spid (get s) = pid (procs s p)) s"
  using assms by (simp add: holdingsleep_def with_myproc_def field_laws)

lemma releasesleep_eq:
  assumes "lk \<notin> held s" "proc_locks_free s"
  shows "releasesleep lk ch put s =
    Ret () ((put \<lparr>slocked = 0, spid = 0\<rparr> s)\<lparr>procs := woken (Some ch) (myproc s) {0..<NPROC} (procs s)\<rparr>)"
proof -
  let ?s = "put \<lparr>slocked = 0, spid = 0\<rparr> (s\<lparr>held := insert lk (held s)\<rparr>)"
  have "proc_locks_free ?s"
    using assms(2) lk_not_proc by (auto simp: proc_locks_free_def field_laws)
  moreover have "(put x s)\<lparr>held := held s\<rparr> = put x s" for x
    using held_put [of x s] by (rule held_id)
  then have "(put x s)\<lparr>held := held s, procs := ps\<rparr> = (put x s)\<lparr>procs := ps\<rparr>" for x ps
    by simp
  moreover have "(put x s)\<lparr>procs := ps, held := h\<rparr> = (put x s)\<lparr>held := h, procs := ps\<rparr>" for x ps h
    by simp
  ultimately show ?thesis
    using assms(1) by (simp add: releasesleep_def wakeup_eq field_laws del: NPROC_def)
qed

end

subsection \<open>Waiters and wakers interleaved\<close>

text \<open>
  Threads that wait for a condition under a lock (\<^verbatim>\<open>while(!cond) sleep(chan, lk)\<close>) and threads
  that establish it (\<^verbatim>\<open>cond = 1; wakeup(chan)\<close>), at the granularity of lock operations.
  Thread \<open>i < NPROC\<close> is the kernel thread of process \<open>i\<close>; threads from \<open>NPROC\<close> on are
  interrupt handlers with no process. \<open>W_asleep\<close> is the thread off the CPU after \<^verbatim>\<open>sched\<close>,
  the scheduler having released \<^verbatim>\<open>p->lock\<close>.
\<close>

datatype wpc =
    Idle
  | W_want | W_check | W_sleep1 | W_sleep2 | W_sleep3 | W_swtch | W_asleep | W_back | W_leave
  | K_set | K_loop nat | K_in nat

record wsys =
  cond :: bool
  lk_owner :: "nat option"
  pl_owner :: "nat \<Rightarrow> nat option"
  wst :: "nat \<Rightarrow> procstate"
  wch :: "nat \<Rightarrow> bool"
  wpc :: "nat \<Rightarrow> wpc"

inductive wstep :: "wsys \<Rightarrow> wsys \<Rightarrow> bool" where
  wait_start: "wpc s t = Idle \<Longrightarrow> t < NPROC \<Longrightarrow> wstep s (s\<lparr>wpc := (wpc s)(t := W_want)\<rparr>)"
| wait_acquire: "wpc s t = W_want \<Longrightarrow> lk_owner s = None \<Longrightarrow>
    wstep s (s\<lparr>lk_owner := Some t, wpc := (wpc s)(t := W_check)\<rparr>)"
| wait_true: "wpc s t = W_check \<Longrightarrow> cond s \<Longrightarrow>
    wstep s (s\<lparr>cond := c, wpc := (wpc s)(t := W_leave)\<rparr>)"
| wait_false: "wpc s t = W_check \<Longrightarrow> \<not> cond s \<Longrightarrow> wstep s (s\<lparr>wpc := (wpc s)(t := W_sleep1)\<rparr>)"
| sleep_acquire: "wpc s t = W_sleep1 \<Longrightarrow> pl_owner s t = None \<Longrightarrow>
    wstep s (s\<lparr>pl_owner := (pl_owner s)(t := Some t), wpc := (wpc s)(t := W_sleep2)\<rparr>)"
| sleep_release: "wpc s t = W_sleep2 \<Longrightarrow>
    wstep s (s\<lparr>lk_owner := None, wpc := (wpc s)(t := W_sleep3)\<rparr>)"
| sleep_mark: "wpc s t = W_sleep3 \<Longrightarrow>
    wstep s (s\<lparr>wst := (wst s)(t := SLEEPING), wch := (wch s)(t := True), wpc := (wpc s)(t := W_swtch)\<rparr>)"
| sleep_swtch: "wpc s t = W_swtch \<Longrightarrow>
    wstep s (s\<lparr>pl_owner := (pl_owner s)(t := None), wpc := (wpc s)(t := W_asleep)\<rparr>)"
| schedule: "wpc s t = W_asleep \<Longrightarrow> wst s t = RUNNABLE \<Longrightarrow> pl_owner s t = None \<Longrightarrow>
    wstep s (s\<lparr>wst := (wst s)(t := RUNNING), pl_owner := (pl_owner s)(t := Some t),
               wpc := (wpc s)(t := W_back)\<rparr>)"
| resume: "wpc s t = W_back \<Longrightarrow>
    wstep s (s\<lparr>wch := (wch s)(t := False), pl_owner := (pl_owner s)(t := None),
               wpc := (wpc s)(t := W_want)\<rparr>)"
| wait_leave: "wpc s t = W_leave \<Longrightarrow>
    wstep s (s\<lparr>lk_owner := None, wpc := (wpc s)(t := Idle)\<rparr>)"
| wake_acquire: "wpc s t = Idle \<Longrightarrow> lk_owner s = None \<Longrightarrow>
    wstep s (s\<lparr>lk_owner := Some t, wpc := (wpc s)(t := K_set)\<rparr>)"
| wake_set: "wpc s t = K_set \<Longrightarrow> wstep s (s\<lparr>cond := True, wpc := (wpc s)(t := K_loop 0)\<rparr>)"
| wake_lock: "wpc s t = K_loop j \<Longrightarrow> j < NPROC \<Longrightarrow> j \<noteq> t \<Longrightarrow> pl_owner s j = None \<Longrightarrow>
    wstep s (s\<lparr>pl_owner := (pl_owner s)(j := Some t), wpc := (wpc s)(t := K_in j)\<rparr>)"
| wake_skip: "wpc s t = K_loop j \<Longrightarrow> j = t \<Longrightarrow> wstep s (s\<lparr>wpc := (wpc s)(t := K_loop (Suc j))\<rparr>)"
| wake_one: "wpc s t = K_in j \<Longrightarrow>
    wstep s (s\<lparr>wst := (wst s)(j := if wst s j = SLEEPING \<and> wch s j then RUNNABLE else wst s j),
               pl_owner := (pl_owner s)(j := None), wpc := (wpc s)(t := K_loop (Suc j))\<rparr>)"
| wake_end: "wpc s t = K_loop j \<Longrightarrow> NPROC \<le> j \<Longrightarrow>
    wstep s (s\<lparr>lk_owner := None, wpc := (wpc s)(t := Idle)\<rparr>)"
| kill_sleeper: "pl_owner s j = None \<Longrightarrow> wst s j = SLEEPING \<Longrightarrow>
    wstep s (s\<lparr>wst := (wst s)(j := RUNNABLE)\<rparr>)"

definition wsys_init :: wsys where
  "wsys_init = \<lparr>cond = False, lk_owner = None, pl_owner = \<lambda>_. None, wst = \<lambda>_. RUNNING,
                wch = \<lambda>_. False, wpc = \<lambda>_. Idle\<rparr>"

definition has_lk :: "wpc \<Rightarrow> bool" where
  "has_lk p = (case p of W_check \<Rightarrow> True | W_sleep1 \<Rightarrow> True | W_sleep2 \<Rightarrow> True | W_leave \<Rightarrow> True
                 | K_set \<Rightarrow> True | K_loop _ \<Rightarrow> True | K_in _ \<Rightarrow> True | _ \<Rightarrow> False)"

definition has_pl :: "nat \<Rightarrow> nat \<Rightarrow> wpc \<Rightarrow> bool" where
  "has_pl t j p = (case p of W_sleep2 \<Rightarrow> j = t | W_sleep3 \<Rightarrow> j = t | W_swtch \<Rightarrow> j = t | W_back \<Rightarrow> j = t
                     | K_in i \<Rightarrow> j = i | _ \<Rightarrow> False)"

lemma has_lk_simps [simp]:
  "\<not> has_lk Idle" "\<not> has_lk W_want" "has_lk W_check" "has_lk W_sleep1" "has_lk W_sleep2"
  "\<not> has_lk W_sleep3" "\<not> has_lk W_swtch" "\<not> has_lk W_asleep" "\<not> has_lk W_back" "has_lk W_leave"
  "has_lk K_set" "has_lk (K_loop j)" "has_lk (K_in j)"
  by (simp_all add: has_lk_def)

lemma has_pl_simps [simp]:
  "\<not> has_pl t j Idle" "\<not> has_pl t j W_want" "\<not> has_pl t j W_check" "\<not> has_pl t j W_sleep1"
  "has_pl t j W_sleep2 \<longleftrightarrow> j = t" "has_pl t j W_sleep3 \<longleftrightarrow> j = t" "has_pl t j W_swtch \<longleftrightarrow> j = t"
  "\<not> has_pl t j W_asleep" "has_pl t j W_back \<longleftrightarrow> j = t" "\<not> has_pl t j W_leave"
  "\<not> has_pl t j K_set" "\<not> has_pl t j (K_loop i)" "has_pl t j (K_in i) \<longleftrightarrow> j = i"
  by (simp_all add: has_pl_def)

definition waking :: "wpc \<Rightarrow> nat \<Rightarrow> bool" where
  "waking p i = (case p of K_loop j \<Rightarrow> j \<le> i | K_in j \<Rightarrow> j \<le> i | _ \<Rightarrow> False)"

definition waiter :: "wpc \<Rightarrow> bool" where
  "waiter p \<longleftrightarrow> p \<in> {W_want, W_check, W_sleep1, W_sleep2, W_sleep3, W_swtch, W_asleep, W_back}"

definition wlocks_inv :: "wsys \<Rightarrow> bool" where
  "wlocks_inv s \<longleftrightarrow>
     (\<forall>t. has_lk (wpc s t) \<longrightarrow> lk_owner s = Some t) \<and>
     (\<forall>t j. has_pl t j (wpc s t) \<longrightarrow> pl_owner s j = Some t)"

definition wsleep_inv :: "wsys \<Rightarrow> bool" where
  "wsleep_inv s \<longleftrightarrow>
     (\<forall>i. wst s i = SLEEPING \<longrightarrow> wch s i \<and> wpc s i \<in> {W_swtch, W_asleep}) \<and>
     (\<forall>i. wpc s i \<in> {W_sleep1, W_sleep2} \<longrightarrow> \<not> cond s) \<and>
     (\<forall>i. waiter (wpc s i) \<longrightarrow> i < NPROC) \<and>
     (\<forall>i. cond s \<and> (wst s i = SLEEPING \<or> wpc s i = W_sleep3) \<longrightarrow> (\<exists>t. waking (wpc s t) i))"

text \<open>
  One thread moves. It must own the locks its new position needs, and may only have changed
  the owner of a lock that was free or its own.
\<close>

lemma wlocks_inv_move:
  assumes "wlocks_inv s" "wpc s' = (wpc s)(t := p)"
    and "has_lk p \<Longrightarrow> lk_owner s' = Some t"
    and "lk_owner s' = lk_owner s \<or> lk_owner s = None \<or> has_lk (wpc s t)"
    and "\<And>j. has_pl t j p \<Longrightarrow> pl_owner s' j = Some t"
    and "\<And>j. pl_owner s' j = pl_owner s j \<or> pl_owner s j = None \<or> has_pl t j (wpc s t)"
  shows "wlocks_inv s'"
proof -
  have lk: "lk_owner s = Some u" if "has_lk (wpc s u)" for u
    using assms(1) that by (simp add: wlocks_inv_def)
  have pl: "pl_owner s j = Some u" if "has_pl u j (wpc s u)" for u j
    using assms(1) that by (simp add: wlocks_inv_def)
  have "lk_owner s' = Some u" if "has_lk (wpc s' u)" for u
    using that assms(2,3,4) lk [of u] lk [of t] by (cases "u = t") auto
  moreover have "pl_owner s' j = Some u" if "has_pl u j (wpc s' u)" for u j
    using that assms(2,5) assms(6) [of j] pl [of u j] pl [of t j] by (cases "u = t") auto
  ultimately show ?thesis
    by (simp add: wlocks_inv_def)
qed

lemma wlocks_inv_step:
  assumes "wstep s s'" "wlocks_inv s"
  shows "wlocks_inv s'"
proof -
  have lk: "lk_owner s = Some u" if "has_lk (wpc s u)" for u
    using assms(2) that by (simp add: wlocks_inv_def)
  have pl: "pl_owner s j = Some u" if "has_pl u j (wpc s u)" for u j
    using assms(2) that by (simp add: wlocks_inv_def)
  show ?thesis
    using assms(1)
  proof cases
    case (wait_start t) show ?thesis
      by (rule wlocks_inv_move [OF assms(2), of _ t W_want]) (simp_all add: wait_start lk pl)
  next case (wait_acquire t) show ?thesis
      by (rule wlocks_inv_move [OF assms(2), of _ t W_check]) (simp_all add: wait_acquire lk pl)
  next case (wait_true t c) show ?thesis
      by (rule wlocks_inv_move [OF assms(2), of _ t W_leave]) (simp_all add: wait_true lk pl)
  next case (wait_false t) show ?thesis
      by (rule wlocks_inv_move [OF assms(2), of _ t W_sleep1]) (simp_all add: wait_false lk pl)
  next case (sleep_acquire t) show ?thesis
      by (rule wlocks_inv_move [OF assms(2), of _ t W_sleep2]) (simp_all add: sleep_acquire lk pl)
  next case (sleep_release t) show ?thesis
      by (rule wlocks_inv_move [OF assms(2), of _ t W_sleep3]) (simp_all add: sleep_release lk pl)
  next case (sleep_mark t) show ?thesis
      by (rule wlocks_inv_move [OF assms(2), of _ t W_swtch]) (simp_all add: sleep_mark lk pl)
  next case (sleep_swtch t) show ?thesis
      by (rule wlocks_inv_move [OF assms(2), of _ t W_asleep]) (simp_all add: sleep_swtch lk pl)
  next case (schedule t) show ?thesis
      by (rule wlocks_inv_move [OF assms(2), of _ t W_back]) (simp_all add: schedule lk pl)
  next case (resume t) show ?thesis
      by (rule wlocks_inv_move [OF assms(2), of _ t W_want]) (simp_all add: resume lk pl)
  next case (wait_leave t) show ?thesis
      by (rule wlocks_inv_move [OF assms(2), of _ t Idle]) (simp_all add: wait_leave lk pl)
  next case (wake_acquire t) show ?thesis
      by (rule wlocks_inv_move [OF assms(2), of _ t K_set]) (simp_all add: wake_acquire lk pl)
  next case (wake_set t) show ?thesis
      by (rule wlocks_inv_move [OF assms(2), of _ t "K_loop 0"]) (simp_all add: wake_set lk pl)
  next case (wake_lock t j) show ?thesis
      by (rule wlocks_inv_move [OF assms(2), of _ t "K_in j"]) (simp_all add: wake_lock lk pl)
  next case (wake_skip t j) show ?thesis
      by (rule wlocks_inv_move [OF assms(2), of _ t "K_loop (Suc j)"]) (simp_all add: wake_skip lk pl)
  next case (wake_one t j) show ?thesis
      by (rule wlocks_inv_move [OF assms(2), of _ t "K_loop (Suc j)"]) (simp_all add: wake_one lk pl)
  next case (wake_end t j) show ?thesis
      by (rule wlocks_inv_move [OF assms(2), of _ t Idle]) (simp_all add: wake_end lk pl)
  next
    case (kill_sleeper j)
    then show ?thesis using assms(2) by (simp add: wlocks_inv_def)
  qed
qed

lemma waiter_simps [simp]:
  "\<not> waiter Idle" "waiter W_want" "waiter W_check" "waiter W_sleep1" "waiter W_sleep2" "waiter W_sleep3"
  "waiter W_swtch" "waiter W_asleep" "waiter W_back" "\<not> waiter W_leave" "\<not> waiter K_set"
  "\<not> waiter (K_loop j)" "\<not> waiter (K_in j)"
  by (simp_all add: waiter_def)

lemma waking_simps [simp]:
  "\<not> waking Idle i" "\<not> waking W_want i" "\<not> waking W_check i" "\<not> waking W_sleep1 i"
  "\<not> waking W_sleep2 i" "\<not> waking W_sleep3 i" "\<not> waking W_swtch i" "\<not> waking W_asleep i"
  "\<not> waking W_back i" "\<not> waking W_leave i" "\<not> waking K_set i"
  "waking (K_loop j) i \<longleftrightarrow> j \<le> i" "waking (K_in j) i \<longleftrightarrow> j \<le> i"
  by (simp_all add: waking_def)

definition needs_waker :: "wsys \<Rightarrow> nat \<Rightarrow> bool" where
  "needs_waker s i \<longleftrightarrow> cond s \<and> (wst s i = SLEEPING \<or> wpc s i = W_sleep3)"

lemma wsleep_invD:
  assumes "wsleep_inv s"
  shows "wst s i = SLEEPING \<Longrightarrow> wch s i \<and> (wpc s i = W_swtch \<or> wpc s i = W_asleep)"
    and "wpc s i = W_sleep1 \<or> wpc s i = W_sleep2 \<Longrightarrow> \<not> cond s"
    and "waiter (wpc s i) \<Longrightarrow> i < NPROC"
    and "needs_waker s i \<Longrightarrow> \<exists>t. waking (wpc s t) i"
  using assms unfolding wsleep_inv_def needs_waker_def by blast+

text \<open>
  One thread moves. Whoever newly needs a waker must have one in it, and a waker that
  passes a process must leave it not needing one.
\<close>

lemma wsleep_inv_move:
  assumes "wsleep_inv s" "wpc s' = (wpc s)(t := p)"
    and "\<And>i. wst s' i = SLEEPING \<Longrightarrow> wch s' i \<and> (wpc s' i = W_swtch \<or> wpc s' i = W_asleep)"
    and "\<And>i. wpc s' i = W_sleep1 \<or> wpc s' i = W_sleep2 \<Longrightarrow> \<not> cond s'"
    and "waiter p \<Longrightarrow> t < NPROC"
    and "\<And>i. needs_waker s' i \<Longrightarrow> needs_waker s i \<or> waking p i"
    and "\<And>i. needs_waker s' i \<Longrightarrow> waking (wpc s t) i \<Longrightarrow> waking p i"
  shows "wsleep_inv s'"
proof -
  have "\<exists>u. waking (wpc s' u) i" if n: "needs_waker s' i" for i
  proof (cases "waking p i")
    case True
    then show ?thesis using assms(2) by (intro exI [of _ t]) simp
  next
    case False
    then obtain u where "waking (wpc s u) i" "u \<noteq> t"
      using assms(6) [OF n] assms(7) [OF n] wsleep_invD(4) [OF assms(1)] by blast
    then show ?thesis using assms(2) by (intro exI [of _ u]) simp
  qed
  moreover have "i < NPROC" if "waiter (wpc s' i)" for i
    using that assms(2,5) wsleep_invD(3) [OF assms(1), of i] by (cases "i = t") simp_all
  ultimately show ?thesis
    using assms(3,4) by (auto simp: wsleep_inv_def needs_waker_def)
qed

lemma wsleep_inv_step:
  assumes "wstep s s'" "wlocks_inv s" "wsleep_inv s"
  shows "wsleep_inv s'"
proof -
  have lk: "u = v" if "has_lk (wpc s u)" "has_lk (wpc s v)" for u v
    using assms(2) that unfolding wlocks_inv_def by (metis option.inject)
  have pl: "u = v" if "has_pl u j (wpc s u)" "has_pl v j (wpc s v)" for u v j
    using assms(2) that unfolding wlocks_inv_def by (metis option.inject)
  have sl: "wch s i \<and> (wpc s i = W_swtch \<or> wpc s i = W_asleep)" if "wst s i = SLEEPING" for i
    using that by (rule wsleep_invD(1) [OF assms(3)])
  have cd: "wpc s i = W_sleep1 \<Longrightarrow> cond s \<Longrightarrow> False" "wpc s i = W_sleep2 \<Longrightarrow> cond s \<Longrightarrow> False" for i
    using wsleep_invD(2) [OF assms(3), of i] by blast+
  have wt: "i < NPROC" if "waiter (wpc s i)" for i
    using that by (rule wsleep_invD(3) [OF assms(3)])
  show ?thesis
    using assms(1)
  proof cases
    case (wait_start t) show ?thesis
      by (rule wsleep_inv_move [OF assms(3), of _ t W_want])
        (use wait_start in \<open>auto simp: needs_waker_def simp del: NPROC_def split: if_splits dest: sl cd intro: wt\<close>)
  next case (wait_acquire t) show ?thesis
      by (rule wsleep_inv_move [OF assms(3), of _ t W_check])
        (use wait_acquire in \<open>auto simp: needs_waker_def simp del: NPROC_def split: if_splits dest: sl cd intro: wt\<close>)
  next case (wait_true t c) show ?thesis
      by (rule wsleep_inv_move [OF assms(3), of _ t W_leave])
        (use wait_true in \<open>auto simp: needs_waker_def simp del: NPROC_def split: if_splits dest: sl cd intro: wt\<close>)
  next case (wait_false t) show ?thesis
      by (rule wsleep_inv_move [OF assms(3), of _ t W_sleep1])
        (use wait_false in \<open>auto simp: needs_waker_def simp del: NPROC_def split: if_splits dest: sl cd intro: wt\<close>)
  next case (sleep_acquire t) show ?thesis
      by (rule wsleep_inv_move [OF assms(3), of _ t W_sleep2])
        (use sleep_acquire in \<open>auto simp: needs_waker_def simp del: NPROC_def split: if_splits dest: sl cd intro: wt\<close>)
  next case (sleep_release t) show ?thesis
      by (rule wsleep_inv_move [OF assms(3), of _ t W_sleep3])
        (use sleep_release in \<open>auto simp: needs_waker_def simp del: NPROC_def split: if_splits dest: sl cd intro: wt\<close>)
  next case (sleep_mark t) show ?thesis
      by (rule wsleep_inv_move [OF assms(3), of _ t W_swtch])
        (use sleep_mark in \<open>auto simp: needs_waker_def simp del: NPROC_def split: if_splits dest: sl cd intro: wt\<close>)
  next case (sleep_swtch t) show ?thesis
      by (rule wsleep_inv_move [OF assms(3), of _ t W_asleep])
        (use sleep_swtch in \<open>auto simp: needs_waker_def simp del: NPROC_def split: if_splits dest: sl cd intro: wt\<close>)
  next case (schedule t) show ?thesis
      by (rule wsleep_inv_move [OF assms(3), of _ t W_back])
        (use schedule in \<open>auto simp: needs_waker_def simp del: NPROC_def split: if_splits dest: sl cd intro: wt\<close>)
  next case (resume t) show ?thesis
      by (rule wsleep_inv_move [OF assms(3), of _ t W_want])
        (use resume in \<open>auto simp: needs_waker_def simp del: NPROC_def split: if_splits dest: sl cd intro: wt\<close>)
  next case (wait_leave t) show ?thesis
      by (rule wsleep_inv_move [OF assms(3), of _ t Idle])
        (use wait_leave in \<open>auto simp: needs_waker_def simp del: NPROC_def split: if_splits dest: sl cd intro: wt\<close>)
  next case (wake_acquire t) show ?thesis
      by (rule wsleep_inv_move [OF assms(3), of _ t K_set])
        (use wake_acquire in \<open>auto simp: needs_waker_def simp del: NPROC_def split: if_splits dest: sl cd intro: wt\<close>)
  next case (wake_set t)
    have n: "wpc s i \<noteq> W_sleep1" "wpc s i \<noteq> W_sleep2" for i
      using lk [of i t] wake_set by auto
    show ?thesis
      by (rule wsleep_inv_move [OF assms(3), of _ t "K_loop 0"])
        (use wake_set n in \<open>auto simp: needs_waker_def simp del: NPROC_def split: if_splits dest: sl cd intro: wt\<close>)
  next case (wake_lock t j) show ?thesis
      by (rule wsleep_inv_move [OF assms(3), of _ t "K_in j"])
        (use wake_lock in \<open>auto simp: needs_waker_def simp del: NPROC_def split: if_splits dest: sl cd intro: wt\<close>)
  next case (wake_skip t j) show ?thesis
      by (rule wsleep_inv_move [OF assms(3), of _ t "K_loop (Suc j)"])
        (use wake_skip in \<open>auto simp: needs_waker_def simp del: NPROC_def split: if_splits dest: sl cd intro: wt\<close>)
  next case (wake_one t j)
    have n: "wpc s j \<noteq> W_sleep3"
      using pl [of j j t] wake_one by auto
    show ?thesis
      by (rule wsleep_inv_move [OF assms(3), of _ t "K_loop (Suc j)"])
        (use wake_one n in \<open>auto simp: needs_waker_def simp del: NPROC_def split: if_splits dest: sl cd intro: wt\<close>)
  next case (wake_end t j)
    have n: "i < j" if "wst s i = SLEEPING \<or> wpc s i = W_sleep3" for i
      using that wt [of i] sl [of i] wake_end by auto
    show ?thesis
      by (rule wsleep_inv_move [OF assms(3), of _ t Idle])
        (use wake_end n [unfolded not_le [symmetric]] in \<open>auto simp: needs_waker_def simp del: NPROC_def split: if_splits dest: sl cd intro: wt\<close>)
  qed (use assms(3) in \<open>auto simp: wsleep_inv_def\<close>)
qed

inductive wreachable :: "wsys \<Rightarrow> bool" where
  wreach_init: "wreachable wsys_init"
| wreach_step: "wreachable s \<Longrightarrow> wstep s s' \<Longrightarrow> wreachable s'"

lemma wreachable_inv: "wreachable s \<Longrightarrow> wlocks_inv s \<and> wsleep_inv s"
proof (induction rule: wreachable.induct)
  case wreach_init
  show ?case
    by (simp add: wlocks_inv_def wsleep_inv_def wsys_init_def)
qed (blast intro: wlocks_inv_step wsleep_inv_step)

text \<open>
  C4: no wakeup is lost. In every reachable interleaving, when the condition holds and a
  process is asleep on the channel, some thread is inside \<^verbatim>\<open>wakeup\<close> and has not yet passed
  that process; so once every \<^verbatim>\<open>wakeup\<close> has returned, nobody sleeps while the condition
  holds.
\<close>

theorem no_lost_wakeup:
  assumes "wreachable s" and "cond s" and "wst s i = SLEEPING"
  shows "i < NPROC \<and> (\<exists>t j. (wpc s t = K_loop j \<or> wpc s t = K_in j) \<and> j \<le> i)"
proof -
  have inv: "wsleep_inv s"
    using wreachable_inv [OF assms(1)] by simp
  have "wpc s i = W_swtch \<or> wpc s i = W_asleep"
    using wsleep_invD(1) [OF inv assms(3)] by simp
  then have "i < NPROC"
    by (intro wsleep_invD(3) [OF inv]) auto
  moreover obtain t where "waking (wpc s t) i"
    using wsleep_invD(4) [OF inv, of i] assms(2,3) by (auto simp: needs_waker_def)
  ultimately show ?thesis
    by (cases "wpc s t") auto
qed

text \<open>Process 3 goes to sleep; then an interrupt handler sets the condition and starts \<^verbatim>\<open>wakeup\<close>.\<close>

definition wsys_asleep :: wsys where
  "wsys_asleep = wsys_init\<lparr>wst := (\<lambda>_. RUNNING)(3 := SLEEPING), wch := (\<lambda>_. False)(3 := True),
                           wpc := (\<lambda>_. Idle)(3 := W_asleep)\<rparr>"

definition wsys_waking :: wsys where
  "wsys_waking = wsys_asleep\<lparr>cond := True, lk_owner := Some 64,
                             wpc := (\<lambda>_. Idle)(3 := W_asleep, 64 := K_loop 0)\<rparr>"

lemma wsys_asleep_reachable: "wreachable wsys_asleep"
proof -
  let ?s1 = "wsys_init\<lparr>wpc := (wpc wsys_init)(3 := W_want)\<rparr>"
  let ?s2 = "?s1\<lparr>lk_owner := Some 3, wpc := (wpc ?s1)(3 := W_check)\<rparr>"
  let ?s3 = "?s2\<lparr>wpc := (wpc ?s2)(3 := W_sleep1)\<rparr>"
  let ?s4 = "?s3\<lparr>pl_owner := (pl_owner ?s3)(3 := Some 3), wpc := (wpc ?s3)(3 := W_sleep2)\<rparr>"
  let ?s5 = "?s4\<lparr>lk_owner := None, wpc := (wpc ?s4)(3 := W_sleep3)\<rparr>"
  let ?s6 = "?s5\<lparr>wst := (wst ?s5)(3 := SLEEPING), wch := (wch ?s5)(3 := True), wpc := (wpc ?s5)(3 := W_swtch)\<rparr>"
  let ?s7 = "?s6\<lparr>pl_owner := (pl_owner ?s6)(3 := None), wpc := (wpc ?s6)(3 := W_asleep)\<rparr>"
  have "wreachable ?s1"
    by (rule wreach_step [OF wreach_init wait_start]) (simp_all add: wsys_init_def)
  then have "wreachable ?s2"
    by (rule wreach_step [OF _ wait_acquire]) (simp_all add: wsys_init_def)
  then have "wreachable ?s3"
    by (rule wreach_step [OF _ wait_false]) (simp_all add: wsys_init_def)
  then have "wreachable ?s4"
    by (rule wreach_step [OF _ sleep_acquire]) (simp_all add: wsys_init_def)
  then have "wreachable ?s5"
    by (rule wreach_step [OF _ sleep_release]) simp
  then have "wreachable ?s6"
    by (rule wreach_step [OF _ sleep_mark]) simp
  then have "wreachable ?s7"
    by (rule wreach_step [OF _ sleep_swtch]) simp
  moreover have "?s7 = wsys_asleep"
    by (simp add: wsys_asleep_def wsys_init_def fun_upd_idem)
  ultimately show ?thesis by simp
qed

lemma wsys_waking_reachable: "wreachable wsys_waking"
proof -
  let ?s1 = "wsys_asleep\<lparr>lk_owner := Some 64, wpc := (wpc wsys_asleep)(64 := K_set)\<rparr>"
  let ?s2 = "?s1\<lparr>cond := True, wpc := (wpc ?s1)(64 := K_loop 0)\<rparr>"
  have "wreachable ?s1"
    by (rule wreach_step [OF wsys_asleep_reachable wake_acquire])
      (simp_all add: wsys_asleep_def wsys_init_def)
  then have "wreachable ?s2"
    by (rule wreach_step [OF _ wake_set]) simp
  moreover have "?s2 = wsys_waking"
    by (simp add: wsys_waking_def wsys_asleep_def)
  ultimately show ?thesis by simp
qed

theorem no_lost_wakeup_witness:
  "wreachable wsys_waking \<and> cond wsys_waking \<and> wst wsys_waking 3 = SLEEPING \<and>
   (\<exists>t j. (wpc wsys_waking t = K_loop j \<or> wpc wsys_waking t = K_in j) \<and> j \<le> 3)"
  using no_lost_wakeup [OF wsys_waking_reachable, of 3] wsys_waking_reachable
  by (simp add: wsys_waking_def wsys_asleep_def)

end
