(* ===== verification/Kalloc.thy ===== *)
theory Kalloc
  imports Sched
begin

section \<open>The physical page allocator (kalloc.c)\<close>

text \<open>
  \<^verbatim>\<open>riscv/kernel/kalloc.c\<close>. The free pages form a singly linked list whose links live in
  the free pages themselves: the first eight bytes of a free page hold the address of the
  next one, \<^verbatim>\<open>kmem.freelist\<close> points to the first. The state has the byte memory, the
  linker's symbol \<^verbatim>\<open>end\<close> (first address after the kernel image) and the list head.

  \<open>fl_chain\<close> relates the linked list in memory to the list of its pages; \<open>kmem_inv\<close> is the
  allocator's invariant over it. The interface \<open>page_allocator\<close> states what the allocator
  promises its clients; it is interpreted on \<open>kalloc\<close> and \<open>kfree\<close>.
\<close>

subsection \<open>State and operations\<close>

record machine = ptable +
  mem :: memory
  kernel_end :: uint64
  freelist :: uint64

text \<open>The order in which the development writes updates of the two fields.\<close>

lemma mem_freelist_order [simp]: "s\<lparr>freelist := f, mem := m\<rparr> = s\<lparr>mem := m, freelist := f\<rparr>"
  by simp

definition kfree :: "uint64 \<Rightarrow> 'a machine_scheme \<Rightarrow> ('a machine_scheme, unit) outcome" where
  "kfree pa s =
     (if pa mod PGSIZE \<noteq> 0 \<or> pa < kernel_end s \<or> pa \<ge> PHYSTOP then Panic ''kfree''
      else
        let s = s\<lparr>mem := memset (mem s) pa 1 4096\<rparr>; r = pa in
        bnd (acquire Lk_kmem s) (\<lambda>_ s.
        let s = s\<lparr>mem := store64 (mem s) r (freelist s)\<rparr>; s = s\<lparr>freelist := r\<rparr> in
        release Lk_kmem s))"

definition kalloc :: "'a machine_scheme \<Rightarrow> ('a machine_scheme, uint64) outcome" where
  "kalloc s =
     bnd (acquire Lk_kmem s) (\<lambda>_ s.
     let r = freelist s; s = (if r \<noteq> 0 then s\<lparr>freelist := load64 (mem s) r\<rparr> else s) in
     bnd (release Lk_kmem s) (\<lambda>_ s.
     let s = (if r \<noteq> 0 then s\<lparr>mem := memset (mem s) r 5 4096\<rparr> else s) in
     Ret r s))"

lemma kfree_RetD: "kfree p s = Ret u s' \<Longrightarrow> p < PHYSTOP"
  by (auto simp: kfree_def split: if_splits)

function freerange_loop :: "uint64 \<Rightarrow> uint64 \<Rightarrow> 'a machine_scheme \<Rightarrow> ('a machine_scheme, unit) outcome" where
  "freerange_loop p pa_end s =
     (if p + PGSIZE \<le> pa_end then bnd (kfree p s) (\<lambda>_ s. freerange_loop (p + PGSIZE) pa_end s)
      else Ret () s)"
  by pat_completeness auto
termination
proof (relation "measure (\<lambda>(p, pa_end, s). 2 ^ 64 - unat p)")
  fix p pa_end :: uint64 and s s' :: "'a machine_scheme" and u
  assume "kfree p s = Ret u s'"
  then have "unat p < 0x88000000"
    using kfree_RetD [of p s u s'] by (simp add: word_less_nat_alt)
  then have "unat (p + 4096) = unat p + 4096"
    by (subst unat_add_lem [THEN iffD1]) simp_all
  then show "((p + PGSIZE, pa_end, s'), p, pa_end, s) \<in> measure (\<lambda>(p, pa_end, s). 2 ^ 64 - unat p)"
    using \<open>unat p < 0x88000000\<close> by simp
qed simp

definition freerange :: "uint64 \<Rightarrow> uint64 \<Rightarrow> 'a machine_scheme \<Rightarrow> ('a machine_scheme, unit) outcome" where
  "freerange pa_start pa_end s = freerange_loop (PGROUNDUP pa_start) pa_end s"

definition kinit :: "'a machine_scheme \<Rightarrow> ('a machine_scheme, unit) outcome" where
  "kinit s = freerange (kernel_end s) PHYSTOP s"

declare freerange_loop.simps [simp del]

subsection \<open>Pages\<close>

lemma page_alignedE:
  assumes "page_aligned p"
  obtains k where "unat p = 4096 * k"
  using assms by (auto simp: page_aligned_def)

definition page :: "uint64 \<Rightarrow> uint64 set" where
  "page p = run_at p 4096"

definition phys_page :: "'a machine_scheme \<Rightarrow> uint64 \<Rightarrow> bool" where
  "phys_page s p \<longleftrightarrow> page_aligned p \<and> kernel_end s \<le> p \<and> p < PHYSTOP"

lemma unat_add_small: "unat (a :: uint64) + n < 2 ^ 64 \<Longrightarrow> unat (a + of_nat n) = unat a + n"
  by (subst unat_add_lem [THEN iffD1]) (simp_all add: unat_of_nat64)

lemma page_aligned_bound: "page_aligned p \<Longrightarrow> unat p + 4096 \<le> 2 ^ 64"
proof -
  assume "page_aligned p"
  then obtain k where k: "unat p = 4096 * k"
    by (auto simp: page_aligned_def)
  moreover have "unat p < 4096 * 2 ^ 52"
    using unat64_less [of p] by simp
  ultimately have "k + 1 \<le> 2 ^ 52"
    by simp
  then have "4096 * (k + 1) \<le> 4096 * 2 ^ 52"
    by simp
  then show ?thesis
    by (simp add: k)
qed

lemma page_iff:
  assumes "page_aligned p"
  shows "x \<in> page p \<longleftrightarrow> PGROUNDDOWN x = p"
proof
  assume "x \<in> page p"
  then obtain i where i: "i < 4096" "x = p + of_nat i"
    unfolding page_def by (rule run_atE)
  have "unat x = unat p + i"
    unfolding i(2) by (rule unat_add_small) (use page_aligned_bound [OF assms] i(1) in linarith)
  moreover obtain k where "unat p = 4096 * k"
    using assms by (auto simp: page_aligned_def)
  ultimately have "unat (PGROUNDDOWN x) = unat p"
    using i(1) by (simp add: unat_PGROUNDDOWN)
  then show "PGROUNDDOWN x = p"
    by (simp add: word_unat_eq_iff)
next
  assume "PGROUNDDOWN x = p"
  then show "x \<in> page p"
    using PGROUNDDOWN_offset [of x] by (simp add: page_def run_at_def)
qed

lemma page_disjoint: "page_aligned p \<Longrightarrow> page_aligned q \<Longrightarrow> p \<noteq> q \<Longrightarrow> page p \<inter> page q = {}"
  by (auto simp: page_iff)

lemma phys_page_nz: "phys_page s p \<Longrightarrow> 0 < kernel_end s \<Longrightarrow> p \<noteq> 0"
  by (auto simp: phys_page_def)

lemma word8_in_page: "run_at p 8 \<subseteq> page p"
  by (auto simp: page_def run_at_def)

lemma load64_page_cong:
  "(\<And>x. x \<in> page p \<Longrightarrow> m x = m' x) \<Longrightarrow> load64 m p = load64 m' p"
  using word8_in_page [of p] by (intro load64_cong) blast

subsection \<open>The free list\<close>

fun fl_chain :: "memory \<Rightarrow> uint64 \<Rightarrow> uint64 list \<Rightarrow> bool" where
  "fl_chain m p [] \<longleftrightarrow> p = 0"
| "fl_chain m p (x # xs) \<longleftrightarrow> p = x \<and> x \<noteq> 0 \<and> fl_chain m (load64 m x) xs"

definition kmem_inv :: "'a machine_scheme \<Rightarrow> uint64 list \<Rightarrow> bool" where
  "kmem_inv s xs \<longleftrightarrow>
     fl_chain (mem s) (freelist s) xs \<and> distinct xs \<and> (\<forall>x \<in> set xs. phys_page s x) \<and> 0 < kernel_end s"

lemma fl_chain_cong:
  "(\<And>x y. y \<in> set xs \<Longrightarrow> x \<in> page y \<Longrightarrow> m x = m' x) \<Longrightarrow> fl_chain m p xs = fl_chain m' p xs"
proof (induction xs arbitrary: p)
  case (Cons y ys)
  have "load64 m y = load64 m' y"
    by (rule load64_page_cong, rule Cons.prems [of y]) simp_all
  moreover have "fl_chain m q ys = fl_chain m' q ys" for q
    by (rule Cons.IH, rule Cons.prems) simp_all
  ultimately show ?case by simp
qed simp

lemma fl_chain_unique: "fl_chain m p xs \<Longrightarrow> fl_chain m p ys \<Longrightarrow> xs = ys"
proof (induction xs arbitrary: p ys)
  case Nil
  then show ?case by (cases ys) auto
next
  case (Cons x xs)
  then show ?case by (cases ys) auto
qed

lemma kmem_inv_unique: "kmem_inv s xs \<Longrightarrow> kmem_inv s ys \<Longrightarrow> xs = ys"
  by (auto simp: kmem_inv_def intro: fl_chain_unique)

text \<open>The invariant only reads the free pages and the two globals.\<close>

lemma kmem_inv_cong:
  assumes "kmem_inv s xs" "freelist s' = freelist s" "kernel_end s' = kernel_end s"
    and "\<And>x y. y \<in> set xs \<Longrightarrow> x \<in> page y \<Longrightarrow> mem s' x = mem s x"
  shows "kmem_inv s' xs"
  using assms fl_chain_cong [of xs "mem s'" "mem s" "freelist s"]
  by (simp add: kmem_inv_def phys_page_def)

lemma kmem_inv_cons:
  "kmem_inv s (p # xs) \<Longrightarrow> phys_page s p \<and> p = freelist s \<and> p \<noteq> 0 \<and> p \<notin> set xs"
  by (simp add: kmem_inv_def)

lemma kmem_inv_nil: "kmem_inv s [] \<Longrightarrow> freelist s = 0"
  by (simp add: kmem_inv_def)

lemma page_fill:
  "memset m p c 4096 x = (if x \<in> page p then ucast c else m x)"
  by (simp add: memset_store store_bytes_def page_def run_at_def)

lemma kfree_ok:
  assumes inv: "kmem_inv s xs" and pa: "phys_page s pa" "pa \<notin> set xs" and lk: "Lk_kmem \<notin> held s"
  shows "\<exists>m. kfree pa s = Ret () (s\<lparr>mem := m, freelist := pa\<rparr>) \<and>
             kmem_inv (s\<lparr>mem := m, freelist := pa\<rparr>) (pa # xs) \<and>
             (\<forall>x. x \<notin> page pa \<longrightarrow> m x = mem s x)"
proof -
  define m where "m = store64 (memset (mem s) pa 1 4096) pa (freelist s)"
  have out: "m x = mem s x" if "x \<notin> page pa" for x
  proof -
    have "x \<notin> run_at pa 8"
      using that word8_in_page by blast
    then show ?thesis
      using that by (simp add: m_def store64_out page_fill)
  qed
  have "kfree pa s = Ret () (s\<lparr>mem := m, freelist := pa\<rparr>)"
    using pa(1) lk
    by (simp add: kfree_def m_def phys_page_def page_aligned_def word_mod_PGSIZE [simplified] not_less not_le)
  moreover have "fl_chain m (freelist s) xs"
  proof -
    have "fl_chain m (freelist s) xs = fl_chain (mem s) (freelist s) xs"
    proof (rule fl_chain_cong)
      fix x y
      assume y: "y \<in> set xs" "x \<in> page y"
      then have "page y \<inter> page pa = {}"
        using inv pa by (intro page_disjoint) (auto simp: kmem_inv_def phys_page_def)
      then show "m x = mem s x"
        using y by (intro out) blast
    qed
    then show ?thesis
      using inv by (simp add: kmem_inv_def)
  qed
  then have "kmem_inv (s\<lparr>mem := m, freelist := pa\<rparr>) (pa # xs)"
    using inv pa phys_page_nz [OF pa(1)]
    by (auto simp: kmem_inv_def phys_page_def m_def load64_store64_same)
  ultimately show ?thesis
    using out by blast
qed

lemma kalloc_empty:
  "kmem_inv s [] \<Longrightarrow> Lk_kmem \<notin> held s \<Longrightarrow> kalloc s = Ret 0 s"
  by (simp add: kalloc_def kmem_inv_def)

lemma kalloc_ok:
  assumes inv: "kmem_inv s (p # xs)" and lk: "Lk_kmem \<notin> held s"
  shows "\<exists>m f. kalloc s = Ret p (s\<lparr>mem := m, freelist := f\<rparr>) \<and>
               kmem_inv (s\<lparr>mem := m, freelist := f\<rparr>) xs \<and>
               (\<forall>x. m x = (if x \<in> page p then 5 else mem s x))"
proof -
  define m where "m = memset (mem s) p 5 4096"
  define f where "f = load64 (mem s) p"
  have fill: "m x = (if x \<in> page p then 5 else mem s x)" for x
    by (simp add: m_def page_fill)
  have "kalloc s = Ret p (s\<lparr>mem := m, freelist := f\<rparr>)"
    using inv lk by (simp add: kalloc_def kmem_inv_def Let_def m_def f_def)
  moreover have "kmem_inv (s\<lparr>mem := m, freelist := f\<rparr>) xs"
  proof -
    have "fl_chain m f xs = fl_chain (mem s) f xs"
    proof (rule fl_chain_cong)
      fix x y
      assume y: "y \<in> set xs" "x \<in> page y"
      then have "page y \<inter> page p = {}"
        using inv by (intro page_disjoint) (auto simp: kmem_inv_def phys_page_def)
      then show "m x = mem s x"
        using y fill by auto
    qed
    then show ?thesis
      using inv by (auto simp: kmem_inv_def phys_page_def f_def)
  qed
  ultimately show ?thesis
    using fill by blast
qed

subsection \<open>The allocator's interface\<close>

text \<open>A client that asks for several pages in a row.\<close>

fun alloc_pages :: "('s \<Rightarrow> ('s, uint64) outcome) \<Rightarrow> nat \<Rightarrow> 's \<Rightarrow> ('s, uint64 list) outcome" where
  "alloc_pages alloc 0 s = Ret [] s"
| "alloc_pages alloc (Suc n) s = bnd (alloc s) (\<lambda>p s. bnd (alloc_pages alloc n s) (\<lambda>ps s. Ret (p # ps) s))"

text \<open>
  What the allocator promises: \<open>free_list s xs\<close> says that \<open>xs\<close> are the free pages, in the
  order in which they will be handed out; \<open>usable\<close> are the pages that may be given back.
\<close>

locale page_allocator =
  fixes alloc :: "'s \<Rightarrow> ('s, uint64) outcome"
    and free :: "uint64 \<Rightarrow> 's \<Rightarrow> ('s, unit) outcome"
    and ready :: "'s \<Rightarrow> bool"
    and free_list :: "'s \<Rightarrow> uint64 list \<Rightarrow> bool"
    and usable :: "'s \<Rightarrow> uint64 \<Rightarrow> bool"
    and memory_of :: "'s \<Rightarrow> memory"
  assumes alloc_none: "ready s \<Longrightarrow> free_list s [] \<Longrightarrow> alloc s = Ret 0 s"
    and alloc_some: "ready s \<Longrightarrow> free_list s (p # xs) \<Longrightarrow>
      ok (alloc s) (\<lambda>r s'. r = p \<and> ready s' \<and> free_list s' xs \<and> usable s' = usable s \<and>
                            (\<forall>x. x \<notin> page p \<longrightarrow> memory_of s' x = memory_of s x))"
    and free_some: "ready s \<Longrightarrow> free_list s xs \<Longrightarrow> usable s p \<Longrightarrow> p \<notin> set xs \<Longrightarrow>
      ok (free p s) (\<lambda>_ s'. ready s' \<and> free_list s' (p # xs) \<and> usable s' = usable s \<and>
                             (\<forall>x. x \<notin> page p \<longrightarrow> memory_of s' x = memory_of s x))"
    and free_list_sound: "free_list s xs \<Longrightarrow> distinct xs \<and> 0 \<notin> set xs \<and> (\<forall>x \<in> set xs. usable s x)"
begin

lemma alloc_pages_ok:
  assumes "ready s" "free_list s xs" "n \<le> length xs"
  shows "ok (alloc_pages alloc n s) (\<lambda>ps s'. ps = take n xs \<and> ready s' \<and> free_list s' (drop n xs) \<and>
    usable s' = usable s \<and> (\<forall>x. x \<notin> \<Union> (page ` set ps) \<longrightarrow> memory_of s' x = memory_of s x))"
  using assms
proof (induction n arbitrary: s xs)
  case (Suc n)
  then obtain p ys where xs: "xs = p # ys"
    by (cases xs) auto
  obtain s1 where s1: "alloc s = Ret p s1" "ready s1" "free_list s1 ys" "usable s1 = usable s"
      "\<And>x. x \<notin> page p \<Longrightarrow> memory_of s1 x = memory_of s x"
    using alloc_some [of s p ys] Suc.prems xs by (auto simp: ok_iff)
  have "ok (alloc_pages alloc n s1) (\<lambda>ps s'. ps = take n ys \<and> ready s' \<and> free_list s' (drop n ys) \<and>
    usable s' = usable s1 \<and> (\<forall>x. x \<notin> \<Union> (page ` set ps) \<longrightarrow> memory_of s' x = memory_of s1 x))"
    by (rule Suc.IH) (use s1 Suc.prems xs in auto)
  then show ?case
    using s1 xs by (auto elim!: ok_mono)
qed simp

lemma alloc_free_alloc:
  assumes "ready s" "free_list s (p # xs)"
  shows "ok (bnd (alloc s) (\<lambda>q s. bnd (free q s) (\<lambda>_ s. alloc s)))
    (\<lambda>r s'. r = p \<and> ready s' \<and> free_list s' xs)"
proof -
  have p: "usable s p" "p \<notin> set xs"
    using free_list_sound [OF assms(2)] by auto
  obtain s1 where s1: "alloc s = Ret p s1" "ready s1" "free_list s1 xs" "usable s1 = usable s"
    using alloc_some [OF assms] by (auto simp: ok_iff)
  obtain s2 where s2: "free p s1 = Ret () s2" "ready s2" "free_list s2 (p # xs)"
    using free_some [of s1 xs p] s1 p by (auto simp: ok_iff)
  show ?thesis
    using alloc_some [OF s2(2,3)] s1 s2 by (auto elim!: ok_mono)
qed

end

interpretation kmem_pages: page_allocator kalloc kfree "\<lambda>s. Lk_kmem \<notin> held s" kmem_inv phys_page mem
proof
  fix s :: "'a machine_scheme" and p xs
  assume lk: "Lk_kmem \<notin> held s"
  show "kmem_inv s [] \<Longrightarrow> kalloc s = Ret 0 s"
    using lk by (rule kalloc_empty [rotated])
  show "ok (kalloc s) (\<lambda>r s'. r = p \<and> Lk_kmem \<notin> held s' \<and> kmem_inv s' xs \<and> phys_page s' = phys_page s \<and>
          (\<forall>x. x \<notin> page p \<longrightarrow> mem s' x = mem s x))" if "kmem_inv s (p # xs)"
    using kalloc_ok [OF that lk] lk by (fastforce simp: ok_iff phys_page_def)
  show "ok (kfree p s) (\<lambda>_ s'. Lk_kmem \<notin> held s' \<and> kmem_inv s' (p # xs) \<and> phys_page s' = phys_page s \<and>
          (\<forall>x. x \<notin> page p \<longrightarrow> mem s' x = mem s x))"
    if "kmem_inv s xs" "phys_page s p" "p \<notin> set xs"
    using kfree_ok [OF that lk] lk by (fastforce simp: ok_iff phys_page_def)
next
  fix s :: "'a machine_scheme" and xs
  assume "kmem_inv s xs"
  then show "distinct xs \<and> 0 \<notin> set xs \<and> (\<forall>x \<in> set xs. phys_page s x)"
    using phys_page_nz [of s 0] by (auto simp: kmem_inv_def)
qed

text \<open>A machine with all memory zero, the kernel ending at \<open>e\<close> and the free list at \<open>f\<close>.\<close>

definition idle_proc :: proc where
  "idle_proc = \<lparr>pstate = UNUSED, pchan = None, pkilled = 0, xstate = 0, pid = 0, parent = None, kstack = 0,
     sz = 0, pagetable = 0, trapframe = 0, pcontext = \<lparr>ra = 0, sp = 0, sregs = []\<rparr>, ofile = \<lambda>_. None,
     cwd = None, pname = \<lambda>_. 0\<rparr>"

definition zero_machine :: "uint64 \<Rightarrow> uint64 \<Rightarrow> machine" where
  "zero_machine e f = \<lparr>held = {}, procs = \<lambda>_. idle_proc, myproc = None, nextpid = 1, initproc = None,
     mem = \<lambda>_. 0, kernel_end = e, freelist = f\<rparr>"

lemma zero_machine_sel [simp]:
  "held (zero_machine e f) = {}" "kernel_end (zero_machine e f) = e" "freelist (zero_machine e f) = f"
  "mem (zero_machine e f) x = 0"
  by (simp_all add: zero_machine_def)

lemma load64_zero: "(\<And>x. m x = 0) \<Longrightarrow> load64 m a = 0"
proof -
  assume "\<And>x. m x = 0"
  then have "load_bytes m a 8 = replicate 8 0"
    by (auto simp: load_bytes_def intro: nth_equalityI)
  then show ?thesis by (simp add: load64_def numeral_eq_Suc)
qed

lemma one_page_inv: "kmem_inv (zero_machine 0x80020000 0x80021000) [0x80021000]"
  by (simp add: kmem_inv_def phys_page_def page_aligned_def load64_zero)

text \<open>
  C17: \<^verbatim>\<open>kalloc\<close> never hands out a page twice: called \<open>n\<close> times with at least \<open>n\<close> pages free
  it returns \<open>n\<close> distinct non-null pages, all between \<^verbatim>\<open>end\<close> and \<^verbatim>\<open>PHYSTOP\<close> and none of them
  still on the free list, without touching memory outside them; with no page free it
  returns 0.
\<close>

theorem kalloc_correct:
  assumes "kmem_inv s xs" and "Lk_kmem \<notin> held s" and "n \<le> length xs"
  shows "(\<exists>ps s'. alloc_pages kalloc n s = Ret ps s' \<and> length ps = n \<and> distinct ps \<and> 0 \<notin> set ps \<and>
            (\<forall>p \<in> set ps. phys_page s p) \<and> kmem_inv s' (drop n xs) \<and> set ps \<inter> set (drop n xs) = {} \<and>
            (\<forall>x. (\<forall>p \<in> set ps. x \<notin> page p) \<longrightarrow> mem s' x = mem s x) \<and>
            (n = length xs \<longrightarrow> kalloc s' = Ret 0 s'))"
proof -
  have d: "distinct xs" "0 \<notin> set xs" "\<forall>x \<in> set xs. phys_page s x"
    using kmem_pages.free_list_sound [OF assms(1)] by auto
  obtain s' where s': "alloc_pages kalloc n s = Ret (take n xs) s'" "Lk_kmem \<notin> held s'"
      "kmem_inv s' (drop n xs)" "\<forall>x. x \<notin> \<Union> (page ` set (take n xs)) \<longrightarrow> mem s' x = mem s x"
    using kmem_pages.alloc_pages_ok [OF assms(2,1,3)] by (auto simp: ok_iff)
  have "set (take n xs) \<inter> set (drop n xs) = {}"
    using d(1) by (rule set_take_disj_set_drop_if_distinct) simp
  moreover have "n = length xs \<longrightarrow> kalloc s' = Ret 0 s'"
    using s'(2,3) by (auto intro: kalloc_empty)
  ultimately show ?thesis
    using s' d assms(3) by (intro exI [of _ "take n xs"] exI [of _ s']) (auto dest: in_set_takeD)
qed

theorem kalloc_correct_witness:
  "\<exists>s'. alloc_pages kalloc 1 (zero_machine 0x80020000 0x80021000) = Ret [0x80021000] s' \<and>
        kalloc s' = Ret 0 s'"
proof -
  have "alloc_pages kalloc 1 (zero_machine 0x80020000 0x80021000) = Ret ps s' \<Longrightarrow> hd ps = 0x80021000" for ps s'
    by (auto simp: kalloc_def ret_iff)
  with kalloc_correct [OF one_page_inv, of 1] show ?thesis
    by (fastforce simp: length_Suc_conv)
qed

text \<open>
  C18: \<^verbatim>\<open>kfree\<close> panics on exactly the addresses that are not page aligned, below \<^verbatim>\<open>end\<close> or at
  or above \<^verbatim>\<open>PHYSTOP\<close>; any other page that is not already free becomes the next page
  \<^verbatim>\<open>kalloc\<close> returns, the other free pages stay free, and no byte outside the page changes.
\<close>

theorem kfree_correct:
  assumes "kmem_inv s xs" and "Lk_kmem \<notin> held s" and "pa \<notin> set xs"
  shows "if phys_page s pa
         then \<exists>s'. kfree pa s = Ret () s' \<and> kmem_inv s' (pa # xs) \<and> Lk_kmem \<notin> held s' \<and>
                   (\<forall>x. x \<notin> page pa \<longrightarrow> mem s' x = mem s x) \<and>
                   (\<exists>s''. kalloc s' = Ret pa s'' \<and> kmem_inv s'' xs)
         else kfree pa s = Panic ''kfree''"
proof (cases "phys_page s pa")
  case True
  obtain m where m: "kfree pa s = Ret () (s\<lparr>mem := m, freelist := pa\<rparr>)"
      "kmem_inv (s\<lparr>mem := m, freelist := pa\<rparr>) (pa # xs)" "\<forall>x. x \<notin> page pa \<longrightarrow> m x = mem s x"
    using kfree_ok [OF assms(1) True assms(3,2)] by blast
  obtain m' f where "kalloc (s\<lparr>mem := m, freelist := pa\<rparr>) = Ret pa (s\<lparr>mem := m', freelist := f\<rparr>)"
      "kmem_inv (s\<lparr>mem := m', freelist := f\<rparr>) xs"
    using kalloc_ok [OF m(2)] assms(2) by auto
  then show ?thesis
    using True m assms(2) by auto
next
  case False
  then show ?thesis
    by (auto simp: kfree_def phys_page_def page_aligned_def word_mod_PGSIZE [simplified] not_less not_le)
qed

theorem kfree_correct_witness:
  "\<exists>s'. kfree 0x80022000 (zero_machine 0x80020000 0x80021000) = Ret () s' \<and>
        kmem_inv s' [0x80022000, 0x80021000]"
proof -
  have "phys_page (zero_machine 0x80020000 0x80021000) 0x80022000"
    by (simp add: phys_page_def page_aligned_def)
  then show ?thesis
    using kfree_correct [OF one_page_inv, of "0x80022000"] by auto
qed

subsection \<open>Initialisation\<close>

lemma page_step:
  assumes "page_aligned p" "p + 4096 \<le> PHYSTOP" "p \<le> PHYSTOP"
  shows "unat (p + 4096) = unat p + 4096" "page_aligned (p + 4096)" "p < PHYSTOP"
    and "page_aligned q \<Longrightarrow> p \<le> q \<longleftrightarrow> q = p \<or> p + 4096 \<le> q"
proof -
  have le: "unat p \<le> 0x88000000"
    using assms(3) by (simp add: word_le_nat_alt)
  show u: "unat (p + 4096) = unat p + 4096"
    using unat_add_small [of p 4096] le by simp
  show "page_aligned (p + 4096)"
    using assms(1) by (simp add: page_aligned_def u)
  show "p < PHYSTOP"
    using assms(2) u by (simp add: word_le_nat_alt word_less_nat_alt)
  show "p \<le> q \<longleftrightarrow> q = p \<or> p + 4096 \<le> q" if "page_aligned q"
  proof -
    obtain i where "unat p = 4096 * i"
      using assms(1) by (auto simp: page_aligned_def)
    moreover from \<open>page_aligned q\<close> obtain j where "unat q = 4096 * j"
      by (rule page_alignedE)
    ultimately show ?thesis
      by (auto simp: word_le_nat_alt u word_unat_eq_iff)
  qed
qed

lemma freerange_loop_ok:
  assumes "kmem_inv s xs" "Lk_kmem \<notin> held s" "page_aligned p" "kernel_end s \<le> p" "p \<le> PHYSTOP"
    and "\<And>x. x \<in> set xs \<Longrightarrow> x < p"
  shows "ok (freerange_loop p PHYSTOP s) (\<lambda>_ s'. \<exists>ys. kmem_inv s' ys \<and> kernel_end s' = kernel_end s \<and>
    held s' = held s \<and> set ys = set xs \<union> {q. page_aligned q \<and> p \<le> q \<and> q < PHYSTOP})"
  using assms
proof (induction p "PHYSTOP" s arbitrary: xs rule: freerange_loop.induct)
  case (1 p s)
  show ?case
  proof (cases "p + 4096 \<le> PHYSTOP")
    case True
    note st = page_step [OF "1.prems"(3) True "1.prems"(5)]
    obtain m where m: "kfree p s = Ret () (s\<lparr>mem := m, freelist := p\<rparr>)"
        "kmem_inv (s\<lparr>mem := m, freelist := p\<rparr>) (p # xs)"
      using kfree_ok [OF "1.prems"(1), of p] "1.prems" st by (auto simp: phys_page_def)
    have lt: "x < p + 4096" if "x \<in> set (p # xs)" for x
      using that "1.prems"(6) [of x] st(1) by (auto simp: word_less_nat_alt)
    have "ok (freerange_loop (p + 4096) PHYSTOP (s\<lparr>mem := m, freelist := p\<rparr>)) (\<lambda>_ s'. \<exists>ys. kmem_inv s' ys \<and>
       kernel_end s' = kernel_end (s\<lparr>mem := m, freelist := p\<rparr>) \<and> held s' = held (s\<lparr>mem := m, freelist := p\<rparr>) \<and>
       set ys = set (p # xs) \<union> {q. page_aligned q \<and> p + 4096 \<le> q \<and> q < PHYSTOP})"
      by (rule "1.hyps" [simplified PGSIZE_def, OF True m(1)])
        (use m(2) "1.prems"(2,4) st(1,2) True lt in \<open>auto simp: word_le_nat_alt\<close>)
    moreover have "set (p # xs) \<union> {q. page_aligned q \<and> p + 4096 \<le> q \<and> q < PHYSTOP} =
        set xs \<union> {q. page_aligned q \<and> p \<le> q \<and> q < PHYSTOP}"
      using st "1.prems"(3) by auto
    ultimately show ?thesis
      using True m(1) by (subst freerange_loop.simps) (simp add: ok_mono)
  next
    case False
    have "\<not> (page_aligned q \<and> p \<le> q \<and> q < PHYSTOP)" for q
    proof
      assume q: "page_aligned q \<and> p \<le> q \<and> q < PHYSTOP"
      obtain j where j: "unat q = 4096 * j"
        using q by (auto simp: page_aligned_def)
      have "4096 * j < 4096 * 0x88000"
        using q j by (simp add: word_less_nat_alt)
      then have "unat q + 4096 \<le> 0x88000000"
        using j by simp
      moreover have "unat (p + 4096) = unat p + 4096"
        using unat_add_small [of p 4096] "1.prems"(5) by (simp add: word_le_nat_alt)
      ultimately show False
        using False q by (simp add: word_le_nat_alt)
    qed
    then show ?thesis
      using False "1.prems"(1) by (subst freerange_loop.simps) auto
  qed
qed


text \<open>
  \<^verbatim>\<open>kinit\<close> returns, and afterwards the free list holds exactly the whole pages
  between \<^verbatim>\<open>end\<close> and \<^verbatim>\<open>PHYSTOP\<close>, each once.
\<close>

theorem kinit_correct:
  assumes "freelist s = 0" and "Lk_kmem \<notin> held s" and "0 < kernel_end s" and "kernel_end s \<le> PHYSTOP"
  shows "\<exists>s' xs. kinit s = Ret () s' \<and> kmem_inv s' xs \<and>
           set xs = {q. page_aligned q \<and> kernel_end s \<le> q \<and> q < PHYSTOP}"
proof -
  have up: "unat (PGROUNDUP (kernel_end s)) = (unat (kernel_end s) + 4095) div 4096 * 4096"
    using assms(4) by (intro unat_PGROUNDUP) (simp add: word_le_nat_alt)
  have ge: "kernel_end s \<le> q \<longleftrightarrow> PGROUNDUP (kernel_end s) \<le> q" if "page_aligned q" for q
  proof -
    from that obtain j where "unat q = 4096 * j"
      by (rule page_alignedE)
    then show ?thesis
      by (simp add: word_le_nat_alt up) linarith
  qed
  have "page_aligned PHYSTOP"
    by (simp add: page_aligned_def)
  then have "PGROUNDUP (kernel_end s) \<le> PHYSTOP"
    using ge assms(4) by blast
  moreover have "kmem_inv s []"
    using assms by (simp add: kmem_inv_def)
  moreover have "kernel_end s \<le> PGROUNDUP (kernel_end s)"
    using ge [of "PGROUNDUP (kernel_end s)"] by simp
  ultimately have "ok (freerange_loop (PGROUNDUP (kernel_end s)) PHYSTOP s) (\<lambda>_ s'. \<exists>ys. kmem_inv s' ys \<and>
    kernel_end s' = kernel_end s \<and> held s' = held s \<and>
    set ys = set [] \<union> {q. page_aligned q \<and> PGROUNDUP (kernel_end s) \<le> q \<and> q < PHYSTOP})"
    using assms(2) by (intro freerange_loop_ok) auto
  moreover have "{q. page_aligned q \<and> PGROUNDUP (kernel_end s) \<le> q \<and> q < PHYSTOP} =
      {q. page_aligned q \<and> kernel_end s \<le> q \<and> q < PHYSTOP}"
    using ge by blast
  ultimately show ?thesis
    by (auto simp: kinit_def freerange_def ok_iff)
qed

theorem kinit_correct_witness:
  "\<exists>s' xs. kinit (zero_machine 0x87FFE123 0) = Ret () s' \<and> kmem_inv s' xs \<and>
     0x87FFF000 \<in> set xs \<and> 0x87FFE000 \<notin> set xs"
proof -
  from kinit_correct [of "zero_machine 0x87FFE123 0"]
  obtain s' xs where s': "kinit (zero_machine 0x87FFE123 0) = Ret () s'" "kmem_inv s' xs"
    and xs: "set xs = {q. page_aligned q \<and> 0x87FFE123 \<le> q \<and> q < PHYSTOP}"
    by auto
  have "0x87FFF000 \<in> set xs \<and> 0x87FFE000 \<notin> set xs"
    unfolding xs by (simp add: page_aligned_def)
  then show ?thesis
    using s' by blast
qed

end
