(* ===== verification/Vm.thy ===== *)
theory Vm
  imports Kalloc
begin

section \<open>Page tables and user memory (vm.c): operations\<close>

text \<open>
  \<^verbatim>\<open>riscv/kernel/vm.c\<close>. Page tables live in the byte memory, as in the code: a page-table
  page holds 512 little-endian entries of eight bytes. An address of an entry is an address
  of that memory; \<open>load64\<close> and \<open>store64\<close> at it are the code's \<^verbatim>\<open>*pte\<close>.

  Buffers of the kernel that the code passes to \<^verbatim>\<open>copyout\<close> and \<^verbatim>\<open>copyin\<close> are fields of kernel
  structures or locals, outside the pages of the allocator: \<open>copyout\<close> takes the bytes of the
  source, \<open>copyin\<close> and \<open>copyinstr\<close> return the bytes written to the destination, also when
  they fail half-way.

  The loops stop because \<^verbatim>\<open>walk\<close> panics at \<^verbatim>\<open>MAXVA\<close>.
\<close>

definition pte_at :: "uint64 \<Rightarrow> uint64 \<Rightarrow> uint64" where
  "pte_at pt i = pt + 8 * i"

fun walk_levels :: "nat \<Rightarrow> uint64 \<Rightarrow> uint64 \<Rightarrow> bool \<Rightarrow> 'a machine_scheme \<Rightarrow> ('a machine_scheme, uint64) outcome" where
  "walk_levels 0 pgtbl va alloc s = Ret (pte_at pgtbl (PX 0 va)) s"
| "walk_levels (Suc l) pgtbl va alloc s =
     (let pte = pte_at pgtbl (PX (Suc l) va) in
      if load64 (mem s) pte AND PTE_V \<noteq> 0
      then walk_levels l (PTE2PA (load64 (mem s) pte)) va alloc s
      else if \<not> alloc then Ret 0 s
      else bnd (kalloc s) (\<lambda>pgtbl s.
        if pgtbl = 0 then Ret 0 s
        else
          let s = s\<lparr>mem := memset (mem s) pgtbl 0 4096\<rparr>;
              s = s\<lparr>mem := store64 (mem s) pte (PA2PTE pgtbl OR PTE_V)\<rparr>
          in walk_levels l pgtbl va alloc s))"

definition walk :: "uint64 \<Rightarrow> uint64 \<Rightarrow> bool \<Rightarrow> 'a machine_scheme \<Rightarrow> ('a machine_scheme, uint64) outcome" where
  "walk pgtbl va alloc s =
     (if va \<ge> MAXVA then Panic ''walk'' else walk_levels 2 pgtbl va alloc s)"

lemma walk_RetD: "walk pgtbl va alloc s = Ret r s' \<Longrightarrow> va < MAXVA"
  by (auto simp: walk_def split: if_splits)

text \<open>Dereferencing a null entry pointer faults in the kernel.\<close>

definition load_pte :: "uint64 \<Rightarrow> 'a machine_scheme \<Rightarrow> ('a machine_scheme, uint64) outcome" where
  "load_pte pte s = (if pte = 0 then Panic ''kerneltrap'' else Ret (load64 (mem s) pte) s)"

definition walkaddr :: "uint64 \<Rightarrow> uint64 \<Rightarrow> 'a machine_scheme \<Rightarrow> ('a machine_scheme, uint64) outcome" where
  "walkaddr pgtbl va s =
     (if va \<ge> MAXVA then Ret 0 s
      else bnd (walk pgtbl va False s) (\<lambda>pte s.
        if pte = 0 then Ret 0 s
        else if load64 (mem s) pte AND PTE_V = 0 then Ret 0 s
        else if load64 (mem s) pte AND PTE_U = 0 then Ret 0 s
        else Ret (PTE2PA (load64 (mem s) pte)) s))"

lemma word_page_measure:
  assumes "(a :: uint64) < MAXVA"
  shows "2 ^ 64 - unat (a + 4096) < 2 ^ 64 - unat a"
proof -
  have "unat a < 0x4000000000"
    using assms by (simp add: word_less_nat_alt)
  moreover from this have "unat (a + 4096) = unat a + 4096"
    using unat_add_small [of a 4096] by simp
  ultimately show ?thesis by simp
qed

function mappages_loop :: "uint64 \<Rightarrow> uint64 \<Rightarrow> uint64 \<Rightarrow> uint64 \<Rightarrow> uint64 \<Rightarrow> 'a machine_scheme \<Rightarrow>
    ('a machine_scheme, int) outcome" where
  "mappages_loop pgtbl a last_va pa perm s =
     bnd (walk pgtbl a True s) (\<lambda>pte s.
     if pte = 0 then Ret (-1) s
     else if load64 (mem s) pte AND PTE_V \<noteq> 0 then Panic ''mappages: remap''
     else
       let s = s\<lparr>mem := store64 (mem s) pte (PA2PTE pa OR perm OR PTE_V)\<rparr> in
       if a = last_va then Ret 0 s
       else mappages_loop pgtbl (a + PGSIZE) last_va (pa + PGSIZE) perm s)"
  by pat_completeness auto
termination
  by (relation "measure (\<lambda>(pgtbl, a, last_va, pa, perm, s). 2 ^ 64 - unat a)")
    (simp_all only: PGSIZE_def in_measure split_conv wf_measure word_page_measure walk_RetD)

declare mappages_loop.simps [simp del]

definition mappages :: "uint64 \<Rightarrow> uint64 \<Rightarrow> uint64 \<Rightarrow> uint64 \<Rightarrow> uint64 \<Rightarrow> 'a machine_scheme \<Rightarrow>
    ('a machine_scheme, int) outcome" where
  "mappages pgtbl va len pa perm s =
     (if va mod PGSIZE \<noteq> 0 then Panic ''mappages: va not aligned''
      else if len mod PGSIZE \<noteq> 0 then Panic ''mappages: size not aligned''
      else if len = 0 then Panic ''mappages: size''
      else mappages_loop pgtbl va (va + len - PGSIZE) pa perm s)"

definition kvmmap :: "uint64 \<Rightarrow> uint64 \<Rightarrow> uint64 \<Rightarrow> uint64 \<Rightarrow> uint64 \<Rightarrow> 'a machine_scheme \<Rightarrow>
    ('a machine_scheme, unit) outcome" where
  "kvmmap kpgtbl va pa len perm s =
     bnd (mappages kpgtbl va len pa perm s) (\<lambda>r s. if r \<noteq> 0 then Panic ''kvmmap'' else Ret () s)"

definition proc_mapstacks :: "uint64 \<Rightarrow> 'a machine_scheme \<Rightarrow> ('a machine_scheme, unit) outcome" where
  "proc_mapstacks kpgtbl s =
     for_each [0..<NPROC] (\<lambda>i s.
       bnd (kalloc s) (\<lambda>pa s.
       if pa = 0 then Panic ''kalloc''
       else kvmmap kpgtbl (KSTACK i) pa PGSIZE (PTE_R OR PTE_W) s)) s"

definition UART0 :: uint64 where "UART0 = 0x10000000"
definition VIRTIO0 :: uint64 where "VIRTIO0 = 0x10001000"
definition PLIC :: uint64 where "PLIC = 0x0c000000"

text \<open>\<open>etext\<close> and \<open>trampoline\<close> are symbols of the linker script.\<close>

definition kvmmake :: "uint64 \<Rightarrow> uint64 \<Rightarrow> 'a machine_scheme \<Rightarrow> ('a machine_scheme, uint64) outcome" where
  "kvmmake etext trampoline s =
     bnd (kalloc s) (\<lambda>kpgtbl s.
     let s = s\<lparr>mem := memset (mem s) kpgtbl 0 4096\<rparr> in
     bnd (kvmmap kpgtbl UART0 UART0 PGSIZE (PTE_R OR PTE_W) s) (\<lambda>_ s.
     bnd (kvmmap kpgtbl VIRTIO0 VIRTIO0 PGSIZE (PTE_R OR PTE_W) s) (\<lambda>_ s.
     bnd (kvmmap kpgtbl PLIC PLIC 0x4000000 (PTE_R OR PTE_W) s) (\<lambda>_ s.
     bnd (kvmmap kpgtbl KERNBASE KERNBASE (etext - KERNBASE) (PTE_R OR PTE_X) s) (\<lambda>_ s.
     bnd (kvmmap kpgtbl etext etext (PHYSTOP - etext) (PTE_R OR PTE_W) s) (\<lambda>_ s.
     bnd (kvmmap kpgtbl TRAMPOLINE trampoline PGSIZE (PTE_R OR PTE_X) s) (\<lambda>_ s.
     bnd (proc_mapstacks kpgtbl s) (\<lambda>_ s. Ret kpgtbl s))))))))"

definition uvmcreate :: "'a machine_scheme \<Rightarrow> ('a machine_scheme, uint64) outcome" where
  "uvmcreate s =
     bnd (kalloc s) (\<lambda>pgtbl s.
     if pgtbl = 0 then Ret 0 s
     else Ret pgtbl (s\<lparr>mem := memset (mem s) pgtbl 0 4096\<rparr>))"

function uvmunmap_loop :: "uint64 \<Rightarrow> uint64 \<Rightarrow> uint64 \<Rightarrow> bool \<Rightarrow> 'a machine_scheme \<Rightarrow>
    ('a machine_scheme, unit) outcome" where
  "uvmunmap_loop pgtbl a end_va do_free s =
     (if a < end_va then
        bnd (walk pgtbl a False s) (\<lambda>pte s.
        if pte = 0 then uvmunmap_loop pgtbl (a + PGSIZE) end_va do_free s
        else if load64 (mem s) pte AND PTE_V = 0 then uvmunmap_loop pgtbl (a + PGSIZE) end_va do_free s
        else
          bnd (if do_free then kfree (PTE2PA (load64 (mem s) pte)) s else Ret () s) (\<lambda>_ s.
          uvmunmap_loop pgtbl (a + PGSIZE) end_va do_free (s\<lparr>mem := store64 (mem s) pte 0\<rparr>)))
      else Ret () s)"
  by pat_completeness auto
termination
  by (relation "measure (\<lambda>(pgtbl, a, end_va, do_free, s). 2 ^ 64 - unat a)")
    (simp_all only: PGSIZE_def in_measure split_conv wf_measure word_page_measure walk_RetD)

declare uvmunmap_loop.simps [simp del]

definition uvmunmap :: "uint64 \<Rightarrow> uint64 \<Rightarrow> uint64 \<Rightarrow> bool \<Rightarrow> 'a machine_scheme \<Rightarrow>
    ('a machine_scheme, unit) outcome" where
  "uvmunmap pgtbl va npages do_free s =
     (if va mod PGSIZE \<noteq> 0 then Panic ''uvmunmap: not aligned''
      else uvmunmap_loop pgtbl va (va + npages * PGSIZE) do_free s)"

text \<open>
  In \<^verbatim>\<open>uvmdealloc\<close> the page count goes through an \<^verbatim>\<open>int\<close>: it is cut to 32 bits and sign
  extended back.
\<close>

definition uvmdealloc :: "uint64 \<Rightarrow> uint64 \<Rightarrow> uint64 \<Rightarrow> 'a machine_scheme \<Rightarrow>
    ('a machine_scheme, uint64) outcome" where
  "uvmdealloc pgtbl oldsz newsz s =
     (if newsz \<ge> oldsz then Ret oldsz s
      else if PGROUNDUP newsz < PGROUNDUP oldsz then
        let npages = ucast ((PGROUNDUP oldsz - PGROUNDUP newsz) div PGSIZE) :: uint32 in
        bnd (uvmunmap pgtbl (PGROUNDUP newsz) (scast npages) True s) (\<lambda>_ s. Ret newsz s)
      else Ret newsz s)"

lemma mappages_loop_RetD:
  "mappages_loop pgtbl a last_va pa perm s = Ret r s' \<Longrightarrow> a < MAXVA"
  by (subst (asm) mappages_loop.simps) (auto simp: ret_iff dest: walk_RetD)

lemma mappages_RetD: "mappages pgtbl a n pa perm s = Ret r s' \<Longrightarrow> a < MAXVA"
  by (auto simp: mappages_def ret_iff dest: mappages_loop_RetD split: if_splits)

function uvmalloc_loop :: "uint64 \<Rightarrow> uint64 \<Rightarrow> uint64 \<Rightarrow> uint64 \<Rightarrow> uint64 \<Rightarrow> 'a machine_scheme \<Rightarrow>
    ('a machine_scheme, uint64) outcome" where
  "uvmalloc_loop pgtbl a oldsz newsz xperm s =
     (if a < newsz then
        bnd (kalloc s) (\<lambda>pg s.
        if pg = 0 then bnd (uvmdealloc pgtbl a oldsz s) (\<lambda>_ s. Ret 0 s)
        else
          let s = s\<lparr>mem := memset (mem s) pg 0 4096\<rparr> in
          bnd (mappages pgtbl a PGSIZE pg (PTE_R OR PTE_U OR xperm) s) (\<lambda>r s.
          if r \<noteq> 0 then
            bnd (kfree pg s) (\<lambda>_ s.
            bnd (uvmdealloc pgtbl a oldsz s) (\<lambda>_ s. Ret 0 s))
          else uvmalloc_loop pgtbl (a + PGSIZE) oldsz newsz xperm s))
      else Ret newsz s)"
  by pat_completeness auto
termination
  by (relation "measure (\<lambda>(pgtbl, a, oldsz, newsz, xperm, s). 2 ^ 64 - unat a)")
    (auto simp only: PGSIZE_def in_measure split_conv wf_measure intro!: word_page_measure dest: mappages_RetD)

declare uvmalloc_loop.simps [simp del]

definition uvmalloc :: "uint64 \<Rightarrow> uint64 \<Rightarrow> uint64 \<Rightarrow> uint64 \<Rightarrow> 'a machine_scheme \<Rightarrow>
    ('a machine_scheme, uint64) outcome" where
  "uvmalloc pgtbl oldsz newsz xperm s =
     (if newsz < oldsz then Ret oldsz s
      else uvmalloc_loop pgtbl (PGROUNDUP oldsz) (PGROUNDUP oldsz) newsz xperm s)"

text \<open>
  \<^verbatim>\<open>freewalk\<close> recurses without a bound. The depth argument is that bound: page tables have
  three levels, and a deeper recursion would run off the kernel stack into its guard page.
\<close>

primrec freewalk_depth :: "nat \<Rightarrow> uint64 \<Rightarrow> 'a machine_scheme \<Rightarrow> ('a machine_scheme, unit) outcome" where
  "freewalk_depth 0 pgtbl s = Panic ''kerneltrap''"
| "freewalk_depth (Suc d) pgtbl s =
     bnd (for_each [0..<512] (\<lambda>i s.
       let pte = load64 (mem s) (pte_at pgtbl (of_nat i)) in
       if pte AND PTE_V \<noteq> 0 \<and> pte AND (PTE_R OR PTE_W OR PTE_X) = 0 then
         bnd (freewalk_depth d (PTE2PA pte) s) (\<lambda>_ s.
         Ret () (s\<lparr>mem := store64 (mem s) (pte_at pgtbl (of_nat i)) 0\<rparr>))
       else if pte AND PTE_V \<noteq> 0 then Panic ''freewalk: leaf''
       else Ret () s) s) (\<lambda>_ s.
     kfree pgtbl s)"

definition freewalk :: "uint64 \<Rightarrow> 'a machine_scheme \<Rightarrow> ('a machine_scheme, unit) outcome" where
  "freewalk pgtbl s = freewalk_depth 3 pgtbl s"

definition uvmfree :: "uint64 \<Rightarrow> uint64 \<Rightarrow> 'a machine_scheme \<Rightarrow> ('a machine_scheme, unit) outcome" where
  "uvmfree pgtbl n s =
     bnd (if n > 0 then uvmunmap pgtbl 0 (PGROUNDUP n div PGSIZE) True s else Ret () s) (\<lambda>_ s.
     freewalk pgtbl s)"

function uvmcopy_loop :: "uint64 \<Rightarrow> uint64 \<Rightarrow> uint64 \<Rightarrow> uint64 \<Rightarrow> 'a machine_scheme \<Rightarrow>
    ('a machine_scheme, int) outcome" where
  "uvmcopy_loop old new i n s =
     (if i < n then
        bnd (walk old i False s) (\<lambda>pte s.
        if pte = 0 then uvmcopy_loop old new (i + PGSIZE) n s
        else if load64 (mem s) pte AND PTE_V = 0 then uvmcopy_loop old new (i + PGSIZE) n s
        else
          let pa = PTE2PA (load64 (mem s) pte); flags = PTE_FLAGS (load64 (mem s) pte) in
          bnd (kalloc s) (\<lambda>pg s.
          if pg = 0 then bnd (uvmunmap new 0 (i div PGSIZE) True s) (\<lambda>_ s. Ret (-1) s)
          else
            let s = s\<lparr>mem := memmove (mem s) pg pa 4096\<rparr> in
            bnd (mappages new i PGSIZE pg flags s) (\<lambda>r s.
            if r \<noteq> 0 then
              bnd (kfree pg s) (\<lambda>_ s.
              bnd (uvmunmap new 0 (i div PGSIZE) True s) (\<lambda>_ s. Ret (-1) s))
            else uvmcopy_loop old new (i + PGSIZE) n s)))
      else Ret 0 s)"
  by pat_completeness auto
termination
  by (relation "measure (\<lambda>(old, new, i, n, s). 2 ^ 64 - unat i)")
    (auto simp only: PGSIZE_def in_measure split_conv wf_measure intro!: word_page_measure dest: mappages_RetD walk_RetD)

declare uvmcopy_loop.simps [simp del]

definition uvmcopy :: "uint64 \<Rightarrow> uint64 \<Rightarrow> uint64 \<Rightarrow> 'a machine_scheme \<Rightarrow> ('a machine_scheme, int) outcome" where
  "uvmcopy old new n s = uvmcopy_loop old new 0 n s"

definition uvmclear :: "uint64 \<Rightarrow> uint64 \<Rightarrow> 'a machine_scheme \<Rightarrow> ('a machine_scheme, unit) outcome" where
  "uvmclear pgtbl va s =
     bnd (walk pgtbl va False s) (\<lambda>pte s.
     if pte = 0 then Panic ''uvmclear''
     else Ret () (s\<lparr>mem := store64 (mem s) pte (load64 (mem s) pte AND NOT PTE_U)\<rparr>))"

definition ismapped :: "uint64 \<Rightarrow> uint64 \<Rightarrow> 'a machine_scheme \<Rightarrow> ('a machine_scheme, bool) outcome" where
  "ismapped pgtbl va s =
     bnd (walk pgtbl va False s) (\<lambda>pte s.
     if pte = 0 then Ret False s
     else if load64 (mem s) pte AND PTE_V \<noteq> 0 then Ret True s
     else Ret False s)"

definition vmfault :: "uint64 \<Rightarrow> uint64 \<Rightarrow> bool \<Rightarrow> 'a machine_scheme \<Rightarrow> ('a machine_scheme, uint64) outcome" where
  "vmfault pgtbl va0 rd = with_myproc (\<lambda>p s.
     if va0 \<ge> sz (procs s p) then Ret 0 s
     else
       let va = PGROUNDDOWN va0 in
       bnd (ismapped pgtbl va s) (\<lambda>b s.
       if b then Ret 0 s
       else bnd (kalloc s) (\<lambda>pg s.
         if pg = 0 then Ret 0 s
         else
           let s = s\<lparr>mem := memset (mem s) pg 0 4096\<rparr> in
           bnd (mappages (pagetable (procs s p)) va PGSIZE pg (PTE_W OR PTE_U OR PTE_R) s) (\<lambda>r s.
           if r \<noteq> 0 then bnd (kfree pg s) (\<lambda>_ s. Ret 0 s)
           else Ret pg s))))"

subsection \<open>Copying between kernel and user memory\<close>

text \<open>How many bytes of the page of \<open>va\<close> lie from \<open>va\<close> on, at most \<open>n\<close>.\<close>

definition page_run :: "uint64 \<Rightarrow> nat \<Rightarrow> nat" where
  "page_run va n = min (unat (PGSIZE - (va - PGROUNDDOWN va))) n"

lemma page_run_eq: "page_run va n = min (4096 - unat va mod 4096) n"
proof -
  have "unat (4096 - (va - PGROUNDDOWN va)) = 4096 - unat va mod 4096"
    using PGROUNDDOWN_offset [of va] by (subst unat_sub) (simp_all add: word_le_nat_alt order_less_imp_le)
  then show ?thesis
    by (simp add: page_run_def)
qed

lemma page_run_pos: "0 < n \<Longrightarrow> 0 < page_run va n"
  by (simp add: page_run_eq)

lemma page_run_le: "page_run va n \<le> n"
  by (simp add: page_run_eq)

function copyout :: "uint64 \<Rightarrow> uint64 \<Rightarrow> uint8 list \<Rightarrow> 'a machine_scheme \<Rightarrow> ('a machine_scheme, int) outcome" where
  "copyout pgtbl dstva src s =
     (if src = [] then Ret 0 s
      else
        let va0 = PGROUNDDOWN dstva in
        if va0 \<ge> MAXVA then Ret (-1) s
        else bnd (walkaddr pgtbl va0 s) (\<lambda>pa0 s.
          bnd (if pa0 = 0 then vmfault pgtbl va0 False s else Ret pa0 s) (\<lambda>pa0 s.
          if pa0 = 0 then Ret (-1) s
          else
            bnd (walk pgtbl va0 False s) (\<lambda>pte s.
            bnd (load_pte pte s) (\<lambda>e s.
            if e AND PTE_W = 0 then Ret (-1) s
            else
              let n = page_run dstva (length src);
                  s = s\<lparr>mem := store_bytes (mem s) (pa0 + (dstva - va0)) (take n src)\<rparr>
              in copyout pgtbl (va0 + PGSIZE) (drop n src) s)))))"
  by pat_completeness auto
termination
  by (relation "measure (\<lambda>(pgtbl, dstva, src, s). length src)") (auto simp: page_run_pos)

declare copyout.simps [simp del]

function copyin :: "uint64 \<Rightarrow> uint64 \<Rightarrow> nat \<Rightarrow> 'a machine_scheme \<Rightarrow>
    ('a machine_scheme, int \<times> uint8 list) outcome" where
  "copyin pgtbl srcva len s =
     (if len = 0 then Ret (0, []) s
      else
        let va0 = PGROUNDDOWN srcva in
        bnd (walkaddr pgtbl va0 s) (\<lambda>pa0 s.
        bnd (if pa0 = 0 then vmfault pgtbl va0 False s else Ret pa0 s) (\<lambda>pa0 s.
        if pa0 = 0 then Ret (-1, []) s
        else
          let n = page_run srcva len;
              bs = load_bytes (mem s) (pa0 + (srcva - va0)) n
          in bnd (copyin pgtbl (va0 + PGSIZE) (len - n) s) (\<lambda>r s. Ret (fst r, bs @ snd r) s))))"
  by pat_completeness auto
termination
  by (relation "measure (\<lambda>(pgtbl, srcva, len, s). len)") (auto simp: page_run_pos)

declare copyin.simps [simp del]

text \<open>The inner loop of \<^verbatim>\<open>copyinstr\<close>: the bytes copied from one page, and whether a NUL was among them.\<close>

fun copyinstr_page :: "memory \<Rightarrow> uint64 \<Rightarrow> nat \<Rightarrow> uint8 list \<times> bool" where
  "copyinstr_page m p 0 = ([], False)"
| "copyinstr_page m p (Suc n) =
     (if m p = 0 then ([0], True)
      else let r = copyinstr_page m (p + 1) n in (m p # fst r, snd r))"

lemma copyinstr_page_len: "\<not> snd (copyinstr_page m p n) \<Longrightarrow> length (fst (copyinstr_page m p n)) = n"
  by (induction m p n rule: copyinstr_page.induct) (auto simp: Let_def split: if_splits)

function copyinstr :: "uint64 \<Rightarrow> uint64 \<Rightarrow> nat \<Rightarrow> 'a machine_scheme \<Rightarrow>
    ('a machine_scheme, int \<times> uint8 list) outcome" where
  "copyinstr pgtbl srcva mx s =
     (if mx = 0 then Ret (-1, []) s
      else
        let va0 = PGROUNDDOWN srcva in
        bnd (walkaddr pgtbl va0 s) (\<lambda>pa0 s.
        if pa0 = 0 then Ret (-1, []) s
        else
          let c = copyinstr_page (mem s) (pa0 + (srcva - va0)) (page_run srcva mx) in
          if snd c then Ret (0, fst c) s
          else bnd (copyinstr pgtbl (va0 + PGSIZE) (mx - length (fst c)) s) (\<lambda>r s.
            Ret (fst r, fst c @ snd r) s)))"
  by pat_completeness auto
termination
  by (relation "measure (\<lambda>(pgtbl, srcva, mx, s). mx)") (auto simp: copyinstr_page_len page_run_pos)

declare copyinstr.simps [simp del]

text \<open>
  \<^verbatim>\<open>either_copyout\<close> and \<^verbatim>\<open>either_copyin\<close> of \<^verbatim>\<open>proc.c\<close>: the address is a user or a kernel one.
\<close>

definition either_copyout :: "bool \<Rightarrow> uint64 \<Rightarrow> uint8 list \<Rightarrow> 'a machine_scheme \<Rightarrow>
    ('a machine_scheme, int) outcome" where
  "either_copyout user_dst dst src s =
     (if user_dst then with_myproc (\<lambda>p s. copyout (pagetable (procs s p)) dst src s) s
      else Ret 0 (s\<lparr>mem := store_bytes (mem s) dst src\<rparr>))"

definition either_copyin :: "bool \<Rightarrow> uint64 \<Rightarrow> nat \<Rightarrow> 'a machine_scheme \<Rightarrow>
    ('a machine_scheme, int \<times> uint8 list) outcome" where
  "either_copyin user_src src len s =
     (if user_src then with_myproc (\<lambda>p s. copyin (pagetable (procs s p)) src len s) s
      else Ret (0, load_bytes (mem s) src len) s)"

end
