(* ===== verification/PageTable.thy ===== *)
theory PageTable
  imports Vm
begin

section \<open>Page tables as maps (vm.c): what the operations do\<close>

text \<open>
  The page table in memory seen as a tree: \<open>pt_pages l m pt\<close> are the page-table pages of the
  tree of height \<open>l\<close> at \<open>pt\<close>, \<open>pt_tree l m pt\<close> says that they really form a tree (no page is
  reached twice), \<open>pt_leaf\<close> is the address of the leaf entry of a virtual address and
  \<open>pt_get\<close> its value, 0 when an inner entry is missing. Every operation of \<^verbatim>\<open>vm.c\<close> that
  changes the table is described by its effect on \<open>pt_get\<close>, \<open>pt_pages\<close> and the allocator's
  free list.
\<close>

subsection \<open>Entries of a page\<close>

definition same_on :: "uint64 set \<Rightarrow> memory \<Rightarrow> memory \<Rightarrow> bool" where
  "same_on A m m' \<longleftrightarrow> (\<forall>x \<in> A. m' x = m x)"

lemma same_on_subset: "same_on A m m' \<Longrightarrow> B \<subseteq> A \<Longrightarrow> same_on B m m'"
  by (auto simp: same_on_def)

lemma same_on_trans: "same_on A m m' \<Longrightarrow> same_on A m' m'' \<Longrightarrow> same_on A m m''"
  by (simp add: same_on_def)

lemma same_on_Un: "same_on (A \<union> B) m m' \<longleftrightarrow> same_on A m m' \<and> same_on B m m'"
  by (auto simp: same_on_def)

definition pte_valid :: "uint64 \<Rightarrow> bool" where
  "pte_valid e \<longleftrightarrow> e AND PTE_V \<noteq> 0"

lemma not_valid_0 [simp]: "\<not> pte_valid 0"
  by (simp add: pte_valid_def)

lemma unat_mult8: "(i :: uint64) < 512 \<Longrightarrow> unat (8 * i) = 8 * unat i"
  by (subst unat_mult_lem [THEN iffD1]) (simp_all add: word_less_nat_alt)

lemma pte_run_in_page:
  assumes "i < 512"
  shows "run_at (pte_at pt i) 8 \<subseteq> page pt"
proof
  fix x
  assume "x \<in> run_at (pte_at pt i) 8"
  then obtain k where k: "k < 8" "x = pte_at pt i + of_nat k"
    by (rule run_atE)
  have "x - pt = 8 * i + of_nat k"
    by (simp add: k pte_at_def)
  moreover have "unat (8 * i + of_nat k) = 8 * unat i + k"
    using unat_add_small [of "8 * i" k] assms k(1) by (simp add: unat_mult8 word_less_nat_alt)
  ultimately show "x \<in> page pt"
    using assms k(1) by (simp add: page_def run_at_def word_less_nat_alt)
qed

lemma pte_at_inj: "i < 512 \<Longrightarrow> j < 512 \<Longrightarrow> i \<noteq> j \<Longrightarrow> run_at (pte_at pt i) 8 \<inter> run_at (pte_at pt j) 8 = {}"
proof -
  assume ij: "i < 512" "j < 512" "i \<noteq> j"
  have "unat (x - pt) div 8 = unat k" if k: "k < 512" and x: "x \<in> run_at (pte_at pt k) 8" for x k
  proof -
    obtain n where n: "n < 8" "x = pte_at pt k + of_nat n"
      using x by (rule run_atE)
    have "unat (8 * k + of_nat n) = 8 * unat k + n"
      using unat_add_small [of "8 * k" n] k n(1) by (simp add: unat_mult8 word_less_nat_alt)
    then show ?thesis
      using n by (simp add: pte_at_def add.assoc)
  qed
  then show ?thesis
    using ij by (metis disjoint_iff word_unat_eq_iff)
qed

lemma load_pte_cong:
  assumes "same_on (page pt) m m'" "i < 512"
  shows "load64 m' (pte_at pt i) = load64 m (pte_at pt i)"
  using assms(1) pte_run_in_page [OF assms(2), of pt] unfolding same_on_def by (intro load64_cong) blast

lemma load_store_pte:
  assumes "i < 512" "j < 512"
  shows "load64 (store64 m (pte_at pt i) v) (pte_at pt j) = (if i = j then v else load64 m (pte_at pt j))"
  using pte_at_inj [of j i pt] assms by (auto simp: mem_simps)

lemma store_pte_out:
  "i < 512 \<Longrightarrow> x \<notin> page pt \<Longrightarrow> store64 m (pte_at pt i) v x = m x"
  using pte_run_in_page by (intro store64_out) blast

lemma PX_less [simp]: "PX l va < 512"
  using unat_PX_less [of l va] by (simp add: word_less_nat_alt)

subsection \<open>The tree\<close>

text \<open>The entries of a page, the indices of the valid ones, and the page each points to.\<close>

definition pt_ent :: "memory \<Rightarrow> uint64 \<Rightarrow> uint64 \<Rightarrow> uint64" where
  "pt_ent m pt i = load64 m (pte_at pt i)"

definition pt_kids :: "memory \<Rightarrow> uint64 \<Rightarrow> uint64 set" where
  "pt_kids m pt = {i. i < 512 \<and> pte_valid (pt_ent m pt i)}"

definition pt_kid :: "memory \<Rightarrow> uint64 \<Rightarrow> uint64 \<Rightarrow> uint64" where
  "pt_kid m pt i = PTE2PA (pt_ent m pt i)"

primrec pt_pages :: "nat \<Rightarrow> memory \<Rightarrow> uint64 \<Rightarrow> uint64 set" where
  "pt_pages 0 m pt = {pt}"
| "pt_pages (Suc l) m pt = insert pt (\<Union>i \<in> pt_kids m pt. pt_pages l m (pt_kid m pt i))"

primrec pt_tree :: "nat \<Rightarrow> memory \<Rightarrow> uint64 \<Rightarrow> bool" where
  "pt_tree 0 m pt \<longleftrightarrow> page_aligned pt"
| "pt_tree (Suc l) m pt \<longleftrightarrow> page_aligned pt \<and>
     (\<forall>i \<in> pt_kids m pt.
        pt_ent m pt i AND (PTE_R OR PTE_W OR PTE_X) = 0 \<and>
        pt_tree l m (pt_kid m pt i) \<and>
        pt \<notin> pt_pages l m (pt_kid m pt i) \<and>
        (\<forall>j \<in> pt_kids m pt. j \<noteq> i \<longrightarrow>
           pt_pages l m (pt_kid m pt i) \<inter> pt_pages l m (pt_kid m pt j) = {}))"

primrec pt_leaf :: "nat \<Rightarrow> memory \<Rightarrow> uint64 \<Rightarrow> uint64 \<Rightarrow> uint64 option" where
  "pt_leaf 0 m pt va = Some (pte_at pt (PX 0 va))"
| "pt_leaf (Suc l) m pt va =
     (if PX (Suc l) va \<in> pt_kids m pt then pt_leaf l m (pt_kid m pt (PX (Suc l) va)) va else None)"

definition pt_get :: "nat \<Rightarrow> memory \<Rightarrow> uint64 \<Rightarrow> uint64 \<Rightarrow> uint64" where
  "pt_get l m pt va = (case pt_leaf l m pt va of None \<Rightarrow> 0 | Some a \<Rightarrow> load64 m a)"

lemma pt_get_simps:
  "pt_get 0 m pt va = pt_ent m pt (PX 0 va)"
  "pt_get (Suc l) m pt va =
     (if PX (Suc l) va \<in> pt_kids m pt then pt_get l m (pt_kid m pt (PX (Suc l) va)) va else 0)"
  by (simp_all add: pt_get_def pt_ent_def)

lemma root_in_pages [simp]: "pt \<in> pt_pages l m pt"
  by (cases l) auto

lemma pt_kids_less: "i \<in> pt_kids m pt \<Longrightarrow> i < 512"
  by (simp add: pt_kids_def)

lemma pt_tree_aligned: "pt_tree l m pt \<Longrightarrow> p \<in> pt_pages l m pt \<Longrightarrow> page_aligned p"
  by (induction l arbitrary: pt) auto

lemma pt_leaf_in_pages:
  "pt_leaf l m pt va = Some a \<Longrightarrow> \<exists>q \<in> pt_pages l m pt. a = pte_at q (PX 0 va)"
proof (induction l arbitrary: pt)
  case (Suc l)
  then have i: "PX (Suc l) va \<in> pt_kids m pt" "pt_leaf l m (pt_kid m pt (PX (Suc l) va)) va = Some a"
    by (auto split: if_splits)
  obtain q where "q \<in> pt_pages l m (pt_kid m pt (PX (Suc l) va))" "a = pte_at q (PX 0 va)"
    using Suc.IH [OF i(2)] by blast
  then show ?case
    using i(1) by (intro bexI [of _ q]) auto
qed auto

lemma pt_ent_cong:
  "same_on (page pt) m m' \<Longrightarrow> i < 512 \<Longrightarrow> pt_ent m' pt i = pt_ent m pt i"
  unfolding pt_ent_def by (rule load_pte_cong)

lemma pt_page_cong:
  assumes "same_on (page pt) m m'"
  shows "pt_kids m' pt = pt_kids m pt" "i < 512 \<Longrightarrow> pt_kid m' pt i = pt_kid m pt i"
proof -
  have e: "pt_ent m' pt i = pt_ent m pt i" if "i < 512" for i
    using assms that by (rule pt_ent_cong)
  show "pt_kids m' pt = pt_kids m pt"
    by (rule set_eqI) (simp add: pt_kids_def e cong: conj_cong)
  show "i < 512 \<Longrightarrow> pt_kid m' pt i = pt_kid m pt i"
    by (simp add: pt_kid_def e)
qed

text \<open>The bytes of a set of pages.\<close>

definition span :: "uint64 set \<Rightarrow> uint64 set" where
  "span P = \<Union> (page ` P)"

lemma in_spanI: "p \<in> P \<Longrightarrow> x \<in> page p \<Longrightarrow> x \<in> span P"
  by (auto simp: span_def)

lemma span_mono: "P \<subseteq> Q \<Longrightarrow> span P \<subseteq> span Q"
  by (auto simp: span_def)

lemma span_Un [simp]: "span (P \<union> Q) = span P \<union> span Q"
  by (auto simp: span_def)

lemma span_insert [simp]: "span (insert p P) = page p \<union> span P"
  by (auto simp: span_def)

lemma span_empty [simp]: "span {} = {}"
  by (simp add: span_def)

lemma span_disjoint:
  assumes "\<And>p. p \<in> P \<Longrightarrow> page_aligned p" "\<And>q. q \<in> Q \<Longrightarrow> page_aligned q" "P \<inter> Q = {}"
  shows "span P \<inter> span Q = {}"
  using assms page_disjoint unfolding span_def by blast

lemma page_span_disjoint:
  "page_aligned p \<Longrightarrow> (\<And>q. q \<in> Q \<Longrightarrow> page_aligned q) \<Longrightarrow> p \<notin> Q \<Longrightarrow> x \<in> page p \<Longrightarrow> x \<notin> span Q"
  using page_disjoint unfolding span_def by blast

text \<open>The tree only depends on the bytes of its pages.\<close>

lemma pt_frame:
  assumes "same_on (span (pt_pages l m pt)) m m'"
  shows "pt_pages l m' pt = pt_pages l m pt" (is ?P)
    and "pt_tree l m' pt = pt_tree l m pt" (is ?T)
    and "pt_leaf l m' pt va = pt_leaf l m pt va" (is ?L)
    and "pt_get l m' pt va = pt_get l m pt va" (is ?G)
proof -
  have "?P \<and> ?T \<and> ?L \<and> ?G"
    using assms
  proof (induction l arbitrary: pt)
    case 0
    then have "same_on (page pt) m m'"
      by simp
    from pt_ent_cong [OF this] show ?case
      by (simp add: pt_get_simps)
  next
    case (Suc l)
    have pt: "same_on (page pt) m m'"
      by (rule same_on_subset [OF Suc.prems]) simp
    note eq = pt_page_cong [OF pt] pt_ent_cong [OF pt]
    let ?c = "pt_kid m pt"
    have c: "pt_pages l m' (?c i) = pt_pages l m (?c i) \<and> pt_tree l m' (?c i) = pt_tree l m (?c i) \<and>
      pt_leaf l m' (?c i) va = pt_leaf l m (?c i) va \<and> pt_get l m' (?c i) va = pt_get l m (?c i) va"
      if "i \<in> pt_kids m pt" for i
    proof (rule Suc.IH)
      have "pt_pages l m (?c i) \<subseteq> pt_pages (Suc l) m pt"
        using that by auto
      then show "same_on (span (pt_pages l m (?c i))) m m'"
        by (intro same_on_subset [OF Suc.prems] span_mono)
    qed
    have k: "pt_kid m' pt i = pt_kid m pt i" if "i \<in> pt_kids m pt" for i
      using that by (intro eq(2) pt_kids_less)
    have "pt_pages (Suc l) m' pt = pt_pages (Suc l) m pt"
      using c by (simp add: eq(1) k cong: SUP_cong_simp)
    moreover have "pt_tree (Suc l) m' pt = pt_tree (Suc l) m pt"
      using c by (simp add: eq(1) eq(3) pt_kids_less k cong: ball_cong)
    moreover have "pt_leaf (Suc l) m' pt va = pt_leaf (Suc l) m pt va"
      using c by (simp add: eq(1) k)
    moreover have "pt_get (Suc l) m' pt va = pt_get (Suc l) m pt va"
      using c by (simp add: eq(1) k pt_get_simps)
    ultimately show ?case by blast
  qed
  then show ?P ?T ?L ?G by blast+
qed

subsection \<open>Changing one subtree\<close>

lemma pt_treeD:
  assumes "pt_tree (Suc l) m pt" "i \<in> pt_kids m pt"
  shows "pt_ent m pt i AND (PTE_R OR PTE_W OR PTE_X) = 0"
    and "pt_tree l m (pt_kid m pt i)" and "pt \<notin> pt_pages l m (pt_kid m pt i)"
    and "j \<in> pt_kids m pt \<Longrightarrow> j \<noteq> i \<Longrightarrow>
      pt_pages l m (pt_kid m pt i) \<inter> pt_pages l m (pt_kid m pt j) = {}"
  using assms by auto

text \<open>
  The memory changes inside the subtree of entry \<open>i\<close>: if the new subtree is a tree that
  stays clear of the root and of the other subtrees, the whole is a tree again, and only
  what the subtree maps has changed.
\<close>

lemma pt_subtree_change:
  assumes tree: "pt_tree (Suc l) m pt" and i: "i \<in> pt_kids m pt"
    and frame: "same_on (span (pt_pages (Suc l) m pt - pt_pages l m (pt_kid m pt i))) m m'"
    and sub: "pt_tree l m' (pt_kid m pt i)"
      "pt_pages l m' (pt_kid m pt i) \<inter> (pt_pages (Suc l) m pt - pt_pages l m (pt_kid m pt i)) = {}"
  shows "pt_tree (Suc l) m' pt"
    and "pt_pages (Suc l) m' pt = pt_pages l m' (pt_kid m pt i) \<union>
           (pt_pages (Suc l) m pt - pt_pages l m (pt_kid m pt i))"
    and "pt_leaf (Suc l) m' pt va =
      (if PX (Suc l) va = i then pt_leaf l m' (pt_kid m pt i) va else pt_leaf (Suc l) m pt va)"
    and "pt_get (Suc l) m' pt va =
      (if PX (Suc l) va = i then pt_get l m' (pt_kid m pt i) va else pt_get (Suc l) m pt va)"
proof -
  let ?c = "pt_kid m pt"
  let ?R = "pt_pages (Suc l) m pt - pt_pages l m (?c i)"
  have root: "same_on (page pt) m m'"
    using pt_treeD(3) [OF tree i] by (intro same_on_subset [OF frame]) (auto intro: in_spanI)
  note eq = pt_page_cong(1) [OF root] pt_ent_cong [OF root]
  have k: "pt_kid m' pt j = ?c j" if "j \<in> pt_kids m pt" for j
    using that by (intro pt_page_cong(2) [OF root] pt_kids_less)
  have other: "pt_pages l m (?c j) \<subseteq> ?R" if "j \<in> pt_kids m pt" "j \<noteq> i" for j
    using that pt_treeD(4) [OF tree i that] by auto
  have c: "pt_pages l m' (?c j) = pt_pages l m (?c j)" "pt_tree l m' (?c j) = pt_tree l m (?c j)"
      "pt_leaf l m' (?c j) va = pt_leaf l m (?c j) va" "pt_get l m' (?c j) va = pt_get l m (?c j) va"
    if "j \<in> pt_kids m pt" "j \<noteq> i" for j va
    using pt_frame [OF same_on_subset [OF frame span_mono [OF other [OF that]]]] by blast+
  have sub2: "pt \<notin> pt_pages l m' (?c i)"
    using sub(2) pt_treeD(3) [OF tree i] by auto
  have sub3: "pt_pages l m' (?c i) \<inter> pt_pages l m (?c j) = {}" if "j \<in> pt_kids m pt" "j \<noteq> i" for j
    using sub(2) other [OF that] by blast
  show "pt_leaf (Suc l) m' pt va =
      (if PX (Suc l) va = i then pt_leaf l m' (?c i) va else pt_leaf (Suc l) m pt va)"
    using i by (simp add: eq k c)
  show "pt_get (Suc l) m' pt va =
      (if PX (Suc l) va = i then pt_get l m' (?c i) va else pt_get (Suc l) m pt va)"
    using i by (simp add: eq k c pt_get_simps)
  have al: "page_aligned pt"
    using tree by simp
  show "pt_tree (Suc l) m' pt"
    unfolding pt_tree.simps eq(1)
  proof (intro conjI ballI impI)
    fix j
    assume j: "j \<in> pt_kids m pt"
    show "pt_ent m' pt j AND (PTE_R OR PTE_W OR PTE_X) = 0"
      using pt_treeD(1) [OF tree j] j by (simp add: eq pt_kids_less)
    show "pt_tree l m' (pt_kid m' pt j)"
      using pt_treeD(2) [OF tree j] sub(1) c(2) [of j] k [OF j] j by (cases "j = i") simp_all
    show "pt \<notin> pt_pages l m' (pt_kid m' pt j)"
      using pt_treeD(3) [OF tree j] sub2 c(1) [of j] k [OF j] j by (cases "j = i") simp_all
    fix n
    assume n: "n \<in> pt_kids m pt" "n \<noteq> j"
    show "pt_pages l m' (pt_kid m' pt j) \<inter> pt_pages l m' (pt_kid m' pt n) = {}"
    proof (cases "j = i \<or> n = i")
      case True
      then show ?thesis
        using sub3 [of n] sub3 [of j] c(1) [of j] c(1) [of n] k j n by auto
    next
      case False
      then show ?thesis
        using pt_treeD(4) [OF tree j n] c(1) [of j] c(1) [of n] k j n by auto
    qed
  qed (rule al)
  show "pt_pages (Suc l) m' pt = pt_pages l m' (?c i) \<union> (pt_pages (Suc l) m pt - pt_pages l m (?c i))"
    (is "?l = ?r")
  proof
    show "?l \<subseteq> ?r"
    proof
      fix p
      assume "p \<in> ?l"
      then consider "p = pt" | j where "j \<in> pt_kids m pt" "p \<in> pt_pages l m' (?c j)"
        by (auto simp: eq k)
      then show "p \<in> ?r"
      proof cases
        case 1
        then show ?thesis using pt_treeD(3) [OF tree i] by simp
      next
        case 2
        then show ?thesis
          using c(1) [of j] pt_treeD(4) [OF tree i, of j] by (cases "j = i") auto
      qed
    qed
    show "?r \<subseteq> ?l"
    proof
      fix p
      assume "p \<in> ?r"
      then consider "p \<in> pt_pages l m' (?c i)" | "p = pt"
        | j where "j \<in> pt_kids m pt" "j \<noteq> i" "p \<in> pt_pages l m (?c j)"
        by auto
      then show "p \<in> ?l"
        by cases (use i k c(1) in \<open>auto simp: eq\<close>)
    qed
  qed
qed

subsection \<open>Writing a leaf entry\<close>

definition same_path :: "nat \<Rightarrow> uint64 \<Rightarrow> uint64 \<Rightarrow> bool" where
  "same_path l va va' \<longleftrightarrow> (\<forall>k \<le> l. PX k va = PX k va')"

lemma same_path_simps:
  "same_path 0 va va' \<longleftrightarrow> PX 0 va = PX 0 va'"
  "same_path (Suc l) va va' \<longleftrightarrow> PX (Suc l) va = PX (Suc l) va' \<and> same_path l va va'"
  by (auto simp: same_path_def le_Suc_eq)

lemma pt_store_leaf:
  assumes "pt_tree l m pt" "pt_leaf l m pt va = Some a"
  shows "pt_tree l (store64 m a v) pt"
    and "pt_pages l (store64 m a v) pt = pt_pages l m pt"
    and "pt_leaf l (store64 m a v) pt va' = pt_leaf l m pt va'"
    and "pt_get l (store64 m a v) pt va' = (if same_path l va va' then v else pt_get l m pt va')"
proof -
  let ?m = "store64 m a v"
  have "pt_tree l ?m pt \<and> pt_pages l ?m pt = pt_pages l m pt \<and>
    pt_leaf l ?m pt va' = pt_leaf l m pt va' \<and>
    pt_get l ?m pt va' = (if same_path l va va' then v else pt_get l m pt va')"
    using assms
  proof (induction l arbitrary: pt)
    case 0
    then have "a = pte_at pt (PX 0 va)"
      by simp
    then show ?case
      using "0.prems" by (auto simp: pt_get_simps pt_ent_def load_store_pte same_path_simps)
  next
    case (Suc l)
    let ?i = "PX (Suc l) va" and ?c = "pt_kid m pt"
    have i: "?i \<in> pt_kids m pt" and leaf: "pt_leaf l m (?c ?i) va = Some a"
      using Suc.prems(2) by (auto split: if_splits)
    note tree = pt_treeD [OF Suc.prems(1) i]
    have IH: "pt_tree l ?m (?c ?i)" "pt_pages l ?m (?c ?i) = pt_pages l m (?c ?i)"
      "pt_leaf l ?m (?c ?i) va' = pt_leaf l m (?c ?i) va'"
      "pt_get l ?m (?c ?i) va' = (if same_path l va va' then v else pt_get l m (?c ?i) va')"
      using Suc.IH [OF tree(2) leaf] by blast+
    obtain q where q: "q \<in> pt_pages l m (?c ?i)" "a = pte_at q (PX 0 va)"
      using pt_leaf_in_pages [OF leaf] by blast
    have "same_on (span (pt_pages (Suc l) m pt - pt_pages l m (?c ?i))) m ?m"
      unfolding same_on_def
    proof
      fix x
      assume "x \<in> span (pt_pages (Suc l) m pt - pt_pages l m (?c ?i))"
      then obtain p where "p \<in> pt_pages (Suc l) m pt" "p \<noteq> q" "x \<in> page p"
        using q(1) by (auto simp: span_def)
      moreover have "page_aligned q" "page_aligned p"
        using pt_tree_aligned [OF Suc.prems(1)] q(1) i calculation(1) by auto
      ultimately have "x \<notin> page q"
        using page_disjoint by blast
      then show "?m x = m x"
        unfolding q(2) by (intro store_pte_out) simp_all
    qed
    moreover have "pt_pages l ?m (?c ?i) \<inter> (pt_pages (Suc l) m pt - pt_pages l m (?c ?i)) = {}"
      using IH(2) by blast
    ultimately have chg: "pt_tree (Suc l) ?m pt"
      "pt_pages (Suc l) ?m pt = pt_pages l ?m (?c ?i) \<union> (pt_pages (Suc l) m pt - pt_pages l m (?c ?i))"
      "pt_leaf (Suc l) ?m pt va' = (if PX (Suc l) va' = ?i then pt_leaf l ?m (?c ?i) va' else pt_leaf (Suc l) m pt va')"
      "pt_get (Suc l) ?m pt va' = (if PX (Suc l) va' = ?i then pt_get l ?m (?c ?i) va' else pt_get (Suc l) m pt va')"
      using pt_subtree_change [OF Suc.prems(1) i _ IH(1)] by blast+
    have "pt_pages (Suc l) ?m pt = pt_pages (Suc l) m pt"
      using chg(2) IH(2) i by auto
    moreover have "pt_leaf (Suc l) ?m pt va' = pt_leaf (Suc l) m pt va'"
      using chg(3) IH(3) i by simp
    moreover have "pt_get (Suc l) ?m pt va' = (if same_path (Suc l) va va' then v else pt_get (Suc l) m pt va')"
      using chg(4) IH(4) i by (auto simp: same_path_simps pt_get_simps)
    ultimately show ?case
      using chg(1) by blast
  qed
  then show "pt_tree l ?m pt" "pt_pages l ?m pt = pt_pages l m pt"
    "pt_leaf l ?m pt va' = pt_leaf l m pt va'"
    "pt_get l ?m pt va' = (if same_path l va va' then v else pt_get l m pt va')"
    by blast+
qed

subsection \<open>Adding a page-table page\<close>

definition zero_page :: "memory \<Rightarrow> uint64 \<Rightarrow> bool" where
  "zero_page m p \<longleftrightarrow> (\<forall>x \<in> page p. m x = 0)"

lemma pt_ent_zero: "zero_page m p \<Longrightarrow> i < 512 \<Longrightarrow> pt_ent m p i = 0"
  using load_pte_cong [of p "\<lambda>_. 0" m i] load64_zero [of "\<lambda>_. 0"]
  by (simp add: zero_page_def same_on_def pt_ent_def)

lemma pt_zero:
  assumes "zero_page m p" "page_aligned p"
  shows "pt_tree l m p" "pt_pages l m p = {p}" "pt_get l m p va = 0"
proof -
  have "pt_kids m p = {}"
    using pt_ent_zero [OF assms(1)] by (auto simp: pt_kids_def)
  then show "pt_tree l m p" "pt_pages l m p = {p}" "pt_get l m p va = 0"
    using assms by (cases l; simp add: pt_get_simps pt_ent_zero)+
qed

lemma pte_flag_and: "k AND 0x3FF = k \<Longrightarrow> e AND k = PTE_FLAGS e AND k"
  unfolding PTE_FLAGS_def by (subst (1) and.assoc) (simp only: and.commute)

lemma pt_add_page:
  assumes tree: "pt_tree (Suc l) m pt" and i: "i < 512" "i \<notin> pt_kids m pt"
    and p: "page_aligned p" "p \<notin> pt_pages (Suc l) m pt"
  defines "m' \<equiv> store64 (memset m p 0 4096) (pte_at pt i) (PA2PTE p OR PTE_V)"
  shows "pt_tree (Suc l) m' pt" "pt_pages (Suc l) m' pt = insert p (pt_pages (Suc l) m pt)"
    "pt_get (Suc l) m' pt va = pt_get (Suc l) m pt va"
    "i \<in> pt_kids m' pt" "pt_kid m' pt i = p" "zero_page m' p"
    "x \<notin> page p \<Longrightarrow> x \<notin> page pt \<Longrightarrow> m' x = m x"
proof -
  have al: "page_aligned q" if "q \<in> pt_pages (Suc l) m pt" for q
    using pt_tree_aligned [OF tree that] .
  have pt: "page_aligned pt" "page pt \<inter> page p = {}"
    using al [of pt] page_disjoint [of pt p] p by auto
  show out: "m' x = m x" if "x \<notin> page p" "x \<notin> page pt" for x
    using that i(1) by (simp add: m'_def store_pte_out page_fill)
  show z: "zero_page m' p"
    unfolding zero_page_def
  proof
    fix x
    assume "x \<in> page p"
    moreover from this have "x \<notin> page pt"
      using pt(2) by blast
    ultimately show "m' x = 0"
      using i(1) by (simp add: m'_def store_pte_out page_fill)
  qed
  have fill: "load64 (memset m p 0 4096) (pte_at pt j) = pt_ent m pt j" if "j < 512" for j
    unfolding pt_ent_def
    by (rule load_pte_cong [OF _ that]) (use pt(2) in \<open>auto simp: same_on_def page_fill\<close>)
  have e: "pt_ent m' pt j = (if j = i then PA2PTE p OR PTE_V else pt_ent m pt j)" if "j < 512" for j
  proof -
    have "pt_ent m' pt j = load64 m' (pte_at pt j)"
      by (simp add: pt_ent_def)
    then show ?thesis
      unfolding m'_def using that i(1) fill [OF that] by (simp add: load_store_pte)
  qed
  have v: "pte_valid (PA2PTE p OR PTE_V)"
    by (simp add: pte_valid_def bit.conj_disj_distrib2)
  have kids: "pt_kids m' pt = insert i (pt_kids m pt)"
    using i v by (auto simp: pt_kids_def e split: if_splits)
  show ik: "i \<in> pt_kids m' pt"
    by (simp add: kids)
  show kid: "pt_kid m' pt i = p"
    using i(1) p by (simp add: pt_kid_def e PTE2PA_PA2PTE_or)
  have k: "pt_kid m' pt j = pt_kid m pt j" "j \<noteq> i" if "j \<in> pt_kids m pt" for j
    using that i(2) pt_kids_less [OF that] by (auto simp: pt_kid_def e)
  have c: "pt_pages l m' (pt_kid m pt j) = pt_pages l m (pt_kid m pt j)"
      "pt_tree l m' (pt_kid m pt j) = pt_tree l m (pt_kid m pt j)"
      "pt_get l m' (pt_kid m pt j) va = pt_get l m (pt_kid m pt j) va" if "j \<in> pt_kids m pt" for j va
  proof -
    have "same_on (span (pt_pages l m (pt_kid m pt j))) m m'"
      unfolding same_on_def
    proof
      fix x
      assume "x \<in> span (pt_pages l m (pt_kid m pt j))"
      then obtain q where q: "q \<in> pt_pages l m (pt_kid m pt j)" "x \<in> page q"
        by (auto simp: span_def)
      have qin: "q \<in> pt_pages (Suc l) m pt"
        using q that by auto
      have "q \<noteq> pt" "q \<noteq> p"
        using q pt_treeD(3) [OF tree that] qin p(2) by auto
      then have "page q \<inter> page p = {}" "page q \<inter> page pt = {}"
        using page_disjoint [OF al [OF qin] p(1)] page_disjoint [OF al [OF qin] pt(1)] by simp_all
      then show "m' x = m x"
        using q(2) by (intro out) auto
    qed
    then show "pt_pages l m' (pt_kid m pt j) = pt_pages l m (pt_kid m pt j)"
      "pt_tree l m' (pt_kid m pt j) = pt_tree l m (pt_kid m pt j)"
      "pt_get l m' (pt_kid m pt j) va = pt_get l m (pt_kid m pt j) va"
      by (rule pt_frame)+
  qed
  note zp = pt_zero [OF z p(1), of l]
  show "pt_pages (Suc l) m' pt = insert p (pt_pages (Suc l) m pt)"
    by (auto simp: kids kid k c zp)
  show "pt_get (Suc l) m' pt va = pt_get (Suc l) m pt va"
    using i(2) by (auto simp: pt_get_simps kids kid k c zp)
  have np: "p \<notin> pt_pages l m (pt_kid m pt j)" if "j \<in> pt_kids m pt" for j
    using p(2) that by auto
  have flags: "(PA2PTE p OR PTE_V) AND (PTE_R OR PTE_W OR PTE_X) = 0"
    by (subst pte_flag_and) (simp_all add: PTE_FLAGS_PA2PTE_or)
  show "pt_tree (Suc l) m' pt"
    unfolding pt_tree.simps kids
  proof (intro conjI ballI impI)
    fix j
    assume "j \<in> insert i (pt_kids m pt)"
    then consider "j = i" | "j \<in> pt_kids m pt" "j \<noteq> i"
      by blast
    note j = this
    show "pt_ent m' pt j AND (PTE_R OR PTE_W OR PTE_X) = 0"
      using j by cases (use flags i(1) pt_treeD(1) [OF tree] pt_kids_less in \<open>simp_all add: e\<close>)
    show "pt_tree l m' (pt_kid m' pt j)"
      using j by cases (use pt_treeD(2) [OF tree] in \<open>simp_all add: kid zp k c\<close>)
    show "pt \<notin> pt_pages l m' (pt_kid m' pt j)"
      using j by cases (use pt_treeD(3) [OF tree] p(2) in \<open>auto simp: kid zp k c\<close>)
    fix n
    assume "n \<in> insert i (pt_kids m pt)" "n \<noteq> j"
    then consider "j = i" "n \<in> pt_kids m pt" | "n = i" "j \<in> pt_kids m pt"
      | "j \<in> pt_kids m pt" "n \<in> pt_kids m pt"
      using \<open>j \<in> insert i (pt_kids m pt)\<close> by blast
    then show "pt_pages l m' (pt_kid m' pt j) \<inter> pt_pages l m' (pt_kid m' pt n) = {}"
    proof cases
      case 3
      then show ?thesis
        using pt_treeD(4) [OF tree 3 \<open>n \<noteq> j\<close>] by (simp add: k c)
    qed (use np in \<open>simp_all add: kid zp k c\<close>)
  qed (rule pt(1))
qed

subsection \<open>walk\<close>

lemma walk_valid: "load64 m (pte_at pt (PX l va)) AND PTE_V \<noteq> 0 \<longleftrightarrow> PX l va \<in> pt_kids m pt"
  by (simp add: pt_kids_def pt_ent_def pte_valid_def)

lemma walk_levels_Suc:
  "walk_levels (Suc l) pgtbl va alloc s =
     (if PX (Suc l) va \<in> pt_kids (mem s) pgtbl
      then walk_levels l (pt_kid (mem s) pgtbl (PX (Suc l) va)) va alloc s
      else if \<not> alloc then Ret 0 s
      else bnd (kalloc s) (\<lambda>pg s.
        if pg = 0 then Ret 0 s
        else walk_levels l pg va alloc
          (s\<lparr>mem := store64 (memset (mem s) pg 0 4096) (pte_at pgtbl (PX (Suc l) va)) (PA2PTE pg OR PTE_V)\<rparr>)))"
  unfolding walk_levels.simps Let_def walk_valid by (simp add: pt_kid_def pt_ent_def cong: if_cong)

lemma walk_levels_find:
  "walk_levels l pt va False s = Ret (case pt_leaf l (mem s) pt va of None \<Rightarrow> 0 | Some a \<Rightarrow> a) s"
  by (induction l arbitrary: pt) (auto simp: walk_levels_Suc simp del: walk_levels.simps(2))

definition vm_ok :: "nat \<Rightarrow> 'a machine_scheme \<Rightarrow> uint64 \<Rightarrow> uint64 list \<Rightarrow> bool" where
  "vm_ok l s pt xs \<longleftrightarrow> kmem_inv s xs \<and> Lk_kmem \<notin> held s \<and> pt_tree l (mem s) pt \<and>
     (\<forall>p \<in> pt_pages l (mem s) pt. phys_page s p) \<and> pt_pages l (mem s) pt \<inter> set xs = {}"

lemma vm_okD:
  assumes "vm_ok l s pt xs"
  shows "kmem_inv s xs" "Lk_kmem \<notin> held s" "pt_tree l (mem s) pt"
    "p \<in> pt_pages l (mem s) pt \<Longrightarrow> phys_page s p" "pt_pages l (mem s) pt \<inter> set xs = {}"
  using assms by (auto simp: vm_ok_def)

text \<open>Two states that differ at most in the memory and the list head.\<close>

definition mem_only :: "'a machine_scheme \<Rightarrow> 'a machine_scheme \<Rightarrow> bool" where
  "mem_only s s' \<longleftrightarrow> (\<exists>m f. s' = s\<lparr>mem := m, freelist := f\<rparr>)"

lemma mem_only_refl [simp]: "mem_only s s"
  unfolding mem_only_def by (intro exI [of _ "mem s"] exI [of _ "freelist s"]) simp

lemma mem_only_trans: "mem_only s s1 \<Longrightarrow> mem_only s1 s2 \<Longrightarrow> mem_only s s2"
  unfolding mem_only_def by (elim exE) (auto intro!: exI)

lemma mem_only_mem: "mem_only s s' \<Longrightarrow> mem_only s (s'\<lparr>mem := m\<rparr>)"
  unfolding mem_only_def by (elim exE) (auto intro!: exI)

lemma mem_onlyD:
  assumes "mem_only s s'"
  shows "held s' = held s" "procs s' = procs s" "myproc s' = myproc s" "kernel_end s' = kernel_end s"
  using assms by (auto simp: mem_only_def)

text \<open>
  What a call leaves that may have taken \<open>k\<close> pages from the free list for page-table pages
  of the tree at \<open>pt\<close>: nothing mapped has changed, and no byte outside the tree's pages.
\<close>

definition vm_grown :: "nat \<Rightarrow> 'a machine_scheme \<Rightarrow> 'a machine_scheme \<Rightarrow> uint64 \<Rightarrow> uint64 list \<Rightarrow> nat \<Rightarrow> bool" where
  "vm_grown l s s' pt xs k \<longleftrightarrow>
     mem_only s s' \<and> vm_ok l s' pt (drop k xs) \<and>
     pt_pages l (mem s') pt = pt_pages l (mem s) pt \<union> set (take k xs) \<and>
     (\<forall>va. pt_get l (mem s') pt va = pt_get l (mem s) pt va) \<and>
     same_on (- span (pt_pages l (mem s) pt \<union> set (take k xs))) (mem s) (mem s')"

lemma vm_grownD:
  assumes "vm_grown l s s' pt xs k"
  shows "mem_only s s'" "vm_ok l s' pt (drop k xs)"
    "pt_pages l (mem s') pt = pt_pages l (mem s) pt \<union> set (take k xs)"
    "pt_get l (mem s') pt va = pt_get l (mem s) pt va"
    "same_on (- span (pt_pages l (mem s) pt \<union> set (take k xs))) (mem s) (mem s')"
  using assms by (simp_all add: vm_grown_def)

lemma phys_page_cong: "kernel_end s' = kernel_end s \<Longrightarrow> phys_page s' = phys_page s"
  by (simp add: phys_page_def fun_eq_iff)

lemma kmem_inv_store_outside:
  assumes "kmem_inv s xs" "same_on (span (set xs)) (mem s) m'"
  shows "kmem_inv (s\<lparr>mem := m'\<rparr>) xs"
  by (rule kmem_inv_cong [OF assms(1)]) (use assms(2) in \<open>auto simp: same_on_def span_def\<close>)

lemma kmem_inv_phys: "kmem_inv s xs \<Longrightarrow> x \<in> set xs \<Longrightarrow> phys_page s x"
  by (simp add: kmem_inv_def)

lemma phys_aligned: "phys_page s p \<Longrightarrow> page_aligned p"
  by (simp add: phys_page_def)

text \<open>The subtree of a valid entry inherits the invariant.\<close>

lemma vm_ok_kid:
  assumes "vm_ok (Suc l) s pt xs" "i \<in> pt_kids (mem s) pt"
  shows "vm_ok l s (pt_kid (mem s) pt i) xs"
  using assms by (auto simp: vm_ok_def)

lemma vm_ok_leaf_nz:
  assumes "vm_ok l s pt xs" "pt_leaf l (mem s) pt va = Some a"
  shows "a \<noteq> 0"
proof -
  obtain q where q: "q \<in> pt_pages l (mem s) pt" "a = pte_at q (PX 0 va)"
    using pt_leaf_in_pages [OF assms(2)] by blast
  then have "phys_page s q" "0 < kernel_end s"
    using vm_okD(1,4) [OF assms(1)] by (auto simp: kmem_inv_def)
  then have "q \<noteq> 0" "unat q < 0x88000000"
    by (auto simp: phys_page_def word_less_nat_alt)
  moreover have "unat (pte_at q (PX 0 va)) = unat q + 8 * unat (PX 0 va)"
    unfolding pte_at_def using calculation(2) unat_PX_less [of 0 va]
    by (subst unat_add_lem [THEN iffD1]) (simp_all add: unat_mult8)
  ultimately show ?thesis
    using q(2) by (metis add_eq_0_iff_both_eq_0 unat_0 unat_eq_zero)
qed

lemma vm_grown_0: "vm_ok l s pt xs \<Longrightarrow> vm_grown l s s pt xs 0"
  by (simp add: vm_grown_def same_on_def)

lemma vm_grown_trans:
  assumes "vm_grown l s s1 pt xs a" "vm_grown l s1 s2 pt (drop a xs) b"
  shows "vm_grown l s s2 pt xs (a + b)"
proof -
  have take: "set (take (a + b) xs) = set (take a xs) \<union> set (take b (drop a xs))"
    by (simp add: take_add)
  have "mem_only s s2"
    using assms mem_only_trans unfolding vm_grown_def by blast
  moreover have "vm_ok l s2 pt (drop (a + b) xs)"
    using assms(2) by (simp add: vm_grown_def add.commute)
  moreover have "pt_pages l (mem s2) pt = pt_pages l (mem s) pt \<union> set (take (a + b) xs)"
    using assms take by (auto simp: vm_grown_def)
  moreover have "pt_get l (mem s2) pt va = pt_get l (mem s) pt va" for va
    using assms by (simp add: vm_grown_def)
  moreover have "same_on (- span (pt_pages l (mem s) pt \<union> set (take (a + b) xs))) (mem s) (mem s2)"
    using assms unfolding vm_grown_def take same_on_def by auto
  ultimately show ?thesis
    by (simp add: vm_grown_def)
qed

lemma vm_grown_lift:
  assumes ok: "vm_ok (Suc l) s pt xs" and i: "i \<in> pt_kids (mem s) pt"
    and g: "vm_grown l s s' (pt_kid (mem s) pt i) xs k"
  shows "vm_grown (Suc l) s s' pt xs k"
    and "PX (Suc l) va = i \<Longrightarrow> pt_leaf (Suc l) (mem s') pt va = pt_leaf l (mem s') (pt_kid (mem s) pt i) va"
proof -
  let ?m = "mem s" and ?m' = "mem s'" and ?c = "pt_kid (mem s) pt i"
  let ?R = "pt_pages (Suc l) ?m pt - pt_pages l ?m ?c" and ?N = "set (take k xs)"
  note tree = vm_okD(3) [OF ok]
  have kin: "kmem_inv s xs" "pt_pages (Suc l) ?m pt \<inter> set xs = {}"
    using vm_okD [OF ok] by auto
  have N: "?N \<subseteq> set xs" "?N \<inter> set (drop k xs) = {}"
    using kin(1) by (auto simp: kmem_inv_def set_take_disj_set_drop_if_distinct dest: in_set_takeD)
  note gD = vm_grownD [OF g]
  have sub: "pt_pages l ?m ?c \<subseteq> pt_pages (Suc l) ?m pt"
    using i by auto
  have dis: "(pt_pages l ?m ?c \<union> ?N) \<inter> ?R = {}"
    using kin(2) N(1) by blast
  have "span ?R \<inter> span (pt_pages l ?m ?c \<union> ?N) = {}"
  proof (rule span_disjoint)
    show "page_aligned p" if "p \<in> ?R" for p
      using that pt_tree_aligned [OF tree] by blast
    show "page_aligned q" if "q \<in> pt_pages l ?m ?c \<union> ?N" for q
      using that pt_tree_aligned [OF tree] sub N(1) kmem_inv_phys [OF kin(1)] phys_aligned by blast
  qed (use dis in blast)
  then have "span ?R \<subseteq> - span (pt_pages l ?m ?c \<union> ?N)"
    by blast
  then have frame: "same_on (span ?R) ?m ?m'"
    by (rule same_on_subset [OF gD(5)])
  have "pt_pages l ?m' ?c \<inter> ?R = {}"
    using gD(3) dis by blast
  note chg = pt_subtree_change [OF tree i frame vm_okD(3) [OF gD(2)] this]
  show "PX (Suc l) va = i \<Longrightarrow> pt_leaf (Suc l) ?m' pt va = pt_leaf l ?m' ?c va"
    unfolding chg(3) by simp
  have pages': "pt_pages (Suc l) ?m' pt = pt_pages (Suc l) ?m pt \<union> ?N"
    using chg(2) gD(3) sub by blast
  have "pt_get (Suc l) ?m' pt va = pt_get (Suc l) ?m pt va" for va
    using chg(4) [of va] gD(4) [of va] i by (auto simp: pt_get_simps)
  moreover have "vm_ok (Suc l) s' pt (drop k xs)"
  proof -
    have "phys_page s' = phys_page s"
      by (intro phys_page_cong mem_onlyD(4) gD(1))
    moreover have "phys_page s p" if "p \<in> pt_pages (Suc l) ?m pt \<union> ?N" for p
      using that vm_okD(4) [OF ok] kmem_inv_phys [OF kin(1)] N(1) by blast
    moreover have "(pt_pages (Suc l) ?m pt \<union> ?N) \<inter> set (drop k xs) = {}"
      using kin(2) N set_drop_subset [of k xs] by blast
    ultimately show ?thesis
      using vm_okD(1,2) [OF gD(2)] chg(1) unfolding vm_ok_def pages' by metis
  qed
  moreover have "same_on (- span (pt_pages (Suc l) ?m pt \<union> ?N)) ?m ?m'"
    using span_mono [OF sub] by (intro same_on_subset [OF gD(5)]) auto
  ultimately show "vm_grown (Suc l) s s' pt xs k"
    using gD(1) pages' by (simp add: vm_grown_def)
qed

lemma vm_grow_one:
  assumes ok: "vm_ok (Suc l) s pt (p # ys)" and i: "i < 512" "i \<notin> pt_kids (mem s) pt"
  obtains s1 s2 where "kalloc s = Ret p s1"
    "s2 = s1\<lparr>mem := store64 (memset (mem s1) p 0 4096) (pte_at pt i) (PA2PTE p OR PTE_V)\<rparr>"
    "vm_grown (Suc l) s s2 pt (p # ys) 1" "i \<in> pt_kids (mem s2) pt" "pt_kid (mem s2) pt i = p" "p \<noteq> 0"
proof -
  note okD = vm_okD [OF ok]
  have kin: "kmem_inv s (p # ys)"
    by (rule okD(1))
  have p: "page_aligned p" "p \<notin> pt_pages (Suc l) (mem s) pt" "p \<noteq> 0" "p \<notin> set ys"
    using kmem_inv_cons [OF kin] okD(5) by (auto simp: phys_page_def)
  obtain m f where s1: "kalloc s = Ret p (s\<lparr>mem := m, freelist := f\<rparr>)"
    and inv: "kmem_inv (s\<lparr>mem := m, freelist := f\<rparr>) ys"
    and m: "\<And>x. m x = (if x \<in> page p then 5 else mem s x)"
    using kalloc_ok [OF kin okD(2)] by blast
  define m2 where "m2 = store64 (memset (mem s) p 0 4096) (pte_at pt i) (PA2PTE p OR PTE_V)"
  have eq: "memset m p 0 4096 = memset (mem s) p 0 4096"
    by (rule ext) (simp add: page_fill m)
  note add = pt_add_page [OF okD(3) i p(1,2), folded m2_def]
  have "kmem_inv (s\<lparr>mem := m, freelist := f, mem := m2\<rparr>) ys"
  proof (rule kmem_inv_store_outside [OF inv])
    have "m2 x = m x" if "x \<in> span (set ys)" for x
    proof -
      have "x \<notin> page p" "x \<notin> page pt"
        using page_span_disjoint [of p "set ys" x] page_span_disjoint [of pt "set ys" x]
          p kin okD(3,5) that by (auto simp: kmem_inv_def phys_page_def)
      then show ?thesis
        using add(7) by (simp add: m)
    qed
    then show "same_on (span (set ys)) (mem (s\<lparr>mem := m, freelist := f\<rparr>)) m2"
      by (simp add: same_on_def)
  qed
  moreover have "phys_page s q" if "q \<in> insert p (pt_pages (Suc l) (mem s) pt)" for q
    using that okD(4) kmem_inv_cons [OF kin] by blast
  ultimately have "vm_ok (Suc l) (s\<lparr>mem := m2, freelist := f\<rparr>) pt ys"
    using okD(2,5) add(1,2) p(4) phys_page_cong [of "s\<lparr>mem := m2, freelist := f\<rparr>" s]
    unfolding vm_ok_def by simp
  moreover have "same_on (- span (pt_pages (Suc l) (mem s) pt \<union> {p})) (mem s) m2"
    using add(7) by (simp add: same_on_def)
  ultimately have "vm_grown (Suc l) s (s\<lparr>mem := m2, freelist := f\<rparr>) pt (p # ys) 1"
    using add(2,3) by (auto simp: vm_grown_def mem_only_def)
  then show thesis
    using that [OF s1 refl] add(4,5) p(3) by (simp add: eq m2_def)
qed

lemma walk_levels_alloc:
  fixes s :: "'a machine_scheme"
  assumes "vm_ok l s pt xs"
  shows "\<exists>r s' k. walk_levels l pt va True s = Ret r s' \<and> vm_grown l s s' pt xs k \<and>
    (if r = 0 then drop k xs = [] else pt_leaf l (mem s') pt va = Some r)"
  using assms
proof (induction l arbitrary: s pt xs)
  case 0
  have "pte_at pt (PX 0 va) \<noteq> 0"
    using vm_ok_leaf_nz [OF "0.prems", of va] by simp
  then show ?case
    using vm_grown_0 [OF "0.prems"] by (auto intro!: exI)
next
  case (Suc l)
  let ?i = "PX (Suc l) va"
  have step: "\<exists>r s' k. walk_levels l (pt_kid (mem s1) pt ?i) va True s1 = Ret r s' \<and>
      vm_grown (Suc l) s1 s' pt ys k \<and>
      (if r = 0 then drop k ys = [] else pt_leaf (Suc l) (mem s') pt va = Some r)"
    if ok: "vm_ok (Suc l) s1 pt ys" and i: "?i \<in> pt_kids (mem s1) pt" for s1 :: "'a machine_scheme" and ys
  proof -
    obtain r s' k where "walk_levels l (pt_kid (mem s1) pt ?i) va True s1 = Ret r s'"
        and g: "vm_grown l s1 s' (pt_kid (mem s1) pt ?i) ys k"
        and "if r = 0 then drop k ys = [] else pt_leaf l (mem s') (pt_kid (mem s1) pt ?i) va = Some r"
      using Suc.IH [OF vm_ok_kid [OF ok i]] by blast
    moreover note vm_grown_lift [OF ok i g]
    ultimately show ?thesis by metis
  qed
  show ?case
  proof (cases "?i \<in> pt_kids (mem s) pt")
    case True
    then show ?thesis
      using step [OF Suc.prems True] by (simp add: walk_levels_Suc del: walk_levels.simps pt_leaf.simps)
  next
    case no: False
    show ?thesis
    proof (cases xs)
      case Nil
      then have "kalloc s = Ret 0 s"
        using vm_okD [OF Suc.prems] by (auto intro: kalloc_empty)
      then show ?thesis
        using no Nil vm_grown_0 [OF Suc.prems] by (auto simp: walk_levels_Suc simp del: walk_levels.simps)
    next
      case (Cons p ys)
      obtain s1 s2 where s1: "kalloc s = Ret p s1" "p \<noteq> 0"
        "s2 = s1\<lparr>mem := store64 (memset (mem s1) p 0 4096) (pte_at pt ?i) (PA2PTE p OR PTE_V)\<rparr>"
        and g: "vm_grown (Suc l) s s2 pt xs 1" and i: "?i \<in> pt_kids (mem s2) pt" "pt_kid (mem s2) pt ?i = p"
        using vm_grow_one [of l s pt p ys ?i] Suc.prems no Cons by (metis PX_less)
      have "vm_ok (Suc l) s2 pt (drop 1 xs)"
        using vm_grownD(2) [OF g] .
      from step [OF this i(1)] obtain r s' k where "walk_levels l p va True s2 = Ret r s'"
        "vm_grown (Suc l) s2 s' pt (drop 1 xs) k"
        "if r = 0 then drop k (drop 1 xs) = [] else pt_leaf (Suc l) (mem s') pt va = Some r"
        unfolding i(2) by blast
      moreover from this(2) g have "vm_grown (Suc l) s s' pt xs (1 + k)"
        by (intro vm_grown_trans)
      ultimately show ?thesis
        using no s1 by (intro exI [of _ r] exI [of _ s'] exI [of _ "1 + k"])
          (cases "r = 0"; simp add: walk_levels_Suc del: walk_levels.simps pt_leaf.simps)
    qed
  qed
qed

subsection \<open>mappages\<close>

text \<open>
  \<open>vm_maps s s' pt xs k f\<close>: the table at \<open>pt\<close> has taken \<open>k\<close> pages of the free list \<open>xs\<close> for
  page-table pages and now maps each virtual address \<open>va\<close> to the entry \<open>f va\<close>; no byte
  outside its page-table pages has changed.
\<close>

definition vm_maps :: "'a machine_scheme \<Rightarrow> 'a machine_scheme \<Rightarrow> uint64 \<Rightarrow> uint64 list \<Rightarrow> nat \<Rightarrow>
    (uint64 \<Rightarrow> uint64) \<Rightarrow> bool" where
  "vm_maps s s' pt xs k f \<longleftrightarrow>
     mem_only s s' \<and> vm_ok 2 s' pt (drop k xs) \<and>
     pt_pages 2 (mem s') pt = pt_pages 2 (mem s) pt \<union> set (take k xs) \<and>
     (\<forall>va < SV39. pt_get 2 (mem s') pt va = f va) \<and>
     same_on (- span (pt_pages 2 (mem s) pt \<union> set (take k xs))) (mem s) (mem s')"

lemma vm_mapsD:
  assumes "vm_maps s s' pt xs k f"
  shows "mem_only s s'" "vm_ok 2 s' pt (drop k xs)"
    "pt_pages 2 (mem s') pt = pt_pages 2 (mem s) pt \<union> set (take k xs)"
    "va < SV39 \<Longrightarrow> pt_get 2 (mem s') pt va = f va"
    "same_on (- span (pt_pages 2 (mem s) pt \<union> set (take k xs))) (mem s) (mem s')"
  using assms by (simp_all add: vm_maps_def)

lemma vm_maps_grown: "vm_grown 2 s s' pt xs k \<Longrightarrow> vm_maps s s' pt xs k (pt_get 2 (mem s) pt)"
  by (simp add: vm_grown_def vm_maps_def)

lemma vm_maps_cong:
  assumes "vm_maps s s' pt xs k f" "\<And>va. va < SV39 \<Longrightarrow> f va = g va"
  shows "vm_maps s s' pt xs k g"
  using assms by (simp add: vm_maps_def)

lemma vm_maps_trans:
  assumes "vm_maps s s1 pt xs a f" "vm_maps s1 s2 pt (drop a xs) b g"
  shows "vm_maps s s2 pt xs (a + b) g"
proof -
  have take: "set (take (a + b) xs) = set (take a xs) \<union> set (take b (drop a xs))"
    by (simp add: take_add)
  note D1 = vm_mapsD [OF assms(1)] and D2 = vm_mapsD [OF assms(2)]
  have "mem_only s s2"
    using D1(1) D2(1) by (rule mem_only_trans)
  moreover have "vm_ok 2 s2 pt (drop (a + b) xs)"
    using D2(2) by (simp add: add.commute)
  moreover have "pt_pages 2 (mem s2) pt = pt_pages 2 (mem s) pt \<union> set (take (a + b) xs)"
    unfolding take D2(3) D1(3) by blast
  moreover have "same_on (- span (pt_pages 2 (mem s) pt \<union> set (take (a + b) xs))) (mem s) (mem s2)"
    using D1(3,5) D2(5) unfolding take same_on_def by auto
  ultimately show ?thesis
    using D2(4) by (simp add: vm_maps_def)
qed

lemma vm_ok_store_leaf:
  assumes ok: "vm_ok l s pt xs" and leaf: "pt_leaf l (mem s) pt va = Some a"
  shows "vm_ok l (s\<lparr>mem := store64 (mem s) a v\<rparr>) pt xs"
    and "same_on (- span (pt_pages l (mem s) pt)) (mem s) (store64 (mem s) a v)"
proof -
  obtain q where q: "q \<in> pt_pages l (mem s) pt" "a = pte_at q (PX 0 va)"
    using pt_leaf_in_pages [OF leaf] by blast
  show out: "same_on (- span (pt_pages l (mem s) pt)) (mem s) (store64 (mem s) a v)"
    unfolding same_on_def
  proof
    fix x
    assume "x \<in> - span (pt_pages l (mem s) pt)"
    then have "x \<notin> page q"
      using q(1) in_spanI by blast
    then show "store64 (mem s) a v x = mem s x"
      unfolding q(2) by (intro store_pte_out) simp_all
  qed
  have "span (pt_pages l (mem s) pt) \<inter> span (set xs) = {}"
    using vm_okD(5) [OF ok] pt_tree_aligned [OF vm_okD(3) [OF ok]] kmem_inv_phys [OF vm_okD(1) [OF ok]]
      phys_aligned by (intro span_disjoint) blast+
  then have "same_on (span (set xs)) (mem s) (store64 (mem s) a v)"
    by (intro same_on_subset [OF out]) blast
  then have "kmem_inv (s\<lparr>mem := store64 (mem s) a v\<rparr>) xs"
    by (rule kmem_inv_store_outside [OF vm_okD(1) [OF ok]])
  then show "vm_ok l (s\<lparr>mem := store64 (mem s) a v\<rparr>) pt xs"
    using ok pt_store_leaf [OF vm_okD(3) [OF ok] leaf]
    by (simp add: vm_ok_def phys_page_cong [of "s\<lparr>mem := store64 (mem s) a v\<rparr>" s])
qed

text \<open>Two 39-bit addresses follow the same path exactly when they lie on one page.\<close>

lemma same_path_page:
  assumes "va < SV39" "va' < SV39"
  shows "same_path 2 va va' \<longleftrightarrow> PGROUNDDOWN va = PGROUNDDOWN va'"
proof
  assume "same_path 2 va va'"
  then have "PX 0 va = PX 0 va'" "PX 1 va = PX 1 va'" "PX 2 va = PX 2 va'"
    by (auto simp: same_path_def)
  then show "PGROUNDDOWN va = PGROUNDDOWN va'"
    using assms by (intro PX_inj_page) (simp_all add: word_less_nat_alt)
qed (auto simp: same_path_def intro: PX_cong_page)

lemma vm_maps_store:
  assumes ok: "vm_ok 2 s pt xs" and leaf: "pt_leaf 2 (mem s) pt va = Some a" and va: "va < SV39"
  shows "vm_maps s (s\<lparr>mem := store64 (mem s) a v\<rparr>) pt xs 0
    (\<lambda>va'. if PGROUNDDOWN va' = PGROUNDDOWN va then v else pt_get 2 (mem s) pt va')"
  using vm_ok_store_leaf [OF ok leaf] pt_store_leaf [OF vm_okD(3) [OF ok] leaf] same_path_page [OF va]
  by (auto simp: vm_maps_def mem_only_mem)

text \<open>The map \<open>f\<close> with the \<open>n\<close> pages from \<open>a\<close> on mapped to the physical pages from \<open>pa\<close> on.\<close>

definition map_range :: "uint64 \<Rightarrow> nat \<Rightarrow> uint64 \<Rightarrow> uint64 \<Rightarrow> (uint64 \<Rightarrow> uint64) \<Rightarrow> uint64 \<Rightarrow> uint64" where
  "map_range a n pa perm f va =
     (if unat a \<le> unat va \<and> unat va < unat a + n * 4096
      then PA2PTE (pa + (PGROUNDDOWN va - a)) OR perm OR PTE_V else f va)"

lemma map_range_0 [simp]: "map_range a 0 pa perm f = f"
  by (auto simp: map_range_def fun_eq_iff)

lemma page_aligned_step:
  assumes "page_aligned a" "unat a + 4096 < 2 ^ 64"
  shows "unat (a + 4096) = unat a + 4096" "page_aligned (a + 4096)"
  using unat_add_small [of a 4096] assms by (simp_all add: page_aligned_def)

lemma PGROUNDDOWN_iff:
  assumes "page_aligned a"
  shows "PGROUNDDOWN va = a \<longleftrightarrow> unat a \<le> unat va \<and> unat va < unat a + 4096"
proof -
  obtain k where k: "unat a = 4096 * k"
    using assms by (rule page_alignedE)
  have "PGROUNDDOWN va = a \<longleftrightarrow> unat va div 4096 = k"
    unfolding word_unat_eq_iff unat_PGROUNDDOWN k by (simp add: mult.commute)
  also have "\<dots> \<longleftrightarrow> 4096 * k \<le> unat va \<and> unat va < 4096 * k + 4096"
    by auto
  finally show ?thesis
    using k by simp
qed

lemma PGROUNDDOWN_aligned_eq [simp]: "page_aligned a \<Longrightarrow> PGROUNDDOWN a = a"
  by (simp add: PGROUNDDOWN_iff)

lemma map_range_Suc:
  assumes "page_aligned a" "unat a + 4096 < 2 ^ 64"
  shows "map_range (a + 4096) n (pa + 4096) perm
      (\<lambda>va. if PGROUNDDOWN va = a then PA2PTE pa OR perm OR PTE_V else f va) =
    map_range a (Suc n) pa perm f"
proof
  fix va
  show "map_range (a + 4096) n (pa + 4096) perm
      (\<lambda>va. if PGROUNDDOWN va = a then PA2PTE pa OR perm OR PTE_V else f va) va =
    map_range a (Suc n) pa perm f va"
    unfolding map_range_def page_aligned_step(1) [OF assms] PGROUNDDOWN_iff [OF assms(1)]
    using PGROUNDDOWN_iff [OF assms(1), of va] by (auto simp: algebra_simps)
qed

lemma walk_alloc:
  assumes ok: "vm_ok 2 s pt xs" and va: "va < MAXVA"
  obtains r s' k where "walk pt va True s = Ret r s'" "vm_grown 2 s s' pt xs k"
    "if r = 0 then drop k xs = [] else pt_leaf 2 (mem s') pt va = Some r"
proof -
  have "walk pt va True s = walk_levels 2 pt va True s"
    using va unfolding walk_def by (auto simp del: walk_levels.simps)
  then show thesis
    using walk_levels_alloc [OF ok, of va] that by metis
qed

lemma walk_find:
  "va < MAXVA \<Longrightarrow> walk pt va False s = Ret (case pt_leaf 2 (mem s) pt va of None \<Rightarrow> 0 | Some a \<Rightarrow> a) s"
  unfolding walk_def walk_levels_find by auto

lemma mappages_step:
  assumes ok: "vm_ok 2 s pt xs" and a: "page_aligned a" "a < MAXVA"
    and free: "\<not> pte_valid (pt_get 2 (mem s) pt a)"
  obtains r s1 k where "walk pt a True s = Ret r s1" "r = 0" "drop k xs = []"
      "vm_maps s s1 pt xs k (pt_get 2 (mem s) pt)"
    | r s1 k where "walk pt a True s = Ret r s1" "r \<noteq> 0" "load64 (mem s1) r AND PTE_V = 0"
      "vm_maps s (s1\<lparr>mem := store64 (mem s1) r e\<rparr>) pt xs k
         (\<lambda>va. if PGROUNDDOWN va = a then e else pt_get 2 (mem s) pt va)"
proof -
  obtain r s1 k where w: "walk pt a True s = Ret r s1" and g: "vm_grown 2 s s1 pt xs k"
    and r: "if r = 0 then drop k xs = [] else pt_leaf 2 (mem s1) pt a = Some r"
    by (rule walk_alloc [OF ok a(2)])
  show thesis
  proof (cases "r = 0")
    case True
    then show ?thesis
      using that(1) [OF w] r vm_maps_grown [OF g] by simp
  next
    case False
    then have leaf: "pt_leaf 2 (mem s1) pt a = Some r"
      using r by simp
    have "load64 (mem s1) r AND PTE_V = 0"
      using free vm_grownD(4) [OF g, of a] leaf by (simp add: pt_get_def pte_valid_def)
    moreover have "vm_maps s (s1\<lparr>mem := store64 (mem s1) r e\<rparr>) pt xs (k + 0)
       (\<lambda>va. if PGROUNDDOWN va = PGROUNDDOWN a then e else pt_get 2 (mem s1) pt va)"
      by (rule vm_maps_trans [OF vm_maps_grown [OF g] vm_maps_store [OF vm_grownD(2) [OF g] leaf MAXVA_SV39 [OF a(2)]]])
    moreover have "pt_get 2 (mem s1) pt = pt_get 2 (mem s) pt"
      using vm_grownD(4) [OF g] by (rule ext)
    ultimately show ?thesis
      using that(2) [OF w False] a(1) by (simp cong: if_cong)
  qed
qed

lemma mappages_loop_ok:
  assumes "vm_ok 2 s pt xs" "page_aligned a" "unat a + n * 4096 + 4096 \<le> 2 ^ 38"
    and "\<And>va. unat a \<le> unat va \<Longrightarrow> unat va < unat a + n * 4096 + 4096 \<Longrightarrow> \<not> pte_valid (pt_get 2 (mem s) pt va)"
  shows "\<exists>r s' k j. mappages_loop pt a (a + of_nat n * 4096) pa perm s = Ret r s' \<and>
    vm_maps s s' pt xs k (map_range a j pa perm (pt_get 2 (mem s) pt)) \<and>
    (r = 0 \<and> j = Suc n \<or> r = -1 \<and> j \<le> n \<and> drop k xs = [])"
  using assms
proof (induction n arbitrary: s a pa xs)
  case 0
  let ?e = "PA2PTE pa OR perm OR PTE_V"
  have a: "a < MAXVA" "unat a + 4096 < 2 ^ 64" "\<not> pte_valid (pt_get 2 (mem s) pt a)"
    using "0.prems"(3,4) by (simp_all add: word_less_nat_alt)
  have one: "(\<lambda>va. if PGROUNDDOWN va = a then ?e else pt_get 2 (mem s) pt va) =
      map_range a 1 pa perm (pt_get 2 (mem s) pt)"
    using map_range_Suc [OF "0.prems"(2) a(2), of 0] by simp
  show ?case
  proof (rule mappages_step [OF "0.prems"(1,2) a(1,3), where e = ?e])
    fix r s1 k
    assume "walk pt a True s = Ret r s1" "r = 0" "drop k xs = []"
      "vm_maps s s1 pt xs k (pt_get 2 (mem s) pt)"
    then show ?thesis
      by (subst mappages_loop.simps) (auto intro!: exI)
  next
    fix r s1 k
    assume "walk pt a True s = Ret r s1" "r \<noteq> 0" "load64 (mem s1) r AND PTE_V = 0"
      "vm_maps s (s1\<lparr>mem := store64 (mem s1) r ?e\<rparr>) pt xs k
         (\<lambda>va. if PGROUNDDOWN va = a then ?e else pt_get 2 (mem s) pt va)"
    then show ?thesis
      unfolding one by (subst mappages_loop.simps) (auto intro!: exI)
  qed
next
  case (Suc n)
  let ?e = "PA2PTE pa OR perm OR PTE_V"
  have a: "a < MAXVA" "unat a + 4096 < 2 ^ 64" "\<not> pte_valid (pt_get 2 (mem s) pt a)"
    using Suc.prems(3,4) by (simp_all add: word_less_nat_alt)
  note st = page_aligned_step [OF Suc.prems(2) a(2)]
  have last_va: "a + of_nat (Suc n) * 4096 = (a + 4096) + of_nat n * 4096"
    by (simp add: algebra_simps)
  have "unat (a + of_nat (Suc n * 4096)) = unat a + Suc n * 4096"
    using Suc.prems(3) by (intro unat_add_small) simp
  moreover have "of_nat (Suc n * 4096) = (of_nat (Suc n) * 4096 :: uint64)"
    by (simp only: of_nat_mult of_nat_numeral)
  ultimately have ne: "a \<noteq> a + of_nat (Suc n) * 4096"
    by (metis add_cancel_right_right mult_is_0 nat.distinct(1) zero_neq_numeral)
  show ?case
  proof (rule mappages_step [OF Suc.prems(1,2) a(1,3), where e = ?e])
    fix r s1 k
    assume "walk pt a True s = Ret r s1" "r = 0" "drop k xs = []"
      "vm_maps s s1 pt xs k (pt_get 2 (mem s) pt)"
    then show ?thesis
      by (subst mappages_loop.simps) (auto intro!: exI)
  next
    fix r s1 k
    assume w: "walk pt a True s = Ret r s1" "r \<noteq> 0" "load64 (mem s1) r AND PTE_V = 0"
      and m: "vm_maps s (s1\<lparr>mem := store64 (mem s1) r ?e\<rparr>) pt xs k
         (\<lambda>va. if PGROUNDDOWN va = a then ?e else pt_get 2 (mem s) pt va)"
    let ?s2 = "s1\<lparr>mem := store64 (mem s1) r ?e\<rparr>"
    have ih: "\<exists>r' s' k' j. mappages_loop pt (a + 4096) (a + 4096 + of_nat n * 4096) (pa + 4096) perm ?s2 = Ret r' s' \<and>
      vm_maps ?s2 s' pt (drop k xs) k' (map_range (a + 4096) j (pa + 4096) perm (pt_get 2 (mem ?s2) pt)) \<and>
      (r' = 0 \<and> j = Suc n \<or> r' = -1 \<and> j \<le> n \<and> drop k' (drop k xs) = [])"
    proof (rule Suc.IH)
      fix va :: uint64
      assume va: "unat (a + 4096) \<le> unat va" "unat va < unat (a + 4096) + n * 4096 + 4096"
      then have "va < SV39" "PGROUNDDOWN va \<noteq> a"
        using Suc.prems(2,3) by (auto simp: word_less_nat_alt st PGROUNDDOWN_iff)
      then show "\<not> pte_valid (pt_get 2 (mem ?s2) pt va)"
        using vm_mapsD(4) [OF m] Suc.prems(4) [of va] va st(1) by simp
    qed (use vm_mapsD(2) [OF m] st Suc.prems(3) in simp_all)
    then obtain r' s' k' j where
      l: "mappages_loop pt (a + 4096) (a + 4096 + of_nat n * 4096) (pa + 4096) perm ?s2 = Ret r' s'"
      and m': "vm_maps ?s2 s' pt (drop k xs) k' (map_range (a + 4096) j (pa + 4096) perm (pt_get 2 (mem ?s2) pt))"
      and r': "r' = 0 \<and> j = Suc n \<or> r' = -1 \<and> j \<le> n \<and> drop k' (drop k xs) = []"
      by blast
    have "vm_maps s s' pt xs (k + k') (map_range a (Suc j) pa perm (pt_get 2 (mem s) pt))"
    proof (rule vm_maps_cong [OF vm_maps_trans [OF m m']])
      fix va
      assume "va < SV39"
      then show "map_range (a + 4096) j (pa + 4096) perm (pt_get 2 (mem ?s2) pt) va =
          map_range a (Suc j) pa perm (pt_get 2 (mem s) pt) va"
        unfolding map_range_Suc [OF Suc.prems(2) a(2), symmetric]
        using vm_mapsD(4) [OF m] by (simp add: map_range_def)
    qed
    moreover have "mappages_loop pt a (a + of_nat (Suc n) * 4096) pa perm s = Ret r' s'"
      using w ne l by (subst mappages_loop.simps) (simp add: Let_def add.assoc)
    ultimately show ?thesis
      using r' by (intro exI [of _ r'] exI [of _ s'] exI [of _ "k + k'"] exI [of _ "Suc j"])
        (auto simp: add.commute)
  qed
qed

lemma mappages_ok:
  assumes "vm_ok 2 s pt xs" "page_aligned a" "0 < n" "unat a + n * 4096 \<le> 2 ^ 38"
    and "\<And>va. unat a \<le> unat va \<Longrightarrow> unat va < unat a + n * 4096 \<Longrightarrow> \<not> pte_valid (pt_get 2 (mem s) pt va)"
  shows "\<exists>r s' k j. mappages pt a (of_nat n * 4096) pa perm s = Ret r s' \<and>
    vm_maps s s' pt xs k (map_range a j pa perm (pt_get 2 (mem s) pt)) \<and>
    (r = 0 \<and> j = n \<or> r = -1 \<and> j < n \<and> drop k xs = [])"
proof -
  obtain i where n: "n = Suc i"
    using assms(3) by (cases n) auto
  have un: "unat (of_nat n * 4096 :: uint64) = n * 4096"
    using unat_of_nat64 [of "n * 4096"] assms(4) by simp
  have "of_nat n * 4096 mod (4096 :: uint64) = 0" "(of_nat n * 4096 :: uint64) \<noteq> 0" "a mod 4096 = 0"
    using word_mod_PGSIZE [of "of_nat n * 4096"] word_mod_PGSIZE [of a] assms(2,3) un
    by (auto simp: page_aligned_def word_unat_eq_iff)
  then have "mappages pt a (of_nat n * 4096) pa perm s = mappages_loop pt a (a + of_nat i * 4096) pa perm s"
    by (simp add: mappages_def n algebra_simps)
  then show ?thesis
    using mappages_loop_ok [of s pt xs a i pa perm] assms by (simp add: n less_Suc_eq_le add.assoc)
qed

end
