(* ===== verification/UserVm.thy ===== *)
theory UserVm
  imports PageTable
begin

section \<open>User address spaces (vm.c): ownership of pages\<close>

text \<open>
  A user page table owns its page-table pages and the data pages it maps below a limit.
  \<open>uvm_ok\<close> says that every one of these pages is owned once and none is on the free list.
  Unmapping gives data pages back, freeing a table gives every page back: nothing leaks and
  nothing is freed twice.
\<close>

subsection \<open>Freeing a data page\<close>

lemma vm_ok_free:
  assumes ok: "vm_ok l s pt xs" and p: "phys_page s p" "p \<notin> set xs" "p \<notin> pt_pages l (mem s) pt"
  obtains s' where "kfree p s = Ret () s'" "mem_only s s'" "vm_ok l s' pt (p # xs)"
    "pt_pages l (mem s') pt = pt_pages l (mem s) pt" "\<And>va. pt_get l (mem s') pt va = pt_get l (mem s) pt va"
    "\<And>va. pt_leaf l (mem s') pt va = pt_leaf l (mem s) pt va" "same_on (- page p) (mem s) (mem s')"
proof -
  note okD = vm_okD [OF ok]
  obtain m where m: "kfree p s = Ret () (s\<lparr>mem := m, freelist := p\<rparr>)"
      "kmem_inv (s\<lparr>mem := m, freelist := p\<rparr>) (p # xs)" "\<forall>x. x \<notin> page p \<longrightarrow> m x = mem s x"
    using kfree_ok [OF okD(1) p(1,2) okD(2)] by blast
  let ?s = "s\<lparr>mem := m, freelist := p\<rparr>"
  have "x \<notin> page p" if "x \<in> span (pt_pages l (mem s) pt)" for x
    using page_span_disjoint [OF phys_aligned [OF p(1)], of "pt_pages l (mem s) pt" x]
      pt_tree_aligned [OF okD(3)] p(3) that by blast
  then have "same_on (span (pt_pages l (mem s) pt)) (mem s) m"
    using m(3) by (simp add: same_on_def)
  note fr = pt_frame [OF this]
  have "vm_ok l ?s pt (p # xs)"
    using ok m(2) p(3) fr phys_page_cong [of ?s s] by (simp add: vm_ok_def)
  moreover have "mem_only s ?s"
    by (auto simp: mem_only_def)
  moreover have "same_on (- page p) (mem s) (mem ?s)"
    using m(3) by (simp add: same_on_def)
  ultimately show thesis
    using that [OF m(1)] fr by simp
qed

subsection \<open>Ownership\<close>

definition upage :: "'a machine_scheme \<Rightarrow> uint64 \<Rightarrow> uint64 \<Rightarrow> uint64" where
  "upage s pt va = PTE2PA (pt_get 2 (mem s) pt va)"

definition umapped :: "'a machine_scheme \<Rightarrow> uint64 \<Rightarrow> nat \<Rightarrow> nat \<Rightarrow> uint64 set" where
  "umapped s pt lo hi = {va. page_aligned va \<and> lo \<le> unat va \<and> unat va < hi \<and> pte_valid (pt_get 2 (mem s) pt va)}"

definition uvm_ok :: "'a machine_scheme \<Rightarrow> uint64 \<Rightarrow> nat \<Rightarrow> uint64 list \<Rightarrow> bool" where
  "uvm_ok s pt lim xs \<longleftrightarrow> vm_ok 2 s pt xs \<and> lim \<le> 2 ^ 38 \<and>
     inj_on (upage s pt) (umapped s pt 0 lim) \<and>
     (\<forall>va \<in> umapped s pt 0 lim.
        phys_page s (upage s pt va) \<and> upage s pt va \<notin> set xs \<and> upage s pt va \<notin> pt_pages 2 (mem s) pt)"

lemma uvm_okD:
  assumes "uvm_ok s pt lim xs"
  shows "vm_ok 2 s pt xs" "lim \<le> 2 ^ 38" "inj_on (upage s pt) (umapped s pt 0 lim)"
    "va \<in> umapped s pt 0 lim \<Longrightarrow> phys_page s (upage s pt va)"
    "va \<in> umapped s pt 0 lim \<Longrightarrow> upage s pt va \<notin> set xs"
    "va \<in> umapped s pt 0 lim \<Longrightarrow> upage s pt va \<notin> pt_pages 2 (mem s) pt"
  using assms by (auto simp: uvm_ok_def)

subsection \<open>uvmunmap\<close>

text \<open>One iteration that finds a mapped page: free it, then clear its entry.\<close>

lemma unmap_one:
  assumes ok: "uvm_ok s pt lim xs" and va: "va \<in> umapped s pt 0 lim"
  obtains pte s1 s2 where "pt_leaf 2 (mem s) pt va = Some pte" "pte \<noteq> 0" "load64 (mem s) pte = pt_get 2 (mem s) pt va"
    "kfree (upage s pt va) s = Ret () s1" "s2 = s1\<lparr>mem := store64 (mem s1) pte 0\<rparr>" "mem_only s s2"
    "uvm_ok s2 pt lim (upage s pt va # xs)" "pt_pages 2 (mem s2) pt = pt_pages 2 (mem s) pt"
    "\<forall>va' < SV39. pt_get 2 (mem s2) pt va' = (if PGROUNDDOWN va' = va then 0 else pt_get 2 (mem s) pt va')"
    "same_on (- span (insert (upage s pt va) (pt_pages 2 (mem s) pt))) (mem s) (mem s2)"
proof -
  note okD = uvm_okD [OF ok]
  have v: "page_aligned va" "pte_valid (pt_get 2 (mem s) pt va)" "va < MAXVA"
    using va okD(2) by (auto simp: umapped_def word_less_nat_alt)
  then obtain pte where pte: "pt_leaf 2 (mem s) pt va = Some pte"
    by (cases "pt_leaf 2 (mem s) pt va") (auto simp: pt_get_def)
  have get: "load64 (mem s) pte = pt_get 2 (mem s) pt va"
    using pte by (simp add: pt_get_def)
  obtain s1 where s1: "kfree (upage s pt va) s = Ret () s1" "mem_only s s1" "vm_ok 2 s1 pt (upage s pt va # xs)"
    "pt_pages 2 (mem s1) pt = pt_pages 2 (mem s) pt" "\<And>va. pt_get 2 (mem s1) pt va = pt_get 2 (mem s) pt va"
    "pt_leaf 2 (mem s1) pt va = Some pte" "same_on (- page (upage s pt va)) (mem s) (mem s1)"
    using vm_ok_free [OF okD(1) okD(4,5,6) [OF va]] pte by metis
  let ?s2 = "s1\<lparr>mem := store64 (mem s1) pte 0\<rparr>"
  note st = vm_maps_store [OF s1(3,6) MAXVA_SV39 [OF v(3)], of 0]
  note stD = vm_mapsD [OF st]
  have new: "pt_get 2 (mem ?s2) pt va' = (if PGROUNDDOWN va' = va then 0 else pt_get 2 (mem s) pt va')"
    if "va' < SV39" for va'
    using stD(4) [OF that] s1(5) v(1) by simp
  have umap: "umapped ?s2 pt 0 lim = umapped s pt 0 lim - {va}"
    using new okD(2) by (auto simp: umapped_def word_less_nat_alt split: if_splits)
  have up: "upage ?s2 pt va' = upage s pt va'" if "va' \<in> umapped s pt 0 lim" "va' \<noteq> va" for va'
    using that new [of va'] okD(2) by (auto simp: umapped_def upage_def word_less_nat_alt)
  have mo: "mem_only s ?s2"
    using s1(2) by (rule mem_only_mem)
  have phys: "phys_page ?s2 = phys_page s"
    by (intro phys_page_cong mem_onlyD(4) mo)
  have pages: "pt_pages 2 (mem ?s2) pt = pt_pages 2 (mem s) pt"
    using stD(3) s1(4) by simp
  have "uvm_ok ?s2 pt lim (upage s pt va # xs)"
    unfolding uvm_ok_def umap pages phys
  proof (intro conjI ballI)
    show "vm_ok 2 ?s2 pt (upage s pt va # xs)" "lim \<le> 2 ^ 38"
      using stD(2) okD(2) by simp_all
    have "inj_on (upage s pt) (umapped s pt 0 lim - {va})"
      using okD(3) by (rule inj_on_subset) blast
    then show "inj_on (upage ?s2 pt) (umapped s pt 0 lim - {va})"
      using up by (auto simp: inj_on_def)
    fix va'
    assume "va' \<in> umapped s pt 0 lim - {va}"
    then have v': "va' \<in> umapped s pt 0 lim" "va' \<noteq> va"
      by auto
    then have "upage s pt va' \<noteq> upage s pt va"
      using okD(3) va by (auto simp: inj_on_def)
    then show "phys_page s (upage ?s2 pt va')" "upage ?s2 pt va' \<notin> set (upage s pt va # xs)"
        "upage ?s2 pt va' \<notin> pt_pages 2 (mem s) pt"
      using okD(4,5,6) [OF v'(1)] up [OF v'] by auto
  qed
  moreover have "same_on (- span (insert (upage s pt va) (pt_pages 2 (mem s) pt))) (mem s) (mem ?s2)"
    using stD(5) s1(4,7) by (auto simp: same_on_def)
  ultimately show thesis
    using that [OF pte vm_ok_leaf_nz [OF okD(1) pte] get s1(1) refl mo] pages new by blast
qed

text \<open>The map after unmapping the pages of \<open>[lo, hi)\<close>: valid entries there are cleared.\<close>

definition unmap_range :: "nat \<Rightarrow> nat \<Rightarrow> (uint64 \<Rightarrow> uint64) \<Rightarrow> uint64 \<Rightarrow> uint64" where
  "unmap_range lo hi f va = (if lo \<le> unat va \<and> unat va < hi \<and> pte_valid (f va) then 0 else f va)"

lemma unmap_range_empty [simp]: "hi \<le> lo \<Longrightarrow> unmap_range lo hi f = f"
  by (auto simp: unmap_range_def fun_eq_iff)

lemma uvmunmap_loop_skip:
  assumes "a < end_va" "a < MAXVA" "\<not> pte_valid (pt_get 2 (mem s) pt a)"
  shows "uvmunmap_loop pt a end_va do_free s = uvmunmap_loop pt (a + 4096) end_va do_free s"
  using assms by (subst uvmunmap_loop.simps)
    (auto simp: walk_find pt_get_def pte_valid_def split: option.splits)

lemma pt_get_page: "pt_get l m pt (PGROUNDDOWN va) = pt_get l m pt va"
proof -
  have "pt_leaf l m pt (PGROUNDDOWN va) = pt_leaf l m pt va"
    by (induction l arbitrary: pt) simp_all
  then show ?thesis
    by (simp add: pt_get_def)
qed

lemma umapped_Suc:
  assumes "page_aligned a" "unat a + 4096 < 2 ^ 64"
  shows "umapped s pt (unat a) (unat a + Suc n * 4096) =
    (if pte_valid (pt_get 2 (mem s) pt a) then {a} else {}) \<union>
    umapped s pt (unat (a + 4096)) (unat (a + 4096) + n * 4096)"
proof (rule set_eqI)
  fix va
  show "va \<in> umapped s pt (unat a) (unat a + Suc n * 4096) \<longleftrightarrow>
    va \<in> (if pte_valid (pt_get 2 (mem s) pt a) then {a} else {}) \<union>
      umapped s pt (unat (a + 4096)) (unat (a + 4096) + n * 4096)"
  proof (cases "page_aligned va")
    case True
    obtain i where i: "unat a = 4096 * i"
      using assms(1) by (rule page_alignedE)
    obtain j where j: "unat va = 4096 * j"
      using True by (rule page_alignedE)
    have eq: "va = a \<longleftrightarrow> j = i"
      using i j by (simp add: word_unat_eq_iff)
    show ?thesis
    proof (cases "va = a")
      case False
      then have "j \<noteq> i"
        using eq by simp
      then show ?thesis
        using True False i j by (simp add: umapped_def page_aligned_step [OF assms]) linarith
    qed (use assms(1) in \<open>simp add: umapped_def page_aligned_step [OF assms]\<close>)
  qed (use assms(1) in \<open>auto simp: umapped_def\<close>)
qed

lemma uvmunmap_loop_hit:
  assumes "a < end_va" "a < MAXVA" "pt_leaf 2 (mem s) pt a = Some pte" "pte \<noteq> 0"
    "load64 (mem s) pte = pt_get 2 (mem s) pt a" "pte_valid (pt_get 2 (mem s) pt a)"
    "kfree (upage s pt a) s = Ret () s1"
  shows "uvmunmap_loop pt a end_va True s =
    uvmunmap_loop pt (a + 4096) end_va True (s1\<lparr>mem := store64 (mem s1) pte 0\<rparr>)"
  using assms by (subst uvmunmap_loop.simps) (simp add: walk_find pte_valid_def upage_def)

lemma uvmunmap_loop_free:
  assumes "uvm_ok s pt lim xs" "page_aligned a" "unat a + n * 4096 \<le> lim"
  shows "\<exists>s' ys. uvmunmap_loop pt a (a + of_nat n * 4096) True s = Ret () s' \<and> mem_only s s' \<and>
    uvm_ok s' pt lim (ys @ xs) \<and> set ys = upage s pt ` umapped s pt (unat a) (unat a + n * 4096) \<and>
    pt_pages 2 (mem s') pt = pt_pages 2 (mem s) pt \<and>
    (\<forall>va < SV39. pt_get 2 (mem s') pt va =
       unmap_range (unat a) (unat a + n * 4096) (pt_get 2 (mem s) pt) va) \<and>
    same_on (- span (set ys \<union> pt_pages 2 (mem s) pt)) (mem s) (mem s')"
  using assms
proof (induction n arbitrary: s a xs)
  case 0
  have "uvmunmap_loop pt a (a + of_nat 0 * 4096) True s = Ret () s"
    by (subst uvmunmap_loop.simps) simp
  then show ?case
    using "0.prems"(1) by (intro exI [of _ s] exI [of _ "[]"]) (auto simp: umapped_def same_on_def)
next
  case (Suc n)
  have lim: "lim \<le> 2 ^ 38"
    using uvm_okD(2) [OF Suc.prems(1)] .
  have a: "a < MAXVA" "unat a + 4096 < 2 ^ 64"
    using Suc.prems(3) lim by (simp_all add: word_less_nat_alt)
  note st = page_aligned_step [OF Suc.prems(2) a(2)]
  have e: "a + of_nat (Suc n) * 4096 = (a + 4096) + of_nat n * 4096"
    by (simp add: algebra_simps)
  have "unat (a + of_nat (Suc n * 4096)) = unat a + Suc n * 4096"
    using Suc.prems(3) lim by (intro unat_add_small) simp
  then have lt: "a < a + 4096 + of_nat n * 4096"
    by (simp add: word_less_nat_alt add.assoc)
  have next_ok: "unat (a + 4096) + n * 4096 \<le> lim"
    using Suc.prems(3) st(1) by simp
  show ?case
  proof (cases "pte_valid (pt_get 2 (mem s) pt a)")
    case False
    have f: "unmap_range (unat (a + 4096)) (unat (a + 4096) + n * 4096) f va =
        unmap_range (unat a) (unat a + Suc n * 4096) f va"
      if "f = pt_get 2 (mem s) pt" for va f
    proof -
      have "\<not> pte_valid (f va)" if "PGROUNDDOWN va = a"
        using False pt_get_page [of 2 "mem s" pt va] that \<open>f = pt_get 2 (mem s) pt\<close> by simp
      then show ?thesis
        unfolding unmap_range_def st(1) PGROUNDDOWN_iff [OF Suc.prems(2)] by auto
    qed
    show ?thesis
      using Suc.IH [OF Suc.prems(1) st(2) next_ok] False
      unfolding e uvmunmap_loop_skip [OF lt a(1) False] umapped_Suc [OF Suc.prems(2) a(2)]
      by (auto simp: f)
  next
    case True
    then have in_map: "a \<in> umapped s pt 0 lim"
      using Suc.prems(2,3) by (simp add: umapped_def)
    obtain pte s1 s2 where u: "pt_leaf 2 (mem s) pt a = Some pte" "pte \<noteq> 0"
        "load64 (mem s) pte = pt_get 2 (mem s) pt a" "kfree (upage s pt a) s = Ret () s1"
        "s2 = s1\<lparr>mem := store64 (mem s1) pte 0\<rparr>" and mo: "mem_only s s2"
      and ok2: "uvm_ok s2 pt lim (upage s pt a # xs)" and pg2: "pt_pages 2 (mem s2) pt = pt_pages 2 (mem s) pt"
      and get2: "\<forall>va' < SV39. pt_get 2 (mem s2) pt va' =
        (if PGROUNDDOWN va' = a then 0 else pt_get 2 (mem s) pt va')"
      and same2: "same_on (- span (insert (upage s pt a) (pt_pages 2 (mem s) pt))) (mem s) (mem s2)"
      by (rule unmap_one [OF Suc.prems(1) in_map])
    obtain s' ys where IH: "uvmunmap_loop pt (a + 4096) (a + 4096 + of_nat n * 4096) True s2 = Ret () s'"
        "mem_only s2 s'" "uvm_ok s' pt lim (ys @ upage s pt a # xs)"
        "set ys = upage s2 pt ` umapped s2 pt (unat (a + 4096)) (unat (a + 4096) + n * 4096)"
        "pt_pages 2 (mem s') pt = pt_pages 2 (mem s2) pt"
        "\<forall>va < SV39. pt_get 2 (mem s') pt va =
           unmap_range (unat (a + 4096)) (unat (a + 4096) + n * 4096) (pt_get 2 (mem s2) pt) va"
        "same_on (- span (set ys \<union> pt_pages 2 (mem s2) pt)) (mem s2) (mem s')"
      using Suc.IH [OF ok2 st(2) next_ok] by blast
    have get2': "pt_get 2 (mem s2) pt va = pt_get 2 (mem s) pt va"
      if "unat (a + 4096) \<le> unat va" "unat va < unat (a + 4096) + n * 4096" for va
      using get2 [rule_format, of va] that next_ok lim st(1) by (simp add: word_less_nat_alt PGROUNDDOWN_iff [OF Suc.prems(2)])
    have ys: "set ys = upage s pt ` umapped s pt (unat (a + 4096)) (unat (a + 4096) + n * 4096)"
      unfolding IH(4) by (rule image_cong) (auto simp: umapped_def upage_def get2')
    show ?thesis
    proof (intro exI conjI)
      show "uvmunmap_loop pt a (a + of_nat (Suc n) * 4096) True s = Ret () s'"
        unfolding e uvmunmap_loop_hit [OF lt a(1) u(1-3) True u(4)] u(5) [symmetric] by (rule IH(1))
      show "mem_only s s'"
        using mo IH(2) by (rule mem_only_trans)
      show "uvm_ok s' pt lim ((ys @ [upage s pt a]) @ xs)"
        using IH(3) by simp
      show "set (ys @ [upage s pt a]) = upage s pt ` umapped s pt (unat a) (unat a + Suc n * 4096)"
        using True unfolding umapped_Suc [OF Suc.prems(2) a(2)] by (simp add: ys)
      show "pt_pages 2 (mem s') pt = pt_pages 2 (mem s) pt"
        using IH(5) pg2 by simp
      show "same_on (- span (set (ys @ [upage s pt a]) \<union> pt_pages 2 (mem s) pt)) (mem s) (mem s')"
        using IH(7) same2 pg2 by (auto simp: same_on_def)
      show "\<forall>va < SV39. pt_get 2 (mem s') pt va =
          unmap_range (unat a) (unat a + Suc n * 4096) (pt_get 2 (mem s) pt) va"
      proof (intro allI impI)
        fix va :: uint64
        assume va: "va < SV39"
        let ?f = "pt_get 2 (mem s) pt"
        have "pt_get 2 (mem s') pt va = unmap_range (unat (a + 4096)) (unat (a + 4096) + n * 4096)
            (\<lambda>va. if PGROUNDDOWN va = a then 0 else ?f va) va"
          using IH(6) get2 va by (simp add: unmap_range_def)
        also have "\<dots> = unmap_range (unat a) (unat a + Suc n * 4096) ?f va"
        proof -
          have "pte_valid (?f va)" if "PGROUNDDOWN va = a"
            using pt_get_page [of 2 "mem s" pt va] True that by simp
          then show ?thesis
            unfolding unmap_range_def st(1) PGROUNDDOWN_iff [OF Suc.prems(2)] by auto
        qed
        finally show "pt_get 2 (mem s') pt va = unmap_range (unat a) (unat a + Suc n * 4096) ?f va" .
      qed
    qed
  qed
qed

lemma uvmunmap_ok:
  assumes "uvm_ok s pt lim xs" "page_aligned a" "unat a + n * 4096 \<le> lim"
  shows "\<exists>s' ys. uvmunmap pt a (of_nat n) True s = Ret () s' \<and> mem_only s s' \<and>
    uvm_ok s' pt lim (ys @ xs) \<and> set ys = upage s pt ` umapped s pt (unat a) (unat a + n * 4096) \<and>
    pt_pages 2 (mem s') pt = pt_pages 2 (mem s) pt \<and>
    (\<forall>va < SV39. pt_get 2 (mem s') pt va =
       unmap_range (unat a) (unat a + n * 4096) (pt_get 2 (mem s) pt) va) \<and>
    same_on (- span (set ys \<union> pt_pages 2 (mem s) pt)) (mem s) (mem s')"
proof -
  have "a mod 4096 = 0"
    using word_mod_PGSIZE [of a] assms(2) by (auto simp: page_aligned_def)
  then have "uvmunmap pt a (of_nat n) True s = uvmunmap_loop pt a (a + of_nat n * 4096) True s"
    by (simp add: uvmunmap_def)
  then show ?thesis
    using uvmunmap_loop_free [OF assms] by simp
qed

subsection \<open>freewalk\<close>

primrec no_leaf :: "nat \<Rightarrow> memory \<Rightarrow> uint64 \<Rightarrow> bool" where
  "no_leaf 0 m pt \<longleftrightarrow> pt_kids m pt = {}"
| "no_leaf (Suc l) m pt \<longleftrightarrow> (\<forall>i \<in> pt_kids m pt. no_leaf l m (pt_kid m pt i))"

lemma no_leaf_frame:
  "same_on (span (pt_pages l m pt)) m m' \<Longrightarrow> no_leaf l m pt \<Longrightarrow> no_leaf l m' pt"
proof (induction l arbitrary: pt)
  case 0
  then show ?case
    using pt_page_cong(1) [of pt m m'] by simp
next
  case (Suc l)
  have root: "same_on (page pt) m m'"
    by (rule same_on_subset [OF Suc.prems(1)]) simp
  show ?case
    unfolding no_leaf.simps pt_page_cong(1) [OF root]
  proof
    fix i
    assume i: "i \<in> pt_kids m pt"
    have "span (pt_pages l m (pt_kid m pt i)) \<subseteq> span (pt_pages (Suc l) m pt)"
      using i by (intro span_mono) auto
    then have "no_leaf l m' (pt_kid m pt i)"
      using Suc.prems(2) i by (intro Suc.IH same_on_subset [OF Suc.prems(1)]) auto
    then show "no_leaf l m' (pt_kid m' pt i)"
      using i by (simp add: pt_page_cong(2) [OF root] pt_kids_less)
  qed
qed

text \<open>The address with the given three indices.\<close>

definition va_of :: "uint64 \<Rightarrow> uint64 \<Rightarrow> uint64 \<Rightarrow> uint64" where
  "va_of i2 i1 i0 = of_nat (((unat i2 * 512 + unat i1) * 512 + unat i0) * 4096)"

lemma va_of_PX:
  assumes "i2 < 512" "i1 < 512" "i0 < 512"
  shows "PX 2 (va_of i2 i1 i0) = i2" "PX 1 (va_of i2 i1 i0) = i1" "PX 0 (va_of i2 i1 i0) = i0"
    "va_of i2 i1 i0 < SV39"
proof -
  let ?n = "(unat i2 * 512 + unat i1) * 512 + unat i0"
  have b: "unat i2 < 512" "unat i1 < 512" "unat i0 < 512"
    using assms by (simp_all add: word_less_nat_alt)
  have n: "?n * 4096 < 2 ^ 39"
    using b by simp
  then have u: "unat (va_of i2 i1 i0) = ?n * 4096"
    unfolding va_of_def by (intro unat_of_nat64) simp
  show "va_of i2 i1 i0 < SV39"
    using u n by (simp add: word_less_nat_alt)
  have split: "(A * 512 + k) div 512 = A" "(A * 512 + k) mod 512 = k" if "k < 512" for A k :: nat
    using that by simp_all
  have lev: "N * 4096 div 2 ^ (12 + 9 * 0) = N" "N * 4096 div 2 ^ (12 + 9 * 1) = N div 512"
      "N * 4096 div 2 ^ (12 + 9 * 2) = N div 512 div 512" for N :: nat
    using div_mult2_eq [of "N * 4096" 4096 512] div_mult2_eq [of "N * 4096" 4096 "512 * 512"]
      div_mult2_eq [of N 512 512] by simp_all
  have "unat (PX 0 (va_of i2 i1 i0)) = unat i0" "unat (PX 1 (va_of i2 i1 i0)) = unat i1"
      "unat (PX 2 (va_of i2 i1 i0)) = unat i2"
    unfolding unat_PX u lev split(1) [OF b(3)] split(1) [OF b(2)] split(2) [OF b(3)] split(2) [OF b(2)]
    using b by simp_all
  then show "PX 2 (va_of i2 i1 i0) = i2" "PX 1 (va_of i2 i1 i0) = i1" "PX 0 (va_of i2 i1 i0) = i0"
    by (simp_all add: word_unat_eq_iff)
qed

lemma no_leafI:
  assumes "\<And>va. va < SV39 \<Longrightarrow> \<not> pte_valid (pt_get 2 m pt va)"
  shows "no_leaf 2 m pt"
  unfolding numeral_2_eq_2 no_leaf.simps
proof (intro ballI equals0I)
  fix i2 i1 i0
  let ?c2 = "pt_kid m pt i2"
  let ?c1 = "pt_kid m ?c2 i1"
  assume i: "i2 \<in> pt_kids m pt" "i1 \<in> pt_kids m ?c2" "i0 \<in> pt_kids m ?c1"
  have lt: "i2 < 512" "i1 < 512" "i0 < 512"
    using i by (auto dest: pt_kids_less)
  note px = va_of_PX [OF lt]
  have "pt_get 2 m pt (va_of i2 i1 i0) = pt_ent m ?c1 i0"
    using i px by (simp add: numeral_2_eq_2 pt_get_simps)
  then show False
    using assms [OF px(4)] i(3) by (simp add: pt_kids_def)
qed

text \<open>
  The state of the loop of \<^verbatim>\<open>freewalk\<close> before index \<open>i\<close>: the subtrees of smaller indices are
  on the free list and their entries cleared, the other subtrees are untouched.
\<close>

definition kids_in :: "memory \<Rightarrow> uint64 \<Rightarrow> nat \<Rightarrow> nat \<Rightarrow> uint64 set" where
  "kids_in m pt lo hi = {j \<in> pt_kids m pt. lo \<le> unat j \<and> unat j < hi}"

definition kid_pages :: "nat \<Rightarrow> memory \<Rightarrow> uint64 \<Rightarrow> uint64 set \<Rightarrow> uint64 set" where
  "kid_pages l m pt J = (\<Union>j \<in> J. pt_pages l m (pt_kid m pt j))"

definition fw_inv :: "nat \<Rightarrow> 'a machine_scheme \<Rightarrow> uint64 \<Rightarrow> uint64 list \<Rightarrow> nat \<Rightarrow> 'a machine_scheme \<Rightarrow> bool" where
  "fw_inv l s0 pt xs i s \<longleftrightarrow> (\<exists>ys. mem_only s0 s \<and> kmem_inv s (ys @ xs) \<and>
     set ys = kid_pages l (mem s0) pt (kids_in (mem s0) pt 0 i) \<and>
     (\<forall>j < 512. pt_ent (mem s) pt j = (if j \<in> kids_in (mem s0) pt 0 i then 0 else pt_ent (mem s0) pt j)) \<and>
     same_on (span (kid_pages l (mem s0) pt (kids_in (mem s0) pt i 512))) (mem s0) (mem s) \<and>
     same_on (- span (pt_pages (Suc l) (mem s0) pt)) (mem s0) (mem s))"

lemma fw_inv_0:
  assumes "vm_ok (Suc l) s pt xs"
  shows "fw_inv l s pt xs 0 s"
  unfolding fw_inv_def using vm_okD(1) [OF assms]
  by (intro exI [of _ "[]"]) (auto simp: kids_in_def kid_pages_def same_on_def)

lemma kids_in_Suc:
  assumes "i < 512"
  shows "kids_in m pt 0 (Suc i) = kids_in m pt 0 i \<union> (if of_nat i \<in> pt_kids m pt then {of_nat i} else {})"
    "kids_in m pt i 512 = kids_in m pt (Suc i) 512 \<union> (if of_nat i \<in> pt_kids m pt then {of_nat i} else {})"
proof -
  have u: "unat (of_nat i :: uint64) = i"
    using assms by (intro unat_of_nat64) simp
  have eq: "unat j = i \<longleftrightarrow> j = of_nat i" for j :: uint64
    using u unat_eq_of_nat64 by blast
  show "kids_in m pt 0 (Suc i) = kids_in m pt 0 i \<union> (if of_nat i \<in> pt_kids m pt then {of_nat i} else {})"
    by (rule set_eqI) (simp add: kids_in_def less_Suc_eq eq; blast)
  show "kids_in m pt i 512 = kids_in m pt (Suc i) 512 \<union> (if of_nat i \<in> pt_kids m pt then {of_nat i} else {})"
  proof (rule set_eqI)
    fix j :: uint64
    have "i \<le> unat j \<longleftrightarrow> Suc i \<le> unat j \<or> j = of_nat i"
      using eq [of j] by auto
    then show "j \<in> kids_in m pt i 512 \<longleftrightarrow>
        j \<in> kids_in m pt (Suc i) 512 \<union> (if of_nat i \<in> pt_kids m pt then {of_nat i} else {})"
      using u assms by (auto simp: kids_in_def)
  qed
qed

lemma kid_pages_Un: "kid_pages l m pt (A \<union> B) = kid_pages l m pt A \<union> kid_pages l m pt B"
  by (auto simp: kid_pages_def)

lemma kid_pages_single: "kid_pages l m pt {j} = pt_pages l m (pt_kid m pt j)"
  by (simp add: kid_pages_def)

lemma kid_pages_disjoint:
  assumes "pt_tree (Suc l) m pt" "A \<subseteq> pt_kids m pt" "B \<subseteq> pt_kids m pt" "A \<inter> B = {}"
  shows "kid_pages l m pt A \<inter> kid_pages l m pt B = {}" "pt \<notin> kid_pages l m pt A"
proof -
  have "pt_pages l m (pt_kid m pt i) \<inter> pt_pages l m (pt_kid m pt j) = {}" if "i \<in> A" "j \<in> B" for i j
    using pt_treeD(4) [OF assms(1), of i j] that assms(2-4) by blast
  then show "kid_pages l m pt A \<inter> kid_pages l m pt B = {}"
    unfolding kid_pages_def by blast
  show "pt \<notin> kid_pages l m pt A"
    using pt_treeD(3) [OF assms(1)] assms(2) unfolding kid_pages_def by blast
qed

lemma kid_pages_sub: "A \<subseteq> pt_kids m pt \<Longrightarrow> kid_pages l m pt A \<subseteq> pt_pages (Suc l) m pt"
  by (auto simp: kid_pages_def)

text \<open>The body of the loop, and the contract of the recursive call.\<close>

definition fw_body :: "nat \<Rightarrow> uint64 \<Rightarrow> nat \<Rightarrow> 'a machine_scheme \<Rightarrow> ('a machine_scheme, unit) outcome" where
  "fw_body d pgtbl i s =
     (let pte = load64 (mem s) (pte_at pgtbl (of_nat i)) in
      if pte AND PTE_V \<noteq> 0 \<and> pte AND (PTE_R OR PTE_W OR PTE_X) = 0 then
        bnd (freewalk_depth d (PTE2PA pte) s) (\<lambda>_ s.
        Ret () (s\<lparr>mem := store64 (mem s) (pte_at pgtbl (of_nat i)) 0\<rparr>))
      else if pte AND PTE_V \<noteq> 0 then Panic ''freewalk: leaf''
      else Ret () s)"

lemma freewalk_depth_Suc:
  "freewalk_depth (Suc d) pgtbl s = bnd (for_each [0..<512] (fw_body d pgtbl) s) (\<lambda>_ s. kfree pgtbl s)"
  unfolding freewalk_depth.simps fw_body_def [abs_def] ..

declare freewalk_depth.simps(2) [simp del]

definition frees_tree :: "nat \<Rightarrow> 'a machine_scheme \<Rightarrow> uint64 \<Rightarrow> uint64 list \<Rightarrow> ('a machine_scheme, unit) outcome \<Rightarrow> bool" where
  "frees_tree l s pt xs r \<longleftrightarrow> (\<exists>s' ys. r = Ret () s' \<and> mem_only s s' \<and> kmem_inv s' (ys @ xs) \<and>
     set ys = pt_pages l (mem s) pt \<and> same_on (- span (pt_pages l (mem s) pt)) (mem s) (mem s'))"

lemma fw_body_ok:
  fixes s0 :: "'a machine_scheme"
  assumes ok: "vm_ok (Suc l) s0 pt xs" and nl: "no_leaf (Suc l) (mem s0) pt" and i: "i < 512"
    and inv: "fw_inv l s0 pt xs i s"
    and IH: "\<And>(s :: 'a machine_scheme) pt xs. vm_ok l s pt xs \<Longrightarrow> no_leaf l (mem s) pt \<Longrightarrow>
      frees_tree l s pt xs (freewalk_depth (Suc l) pt s)"
  shows "ok (fw_body (Suc l) pt i s) (\<lambda>_. fw_inv l s0 pt xs (Suc i))"
proof -
  let ?m0 = "mem s0" and ?i = "of_nat i :: uint64"
  note okD = vm_okD [OF ok]
  have ui: "unat ?i = i" "?i < 512"
    using i unat_of_nat64 [of i] by (simp_all add: word_less_nat_alt)
  obtain ys where mo: "mem_only s0 s" and kin: "kmem_inv s (ys @ xs)"
    and ys: "set ys = kid_pages l ?m0 pt (kids_in ?m0 pt 0 i)"
    and ent: "\<forall>j < 512. pt_ent (mem s) pt j = (if j \<in> kids_in ?m0 pt 0 i then 0 else pt_ent ?m0 pt j)"
    and todo: "same_on (span (kid_pages l ?m0 pt (kids_in ?m0 pt i 512))) ?m0 (mem s)"
    and out: "same_on (- span (pt_pages (Suc l) ?m0 pt)) ?m0 (mem s)"
    using inv unfolding fw_inv_def by blast
  have nin: "?i \<notin> kids_in ?m0 pt 0 i"
    using ui by (simp add: kids_in_def)
  then have ei: "pt_ent (mem s) pt ?i = pt_ent ?m0 pt ?i"
    using ent ui(2) by simp
  show ?thesis
  proof (cases "?i \<in> pt_kids ?m0 pt")
    case False
    then have nv: "pt_ent (mem s) pt ?i AND PTE_V = 0"
      using ui(2) ei by (simp add: pt_kids_def pte_valid_def)
    have k: "kids_in ?m0 pt 0 (Suc i) = kids_in ?m0 pt 0 i" "kids_in ?m0 pt (Suc i) 512 = kids_in ?m0 pt i 512"
      using kids_in_Suc [OF i, of ?m0 pt] False by simp_all
    have "fw_inv l s0 pt xs (Suc i) s"
      using inv unfolding fw_inv_def k .
    then show ?thesis
      using nv by (simp add: fw_body_def pt_ent_def)
  next
    case True
    let ?c = "pt_kid ?m0 pt ?i"
    let ?P = "pt_pages l ?m0 ?c"
    note tree = pt_treeD [OF okD(3) True]
    have k: "kids_in ?m0 pt 0 (Suc i) = kids_in ?m0 pt 0 i \<union> {?i}" "kids_in ?m0 pt i 512 = kids_in ?m0 pt (Suc i) 512 \<union> {?i}"
      using kids_in_Suc [OF i, of ?m0 pt] True by simp_all
    have J: "kids_in ?m0 pt 0 i \<subseteq> pt_kids ?m0 pt" "kids_in ?m0 pt (Suc i) 512 \<subseteq> pt_kids ?m0 pt" "{?i} \<subseteq> pt_kids ?m0 pt"
      using True by (auto simp: kids_in_def)
    have Jd: "kids_in ?m0 pt 0 i \<inter> {?i} = {}" "kids_in ?m0 pt (Suc i) 512 \<inter> {?i} = {}"
      using ui by (auto simp: kids_in_def)
    note dis = kid_pages_disjoint [OF okD(3) J(1,3) Jd(1), unfolded kid_pages_single]
      kid_pages_disjoint [OF okD(3) J(2,3) Jd(2), unfolded kid_pages_single]
    have sub: "?P \<subseteq> pt_pages (Suc l) ?m0 pt"
      using True by auto
    have "same_on (span ?P) ?m0 (mem s)"
      using todo unfolding k kid_pages_Un kid_pages_single by (simp add: same_on_Un)
    note fr = pt_frame [OF this] and nlf = no_leaf_frame [OF this]
    have phys: "phys_page s = phys_page s0"
      by (intro phys_page_cong mem_onlyD(4) mo)
    have "vm_ok l s ?c (ys @ xs)"
      unfolding vm_ok_def fr phys
    proof (intro conjI ballI)
      show "?P \<inter> set (ys @ xs) = {}"
        unfolding set_append ys using dis(1) sub okD(5) by blast
      show "phys_page s0 p" if "p \<in> ?P" for p
        using that sub okD(4) by blast
    qed (use kin okD(2) mem_onlyD(1) [OF mo] tree(2) in simp_all)
    moreover have "no_leaf l (mem s) ?c"
      using nlf nl True by simp
    ultimately obtain s' zs where s': "freewalk_depth (Suc l) ?c s = Ret () s'" "mem_only s s'"
        "kmem_inv s' (zs @ ys @ xs)" "set zs = ?P" "same_on (- span ?P) (mem s) (mem s')"
      using IH [of s ?c "ys @ xs"] unfolding frees_tree_def fr by blast
    let ?s = "s'\<lparr>mem := store64 (mem s') (pte_at pt ?i) 0\<rparr>"
    have al: "page_aligned p" if "p \<in> pt_pages (Suc l) ?m0 pt" for p
      using pt_tree_aligned [OF okD(3) that] .
    have st: "same_on (- page pt) (mem s') (mem ?s)"
      using ui(2) by (simp add: same_on_def store_pte_out)
    have alP: "page_aligned p" if "p \<in> insert pt ?P" for p
      using that sub by (intro al) auto
    have away: "span Q \<inter> (page pt \<union> span ?P) = {}"
      if "Q \<inter> insert pt ?P = {}" "\<And>p. p \<in> Q \<Longrightarrow> page_aligned p" for Q
      using span_disjoint [OF that(2) alP that(1)] by simp
    have pt_P: "page pt \<subseteq> - span ?P"
      using span_disjoint [of "{pt}" ?P] tree(3) alP by auto
    have body: "fw_body (Suc l) pt i s = Ret () ?s"
      using tree(1) True s'(1) ei by (simp add: fw_body_def pt_ent_def [symmetric] pt_kid_def pt_kids_def pte_valid_def)
    have free: "kmem_inv ?s ((zs @ ys) @ xs)"
    proof (rule kmem_inv_store_outside)
      show "kmem_inv s' ((zs @ ys) @ xs)"
        using s'(3) by simp
      have "pt \<notin> set ((zs @ ys) @ xs)"
        using s'(4) ys dis(2) tree(3) okD(5) by auto
      then show "same_on (span (set ((zs @ ys) @ xs))) (mem s') (store64 (mem s') (pte_at pt ?i) 0)"
        using span_disjoint [of "set ((zs @ ys) @ xs)" "{pt}"] al [of pt]
          kmem_inv_phys [OF s'(3)] phys_aligned [of s']
        by (intro same_on_subset [OF st [simplified]]) auto
    qed
    have "pt_ent (mem ?s) pt j = (if j \<in> kids_in ?m0 pt 0 (Suc i) then 0 else pt_ent ?m0 pt j)" if "j < 512" for j
    proof -
      have "pt_ent (mem s') pt j = pt_ent (mem s) pt j"
        by (rule pt_ent_cong [OF same_on_subset [OF s'(5) pt_P] that])
      then show ?thesis
        using ent that ui(2) load_store_pte [OF ui(2) that, of "mem s'" pt 0] by (auto simp: k pt_ent_def)
    qed
    moreover have "same_on (span (kid_pages l ?m0 pt (kids_in ?m0 pt (Suc i) 512))) ?m0 (mem ?s)"
    proof -
      let ?Q = "kid_pages l ?m0 pt (kids_in ?m0 pt (Suc i) 512)"
      have Q: "?Q \<inter> insert pt ?P = {}" "\<And>p. p \<in> ?Q \<Longrightarrow> page_aligned p"
        using dis(3,4) kid_pages_sub [OF J(2)] al by blast+
      have "same_on (span ?Q) ?m0 (mem s)"
        using todo unfolding k kid_pages_Un by (simp add: same_on_Un)
      moreover have "same_on (span ?Q) (mem s) (mem s')"
        using away [OF Q] by (intro same_on_subset [OF s'(5)]) blast
      moreover have "same_on (span ?Q) (mem s') (mem ?s)"
        using away [OF Q] by (intro same_on_subset [OF st]) blast
      ultimately show ?thesis
        using same_on_trans by blast
    qed
    moreover have "same_on (- span (pt_pages (Suc l) ?m0 pt)) ?m0 (mem ?s)"
    proof -
      have c: "- span (pt_pages (Suc l) ?m0 pt) \<subseteq> - span ?P" "- span (pt_pages (Suc l) ?m0 pt) \<subseteq> - page pt"
        using span_mono [OF sub] by auto
      show ?thesis
        by (rule same_on_trans [OF same_on_trans [OF out same_on_subset [OF s'(5) c(1)]] same_on_subset [OF st c(2)]])
    qed
    moreover have "set (zs @ ys) = kid_pages l ?m0 pt (kids_in ?m0 pt 0 (Suc i))"
      unfolding k kid_pages_Un kid_pages_single using s'(4) ys by auto
    moreover have "mem_only s0 ?s"
      by (intro mem_only_mem mem_only_trans [OF mo s'(2)])
    ultimately have "fw_inv l s0 pt xs (Suc i) ?s"
      unfolding fw_inv_def using free by blast
    then show ?thesis
      by (simp add: body)
  qed
qed

lemma kfree_tree_root:
  assumes "kmem_inv s' (ys @ xs)" "mem_only s s'" "Lk_kmem \<notin> held s" "phys_page s pt" "pt \<notin> set (ys @ xs)"
    and "set ys \<union> {pt} = P" "same_on (- span P) (mem s) (mem s')" "P = pt_pages l (mem s) pt"
  shows "frees_tree l s pt xs (kfree pt s')"
proof -
  have "phys_page s' pt" "Lk_kmem \<notin> held s'"
    using assms(3,4) mem_onlyD [OF assms(2)] phys_page_cong [of s' s] by simp_all
  then obtain m where m: "kfree pt s' = Ret () (s'\<lparr>mem := m, freelist := pt\<rparr>)"
      "kmem_inv (s'\<lparr>mem := m, freelist := pt\<rparr>) (pt # ys @ xs)" "\<forall>x. x \<notin> page pt \<longrightarrow> m x = mem s' x"
    using kfree_ok [OF assms(1) _ assms(5)] by blast
  have "page pt \<subseteq> span P"
    using assms(6) by (auto simp: span_def)
  then have "same_on (- span P) (mem s) m"
    using assms(7) m(3) by (auto simp: same_on_def)
  moreover have "mem_only s (s'\<lparr>mem := m, freelist := pt\<rparr>)"
    by (rule mem_only_trans [OF assms(2)]) (auto simp: mem_only_def)
  ultimately show ?thesis
    unfolding frees_tree_def using m(1,2) assms(6,8)
    by (intro exI [of _ "s'\<lparr>mem := m, freelist := pt\<rparr>"] exI [of _ "pt # ys"]) auto
qed

lemma freewalk_ok:
  fixes s :: "'a machine_scheme"
  assumes "vm_ok l s pt xs" "no_leaf l (mem s) pt"
  shows "frees_tree l s pt xs (freewalk_depth (Suc l) pt s)"
  using assms
proof (induction l arbitrary: s pt xs)
  case 0
  note okD = vm_okD [OF "0.prems"(1)]
  have inv: "pt_ent (mem s) pt (of_nat i) AND PTE_V = 0" if "i < 512" for i
  proof -
    have "of_nat i \<notin> pt_kids (mem s) pt" "(of_nat i :: uint64) < 512"
      using "0.prems"(2) that unat_of_nat64 [of i] by (simp_all add: word_less_nat_alt)
    then show ?thesis by (simp add: pt_kids_def pte_valid_def)
  qed
  have "ok (for_each [0..<512] (fw_body 0 pt) s) (\<lambda>_ s'. s' = s)"
    by (rule ok_for_upt [where I = "\<lambda>_ s'. s' = s"]) (use inv in \<open>simp_all add: fw_body_def pt_ent_def\<close>)
  then have "freewalk_depth (Suc 0) pt s = kfree pt s"
    unfolding freewalk_depth_Suc by (auto simp: ok_iff simp del: upt.simps for_each.simps upt_rec_numeral)
  moreover have "frees_tree 0 s pt xs (kfree pt s)"
    using okD(1,2) okD(4) [of pt] okD(5)
    by (intro kfree_tree_root [of s "[]" xs s pt "{pt}"]) (auto simp: same_on_def mem_only_def)
  ultimately show ?case
    by simp
next
  case (Suc l)
  note okD = vm_okD [OF Suc.prems(1)]
  have "ok (for_each [0..<512] (fw_body (Suc l) pt) s) (\<lambda>_. fw_inv l s pt xs 512)"
    by (rule ok_for_upt) (intro fw_inv_0 [OF Suc.prems(1)], intro fw_body_ok [OF Suc.prems _ _ Suc.IH])
  then obtain s' where s': "for_each [0..<512] (fw_body (Suc l) pt) s = Ret () s'" "fw_inv l s pt xs 512 s'"
    by (auto simp: ok_iff simp del: upt_rec_numeral)
  have all: "kids_in (mem s) pt 0 512 = pt_kids (mem s) pt"
    by (auto simp: kids_in_def word_less_nat_alt dest: pt_kids_less)
  obtain ys where ys: "mem_only s s'" "kmem_inv s' (ys @ xs)" "set ys = kid_pages l (mem s) pt (pt_kids (mem s) pt)"
      "same_on (- span (pt_pages (Suc l) (mem s) pt)) (mem s) (mem s')"
    using s'(2) unfolding fw_inv_def all by blast
  have "pt \<notin> kid_pages l (mem s) pt (pt_kids (mem s) pt)"
    by (rule kid_pages_disjoint(2) [OF okD(3), of _ "{}"]) simp_all
  then have "pt \<notin> set (ys @ xs)"
    using ys(3) okD(5) by auto
  then have "frees_tree (Suc l) s pt xs (kfree pt s')"
    using ys okD(2,4) by (intro kfree_tree_root [OF ys(2,1)]) (auto simp: kid_pages_def)
  then show ?case
    unfolding freewalk_depth_Suc [of "Suc l"] s'(1) by simp
qed

subsection \<open>An address space is given back whole\<close>

definition owned :: "'a machine_scheme \<Rightarrow> uint64 \<Rightarrow> nat \<Rightarrow> uint64 list \<Rightarrow> uint64 set" where
  "owned s pt lim xs = set xs \<union> pt_pages 2 (mem s) pt \<union> upage s pt ` umapped s pt 0 lim"

lemma freewalk_user:
  assumes "uvm_ok s pt lim xs" "\<forall>va < SV39. \<not> pte_valid (pt_get 2 (mem s) pt va)"
  shows "\<exists>s' ys. freewalk pt s = Ret () s' \<and> mem_only s s' \<and> kmem_inv s' (ys @ xs) \<and>
    set ys = pt_pages 2 (mem s) pt"
proof -
  have "no_leaf 2 (mem s) pt"
    using assms(2) by (intro no_leafI) blast
  then show ?thesis
    using freewalk_ok [OF uvm_okD(1) [OF assms(1)]] by (auto simp: freewalk_def frees_tree_def numeral_3_eq_3)
qed

lemma uvmfree_ok:
  assumes ok: "uvm_ok s pt lim xs" and n: "unat (PGROUNDUP n) = lim"
    and only: "\<forall>va < SV39. pte_valid (pt_get 2 (mem s) pt va) \<longrightarrow> unat va < lim"
  shows "\<exists>s' ys. uvmfree pt n s = Ret () s' \<and> mem_only s s' \<and> kmem_inv s' ys \<and> set ys = owned s pt lim xs"
proof -
  obtain k where k: "unat (PGROUNDUP n) = 4096 * k"
    using page_aligned_PGROUNDUP by (rule page_alignedE)
  have "k < 2 ^ 64"
    using k n uvm_okD(2) [OF ok] by simp
  then have kn: "PGROUNDUP n div PGSIZE = of_nat k"
    using k by (simp add: word_unat_eq_iff unat_div_distrib unat_of_nat64)
  have "\<exists>s' ys. (if n > 0 then uvmunmap pt 0 (PGROUNDUP n div PGSIZE) True s else Ret () s) = Ret () s' \<and>
      mem_only s s' \<and> uvm_ok s' pt lim (ys @ xs) \<and> set ys = upage s pt ` umapped s pt 0 lim \<and>
      pt_pages 2 (mem s') pt = pt_pages 2 (mem s) pt \<and>
      (\<forall>va < SV39. \<not> pte_valid (pt_get 2 (mem s') pt va))"
  proof (cases "n > 0")
    case True
    obtain s' ys where s': "uvmunmap pt 0 (of_nat k) True s = Ret () s'" "mem_only s s'"
        "uvm_ok s' pt lim (ys @ xs)" "set ys = upage s pt ` umapped s pt 0 lim"
        "pt_pages 2 (mem s') pt = pt_pages 2 (mem s) pt"
        "\<forall>va < SV39. pt_get 2 (mem s') pt va = unmap_range 0 lim (pt_get 2 (mem s) pt) va"
      using uvmunmap_ok [OF ok page_aligned_0, of k] k n by (auto simp: mult.commute)
    have "\<forall>va < SV39. \<not> pte_valid (pt_get 2 (mem s') pt va)"
      using s'(6) only by (auto simp: unmap_range_def pte_valid_def)
    then show ?thesis
      using True s' unfolding kn by auto
  next
    case False
    then have "n = 0"
      by (simp add: word_gt_0)
    then have "lim = 0"
      using n by (simp add: PGROUNDUP_def)
    then show ?thesis
      using False ok only by (intro exI [of _ s] exI [of _ "[]"]) (auto simp: umapped_def)
  qed
  then obtain s1 ys where s1: "(if n > 0 then uvmunmap pt 0 (PGROUNDUP n div PGSIZE) True s else Ret () s) = Ret () s1"
      "mem_only s s1" "uvm_ok s1 pt lim (ys @ xs)" "set ys = upage s pt ` umapped s pt 0 lim"
      "pt_pages 2 (mem s1) pt = pt_pages 2 (mem s) pt" "\<forall>va < SV39. \<not> pte_valid (pt_get 2 (mem s1) pt va)"
    by blast
  obtain s2 zs where s2: "freewalk pt s1 = Ret () s2" "mem_only s1 s2" "kmem_inv s2 (zs @ ys @ xs)"
      "set zs = pt_pages 2 (mem s1) pt"
    using freewalk_user [OF s1(3,6)] by blast
  have "set (zs @ ys @ xs) = owned s pt lim xs"
    using s1(4,5) s2(4) by (auto simp: owned_def)
  then show ?thesis
    using s2(1,3) mem_only_trans [OF s1(2) s2(2)] unfolding uvmfree_def s1(1) by auto
qed

subsection \<open>The main theorems\<close>

text \<open>An address space that consists of an empty root table, with one page free.\<close>

definition empty_user :: machine where
  "empty_user = zero_machine 0x80020000 0x80021000"

lemma empty_user_pt:
  "pt_get 2 (mem empty_user) 0x80022000 = (\<lambda>va. 0)" "pt_pages 2 (mem empty_user) 0x80022000 = {0x80022000}"
  "uvm_ok empty_user 0x80022000 4096 [0x80021000]"
proof -
  have ent: "pt_ent (mem empty_user) pt i = 0" for pt i
    by (simp add: pt_ent_def empty_user_def load64_zero)
  then have kids: "pt_kids (mem empty_user) pt = {}" for pt
    by (simp add: pt_kids_def pte_valid_def)
  have get: "pt_get 2 (mem empty_user) 0x80022000 va = 0" for va
    by (simp add: numeral_2_eq_2 pt_get_simps kids)
  show "pt_get 2 (mem empty_user) 0x80022000 = (\<lambda>va. 0)"
    by (rule ext) (rule get)
  show pages: "pt_pages 2 (mem empty_user) 0x80022000 = {0x80022000}"
    by (simp add: numeral_2_eq_2 kids)
  have "pt_tree 2 (mem empty_user) 0x80022000" "phys_page empty_user 0x80022000" "held empty_user = {}"
    unfolding numeral_2_eq_2 pt_tree.simps kids by (simp_all add: phys_page_def page_aligned_def empty_user_def)
  then have "vm_ok 2 empty_user 0x80022000 [0x80021000]"
    using one_page_inv by (simp add: vm_ok_def pages empty_user_def [symmetric])
  moreover have "umapped empty_user 0x80022000 0 4096 = {}"
    by (simp add: umapped_def get pte_valid_def)
  ultimately show "uvm_ok empty_user 0x80022000 4096 [0x80021000]"
    by (simp add: uvm_ok_def)
qed

text \<open>
  C19: \<^verbatim>\<open>mappages\<close> on a well formed page table and a range that is not mapped: it either returns
  0, and then the \<open>n\<close> pages of the range translate to consecutive physical pages with the
  given permissions, or it returns -1 because no free page is left for a page table, after
  mapping a proper prefix of the range. In both cases every other address translates as before,
  the table stays well formed, it has grown only by pages taken from the front of the free
  list, and no memory outside the table changes.
\<close>

theorem mappages_correct:
  assumes "vm_ok 2 s pt xs" "page_aligned a" "0 < n" "unat a + n * 4096 \<le> 2 ^ 38"
    and "\<And>va. unat a \<le> unat va \<Longrightarrow> unat va < unat a + n * 4096 \<Longrightarrow> \<not> pte_valid (pt_get 2 (mem s) pt va)"
  shows "\<exists>r s' k j. mappages pt a (of_nat n * 4096) pa perm s = Ret r s' \<and>
    vm_maps s s' pt xs k (map_range a j pa perm (pt_get 2 (mem s) pt)) \<and>
    (r = 0 \<and> j = n \<or> r = -1 \<and> j < n \<and> drop k xs = [])"
  using mappages_ok [OF assms] .

theorem mappages_correct_witness:
  "\<exists>r s' k j. mappages 0x80022000 0x5000 (of_nat 2 * 4096) 0x80030000 PTE_R empty_user = Ret r s' \<and>
    vm_maps empty_user s' 0x80022000 [0x80021000] k (map_range 0x5000 j 0x80030000 PTE_R (\<lambda>va. 0)) \<and>
    (r = 0 \<and> j = 2 \<or> r = -1 \<and> j < 2 \<and> drop k [0x80021000 :: uint64] = [])"
  using mappages_correct [OF uvm_okD(1) [OF empty_user_pt(3)], of "0x5000" 2 "0x80030000" PTE_R]
  by (simp add: page_aligned_def empty_user_pt(1) pte_valid_def)

text \<open>
  C11: \<^verbatim>\<open>uvmfree\<close> leaks nothing and frees nothing twice: freeing an address space whose
  mappings all lie below its size ends without a panic, and afterwards the free list is
  well formed and holds exactly the pages that were free, the pages of the table and the
  pages that were mapped.
\<close>

theorem uvmfree_correct:
  assumes "uvm_ok s pt lim xs" "unat (PGROUNDUP n) = lim"
    and "\<forall>va < SV39. pte_valid (pt_get 2 (mem s) pt va) \<longrightarrow> unat va < lim"
  shows "\<exists>s' ys. uvmfree pt n s = Ret () s' \<and> mem_only s s' \<and> kmem_inv s' ys \<and> set ys = owned s pt lim xs"
  using uvmfree_ok [OF assms] .

theorem uvmfree_correct_witness:
  "\<exists>s' ys. uvmfree 0x80022000 100 empty_user = Ret () s' \<and> kmem_inv s' ys \<and> set ys = {0x80021000, 0x80022000}"
proof -
  have "owned empty_user 0x80022000 4096 [0x80021000] = {0x80021000, 0x80022000}"
    by (auto simp: owned_def empty_user_pt umapped_def pte_valid_def)
  then show ?thesis
    using uvmfree_correct [OF empty_user_pt(3), of 100]
    by (simp add: unat_PGROUNDUP empty_user_pt(1) pte_valid_def) blast
qed

end
