(* ===== verification/Bio.thy ===== *)
theory Bio
  imports Kalloc
begin

section \<open>The buffer cache (bio.c)\<close>

text \<open>
  \<^verbatim>\<open>riscv/kernel/bio.c\<close> and \<^verbatim>\<open>riscv/kernel/buf.h\<close>. The cache is an array of \<^verbatim>\<open>NBUF\<close> buffers
  on a doubly linked list through \<^verbatim>\<open>prev\<close> and \<^verbatim>\<open>next\<close>, the most recently released first. A
  pointer to a buffer is its index; the list head \<^verbatim>\<open>bcache.head\<close> is the buffer of index
  \<open>NBUF\<close>. A block is a function on an index type of exactly \<^verbatim>\<open>BSIZE\<close> = 1024 values, as the
  array \<^verbatim>\<open>data[BSIZE]\<close> is.

  The disk is a function from block numbers to blocks; \<open>dwrites\<close> is the history of the
  writes it has completed, in their order. \<open>disk_rw\<close> is what the driver's
  \<^verbatim>\<open>virtio_disk_rw\<close> promises: it returns after the one block has been transferred.

  The lemmas describe every operation by its effect on three abstract functions of the
  cache: \<open>bview\<close> (the contents of a block as every reader sees them), \<open>brefs\<close> (the reference
  count of a block) and \<open>nfree\<close> (how many buffers can be recycled).
\<close>

subsection \<open>State and operations\<close>

definition BSIZE :: nat where [simp]: "BSIZE = 1024"

type_synonym block = "10 word \<Rightarrow> uint8"

record buf =
  bvalid :: bool
  bdev :: uint32
  bblockno :: uint32
  block :: sleeplock
  brefcnt :: uint32
  bprev :: nat
  bnext :: nat
  bdata :: block

record bcache = machine +
  bufs :: "nat \<Rightarrow> buf"
  disk :: "uint32 \<Rightarrow> block"
  dwrites :: "(uint32 \<times> block) list"

lemma held_bufs_order [simp]: "s\<lparr>bufs := B, held := h\<rparr> = s\<lparr>held := h, bufs := B\<rparr>"
  by simp

abbreviation head :: nat where
  "head \<equiv> NBUF"

definition upd_buf :: "nat \<Rightarrow> (buf \<Rightarrow> buf) \<Rightarrow> 'a bcache_scheme \<Rightarrow> 'a bcache_scheme" where
  "upd_buf i f s = s\<lparr>bufs := (bufs s)(i := f (bufs s i))\<rparr>"

definition set_next :: "nat \<Rightarrow> nat \<Rightarrow> (nat \<Rightarrow> buf) \<Rightarrow> nat \<Rightarrow> buf" where
  "set_next i j B = B(i := (B i)\<lparr>bnext := j\<rparr>)"

definition set_prev :: "nat \<Rightarrow> nat \<Rightarrow> (nat \<Rightarrow> buf) \<Rightarrow> nat \<Rightarrow> buf" where
  "set_prev i j B = B(i := (B i)\<lparr>bprev := j\<rparr>)"

text \<open>The four assignments that put a buffer in front of the list.\<close>

definition insert_front :: "nat \<Rightarrow> (nat \<Rightarrow> buf) \<Rightarrow> nat \<Rightarrow> buf" where
  "insert_front b B =
     (let B = set_next b (bnext (B head)) B;
          B = set_prev b head B;
          B = set_prev (bnext (B head)) b B
      in set_next head b B)"

definition binit_one :: "nat \<Rightarrow> (nat \<Rightarrow> buf) \<Rightarrow> nat \<Rightarrow> buf" where
  "binit_one b B =
     (let B = set_next b (bnext (B head)) B;
          B = set_prev b head B;
          B = B(b := (B b)\<lparr>block := initsleeplock\<rparr>);
          B = set_prev (bnext (B head)) b B
      in set_next head b B)"

definition binit :: "'a bcache_scheme \<Rightarrow> 'a bcache_scheme" where
  "binit s =
     (let B = set_next head head (set_prev head head (bufs s))
      in s\<lparr>bufs := fold binit_one [0..<NBUF] B\<rparr>)"

text \<open>
  A loop over the list, from \<open>b\<close> along \<open>link\<close> until the head, that stops at the first buffer
  with the property. \<open>None\<close> is a loop that never ends.
\<close>

partial_function (option) bscan :: "(buf \<Rightarrow> nat) \<Rightarrow> (buf \<Rightarrow> bool) \<Rightarrow> (nat \<Rightarrow> buf) \<Rightarrow> nat \<Rightarrow> nat option option" where
  "bscan link test B b =
     (if b = head then Some None
      else if test (B b) then Some (Some b)
      else bscan link test B (link (B b)))"

abbreviation get_buf_lock :: "nat \<Rightarrow> 'a bcache_scheme \<Rightarrow> sleeplock" where
  "get_buf_lock i s \<equiv> block (bufs s i)"

abbreviation put_buf_lock :: "nat \<Rightarrow> sleeplock \<Rightarrow> 'a bcache_scheme \<Rightarrow> 'a bcache_scheme" where
  "put_buf_lock i x s \<equiv> s\<lparr>bufs := (bufs s)(i := (bufs s i)\<lparr>block := x\<rparr>)\<rparr>"

definition bget :: "uint32 \<Rightarrow> uint32 \<Rightarrow> 'a bcache_scheme \<Rightarrow> ('a bcache_scheme, nat) outcome" where
  "bget dev blockno s =
     bnd (acquire Lk_bcache s) (\<lambda>_ s.
     case bscan bnext (\<lambda>b. bdev b = dev \<and> bblockno b = blockno) (bufs s) (bnext (bufs s head)) of
       None \<Rightarrow> Panic ''bget: endless loop''
     | Some (Some b) \<Rightarrow>
         let s = upd_buf b (\<lambda>x. x\<lparr>brefcnt := brefcnt x + 1\<rparr>) s in
         bnd (release Lk_bcache s) (\<lambda>_ s.
         bnd (acquiresleep (Lk_buf b) (Chan_buf_lock b) (get_buf_lock b) (put_buf_lock b) s) (\<lambda>_ s.
         Ret b s))
     | Some None \<Rightarrow>
         (case bscan bprev (\<lambda>b. brefcnt b = 0) (bufs s) (bprev (bufs s head)) of
            None \<Rightarrow> Panic ''bget: endless loop''
          | Some (Some b) \<Rightarrow>
              let s = upd_buf b (\<lambda>x. x\<lparr>bdev := dev, bblockno := blockno, bvalid := False, brefcnt := 1\<rparr>) s in
              bnd (release Lk_bcache s) (\<lambda>_ s.
              bnd (acquiresleep (Lk_buf b) (Chan_buf_lock b) (get_buf_lock b) (put_buf_lock b) s) (\<lambda>_ s.
              Ret b s))
          | Some None \<Rightarrow> Panic ''bget: no buffers''))"

definition disk_rw :: "nat \<Rightarrow> bool \<Rightarrow> 'a bcache_scheme \<Rightarrow> ('a bcache_scheme, unit) outcome" where
  "disk_rw b write s =
     (let n = bblockno (bufs s b); x = bdata (bufs s b) in
      if write then Ret () (s\<lparr>disk := (disk s)(n := x), dwrites := dwrites s @ [(n, x)]\<rparr>)
      else Ret () (upd_buf b (\<lambda>y. y\<lparr>bdata := disk s n\<rparr>) s))"

definition bread :: "uint32 \<Rightarrow> uint32 \<Rightarrow> 'a bcache_scheme \<Rightarrow> ('a bcache_scheme, nat) outcome" where
  "bread dev blockno s =
     bnd (bget dev blockno s) (\<lambda>b s.
     if \<not> bvalid (bufs s b) then
       bnd (disk_rw b False s) (\<lambda>_ s.
       Ret b (upd_buf b (\<lambda>x. x\<lparr>bvalid := True\<rparr>) s))
     else Ret b s)"

definition bwrite :: "nat \<Rightarrow> 'a bcache_scheme \<Rightarrow> ('a bcache_scheme, unit) outcome" where
  "bwrite b s =
     bnd (holdingsleep (Lk_buf b) (get_buf_lock b) s) (\<lambda>h s.
     if \<not> h then Panic ''bwrite'' else disk_rw b True s)"

definition brelse :: "nat \<Rightarrow> 'a bcache_scheme \<Rightarrow> ('a bcache_scheme, unit) outcome" where
  "brelse b s =
     bnd (holdingsleep (Lk_buf b) (get_buf_lock b) s) (\<lambda>h s.
     if \<not> h then Panic ''brelse''
     else
       bnd (releasesleep (Lk_buf b) (Chan_buf_lock b) (put_buf_lock b) s) (\<lambda>_ s.
       bnd (acquire Lk_bcache s) (\<lambda>_ s.
       let s = upd_buf b (\<lambda>x. x\<lparr>brefcnt := brefcnt x - 1\<rparr>) s;
           s = (if brefcnt (bufs s b) = 0 then
                  let B = bufs s;
                      B = set_prev (bnext (B b)) (bprev (B b)) B;
                      B = set_next (bprev (B b)) (bnext (B b)) B
                  in s\<lparr>bufs := insert_front b B\<rparr>
                else s)
       in release Lk_bcache s)))"

definition bpin :: "nat \<Rightarrow> 'a bcache_scheme \<Rightarrow> ('a bcache_scheme, unit) outcome" where
  "bpin b s =
     bnd (acquire Lk_bcache s) (\<lambda>_ s.
     release Lk_bcache (upd_buf b (\<lambda>x. x\<lparr>brefcnt := brefcnt x + 1\<rparr>) s))"

definition bunpin :: "nat \<Rightarrow> 'a bcache_scheme \<Rightarrow> ('a bcache_scheme, unit) outcome" where
  "bunpin b s =
     bnd (acquire Lk_bcache s) (\<lambda>_ s.
     release Lk_bcache (upd_buf b (\<lambda>x. x\<lparr>brefcnt := brefcnt x - 1\<rparr>) s))"

subsection \<open>Buffer locks are sleep locks\<close>

interpretation buf_lock: sleeplock_field "Lk_buf i" "get_buf_lock i" "put_buf_lock i" for i
  by unfold_locales simp_all

subsection \<open>The list of buffers\<close>

definition linked :: "(nat \<Rightarrow> buf) \<Rightarrow> nat \<Rightarrow> nat \<Rightarrow> bool" where
  "linked B x y \<longleftrightarrow> bnext (B x) = y \<and> bprev (B y) = x"

abbreviation segment :: "(nat \<Rightarrow> buf) \<Rightarrow> nat list \<Rightarrow> bool" where
  "segment B \<equiv> successively (linked B)"

definition lru :: "(nat \<Rightarrow> buf) \<Rightarrow> nat list \<Rightarrow> bool" where
  "lru B xs \<longleftrightarrow> segment B (head # xs @ [head]) \<and> distinct xs \<and> set xs = {0..<NBUF}"

lemma segment_frame:
  assumes "\<And>x. x \<in> set (butlast L) \<Longrightarrow> bnext (B' x) = bnext (B x)"
    and "\<And>x. x \<in> set (tl L) \<Longrightarrow> bprev (B' x) = bprev (B x)"
  shows "segment B' L = segment B L"
  using assms
proof (induction L rule: induct_list012)
  case (3 x y L)
  have "segment B' (y # L) = segment B (y # L)"
    by (rule "3.IH"(2)) (use "3.prems" in auto)
  moreover have "bnext (B' x) = bnext (B x)" "bprev (B' y) = bprev (B y)"
    using "3.prems" by simp_all
  ultimately show ?case
    by (simp add: linked_def)
qed simp_all

lemma segment_append:
  "segment B (us @ vs) \<longleftrightarrow> segment B us \<and> segment B vs \<and> (us = [] \<or> vs = [] \<or> linked B (last us) (hd vs))"
  by (auto simp: successively_append_iff)

lemma distinct_ends:
  assumes "distinct L" "L \<noteq> []"
  shows "last L \<notin> set (butlast L)" "hd L \<notin> set (tl L)"
proof -
  show "last L \<notin> set (butlast L)"
    using assms by (induction L rule: rev_induct) auto
  show "hd L \<notin> set (tl L)"
    using assms by (cases L) auto
qed

text \<open>Only the links change.\<close>

lemma set_links_other [simp]:
  "bvalid (set_next i j B k) = bvalid (B k)" "bvalid (set_prev i j B k) = bvalid (B k)"
  "bdev (set_next i j B k) = bdev (B k)" "bdev (set_prev i j B k) = bdev (B k)"
  "bblockno (set_next i j B k) = bblockno (B k)" "bblockno (set_prev i j B k) = bblockno (B k)"
  "block (set_next i j B k) = block (B k)" "block (set_prev i j B k) = block (B k)"
  "brefcnt (set_next i j B k) = brefcnt (B k)" "brefcnt (set_prev i j B k) = brefcnt (B k)"
  "bdata (set_next i j B k) = bdata (B k)" "bdata (set_prev i j B k) = bdata (B k)"
  by (simp_all add: set_next_def set_prev_def)

lemma set_links [simp]:
  "bnext (set_next i j B k) = (if k = i then j else bnext (B k))" "bnext (set_prev i j B k) = bnext (B k)"
  "bprev (set_prev i j B k) = (if k = i then j else bprev (B k))" "bprev (set_next i j B k) = bprev (B k)"
  by (simp_all add: set_next_def set_prev_def)

lemma insert_front_other [simp]:
  "bvalid (insert_front b B k) = bvalid (B k)" "bdev (insert_front b B k) = bdev (B k)"
  "bblockno (insert_front b B k) = bblockno (B k)" "block (insert_front b B k) = block (B k)"
  "brefcnt (insert_front b B k) = brefcnt (B k)" "bdata (insert_front b B k) = bdata (B k)"
  by (simp_all add: insert_front_def)

lemma insert_front_segment:
  assumes "segment B (head # xs @ [head])" "distinct (head # b # xs)"
  shows "segment (insert_front b B) (head # b # xs @ [head])"
proof -
  let ?L = "xs @ [head]"
  have hd: "bnext (B head) = hd ?L" and tl: "segment B ?L"
    using assms(1) by (cases xs; simp add: linked_def)+
  have dis: "distinct ?L" "b \<notin> set ?L" "?L \<noteq> []"
    using assms(2) by auto
  have n: "bnext (insert_front b B k) = (if k = head then b else if k = b then hd ?L else bnext (B k))" for k
    using assms(2) hd by (simp add: insert_front_def Let_def)
  have p: "bprev (insert_front b B k) = (if k = hd ?L then b else if k = b then head else bprev (B k))" for k
    using assms(2) hd by (simp add: insert_front_def Let_def)
  have "segment (insert_front b B) ?L = segment B ?L"
  proof (rule segment_frame)
    fix x
    assume "x \<in> set (butlast ?L)"
    then have "x \<noteq> head" "x \<noteq> b"
      using assms(2) by auto
    then show "bnext (insert_front b B x) = bnext (B x)"
      by (simp add: n)
  next
    fix x
    assume x: "x \<in> set (tl ?L)"
    moreover have "x \<noteq> hd ?L"
      using x distinct_ends(2) [OF dis(1,3)] by blast
    moreover have "x \<noteq> b"
      using x dis(2) list.set_sel(2) [OF dis(3)] by blast
    ultimately show "bprev (insert_front b B x) = bprev (B x)"
      by (simp add: p)
  qed
  then have "segment (insert_front b B) ?L"
    using tl by simp
  moreover have "hd ?L \<noteq> b"
    using dis(2) hd_in_set [OF dis(3)] by metis
  then have "linked (insert_front b B) b (hd ?L)" "linked (insert_front b B) head b"
    using assms(2) by (auto simp: linked_def n p)
  ultimately show ?thesis
    using segment_append [of "insert_front b B" "[head, b]" ?L] by simp
qed

definition unlink :: "nat \<Rightarrow> (nat \<Rightarrow> buf) \<Rightarrow> nat \<Rightarrow> buf" where
  "unlink b B =
     (let B = set_prev (bnext (B b)) (bprev (B b)) B
      in set_next (bprev (B b)) (bnext (B b)) B)"

lemma unlink_other [simp]:
  "bvalid (unlink b B k) = bvalid (B k)" "bdev (unlink b B k) = bdev (B k)"
  "bblockno (unlink b B k) = bblockno (B k)" "block (unlink b B k) = block (B k)"
  "brefcnt (unlink b B k) = brefcnt (B k)" "bdata (unlink b B k) = bdata (B k)"
  by (simp_all add: unlink_def)

lemma unlink_segment:
  assumes "segment B (head # us @ b # vs @ [head])" "distinct (head # us @ b # vs)"
  shows "segment (unlink b B) (head # (us @ vs) @ [head])"
proof -
  let ?U = "head # us" and ?V = "vs @ [head]"
  have "segment B (?U @ [b] @ ?V)"
    using assms(1) by simp
  then have U: "segment B ?U" "linked B (last ?U) b" and V: "segment B ?V" "linked B b (hd ?V)"
    unfolding segment_append by simp_all
  have pn: "bprev (B b) = last ?U" "bnext (B b) = hd ?V"
    using U(2) V(2) by (simp_all only: linked_def)
  have ne: "last ?U \<noteq> b" "hd ?V \<noteq> b"
    using assms(2) last_in_set [of ?U] hd_in_set [of ?V] by (auto simp del: last.simps)
  have n: "bnext (unlink b B k) = (if k = last ?U then hd ?V else bnext (B k))" for k
    using ne pn by (simp only: unlink_def Let_def set_links if_False) auto
  have p: "bprev (unlink b B k) = (if k = hd ?V then last ?U else bprev (B k))" for k
    using ne pn by (simp only: unlink_def Let_def set_links if_False)
  have seg: "segment (unlink b B) ?U = segment B ?U"
  proof (rule segment_frame)
    fix x
    assume "x \<in> set (butlast ?U)"
    then have "x \<noteq> last ?U"
      using distinct_ends(1) [of ?U] assms(2) by fastforce
    then show "bnext (unlink b B x) = bnext (B x)"
      unfolding n by simp
  next
    fix x
    assume "x \<in> set (tl ?U)"
    then have "x \<noteq> hd ?V"
      using hd_in_set [of ?V] assms(2) by auto
    then show "bprev (unlink b B x) = bprev (B x)"
      unfolding p by simp
  qed
  have "segment (unlink b B) ?V = segment B ?V"
  proof (rule segment_frame)
    fix x
    assume "x \<in> set (butlast ?V)"
    then have "x \<noteq> last ?U"
      using last_in_set [of ?U] assms(2) by (auto simp del: last.simps)
    then show "bnext (unlink b B x) = bnext (B x)"
      unfolding n by simp
  next
    fix x
    assume "x \<in> set (tl ?V)"
    then have "x \<noteq> hd ?V"
      using distinct_ends(2) [of ?V] assms(2) by fastforce
    then show "bprev (unlink b B x) = bprev (B x)"
      unfolding p by simp
  qed
  moreover have "linked (unlink b B) (last ?U) (hd ?V)"
    unfolding linked_def n p by simp
  ultimately have "segment (unlink b B) (?U @ ?V)"
    unfolding segment_append [of "unlink b B" ?U ?V] using seg U(1) V(1) by blast
  then show ?thesis
    by simp
qed

lemma lru_to_front:
  assumes "lru B xs" "b < NBUF"
  shows "lru (insert_front b (unlink b B)) (b # remove1 b xs)"
proof -
  have d: "distinct xs" "set xs = {0..<NBUF}" and s: "segment B (head # xs @ [head])"
    using assms(1) by (auto simp: lru_def)
  then have "b \<in> set xs"
    using assms(2) by simp
  then obtain us vs where xs: "xs = us @ b # vs" "b \<notin> set us"
    by (meson split_list_first)
  have dis: "distinct (head # us @ b # vs)"
    using d xs(1) by auto
  have r: "remove1 b xs = us @ vs"
    using xs by (simp add: remove1_append)
  have "segment (unlink b B) (head # (us @ vs) @ [head])"
    using s xs(1) by (intro unlink_segment [OF _ dis]) simp
  then have "segment (insert_front b (unlink b B)) (head # b # (us @ vs) @ [head])"
    using dis by (intro insert_front_segment) auto
  moreover have "distinct (b # us @ vs)" "set (b # us @ vs) = {0..<NBUF}"
    using d xs(1) by auto
  ultimately show ?thesis
    unfolding lru_def r by (simp del: NBUF_def)
qed

text \<open>The two loops of \<^verbatim>\<open>bget\<close> end and find the first buffer in their direction.\<close>

lemma bscan_next:
  assumes "segment B (a # xs @ [head])" "head \<notin> set xs"
  shows "bscan bnext t B (bnext (B a)) = Some (find (\<lambda>i. t (B i)) xs)"
  using assms
proof (induction xs arbitrary: a)
  case Nil
  then show ?case
    by (subst bscan.simps) (simp add: linked_def)
next
  case (Cons x xs)
  then have "bnext (B a) = x" "x \<noteq> head"
    by (auto simp: linked_def)
  then show ?case
    using Cons by (subst bscan.simps) simp
qed

lemma bscan_prev:
  assumes "segment B (head # xs @ [z])" "head \<notin> set xs"
  shows "bscan bprev t B (bprev (B z)) = Some (find (\<lambda>i. t (B i)) (rev xs))"
  using assms
proof (induction xs arbitrary: z rule: rev_induct)
  case Nil
  then show ?case
    by (subst bscan.simps) (simp add: linked_def)
next
  case (snoc x xs)
  have "segment B ((head # xs @ [x]) @ [z])"
    using snoc.prems(1) by simp
  then have "segment B (head # xs @ [x])" "linked B x z"
    unfolding segment_append by auto
  then show ?case
    using snoc.IH [of x] snoc.prems(2) by (subst bscan.simps) (simp add: linked_def)
qed

lemma bscan_lru:
  assumes "lru B xs"
  shows "bscan bnext t B (bnext (B head)) = Some (find (\<lambda>i. t (B i)) xs)"
    "bscan bprev t B (bprev (B head)) = Some (find (\<lambda>i. t (B i)) (rev xs))"
proof -
  have "segment B (head # xs @ [head])" "head \<notin> set xs"
    using assms by (auto simp: lru_def)
  then show "bscan bnext t B (bnext (B head)) = Some (find (\<lambda>i. t (B i)) xs)"
    "bscan bprev t B (bprev (B head)) = Some (find (\<lambda>i. t (B i)) (rev xs))"
    by (rule bscan_next, rule bscan_prev)
qed

subsection \<open>The invariant and the abstract functions\<close>

text \<open>
  \<open>slot d B b i\<close>: buffer \<open>i\<close> caches block \<open>b\<close> of device \<open>d\<close>. The invariant: the list holds every
  buffer once; a block is cached at most once; a buffer nobody refers to is not locked and,
  if valid, is equal to the block on disk.
\<close>

definition slot :: "uint32 \<Rightarrow> (nat \<Rightarrow> buf) \<Rightarrow> uint32 \<Rightarrow> nat \<Rightarrow> bool" where
  "slot d B b i \<longleftrightarrow> i < NBUF \<and> bdev (B i) = d \<and> bblockno (B i) = b"

definition cache_inv :: "uint32 \<Rightarrow> 'a bcache_scheme \<Rightarrow> bool" where
  "cache_inv d s \<longleftrightarrow> (\<exists>xs. lru (bufs s) xs) \<and>
     (\<forall>b i j. slot d (bufs s) b i \<longrightarrow> slot d (bufs s) b j \<longrightarrow> i = j) \<and>
     (\<forall>i < NBUF. brefcnt (bufs s i) = 0 \<longrightarrow> slocked (block (bufs s i)) = 0 \<and>
        (bdev (bufs s i) = d \<and> bvalid (bufs s i) \<longrightarrow> bdata (bufs s i) = disk s (bblockno (bufs s i))))"

definition bslot :: "uint32 \<Rightarrow> (nat \<Rightarrow> buf) \<Rightarrow> uint32 \<Rightarrow> nat option" where
  "bslot d B b = find (\<lambda>i. bdev (B i) = d \<and> bblockno (B i) = b) [0..<NBUF]"

definition bview :: "uint32 \<Rightarrow> 'a bcache_scheme \<Rightarrow> uint32 \<Rightarrow> block" where
  "bview d s b = (case bslot d (bufs s) b of
     None \<Rightarrow> disk s b
   | Some i \<Rightarrow> if bvalid (bufs s i) then bdata (bufs s i) else disk s b)"

definition brefs :: "uint32 \<Rightarrow> (nat \<Rightarrow> buf) \<Rightarrow> uint32 \<Rightarrow> nat" where
  "brefs d B b = (case bslot d B b of None \<Rightarrow> 0 | Some i \<Rightarrow> unat (brefcnt (B i)))"

definition blocked :: "uint32 \<Rightarrow> (nat \<Rightarrow> buf) \<Rightarrow> uint32 \<Rightarrow> bool" where
  "blocked d B b = (case bslot d B b of None \<Rightarrow> False | Some i \<Rightarrow> slocked (block (B i)) \<noteq> 0)"

definition nfree :: "(nat \<Rightarrow> buf) \<Rightarrow> nat" where
  "nfree B = card {i. i < NBUF \<and> brefcnt (B i) = 0}"

lemma cache_invD:
  assumes "cache_inv d s"
  shows "\<exists>xs. lru (bufs s) xs" "slot d (bufs s) b i \<Longrightarrow> slot d (bufs s) b j \<Longrightarrow> i = j"
    "i < NBUF \<Longrightarrow> brefcnt (bufs s i) = 0 \<Longrightarrow> slocked (block (bufs s i)) = 0"
    "slot d (bufs s) b i \<Longrightarrow> brefcnt (bufs s i) = 0 \<Longrightarrow> bvalid (bufs s i) \<Longrightarrow> bdata (bufs s i) = disk s b"
  using assms by (auto simp: cache_inv_def slot_def)

lemma bslot_Some:
  assumes "\<And>i j. slot d B b i \<Longrightarrow> slot d B b j \<Longrightarrow> i = j"
  shows "bslot d B b = Some i \<longleftrightarrow> slot d B b i"
proof
  assume "bslot d B b = Some i"
  then show "slot d B b i"
    by (auto simp: bslot_def find_Some_iff slot_def)
next
  assume i: "slot d B b i"
  then have "\<not> bslot d B b = None"
    by (auto simp: bslot_def find_None_iff slot_def)
  then obtain j where j: "bslot d B b = Some j"
    by blast
  then have "slot d B b j"
    by (auto simp: bslot_def find_Some_iff slot_def)
  then show "bslot d B b = Some i"
    using assms i j by blast
qed

lemma bslot_None: "bslot d B b = None \<longleftrightarrow> (\<forall>i. \<not> slot d B b i)"
  by (auto simp: bslot_def find_None_iff slot_def)

lemma cache_slot:
  assumes "cache_inv d s"
  shows "bslot d (bufs s) b = Some i \<longleftrightarrow> slot d (bufs s) b i"
  by (rule bslot_Some) (rule cache_invD(2) [OF assms])

text \<open>The abstract cache, and what each operation does to it.\<close>

record acache =
  aview :: "uint32 \<Rightarrow> block"
  arefs :: "uint32 \<Rightarrow> nat"
  alock :: "uint32 \<Rightarrow> bool"
  afree :: nat
  adisk :: "uint32 \<Rightarrow> block"

definition cabs :: "uint32 \<Rightarrow> 'a bcache_scheme \<Rightarrow> acache" where
  "cabs d s = \<lparr>aview = bview d s, arefs = brefs d (bufs s), alock = blocked d (bufs s),
     afree = nfree (bufs s), adisk = disk s\<rparr>"

definition a_read :: "uint32 \<Rightarrow> acache \<Rightarrow> acache" where
  "a_read b a = a\<lparr>arefs := (arefs a)(b := arefs a b + 1), alock := (alock a)(b := True),
     afree := (if arefs a b = 0 then afree a - 1 else afree a)\<rparr>"

definition a_set :: "uint32 \<Rightarrow> block \<Rightarrow> acache \<Rightarrow> acache" where
  "a_set b x a = a\<lparr>aview := (aview a)(b := x)\<rparr>"

definition a_write :: "uint32 \<Rightarrow> acache \<Rightarrow> acache" where
  "a_write b a = a\<lparr>adisk := (adisk a)(b := aview a b)\<rparr>"

definition a_relse :: "uint32 \<Rightarrow> acache \<Rightarrow> acache" where
  "a_relse b a = a\<lparr>arefs := (arefs a)(b := arefs a b - 1), alock := (alock a)(b := False),
     afree := (if arefs a b = 1 then afree a + 1 else afree a)\<rparr>"

definition a_pin :: "uint32 \<Rightarrow> acache \<Rightarrow> acache" where
  "a_pin b a = a\<lparr>arefs := (arefs a)(b := arefs a b + 1)\<rparr>"

definition a_unpin :: "uint32 \<Rightarrow> acache \<Rightarrow> acache" where
  "a_unpin b a = a\<lparr>arefs := (arefs a)(b := arefs a b - 1)\<rparr>"

text \<open>The caller has locked buffer \<open>i\<close>, which holds block \<open>b\<close>.\<close>

definition hold :: "uint32 \<Rightarrow> 'a bcache_scheme \<Rightarrow> uint32 \<Rightarrow> nat \<Rightarrow> bool" where
  "hold d s b i \<longleftrightarrow> slot d (bufs s) b i \<and> bvalid (bufs s i) \<and> brefcnt (bufs s i) \<noteq> 0 \<and>
     slocked (block (bufs s i)) \<noteq> 0 \<and>
     (\<exists>p. myproc s = Some p \<and> spid (block (bufs s i)) = pid (procs s p))"

text \<open>A process runs and holds no spin lock, as in every system call that reaches the disk.\<close>

definition quiet :: "'a bcache_scheme \<Rightarrow> bool" where
  "quiet s \<longleftrightarrow> held s = {} \<and> myproc s \<noteq> None"

lemma quiet_simps [simp]:
  "quiet (s\<lparr>bufs := B\<rparr>) = quiet s" "quiet (s\<lparr>procs := ps\<rparr>) = quiet s" "quiet (s\<lparr>disk := dk\<rparr>) = quiet s"
  "quiet (s\<lparr>dwrites := w\<rparr>) = quiet s" "quiet (upd_buf i f s) = quiet s"
  by (simp_all add: quiet_def upd_buf_def)

lemma quietE:
  assumes "quiet s"
  obtains p where "held s = {}" "myproc s = Some p" "proc_locks_free s"
  using assms by (auto simp: quiet_def proc_locks_free_def)

subsection \<open>Updates of one buffer\<close>

lemma lru_cong:
  assumes "\<And>i. bnext (B' i) = bnext (B i)" "\<And>i. bprev (B' i) = bprev (B i)"
  shows "lru B' xs = lru B xs"
proof -
  have "linked B' = linked B"
    using assms by (simp add: linked_def fun_eq_iff)
  then show ?thesis
    by (simp add: lru_def)
qed

lemma bslot_upd_same:
  assumes "bdev x = bdev (B i)" "bblockno x = bblockno (B i)"
  shows "bslot d (B(i := x)) b = bslot d B b" "slot d (B(i := x)) b j = slot d B b j"
proof -
  have "(\<lambda>k. bdev ((B(i := x)) k) = d \<and> bblockno ((B(i := x)) k) = b) =
      (\<lambda>k. bdev (B k) = d \<and> bblockno (B k) = b)"
    using assms by auto
  then show "bslot d (B(i := x)) b = bslot d B b"
    unfolding bslot_def by simp
  show "slot d (B(i := x)) b j = slot d B b j"
    using assms by (auto simp: slot_def)
qed

lemma nfree_upd:
  assumes "i < NBUF"
  shows "nfree (B(i := x)) =
    nfree B - (if brefcnt (B i) = 0 then 1 else 0) + (if brefcnt x = 0 then 1 else 0)"
proof -
  let ?F = "\<lambda>B. {k. k < NBUF \<and> brefcnt (B k) = 0}"
  have fin: "finite (?F B - {i})"
    by simp
  have "?F (B(i := x)) = (if brefcnt x = 0 then insert i (?F B - {i}) else ?F B - {i})"
    using assms by auto
  moreover have "card (?F B - {i}) = card (?F B) - (if brefcnt (B i) = 0 then 1 else 0)"
    using assms by (simp add: card_Diff_singleton_if)
  ultimately show ?thesis
    unfolding nfree_def using card_insert_disjoint [OF fin, of i] by simp
qed

lemma nfree_pos: "i < NBUF \<Longrightarrow> brefcnt (B i) = 0 \<Longrightarrow> 0 < nfree B"
  by (auto simp: nfree_def card_gt_0_iff)

lemma cabs_upd:
  assumes inv: "cache_inv d s" and i: "slot d (bufs s) b i"
    and x: "bdev x = d" "bblockno x = b"
  shows "cabs d (s\<lparr>bufs := (bufs s)(i := x)\<rparr>) = \<lparr>
     aview = (bview d s)(b := if bvalid x then bdata x else disk s b),
     arefs = (brefs d (bufs s))(b := unat (brefcnt x)),
     alock = (blocked d (bufs s))(b := slocked (block x) \<noteq> 0),
     afree = nfree (bufs s) - (if brefcnt (bufs s i) = 0 then 1 else 0) + (if brefcnt x = 0 then 1 else 0),
     adisk = disk s\<rparr>"
proof -
  have same: "bdev x = bdev (bufs s i)" "bblockno x = bblockno (bufs s i)" and lt: "i < NBUF"
    using i x by (simp_all add: slot_def)
  have b: "bslot d (bufs s) b' = Some j \<longleftrightarrow> slot d (bufs s) b' j" for b' j
    by (rule cache_slot [OF inv])
  have other: "j \<noteq> i" if "bslot d (bufs s) b' = Some j" "b' \<noteq> b" for b' j
    using that i by (auto simp: b slot_def)
  have here: "bslot d (bufs s) b = Some i"
    using i by (simp add: b)
  show ?thesis
    unfolding cabs_def acache.simps
    using nfree_upd [OF lt, of "bufs s" x] other here
    by (auto simp: bview_def brefs_def blocked_def bslot_upd_same [of x "bufs s" i, OF same] fun_eq_iff split: option.splits)
qed

lemma cache_inv_upd:
  assumes inv: "cache_inv d s" and i: "slot d (bufs s) b i"
    and x: "bdev x = d" "bblockno x = b" "bnext x = bnext (bufs s i)" "bprev x = bprev (bufs s i)"
    and clean: "brefcnt x = 0 \<Longrightarrow> slocked (block x) = 0 \<and> (bvalid x \<longrightarrow> bdata x = disk s b)"
  shows "cache_inv d (s\<lparr>bufs := (bufs s)(i := x)\<rparr>)"
proof -
  have same: "bdev x = bdev (bufs s i)" "bblockno x = bblockno (bufs s i)"
    using i x by (simp_all add: slot_def)
  have "lru ((bufs s)(i := x)) xs = lru (bufs s) xs" for xs
    using x by (intro lru_cong) auto
  then show ?thesis
    using inv x clean unfolding cache_inv_def by (auto simp: bslot_upd_same [of x "bufs s" i, OF same])
qed

lemma hold_data:
  assumes "cache_inv d s" "hold d s b i"
  shows "bdata (bufs s i) = bview d s b"
proof -
  have "bslot d (bufs s) b = Some i" "bvalid (bufs s i)"
    using assms by (simp_all add: cache_slot [OF assms(1)] hold_def)
  then show ?thesis
    by (simp add: bview_def)
qed

subsection \<open>The operations refine the abstract cache\<close>

abbreviation taken :: "nat \<Rightarrow> 'a bcache_scheme \<Rightarrow> sleeplock" where
  "taken p s \<equiv> \<lparr>slocked = 1, spid = pid (procs s p)\<rparr>"

lemma option_eqI:
  assumes "\<And>j. u = Some j \<longleftrightarrow> v = Some j"
  shows "u = v"
  using assms by (metis not_None_eq)

lemma findSomeD:
  assumes "find P xs = Some i"
  shows "P i" "i \<in> set xs"
  using assms by (auto simp: find_Some_iff)

lemma find_unique:
  assumes "i \<in> set xs" "P i" "\<And>j. P j \<Longrightarrow> j \<in> set xs \<Longrightarrow> j = i"
  shows "find P xs = Some i"
proof (cases "find P xs")
  case None
  then show ?thesis
    using assms by (auto simp: find_None_iff)
next
  case (Some j)
  then show ?thesis
    using assms(3) [of j] by (auto simp: find_Some_iff)
qed

lemma bget_hit:
  assumes inv: "cache_inv d s" and i: "slot d (bufs s) b i" "slocked (block (bufs s i)) = 0"
    and q: "held s = {}" "myproc s = Some p"
  shows "bget d b s = Ret i (s\<lparr>bufs := (bufs s)(i := (bufs s i)\<lparr>brefcnt := brefcnt (bufs s i) + 1, block := taken p s\<rparr>)\<rparr>)"
proof -
  obtain xs where xs: "lru (bufs s) xs"
    using cache_invD(1) [OF inv] by blast
  have "find (\<lambda>i. bdev (bufs s i) = d \<and> bblockno (bufs s i) = b) xs = Some i"
    using xs i(1) by (intro find_unique) (auto simp: lru_def slot_def intro: cache_invD(2) [OF inv, of b])
  then have scan: "bscan bnext (\<lambda>x. bdev x = d \<and> bblockno x = b) (bufs s) (bnext (bufs s head)) = Some (Some i)"
    using bscan_lru(1) [OF xs] by simp
  let ?s = "s\<lparr>held := {}, bufs := (bufs s)(i := (bufs s i)\<lparr>brefcnt := brefcnt (bufs s i) + 1\<rparr>)\<rparr>"
  have "acquiresleep (Lk_buf i) (Chan_buf_lock i) (get_buf_lock i) (put_buf_lock i) ?s =
      Ret () (put_buf_lock i (taken p s) ?s)"
    using buf_lock.acquiresleep_free [of i ?s p "Chan_buf_lock i"] i(2) q(2) by simp
  then show ?thesis
    using scan q(1) by (simp add: bget_def upd_buf_def held_id del: NBUF_def)
qed

text \<open>A miss recycles the unreferenced buffer that was released longest ago.\<close>

lemma bget_miss:
  assumes inv: "cache_inv d s" and xs: "lru (bufs s) xs" and no: "\<forall>i. \<not> slot d (bufs s) b i"
    and q: "held s = {}" "myproc s = Some p"
  shows "bget d b s = (case find (\<lambda>i. brefcnt (bufs s i) = 0) (rev xs) of
      None \<Rightarrow> Panic ''bget: no buffers''
    | Some i \<Rightarrow> Ret i (s\<lparr>bufs := (bufs s)(i := (bufs s i)\<lparr>bdev := d, bblockno := b, bvalid := False,
        brefcnt := 1, block := taken p s\<rparr>)\<rparr>))"
proof -
  have "find (\<lambda>i. bdev (bufs s i) = d \<and> bblockno (bufs s i) = b) xs = None"
    using xs no by (auto simp: find_None_iff lru_def slot_def)
  then have scan: "bscan bnext (\<lambda>x. bdev x = d \<and> bblockno x = b) (bufs s) (bnext (bufs s head)) = Some None"
    using bscan_lru(1) [OF xs] by simp
  have s: "s\<lparr>held := {}\<rparr> = s"
    using q(1) by (rule held_id)
  show ?thesis
  proof (cases "find (\<lambda>i. brefcnt (bufs s i) = 0) (rev xs)")
    case None
    then show ?thesis
      using scan bscan_lru(2) [OF xs] q(1) by (simp add: bget_def del: NBUF_def)
  next
    case (Some i)
    then have i: "i < NBUF" "brefcnt (bufs s i) = 0"
      using xs findSomeD [OF Some] by (auto simp: lru_def)
    let ?s = "s\<lparr>held := {}, bufs := (bufs s)(i := (bufs s i)\<lparr>bdev := d, bblockno := b, bvalid := False, brefcnt := 1\<rparr>)\<rparr>"
    have "acquiresleep (Lk_buf i) (Chan_buf_lock i) (get_buf_lock i) (put_buf_lock i) ?s =
        Ret () (put_buf_lock i (taken p s) ?s)"
      using buf_lock.acquiresleep_free [of i ?s p "Chan_buf_lock i"] cache_invD(3) [OF inv i] q(2) by simp
    then show ?thesis
      using scan Some bscan_lru(2) [OF xs] q(1) by (simp add: bget_def upd_buf_def s del: NBUF_def)
  qed
qed

text \<open>Recycling a buffer: its old block keeps its contents, which are on the disk.\<close>

lemma recycle:
  assumes inv: "cache_inv d s" and no: "\<forall>i. \<not> slot d (bufs s) b i" and i: "i < NBUF" "brefcnt (bufs s i) = 0"
    and x: "bdev x = d" "bblockno x = b" "brefcnt x = 1" "slocked (block x) \<noteq> 0"
      "bnext x = bnext (bufs s i)" "bprev x = bprev (bufs s i)" "bvalid x \<Longrightarrow> bdata x = disk s b"
  shows "cache_inv d (s\<lparr>bufs := (bufs s)(i := x)\<rparr>)" "cabs d (s\<lparr>bufs := (bufs s)(i := x)\<rparr>) = a_read b (cabs d s)"
proof -
  let ?B = "(bufs s)(i := x)" and ?s = "s\<lparr>bufs := (bufs s)(i := x)\<rparr>"
  have slots: "slot d ?B b' j \<longleftrightarrow> (if j = i then b' = b else slot d (bufs s) b' j)" for b' j
    using x i(1) by (auto simp: slot_def)
  have "lru ?B xs = lru (bufs s) xs" for xs
    using x by (intro lru_cong) auto
  then show inv': "cache_inv d ?s"
    using inv x no unfolding cache_inv_def by (auto simp: slots)
  have old: "bslot d (bufs s) b' = Some j \<longleftrightarrow> slot d (bufs s) b' j" for b' j
    by (rule cache_slot [OF inv])
  have new: "bslot d ?B b' = Some j \<longleftrightarrow> (if j = i then b' = b else slot d (bufs s) b' j)" for b' j
    unfolding slots [symmetric] using cache_slot [OF inv'] by simp
  have b_old: "bslot d (bufs s) b = None"
    using no by (simp add: bslot_None)
  have b_new: "bslot d ?B b = Some i"
    using new [of b i] by simp
  have here: "bslot d ?B b' = None" if "bslot d (bufs s) b' = Some i" "b' \<noteq> b" for b'
  proof (rule ccontr)
    assume "bslot d ?B b' \<noteq> None"
    then obtain j where "bslot d ?B b' = Some j"
      by blast
    then have "j \<noteq> i" "slot d (bufs s) b' j"
      using new [of b' j] that(2) by (auto split: if_splits)
    then show False
      using that(1) cache_invD(2) [OF inv, of b' i j] by (simp add: old)
  qed
  have there: "bslot d ?B b' = bslot d (bufs s) b'" if "bslot d (bufs s) b' \<noteq> Some i" "b' \<noteq> b" for b'
    by (rule option_eqI) (use that in \<open>auto simp: new old\<close>)
  have free: "0 < nfree (bufs s)" "nfree ?B = nfree (bufs s) - 1"
    using nfree_pos [of i "bufs s"] i(1) nfree_upd [OF i(1), of "bufs s" x] i(2) x(3) by simp_all
  have clean: "bvalid (bufs s i) \<Longrightarrow> bdata (bufs s i) = disk s b'" "slocked (block (bufs s i)) = 0"
    if "bslot d (bufs s) b' = Some i" for b'
    using that cache_invD(4) [OF inv, of b' i] cache_invD(3) [OF inv i] i(2) by (simp_all add: old)
  have "bview d ?s b' = bview d s b'" for b'
  proof (cases "b' = b")
    case True
    then show ?thesis
      using x(7) by (simp add: bview_def b_old b_new)
  next
    case False
    then show ?thesis
      using here [of b'] there [of b'] clean(1) [of b'] new [of b' i]
      by (cases "bslot d (bufs s) b' = Some i") (auto simp: bview_def split: option.splits)
  qed
  moreover have "brefs d ?B b' = (if b' = b then 1 else brefs d (bufs s) b')" for b'
    using here [of b'] there [of b'] i(2) x(3) new [of b' i] b_new
    by (cases "bslot d (bufs s) b' = Some i") (auto simp: brefs_def split: option.splits)
  moreover have "blocked d ?B b' = (b' = b \<or> blocked d (bufs s) b')" for b'
    using here [of b'] there [of b'] clean(2) [of b'] x(4) new [of b' i] b_new
    by (cases "bslot d (bufs s) b' = Some i") (auto simp: blocked_def split: option.splits)
  moreover have "brefs d (bufs s) b = 0"
    by (simp add: brefs_def b_old)
  ultimately show "cabs d ?s = a_read b (cabs d s)"
    using free by (auto simp: cabs_def a_read_def fun_eq_iff)
qed

lemma hold_upd:
  assumes "hold d s b' i'" "i' \<noteq> i \<or> (bdev x = bdev (bufs s i) \<and> bblockno x = bblockno (bufs s i) \<and>
    bvalid x = bvalid (bufs s i) \<and> brefcnt x \<noteq> 0 \<and> block x = block (bufs s i))"
  shows "hold d (s\<lparr>bufs := (bufs s)(i := x)\<rparr>) b' i'"
  using assms by (auto simp: hold_def slot_def)

lemma bread_ok:
  assumes inv: "cache_inv d s" and q: "quiet s" and free: "\<not> blocked d (bufs s) b"
    and room: "0 < brefs d (bufs s) b \<or> 0 < nfree (bufs s)" and cnt: "brefs d (bufs s) b < 2 ^ 32 - 1"
  obtains i B where "bread d b s = Ret i (s\<lparr>bufs := B\<rparr>)" "cache_inv d (s\<lparr>bufs := B\<rparr>)"
    "cabs d (s\<lparr>bufs := B\<rparr>) = a_read b (cabs d s)" "hold d (s\<lparr>bufs := B\<rparr>) b i"
    "\<forall>b' i'. hold d s b' i' \<longrightarrow> hold d (s\<lparr>bufs := B\<rparr>) b' i'"
proof -
  obtain p where p: "held s = {}" "myproc s = Some p"
    using q by (auto elim: quietE)
  show thesis
  proof (cases "bslot d (bufs s) b")
    case (Some i)
    have i: "slot d (bufs s) b i" "slocked (block (bufs s i)) = 0"
      using Some cache_slot [OF inv, of b i] free by (simp, simp add: blocked_def)
    let ?x = "(bufs s i)\<lparr>brefcnt := brefcnt (bufs s i) + 1, block := taken p s, bvalid := True,
      bdata := (if bvalid (bufs s i) then bdata (bufs s i) else disk s b)\<rparr>"
    have c: "unat (brefcnt (bufs s i) + 1) = unat (brefcnt (bufs s i)) + 1"
      using cnt Some by (simp add: brefs_def unat_word_ariths)
    then have nz: "brefcnt (bufs s i) + 1 \<noteq> 0"
      by (metis add_is_0 one_neq_zero unat_0)
    have "bread d b s = Ret i (s\<lparr>bufs := (bufs s)(i := ?x)\<rparr>)"
      using bget_hit [OF inv i p] i(1)
      by (auto simp: bread_def disk_rw_def upd_buf_def slot_def Let_def intro!: arg_cong [of _ _ "\<lambda>y. s\<lparr>bufs := (bufs s)(i := y)\<rparr>"])
    moreover have "cache_inv d (s\<lparr>bufs := (bufs s)(i := ?x)\<rparr>)"
      using i nz by (intro cache_inv_upd [OF inv i(1)]) (auto simp: slot_def)
    moreover have "cabs d (s\<lparr>bufs := (bufs s)(i := ?x)\<rparr>) = a_read b (cabs d s)"
    proof -
      have "bview d s b = bdata ?x" "brefs d (bufs s) b = unat (brefcnt (bufs s i))"
        using Some by (simp_all add: bview_def brefs_def)
      then show ?thesis
        using cabs_upd [OF inv i(1), of ?x] i(1) c nz
        by (simp add: slot_def cabs_def a_read_def fun_upd_idem unat_eq_0)
    qed
    moreover have "hold d (s\<lparr>bufs := (bufs s)(i := ?x)\<rparr>) b i"
      using i nz p by (auto simp: hold_def slot_def)
    moreover have "\<forall>b' i'. hold d s b' i' \<longrightarrow> hold d (s\<lparr>bufs := (bufs s)(i := ?x)\<rparr>) b' i'"
      using i(2) by (metis hold_def hold_upd)
    ultimately show thesis
      by (rule that)
  next
    case None
    have no: "\<forall>i. \<not> slot d (bufs s) b i" and "brefs d (bufs s) b = 0"
      using None by (simp add: bslot_None, simp add: brefs_def)
    then have "0 < nfree (bufs s)"
      using room by simp
    then obtain k where k: "k < NBUF" "brefcnt (bufs s k) = 0"
      by (auto simp: nfree_def card_gt_0_iff)
    obtain xs where xs: "lru (bufs s) xs"
      using cache_invD(1) [OF inv] by blast
    obtain i where i: "find (\<lambda>i. brefcnt (bufs s i) = 0) (rev xs) = Some i"
      using k xs by (cases "find (\<lambda>i. brefcnt (bufs s i) = 0) (rev xs)") (auto simp: find_None_iff lru_def)
    then have i': "i < NBUF" "brefcnt (bufs s i) = 0"
      using xs findSomeD [OF i] by (auto simp: lru_def)
    let ?x = "(bufs s i)\<lparr>bdev := d, bblockno := b, brefcnt := 1, block := taken p s, bdata := disk s b, bvalid := True\<rparr>"
    have "bread d b s = Ret i (s\<lparr>bufs := (bufs s)(i := ?x)\<rparr>)"
      using bget_miss [OF inv xs no p] i by (simp add: bread_def disk_rw_def upd_buf_def Let_def)
    moreover note recycle [OF inv no i', of ?x, simplified]
    moreover have "hold d (s\<lparr>bufs := (bufs s)(i := ?x)\<rparr>) b i"
      using i' p by (simp add: hold_def slot_def)
    moreover have "\<forall>b' j. hold d s b' j \<longrightarrow> hold d (s\<lparr>bufs := (bufs s)(i := ?x)\<rparr>) b' j"
      using i'(2) by (metis hold_def hold_upd)
    ultimately show thesis
      by (rule that)
  qed
qed

lemma hold_refs:
  assumes "cache_inv d s" "hold d s b i"
  shows "bslot d (bufs s) b = Some i" "brefs d (bufs s) b = unat (brefcnt (bufs s i))"
    "0 < brefs d (bufs s) b" "blocked d (bufs s) b"
proof -
  show slot: "bslot d (bufs s) b = Some i"
    using cache_slot [OF assms(1)] assms(2) by (simp add: hold_def)
  show "brefs d (bufs s) b = unat (brefcnt (bufs s i))"
    by (simp add: brefs_def slot)
  then show "0 < brefs d (bufs s) b"
    using assms(2) by (simp add: hold_def unat_gt_0)
  show "blocked d (bufs s) b"
    using assms(2) by (simp add: blocked_def slot hold_def)
qed

lemma hold_inj: "cache_inv d s \<Longrightarrow> hold d s b i \<Longrightarrow> hold d s b' i' \<Longrightarrow> i = i' \<longleftrightarrow> b = b'"
  by (auto simp: hold_def slot_def intro: cache_invD(2) [of d s b])

lemma bset_ok:
  assumes inv: "cache_inv d s" and h: "hold d s b i"
  shows "cache_inv d (s\<lparr>bufs := (bufs s)(i := (bufs s i)\<lparr>bdata := x\<rparr>)\<rparr>)"
    "cabs d (s\<lparr>bufs := (bufs s)(i := (bufs s i)\<lparr>bdata := x\<rparr>)\<rparr>) = a_set b x (cabs d s)"
    "hold d s b' i' \<Longrightarrow> hold d (s\<lparr>bufs := (bufs s)(i := (bufs s i)\<lparr>bdata := x\<rparr>)\<rparr>) b' i'"
proof -
  have i: "slot d (bufs s) b i" "brefcnt (bufs s i) \<noteq> 0" "bvalid (bufs s i)" "slocked (block (bufs s i)) \<noteq> 0"
    using h by (simp_all add: hold_def)
  show "cache_inv d (s\<lparr>bufs := (bufs s)(i := (bufs s i)\<lparr>bdata := x\<rparr>)\<rparr>)"
    using i by (intro cache_inv_upd [OF inv i(1)]) (simp_all add: slot_def)
  show "cabs d (s\<lparr>bufs := (bufs s)(i := (bufs s i)\<lparr>bdata := x\<rparr>)\<rparr>) = a_set b x (cabs d s)"
  proof -
    have x: "bdev ((bufs s i)\<lparr>bdata := x\<rparr>) = d" "bblockno ((bufs s i)\<lparr>bdata := x\<rparr>) = b"
      using i(1) by (simp_all add: slot_def)
    show ?thesis
      unfolding cabs_upd [OF inv i(1) x] using i(2-4) hold_refs(2,4) [OF inv h]
      by (simp add: cabs_def a_set_def fun_upd_idem)
  qed
  show "hold d (s\<lparr>bufs := (bufs s)(i := (bufs s i)\<lparr>bdata := x\<rparr>)\<rparr>) b' i'" if "hold d s b' i'"
    using that i(2) by (intro hold_upd) simp_all
qed

lemma holding_buf:
  assumes "hold d s b i" "held s = {}"
  shows "holdingsleep (Lk_buf i) (get_buf_lock i) s = Ret True s"
proof -
  obtain p where "myproc s = Some p" "spid (block (bufs s i)) = pid (procs s p)"
    using assms(1) by (auto simp: hold_def)
  then show ?thesis
    using buf_lock.holdingsleep_eq [of i s p] assms by (simp add: hold_def)
qed

abbreviation wrote :: "uint32 \<Rightarrow> block \<Rightarrow> 'a bcache_scheme \<Rightarrow> 'a bcache_scheme" where
  "wrote b x s \<equiv> s\<lparr>disk := (disk s)(b := x), dwrites := dwrites s @ [(b, x)]\<rparr>"

lemma bwrite_ok:
  assumes inv: "cache_inv d s" and h: "hold d s b i" and q: "quiet s"
  shows "bwrite i s = Ret () (wrote b (bview d s b) s)" "cache_inv d (wrote b (bview d s b) s)"
    "cabs d (wrote b (bview d s b) s) = a_write b (cabs d s)"
    "hold d s b' i' \<Longrightarrow> hold d (wrote b (bview d s b) s) b' i'"
proof -
  note data = hold_data [OF inv h] and ref = hold_refs [OF inv h]
  have i: "slot d (bufs s) b i" "bvalid (bufs s i)" "brefcnt (bufs s i) \<noteq> 0" and e: "held s = {}"
    using h q by (simp_all add: hold_def quiet_def)
  show "bwrite i s = Ret () (wrote b (bview d s b) s)"
    using i(1) data by (simp add: bwrite_def holding_buf [OF h e] disk_rw_def slot_def Let_def)
  have slot_b: "slot d (bufs s) b j \<longleftrightarrow> j = i" for j
    using i(1) cache_invD(2) [OF inv, of b] by blast
  have ne: "bblockno (bufs s j) \<noteq> b" if "j < NBUF" "brefcnt (bufs s j) = 0" "bdev (bufs s j) = d" for j
    using slot_b [of j] that i(3) by (auto simp: slot_def)
  show "cache_inv d (wrote b (bview d s b) s)"
    using inv ne unfolding cache_inv_def by auto
  have "bview d (wrote b (bview d s b) s) b' = bview d s b'" for b'
    using ref(1) i(2) by (auto simp: bview_def split: option.splits)
  then show "cabs d (wrote b (bview d s b) s) = a_write b (cabs d s)"
    by (simp add: cabs_def a_write_def fun_eq_iff)
  show "hold d (wrote b (bview d s b) s) b' i'" if "hold d s b' i'"
    using that by (simp add: hold_def)
qed

text \<open>Two buffer arrays that differ in their links only.\<close>

definition same_bufs :: "(nat \<Rightarrow> buf) \<Rightarrow> (nat \<Rightarrow> buf) \<Rightarrow> bool" where
  "same_bufs B B' \<longleftrightarrow> (\<forall>i. bvalid (B' i) = bvalid (B i) \<and> bdev (B' i) = bdev (B i) \<and>
     bblockno (B' i) = bblockno (B i) \<and> block (B' i) = block (B i) \<and> brefcnt (B' i) = brefcnt (B i) \<and>
     bdata (B' i) = bdata (B i))"

lemma same_bufs_abs:
  assumes "same_bufs (bufs s) B"
  shows "cabs d (s\<lparr>bufs := B\<rparr>) = cabs d s" "hold d (s\<lparr>bufs := B\<rparr>) b i = hold d s b i"
    "cache_inv d s \<Longrightarrow> lru B xs \<Longrightarrow> cache_inv d (s\<lparr>bufs := B\<rparr>)"
proof -
  have "bslot d B b = bslot d (bufs s) b" for b
    using assms by (simp add: bslot_def same_bufs_def)
  then show "cabs d (s\<lparr>bufs := B\<rparr>) = cabs d s"
    using assms
    by (auto simp: cabs_def bview_def brefs_def blocked_def nfree_def same_bufs_def fun_eq_iff split: option.splits)
  have slot: "slot d B b i = slot d (bufs s) b i" for b i
    using assms by (simp add: slot_def same_bufs_def)
  then show "hold d (s\<lparr>bufs := B\<rparr>) b i = hold d s b i"
    using assms by (simp add: hold_def same_bufs_def)
  show "cache_inv d (s\<lparr>bufs := B\<rparr>)" if "cache_inv d s" "lru B xs"
    using that assms unfolding cache_inv_def by (auto simp: slot same_bufs_def)
qed

lemma cabs_cong:
  assumes "bufs s' = bufs s" "disk s' = disk s"
  shows "cabs d s' = cabs d s" "cache_inv d s' = cache_inv d s" "bview d s' = bview d s"
proof -
  show v: "bview d s' = bview d s"
    by (rule ext) (simp add: bview_def assms split: option.split)
  show "cabs d s' = cabs d s"
    using assms by (simp add: cabs_def v)
  show "cache_inv d s' = cache_inv d s"
    using assms by (simp add: cache_inv_def)
qed

lemma cabs_procs [simp]: "cabs d (s\<lparr>procs := ps\<rparr>) = cabs d s" "cache_inv d (s\<lparr>procs := ps\<rparr>) = cache_inv d s"
  by (rule cabs_cong; simp)+

lemma lru_if_front:
  assumes "lru B xs" "i < NBUF"
  shows "\<exists>ys. lru (if c then insert_front i (unlink i B) else B) ys"
  using assms lru_to_front [OF assms] by auto

lemma to_front_other:
  "same_bufs B (insert_front b (unlink b B))"
  by (simp add: same_bufs_def)

lemma pid_woken [simp]: "pid (woken ch me S ps i) = pid (ps i)"
  by (simp add: woken_def)

lemma brelse_eq:
  assumes h: "hold d s b i" and q: "quiet s"
  shows "brelse i s = Ret () (
    let ps = woken (Some (Chan_buf_lock i)) (myproc s) {0..<NPROC} (procs s);
        B = (bufs s)(i := (bufs s i)\<lparr>block := initsleeplock, brefcnt := brefcnt (bufs s i) - 1\<rparr>);
        B = (if brefcnt (B i) = 0 then insert_front i (unlink i B) else B)
    in s\<lparr>procs := ps, bufs := B\<rparr>)"
proof -
  obtain p where p: "held s = {}" "myproc s = Some p" "proc_locks_free s"
    using q by (rule quietE)
  show ?thesis
    using buf_lock.releasesleep_eq [of i s "Chan_buf_lock i"] p
    by (simp add: brelse_def holding_buf [OF h p(1)] upd_buf_def unlink_def initsleeplock_def Let_def held_id
        del: NBUF_def NPROC_def)
qed

lemma brelse_ok:
  assumes inv: "cache_inv d s" and h: "hold d s b i" and q: "quiet s"
    and clean: "brefs d (bufs s) b = 1 \<Longrightarrow> bview d s b = disk s b"
  obtains B ps where "brelse i s = Ret () (s\<lparr>procs := ps, bufs := B\<rparr>)" "cache_inv d (s\<lparr>procs := ps, bufs := B\<rparr>)"
    "cabs d (s\<lparr>procs := ps, bufs := B\<rparr>) = a_relse b (cabs d s)" "\<forall>k. pid (ps k) = pid (procs s k)"
    "\<forall>b' i'. b' \<noteq> b \<longrightarrow> hold d s b' i' \<longrightarrow> hold d (s\<lparr>procs := ps, bufs := B\<rparr>) b' i'"
proof -
  let ?x = "(bufs s i)\<lparr>block := initsleeplock, brefcnt := brefcnt (bufs s i) - 1\<rparr>"
  let ?B = "(bufs s)(i := ?x)" and ?ps = "woken (Some (Chan_buf_lock i)) (myproc s) {0..<NPROC} (procs s)"
  let ?B' = "if brefcnt (?B i) = 0 then insert_front i (unlink i ?B) else ?B"
  note data = hold_data [OF inv h] and ref = hold_refs [OF inv h]
  have i: "slot d (bufs s) b i" "bvalid (bufs s i)" "brefcnt (bufs s i) \<noteq> 0" "i < NBUF"
    using h by (simp_all add: hold_def slot_def)
  have dec: "unat (brefcnt (bufs s i) - 1) = unat (brefcnt (bufs s i)) - 1"
    using i(3) by (simp add: unat_minus_one)
  then have zero: "brefcnt (bufs s i) - 1 = 0 \<longleftrightarrow> unat (brefcnt (bufs s i)) = 1"
    using ref(2,3) by (auto simp: unat_eq_0 [symmetric])
  have inv1: "cache_inv d (s\<lparr>bufs := ?B\<rparr>)"
    using i(1,2) clean zero ref(2) data
    by (intro cache_inv_upd [OF inv i(1)]) (simp_all add: slot_def initsleeplock_def)
  have abs1: "cabs d (s\<lparr>bufs := ?B\<rparr>) = a_relse b (cabs d s)"
    using cabs_upd [OF inv i(1), of ?x] i(1-3) ref(2) data dec zero
    by (simp add: slot_def cabs_def a_relse_def fun_upd_idem initsleeplock_def)
  have hold1: "hold d (s\<lparr>bufs := ?B\<rparr>) b' i'" if "b' \<noteq> b" "hold d s b' i'" for b' i'
    using that hold_inj [OF inv h that(2)] by (intro hold_upd) auto
  have same: "same_bufs ?B ?B'"
    using to_front_other [of ?B i] by (simp add: same_bufs_def)
  obtain xs where "lru ?B xs"
    using cache_invD(1) [OF inv1] by auto
  from lru_if_front [OF this i(4)] obtain ys where ys: "lru ?B' ys" ..
  have same': "same_bufs (bufs (s\<lparr>bufs := ?B\<rparr>)) ?B'"
    using same by simp
  note abs2 = same_bufs_abs [OF same']
  have e: "s\<lparr>procs := ?ps, bufs := ?B'\<rparr> = s\<lparr>bufs := ?B, bufs := ?B', procs := ?ps\<rparr>"
    by simp
  show thesis
  proof (rule that)
    show "brelse i s = Ret () (s\<lparr>procs := ?ps, bufs := ?B'\<rparr>)"
      unfolding brelse_eq [OF h q] Let_def ..
    show "cache_inv d (s\<lparr>procs := ?ps, bufs := ?B'\<rparr>)"
      unfolding e cabs_procs by (rule abs2(3) [OF inv1 ys])
    show "cabs d (s\<lparr>procs := ?ps, bufs := ?B'\<rparr>) = a_relse b (cabs d s)"
      unfolding e cabs_procs abs2(1) by (rule abs1)
    show "\<forall>k. pid (?ps k) = pid (procs s k)"
      by simp
    show "\<forall>b' i'. b' \<noteq> b \<longrightarrow> hold d s b' i' \<longrightarrow> hold d (s\<lparr>procs := ?ps, bufs := ?B'\<rparr>) b' i'"
    proof (intro allI impI)
      fix b' i'
      assume "b' \<noteq> b" "hold d s b' i'"
      then have "hold d (s\<lparr>bufs := ?B, bufs := ?B'\<rparr>) b' i'"
        unfolding abs2(2) by (rule hold1)
      then show "hold d (s\<lparr>procs := ?ps, bufs := ?B'\<rparr>) b' i'"
        unfolding e by (simp add: hold_def)
    qed
  qed
qed

lemma bpin_ok:
  assumes inv: "cache_inv d s" and h: "hold d s b i" and q: "Lk_bcache \<notin> held s"
    and cnt: "brefs d (bufs s) b < 2 ^ 32 - 1"
  obtains B where "bpin i s = Ret () (s\<lparr>bufs := B\<rparr>)" "cache_inv d (s\<lparr>bufs := B\<rparr>)"
    "cabs d (s\<lparr>bufs := B\<rparr>) = a_pin b (cabs d s)" "\<forall>b' i'. hold d s b' i' \<longrightarrow> hold d (s\<lparr>bufs := B\<rparr>) b' i'"
proof -
  let ?x = "(bufs s i)\<lparr>brefcnt := brefcnt (bufs s i) + 1\<rparr>"
  note data = hold_data [OF inv h] and ref = hold_refs [OF inv h]
  have i: "slot d (bufs s) b i" "bvalid (bufs s i)" "brefcnt (bufs s i) \<noteq> 0" "slocked (block (bufs s i)) \<noteq> 0"
    using h by (simp_all add: hold_def)
  have c: "unat (brefcnt (bufs s i) + 1) = unat (brefcnt (bufs s i)) + 1"
    using cnt ref(2) by (simp add: unat_word_ariths)
  then have nz: "brefcnt (bufs s i) + 1 \<noteq> 0"
    by (metis add_is_0 one_neq_zero unat_0)
  show thesis
  proof (rule that [of "(bufs s)(i := ?x)"])
    show "bpin i s = Ret () (s\<lparr>bufs := (bufs s)(i := ?x)\<rparr>)"
      using q by (simp add: bpin_def upd_buf_def held_id)
    show "cache_inv d (s\<lparr>bufs := (bufs s)(i := ?x)\<rparr>)"
      using i nz by (intro cache_inv_upd [OF inv i(1)]) (simp_all add: slot_def)
    show "cabs d (s\<lparr>bufs := (bufs s)(i := ?x)\<rparr>) = a_pin b (cabs d s)"
      using cabs_upd [OF inv i(1), of ?x] i c nz ref data
      by (simp add: slot_def cabs_def a_pin_def fun_upd_idem)
    show "\<forall>b' i'. hold d s b' i' \<longrightarrow> hold d (s\<lparr>bufs := (bufs s)(i := ?x)\<rparr>) b' i'"
      using nz by (auto intro!: hold_upd)
  qed
qed

lemma bunpin_ok:
  assumes inv: "cache_inv d s" and h: "hold d s b i" and q: "Lk_bcache \<notin> held s"
    and cnt: "1 < brefs d (bufs s) b"
  obtains B where "bunpin i s = Ret () (s\<lparr>bufs := B\<rparr>)" "cache_inv d (s\<lparr>bufs := B\<rparr>)"
    "cabs d (s\<lparr>bufs := B\<rparr>) = a_unpin b (cabs d s)" "\<forall>b' i'. hold d s b' i' \<longrightarrow> hold d (s\<lparr>bufs := B\<rparr>) b' i'"
proof -
  let ?x = "(bufs s i)\<lparr>brefcnt := brefcnt (bufs s i) - 1\<rparr>"
  note data = hold_data [OF inv h] and ref = hold_refs [OF inv h]
  have i: "slot d (bufs s) b i" "bvalid (bufs s i)" "brefcnt (bufs s i) \<noteq> 0" "slocked (block (bufs s i)) \<noteq> 0"
    using h by (simp_all add: hold_def)
  have c: "unat (brefcnt (bufs s i) - 1) = unat (brefcnt (bufs s i)) - 1"
    using i(3) by (simp add: unat_minus_one)
  then have nz: "brefcnt (bufs s i) - 1 \<noteq> 0"
    using cnt ref(2) by (metis less_irrefl unat_0 zero_less_diff)
  show thesis
  proof (rule that [of "(bufs s)(i := ?x)"])
    show "bunpin i s = Ret () (s\<lparr>bufs := (bufs s)(i := ?x)\<rparr>)"
      using q by (simp add: bunpin_def upd_buf_def held_id)
    show "cache_inv d (s\<lparr>bufs := (bufs s)(i := ?x)\<rparr>)"
      using i nz by (intro cache_inv_upd [OF inv i(1)]) (simp_all add: slot_def)
    show "cabs d (s\<lparr>bufs := (bufs s)(i := ?x)\<rparr>) = a_unpin b (cabs d s)"
      using cabs_upd [OF inv i(1), of ?x] i c nz ref data
      by (simp add: slot_def cabs_def a_unpin_def fun_upd_idem)
    show "\<forall>b' i'. hold d s b' i' \<longrightarrow> hold d (s\<lparr>bufs := (bufs s)(i := ?x)\<rparr>) b' i'"
      using nz by (auto intro!: hold_upd)
  qed
qed

subsection \<open>Initialisation\<close>

lemma binit_one_eq:
  "b \<noteq> head \<Longrightarrow> binit_one b B = insert_front b (B(b := (B b)\<lparr>block := initsleeplock\<rparr>))"
  by (auto simp: binit_one_def insert_front_def set_next_def set_prev_def Let_def fun_eq_iff)

lemma binit_fold:
  assumes "n \<le> NBUF" "segment B [head, head]"
  shows "segment (fold binit_one [0..<n] B) (head # rev [0..<n] @ [head]) \<and>
    (\<forall>i. block (fold binit_one [0..<n] B i) = (if i < n then initsleeplock else block (B i)) \<and>
         brefcnt (fold binit_one [0..<n] B i) = brefcnt (B i) \<and> bdev (fold binit_one [0..<n] B i) = bdev (B i))"
  using assms(1)
proof (induction n)
  case (Suc n)
  let ?B = "fold binit_one [0..<n] B"
  let ?B1 = "?B(n := (?B n)\<lparr>block := initsleeplock\<rparr>)"
  have IH: "segment ?B (head # rev [0..<n] @ [head])"
    "\<forall>i. block (?B i) = (if i < n then initsleeplock else block (B i)) \<and> brefcnt (?B i) = brefcnt (B i) \<and> bdev (?B i) = bdev (B i)"
    using Suc by (simp_all del: NBUF_def)
  have e: "fold binit_one [0..<Suc n] B = insert_front n ?B1"
    using Suc.prems by (simp add: binit_one_eq)
  have "segment ?B1 (head # rev [0..<n] @ [head]) = segment ?B (head # rev [0..<n] @ [head])"
    by (rule segment_frame) auto
  then have "segment (insert_front n ?B1) (head # n # rev [0..<n] @ [head])"
    using IH(1) Suc.prems by (intro insert_front_segment) auto
  then show ?case
    unfolding e using IH(2) by (auto simp del: NBUF_def)
qed (use assms(2) in simp)

lemma binit_inv:
  assumes "\<And>i. bdev (bufs s i) \<noteq> d"
  shows "cache_inv d (binit s)" "cabs d (binit s) =
    \<lparr>aview = disk s, arefs = \<lambda>_. 0, alock = \<lambda>_. False, afree = nfree (bufs s), adisk = disk s\<rparr>"
proof -
  let ?B0 = "set_next head head (set_prev head head (bufs s))"
  have "segment ?B0 [head, head]"
    by (simp add: linked_def)
  note f = binit_fold [OF order.refl this]
  have B: "bufs (binit s) = fold binit_one [0..<NBUF] ?B0" "disk (binit s) = disk s"
    by (simp_all add: binit_def Let_def)
  have lru: "lru (bufs (binit s)) (rev [0..<NBUF])"
    unfolding lru_def B(1) using f by (simp del: NBUF_def)
  have dev: "bdev (bufs (binit s) i) \<noteq> d" and ref: "brefcnt (bufs (binit s) i) = brefcnt (bufs s i)" for i
    unfolding B(1) using f assms by simp_all
  have none: "\<not> slot d (bufs (binit s)) b i" for b i
    using dev by (simp add: slot_def)
  have "slocked (block (bufs (binit s) i)) = 0" if "i < NBUF" for i
    unfolding B(1) using f that by (simp add: initsleeplock_def del: NBUF_def)
  then show "cache_inv d (binit s)"
    unfolding cache_inv_def using lru none dev by (auto simp del: NBUF_def)
  have "bslot d (bufs (binit s)) b = None" for b
    using none by (simp add: bslot_None)
  then show "cabs d (binit s) =
    \<lparr>aview = disk s, arefs = \<lambda>_. 0, alock = \<lambda>_. False, afree = nfree (bufs s), adisk = disk s\<rparr>"
    by (simp add: cabs_def bview_def brefs_def blocked_def nfree_def ref B(2) fun_eq_iff)
qed

subsection \<open>The main theorems\<close>

definition boot_buf :: buf where
  "boot_buf = \<lparr>bvalid = False, bdev = 0, bblockno = 0, block = initsleeplock, brefcnt = 0, bprev = 0, bnext = 0,
     bdata = \<lambda>_. 0\<rparr>"

definition boot_cache :: bcache where
  "boot_cache = binit \<lparr>held = {}, procs = \<lambda>_. idle_proc, myproc = Some 0, nextpid = 1, initproc = None,
     mem = \<lambda>_. 0, kernel_end = 0, freelist = 0, bufs = \<lambda>_. boot_buf, disk = \<lambda>b i. ucast b, dwrites = []\<rparr>"

lemma boot_cache_inv:
  "cache_inv 1 boot_cache" "cabs 1 boot_cache =
    \<lparr>aview = \<lambda>b i. ucast b, arefs = \<lambda>_. 0, alock = \<lambda>_. False, afree = NBUF, adisk = \<lambda>b i. ucast b\<rparr>"
  "quiet boot_cache"
  unfolding boot_cache_def
    apply (rule binit_inv; simp add: boot_buf_def)
   apply (subst binit_inv; simp add: boot_buf_def nfree_def)
  apply (simp add: binit_def quiet_def Let_def)
  done

lemma boot_cache_sel:
  "lru (bufs boot_cache) (rev [0..<NBUF])" "brefcnt (bufs boot_cache i) = 0" "bdev (bufs boot_cache i) = 0"
  "held boot_cache = {}" "myproc boot_cache = Some 0" "disk boot_cache = (\<lambda>b i. ucast b)" "dwrites boot_cache = []"
  "i < NBUF \<Longrightarrow> block (bufs boot_cache i) = initsleeplock" "pid (procs boot_cache k) = 0"
proof -
  let ?B0 = "set_next head head (set_prev head head (\<lambda>_. boot_buf))"
  have B: "bufs boot_cache = fold binit_one [0..<NBUF] ?B0"
    by (simp add: boot_cache_def binit_def Let_def)
  have "segment ?B0 [head, head]"
    by (simp add: linked_def)
  note f = binit_fold [OF order.refl this]
  show "lru (bufs boot_cache) (rev [0..<NBUF])"
    unfolding lru_def B using f by (simp del: NBUF_def)
  show "brefcnt (bufs boot_cache i) = 0" "bdev (bufs boot_cache i) = 0"
    unfolding B using f by (simp_all add: boot_buf_def del: NBUF_def)
  show "i < NBUF \<Longrightarrow> block (bufs boot_cache i) = initsleeplock"
    unfolding B using f by (simp del: NBUF_def)
  show "held boot_cache = {}" "myproc boot_cache = Some 0" "disk boot_cache = (\<lambda>b i. ucast b)" "dwrites boot_cache = []"
      "pid (procs boot_cache k) = 0"
    by (simp_all add: boot_cache_def binit_def Let_def idle_proc_def)
qed

lemma cabs_sel:
  "bview d s b = aview (cabs d s) b" "brefs d (bufs s) b = arefs (cabs d s) b"
  "blocked d (bufs s) b = alock (cabs d s) b" "nfree (bufs s) = afree (cabs d s)" "disk s b = adisk (cabs d s) b"
  by (simp_all add: cabs_def)

text \<open>
  C6: \<^verbatim>\<open>bread\<close> returns, locked, the one buffer that caches the block, holding the contents
  every earlier user of the block has left, read from the disk if it was not cached. It
  changes the contents of no block as readers see them, counts one reference more for this
  block only, and takes away no buffer that is in use.
\<close>

theorem bread_correct:
  assumes "cache_inv d s" "quiet s" "\<not> blocked d (bufs s) b"
    and "0 < brefs d (bufs s) b \<or> 0 < nfree (bufs s)" "brefs d (bufs s) b < 2 ^ 32 - 1"
  shows "\<exists>i s'. bread d b s = Ret i s' \<and> cache_inv d s' \<and> cabs d s' = a_read b (cabs d s) \<and>
    hold d s' b i \<and> bdata (bufs s' i) = bview d s b \<and> (\<forall>b' i'. hold d s b' i' \<longrightarrow> hold d s' b' i')"
proof -
  obtain i B where B: "bread d b s = Ret i (s\<lparr>bufs := B\<rparr>)" "cache_inv d (s\<lparr>bufs := B\<rparr>)"
    "cabs d (s\<lparr>bufs := B\<rparr>) = a_read b (cabs d s)" "hold d (s\<lparr>bufs := B\<rparr>) b i"
    "\<forall>b' i'. hold d s b' i' \<longrightarrow> hold d (s\<lparr>bufs := B\<rparr>) b' i'"
    by (rule bread_ok [OF assms])
  have "bdata (B i) = bview d s b"
    using hold_data [OF B(2,4)] B(3) by (simp add: cabs_sel(1) a_read_def)
  then show ?thesis
    using B by (intro exI [of _ i] exI [of _ "s\<lparr>bufs := B\<rparr>"]) simp
qed

theorem bread_correct_witness:
  "\<exists>i s'. bread 1 7 boot_cache = Ret i s' \<and> bdata (bufs s' i) = (\<lambda>_. 7) \<and> brefs 1 (bufs s') 7 = 1"
proof -
  from bread_correct [OF boot_cache_inv(1,3), of 7]
  obtain i s' where s': "bread 1 7 boot_cache = Ret i s'" "cabs 1 s' = a_read 7 (cabs 1 boot_cache)"
      "bdata (bufs s' i) = bview 1 boot_cache 7"
    by (auto simp: cabs_sel [where d = 1] boot_cache_inv(2))
  then show ?thesis
    by (intro exI [of _ i] exI [of _ s']) (simp add: cabs_sel boot_cache_inv(2) a_read_def)
qed



subsection \<open>The layers above are untouched\<close>

text \<open>
  \<open>bcache.more\<close> is the part of the state that the layers above add. A call of this layer that
  returns leaves it unchanged, whatever state it starts from.
\<close>

lemma acquire_more: "acquire lk s = Ret () s' \<Longrightarrow> bcache.more s' = bcache.more s"
  by (auto simp: acquire_def split: if_splits)

lemma release_more: "release lk s = Ret () s' \<Longrightarrow> bcache.more s' = bcache.more s"
  by (auto simp: release_def split: if_splits)

lemma for_each_more:
  assumes "\<And>x s s'. f x s = Ret () s' \<Longrightarrow> bcache.more s' = bcache.more s"
  shows "for_each xs f s = Ret () s' \<Longrightarrow> bcache.more s' = bcache.more s"
  by (induction xs arbitrary: s) (auto simp: ret_iff dest!: assms)

lemma upd_more [simp]: "bcache.more (upd_proc i f s) = bcache.more s" "bcache.more (upd_buf i g s) = bcache.more s"
  by (simp_all add: upd_proc_def upd_buf_def)

lemma wakeup_more: "wakeup ch s = Ret () s' \<Longrightarrow> bcache.more s' = bcache.more s"
  unfolding wakeup_def
  by (rule for_each_more) (auto simp: wakeup_one_def ret_iff dest!: acquire_more release_more split: if_splits)

lemma sleep_not_Ret [simp]: "sleep ch lk s \<noteq> Ret x s'"
  by (auto simp: sleep_def with_myproc_def ret_iff split: option.splits)

lemma sleeplock_more:
  assumes "\<And>x s. bcache.more (put x s) = bcache.more s"
  shows "acquiresleep lk ch get put s = Ret () s' \<Longrightarrow> bcache.more s' = bcache.more s"
    "holdingsleep lk get s = Ret h s' \<Longrightarrow> bcache.more s' = bcache.more s"
    "releasesleep lk ch put s = Ret () s' \<Longrightarrow> bcache.more s' = bcache.more s"
  using assms
  by (auto simp: acquiresleep_def acquiresleep_loop_def holdingsleep_def releasesleep_def with_myproc_def ret_iff
      dest!: acquire_more release_more wakeup_more split: if_splits option.splits)

lemmas buf_lock_more = sleeplock_more [of "put_buf_lock i" for i, simplified]

lemma bget_more: "bget d b s = Ret i s' \<Longrightarrow> bcache.more s' = bcache.more s"
  by (auto simp: bget_def ret_iff dest!: acquire_more release_more buf_lock_more)

lemma disk_rw_more: "disk_rw i w s = Ret () s' \<Longrightarrow> bcache.more s' = bcache.more s"
  by (auto simp: disk_rw_def Let_def split: if_splits)

lemma brelse_more: "brelse i s = Ret () s' \<Longrightarrow> bcache.more s' = bcache.more s"
  by (auto simp: brelse_def ret_iff Let_def dest!: acquire_more release_more buf_lock_more split: if_splits)

lemma bread_more: "bread d b s = Ret i s' \<Longrightarrow> bcache.more s' = bcache.more s"
  by (auto simp: bread_def ret_iff dest!: bget_more disk_rw_more split: if_splits)

lemma bwrite_more: "bwrite i s = Ret () s' \<Longrightarrow> bcache.more s' = bcache.more s"
  by (auto simp: bwrite_def ret_iff dest!: disk_rw_more buf_lock_more split: if_splits)

lemma bpin_more: "bpin i s = Ret () s' \<Longrightarrow> bcache.more s' = bcache.more s"
  by (auto simp: bpin_def ret_iff dest!: acquire_more release_more)

lemma bunpin_more: "bunpin i s = Ret () s' \<Longrightarrow> bcache.more s' = bcache.more s"
  by (auto simp: bunpin_def ret_iff dest!: acquire_more release_more)

lemmas bio_more = acquire_more release_more wakeup_more brelse_more bread_more bwrite_more bpin_more bunpin_more

end
