(* ===== verification/Block.thy ===== *)
theory Block
  imports Bio
begin

section \<open>Integers and byte runs in a block\<close>

text \<open>
  The on-disk structures are C structures laid over the bytes of a block. \<open>blk_load\<close> and
  \<open>blk_store\<close> read and write a run of bytes at an offset, \<open>get32\<close>, \<open>put32\<close>, \<open>get16\<close> and \<open>put16\<close>
  a little-endian integer. The lemmas are the round trips and the independence of disjoint
  runs.
\<close>

definition blk_load :: "block \<Rightarrow> nat \<Rightarrow> nat \<Rightarrow> uint8 list" where
  "blk_load x off n = map (\<lambda>i. x (of_nat (off + i))) [0..<n]"

definition blk_store :: "block \<Rightarrow> nat \<Rightarrow> uint8 list \<Rightarrow> block" where
  "blk_store x off bs = (\<lambda>k. if off \<le> unat k \<and> unat k < off + length bs then bs ! (unat k - off) else x k)"

definition get32 :: "block \<Rightarrow> nat \<Rightarrow> uint32" where
  "get32 x off = le_word (blk_load x off 4)"

definition put32 :: "nat \<Rightarrow> uint32 \<Rightarrow> block \<Rightarrow> block" where
  "put32 off v x = blk_store x off (le_bytes 4 v)"

definition get16 :: "block \<Rightarrow> nat \<Rightarrow> uint16" where
  "get16 x off = le_word (blk_load x off 2)"

definition put16 :: "nat \<Rightarrow> uint16 \<Rightarrow> block \<Rightarrow> block" where
  "put16 off v x = blk_store x off (le_bytes 2 v)"

lemma length_blk_load [simp]: "length (blk_load x off n) = n"
  by (simp add: blk_load_def)

lemma unat_of_nat10: "i < 1024 \<Longrightarrow> unat (of_nat i :: 10 word) = i"
  by (simp add: unat_of_nat take_bit_eq_mod)

lemma unat10_less: "unat (k :: 10 word) < 1024"
  using unsigned_less [where 'a = nat, of k] by simp

lemma blk_load_store_same:
  assumes "off + length bs \<le> 1024" "n = length bs"
  shows "blk_load (blk_store x off bs) off n = bs"
  using assms by (intro nth_equalityI) (simp_all add: blk_load_def blk_store_def unat_of_nat10 del: of_nat_add)

lemma blk_load_store_disjoint:
  assumes "off' + n \<le> 1024" "off' + n \<le> off \<or> off + length bs \<le> off'"
  shows "blk_load (blk_store x off bs) off' n = blk_load x off' n"
proof -
  have u: "unat (of_nat (off' + i) :: 10 word) = off' + i" if "i < n" for i
    using that assms(1) by (intro unat_of_nat10) simp
  show ?thesis
    using assms(2) by (intro nth_equalityI) (auto simp: blk_load_def blk_store_def u simp del: of_nat_add)
qed

lemma get32_put32 [simp]: "off + 4 \<le> 1024 \<Longrightarrow> get32 (put32 off v x) off = v"
  by (simp add: get32_def put32_def blk_load_store_same)

lemma get32_put32_other: "off' + 4 \<le> 1024 \<Longrightarrow> off' + 4 \<le> off \<or> off + 4 \<le> off' \<Longrightarrow>
    get32 (put32 off v x) off' = get32 x off'"
  by (simp add: get32_def put32_def blk_load_store_disjoint)

lemma get16_put16 [simp]: "off + 2 \<le> 1024 \<Longrightarrow> get16 (put16 off v x) off = v"
  by (simp add: get16_def put16_def blk_load_store_same)

lemma get16_put16_other: "off' + 2 \<le> 1024 \<Longrightarrow> off' + 2 \<le> off \<or> off + 2 \<le> off' \<Longrightarrow>
    get16 (put16 off v x) off' = get16 x off'"
  by (simp add: get16_def put16_def blk_load_store_disjoint)

lemma get32_put16_other: "off' + 4 \<le> 1024 \<Longrightarrow> off' + 4 \<le> off \<or> off + 2 \<le> off' \<Longrightarrow>
    get32 (put16 off v x) off' = get32 x off'"
  by (simp add: get32_def put16_def blk_load_store_disjoint)

lemma get16_put32_other: "off' + 2 \<le> 1024 \<Longrightarrow> off' + 2 \<le> off \<or> off + 4 \<le> off' \<Longrightarrow>
    get16 (put32 off v x) off' = get16 x off'"
  by (simp add: get16_def put32_def blk_load_store_disjoint)

lemma get32_zero [simp]: "get32 (\<lambda>_. 0) off = 0"
  by (simp add: get32_def blk_load_def map_replicate_const numeral_eq_Suc)

lemma get16_zero [simp]: "get16 (\<lambda>_. 0) off = 0"
  by (simp add: get16_def blk_load_def map_replicate_const numeral_eq_Suc)

end
