(* ===== verification/Log.thy ===== *)
theory Log
  imports Block
begin

section \<open>The log (log.c)\<close>

text \<open>
  \<^verbatim>\<open>riscv/kernel/log.c\<close>. The file system's writes go through a redo log: \<^verbatim>\<open>log_write\<close> notes the
  block number and pins the buffer, \<^verbatim>\<open>commit\<close> writes the blocks to the log area, then the
  header, then the home locations, then an empty header. \<^verbatim>\<open>recover_from_log\<close> does the last
  two steps at boot.

  A C \<^verbatim>\<open>int\<close> that only counts is an \<open>int\<close>; the count in the on-disk header is a 32-bit
  integer that is read as signed. A header that counts more than \<^verbatim>\<open>LOGBLOCKS\<close> blocks makes
  \<^verbatim>\<open>read_head\<close> write past its array; that is the outcome \<open>Panic ''out of bounds''\<close>. The message
  \<^verbatim>\<open>install_trans\<close> prints while recovering is left out.

  The main results: whatever prefix of the disk writes of \<^verbatim>\<open>commit\<close> reaches the disk before a
  crash, recovery finds either the whole transaction or nothing of it, also when recovery
  itself is cut off; and no interleaving of operations overflows the log.
\<close>

subsection \<open>State and operations\<close>

record logst = bcache +
  lstart :: uint32
  outstanding :: int
  committing :: bool
  ldev :: uint32
  lhn :: int
  lhblock :: "nat \<Rightarrow> uint32"

definition install_one :: "bool \<Rightarrow> nat \<Rightarrow> 'a logst_scheme \<Rightarrow> ('a logst_scheme, unit) outcome" where
  "install_one recovering tail s =
     bnd (bread (ldev s) (lstart s + of_nat tail + 1) s) (\<lambda>lbuf s.
     bnd (bread (ldev s) (lhblock s tail) s) (\<lambda>dbuf s.
     let s = s\<lparr>bufs := (bufs s)(dbuf := (bufs s dbuf)\<lparr>bdata := bdata (bufs s lbuf)\<rparr>)\<rparr> in
     bnd (bwrite dbuf s) (\<lambda>_ s.
     bnd (if recovering then Ret () s else bunpin dbuf s) (\<lambda>_ s.
     bnd (brelse lbuf s) (\<lambda>_ s.
     brelse dbuf s)))))"

definition install_trans :: "bool \<Rightarrow> 'a logst_scheme \<Rightarrow> ('a logst_scheme, unit) outcome" where
  "install_trans recovering s = for_each [0..<nat (lhn s)] (install_one recovering) s"

definition read_head :: "'a logst_scheme \<Rightarrow> ('a logst_scheme, unit) outcome" where
  "read_head s =
     bnd (bread (ldev s) (lstart s) s) (\<lambda>b s.
     let x = bdata (bufs s b); s = s\<lparr>lhn := sint (get32 x 0)\<rparr> in
     bnd (for_each [0..<nat (lhn s)] (\<lambda>i s.
       if i < LOGBLOCKS then Ret () (s\<lparr>lhblock := (lhblock s)(i := get32 x (4 + 4 * i))\<rparr>)
       else Panic ''out of bounds'') s) (\<lambda>_ s.
     brelse b s))"

definition write_head :: "'a logst_scheme \<Rightarrow> ('a logst_scheme, unit) outcome" where
  "write_head s =
     bnd (bread (ldev s) (lstart s) s) (\<lambda>b s.
     let x = put32 0 (of_int (lhn s)) (bdata (bufs s b));
         x = fold (\<lambda>i. put32 (4 + 4 * i) (lhblock s i)) [0..<nat (lhn s)] x;
         s = s\<lparr>bufs := (bufs s)(b := (bufs s b)\<lparr>bdata := x\<rparr>)\<rparr> in
     bnd (bwrite b s) (\<lambda>_ s.
     brelse b s))"

definition recover_from_log :: "'a logst_scheme \<Rightarrow> ('a logst_scheme, unit) outcome" where
  "recover_from_log s =
     bnd (read_head s) (\<lambda>_ s.
     bnd (install_trans True s) (\<lambda>_ s.
     write_head (s\<lparr>lhn := 0\<rparr>)))"

definition initlog :: "uint32 \<Rightarrow> uint32 \<Rightarrow> 'a logst_scheme \<Rightarrow> ('a logst_scheme, unit) outcome" where
  "initlog dev logstart s =
     (if 4 + 4 * LOGBLOCKS \<ge> BSIZE then Panic ''initlog: too big logheader''
      else recover_from_log (s\<lparr>lstart := logstart, ldev := dev\<rparr>))"

text \<open>
  \<^verbatim>\<open>begin_op\<close> up to the first time it sleeps; a thread that is woken goes on with
  \<open>begin_op_resume\<close>.
\<close>

definition begin_op_loop :: "'a logst_scheme \<Rightarrow> ('a logst_scheme, unit) outcome" where
  "begin_op_loop s =
     (if committing s then sleep Chan_log Lk_log s
      else if lhn s + (outstanding s + 1) * int MAXOPBLOCKS > int LOGBLOCKS then sleep Chan_log Lk_log s
      else release Lk_log (s\<lparr>outstanding := outstanding s + 1\<rparr>))"

definition begin_op :: "'a logst_scheme \<Rightarrow> ('a logst_scheme, unit) outcome" where
  "begin_op s = bnd (acquire Lk_log s) (\<lambda>_ s. begin_op_loop s)"

definition begin_op_resume :: "'a logst_scheme \<Rightarrow> ('a logst_scheme, unit) outcome" where
  "begin_op_resume s = bnd (sleep_resume Lk_log s) (\<lambda>_ s. begin_op_loop s)"

definition write_log_one :: "nat \<Rightarrow> 'a logst_scheme \<Rightarrow> ('a logst_scheme, unit) outcome" where
  "write_log_one tail s =
     bnd (bread (ldev s) (lstart s + of_nat tail + 1) s) (\<lambda>to s.
     bnd (bread (ldev s) (lhblock s tail) s) (\<lambda>from s.
     let s = s\<lparr>bufs := (bufs s)(to := (bufs s to)\<lparr>bdata := bdata (bufs s from)\<rparr>)\<rparr> in
     bnd (bwrite to s) (\<lambda>_ s.
     bnd (brelse from s) (\<lambda>_ s.
     brelse to s))))"

definition write_log :: "'a logst_scheme \<Rightarrow> ('a logst_scheme, unit) outcome" where
  "write_log s = for_each [0..<nat (lhn s)] write_log_one s"

definition commit :: "'a logst_scheme \<Rightarrow> ('a logst_scheme, unit) outcome" where
  "commit s =
     (if lhn s > 0 then
        bnd (write_log s) (\<lambda>_ s.
        bnd (write_head s) (\<lambda>_ s.
        bnd (install_trans False s) (\<lambda>_ s.
        write_head (s\<lparr>lhn := 0\<rparr>))))
      else Ret () s)"

definition end_op :: "'a logst_scheme \<Rightarrow> ('a logst_scheme, unit) outcome" where
  "end_op s =
     bnd (acquire Lk_log s) (\<lambda>_ s.
     let s = s\<lparr>outstanding := outstanding s - 1\<rparr> in
     if committing s then Panic ''log.committing''
     else if outstanding s = 0 then
       bnd (release Lk_log (s\<lparr>committing := True\<rparr>)) (\<lambda>_ s.
       bnd (commit s) (\<lambda>_ s.
       bnd (acquire Lk_log s) (\<lambda>_ s.
       bnd (wakeup (Some Chan_log) (s\<lparr>committing := False\<rparr>)) (\<lambda>_ s.
       release Lk_log s))))
     else
       bnd (wakeup (Some Chan_log) s) (\<lambda>_ s.
       release Lk_log s))"

fun log_find :: "(nat \<Rightarrow> uint32) \<Rightarrow> uint32 \<Rightarrow> nat \<Rightarrow> nat list \<Rightarrow> nat" where
  "log_find bl b n [] = n"
| "log_find bl b n (i # is) = (if bl i = b then i else log_find bl b n is)"

definition log_write :: "nat \<Rightarrow> 'a logst_scheme \<Rightarrow> ('a logst_scheme, unit) outcome" where
  "log_write b s =
     bnd (acquire Lk_log s) (\<lambda>_ s.
     if lhn s \<ge> int LOGBLOCKS then Panic ''too big a transaction''
     else if outstanding s < 1 then Panic ''log_write outside of trans''
     else
       let i = log_find (lhblock s) (bblockno (bufs s b)) (nat (lhn s)) [0..<nat (lhn s)];
           s = s\<lparr>lhblock := (lhblock s)(i := bblockno (bufs s b))\<rparr> in
       bnd (if int i = lhn s then
              bnd (bpin b s) (\<lambda>_ s. Ret () (s\<lparr>lhn := lhn s + 1\<rparr>))
            else Ret () s) (\<lambda>_ s.
       release Lk_log s))"

subsection \<open>One block through the cache\<close>

text \<open>What the loops of the log leave unchanged: everything but the cache, the disk and who is awake.\<close>

definition log_frame :: "'a logst_scheme \<Rightarrow> 'a logst_scheme \<Rightarrow> bool" where
  "log_frame s s' \<longleftrightarrow> quiet s' \<and> lstart s' = lstart s \<and> outstanding s' = outstanding s \<and>
     committing s' = committing s \<and> ldev s' = ldev s \<and> lhn s' = lhn s \<and> lhblock s' = lhblock s"

lemma log_frameD:
  assumes "log_frame s s'"
  shows "quiet s'" "lstart s' = lstart s" "outstanding s' = outstanding s" "committing s' = committing s"
    "ldev s' = ldev s" "lhn s' = lhn s" "lhblock s' = lhblock s"
  using assms by (simp_all add: log_frame_def)

lemma log_frame_refl: "quiet s \<Longrightarrow> log_frame s s"
  by (simp add: log_frame_def)

lemma log_frame_trans: "log_frame s s' \<Longrightarrow> log_frame s' s'' \<Longrightarrow> log_frame s s''"
  by (simp add: log_frame_def)

lemma log_frame_simps [simp]:
  "log_frame s (s\<lparr>bufs := B\<rparr>) = quiet s" "log_frame s (s\<lparr>procs := ps, bufs := B\<rparr>) = quiet s"
  "log_frame s (s\<lparr>disk := dk, dwrites := w\<rparr>) = quiet s"
  by (simp_all add: log_frame_def)

text \<open>A block is written through: the cache and the disk agree on it afterwards.\<close>

definition a_put :: "uint32 \<Rightarrow> block \<Rightarrow> acache \<Rightarrow> acache" where
  "a_put b x a = a\<lparr>aview := (aview a)(b := x), adisk := (adisk a)(b := x)\<rparr>"

text \<open>The loops start and end every iteration with no buffer locked and reference counts small.\<close>

definition a_idle :: "acache \<Rightarrow> bool" where
  "a_idle a \<longleftrightarrow> (\<forall>b. \<not> alock a b \<and> arefs a b \<le> 2)"

lemma clean_view:
  assumes "cache_inv d s" "brefs d (bufs s) b = 0"
  shows "bview d s b = disk s b"
proof (cases "bslot d (bufs s) b")
  case None
  then show ?thesis
    by (simp add: bview_def)
next
  case (Some i)
  then have "slot d (bufs s) b i"
    using cache_slot [OF assms(1)] by simp
  moreover have "brefcnt (bufs s i) = 0"
    using Some assms(2) by (simp add: brefs_def unat_eq_0)
  ultimately show ?thesis
    using Some cache_invD(4) [OF assms(1)] by (simp add: bview_def)
qed

text \<open>
  The contract of one step of a client of the cache, in terms of the abstract cache: from
  \<open>a\<close> to \<open>a'\<close>, having written \<open>W\<close> to the disk.
\<close>

definition io :: "'a logst_scheme \<Rightarrow> (uint32 \<times> block) list \<Rightarrow> acache \<Rightarrow> 'a logst_scheme \<Rightarrow> bool" where
  "io s W a s' \<longleftrightarrow> log_frame s s' \<and> cache_inv (ldev s) s' \<and> cabs (ldev s) s' = a \<and> dwrites s' = dwrites s @ W"

lemma ioD:
  assumes "io s W a s'"
  shows "log_frame s s'" "cache_inv (ldev s) s'" "cabs (ldev s) s' = a" "dwrites s' = dwrites s @ W"
  using assms by (simp_all add: io_def)

lemma io_trans: "io s W a s' \<Longrightarrow> io s' W' a' s'' \<Longrightarrow> io s (W @ W') a' s''"
  by (auto simp: io_def dest: log_frameD intro: log_frame_trans)

lemma cabs_wrote_sel [simp]: "aview (cabs d s) b = bview d s b" "arefs (cabs d s) b = brefs d (bufs s) b"
  "alock (cabs d s) b = blocked d (bufs s) b" "afree (cabs d s) = nfree (bufs s)" "adisk (cabs d s) b = disk s b"
  by (simp_all add: cabs_def)

text \<open>\<^verbatim>\<open>bread\<close>, \<^verbatim>\<open>bwrite\<close>, \<^verbatim>\<open>brelse\<close> in this form, with the handle of the buffer.\<close>

lemma io_bread:
  assumes "io s0 W a s" "\<not> alock a b" "0 < arefs a b \<or> 0 < afree a" "arefs a b \<le> 4"
  shows "ok (bread (ldev s0) b s) (\<lambda>i s'. io s0 W (a_read b a) s' \<and> hold (ldev s0) s' b i \<and>
    (\<forall>b' i'. hold (ldev s0) s b' i' \<longrightarrow> hold (ldev s0) s' b' i'))"
proof -
  note io = ioD [OF assms(1)]
  have q: "quiet s"
    using log_frameD(1) [OF io(1)] .
  have a: "\<not> blocked (ldev s0) (bufs s) b" "0 < brefs (ldev s0) (bufs s) b \<or> 0 < nfree (bufs s)"
      "brefs (ldev s0) (bufs s) b < 2 ^ 32 - 1"
    using assms(2-4) io(3) by auto
  obtain i B where B: "bread (ldev s0) b s = Ret i (s\<lparr>bufs := B\<rparr>)" "cache_inv (ldev s0) (s\<lparr>bufs := B\<rparr>)"
    "cabs (ldev s0) (s\<lparr>bufs := B\<rparr>) = a_read b (cabs (ldev s0) s)" "hold (ldev s0) (s\<lparr>bufs := B\<rparr>) b i"
    "\<forall>b' i'. hold (ldev s0) s b' i' \<longrightarrow> hold (ldev s0) (s\<lparr>bufs := B\<rparr>) b' i'"
    by (rule bread_ok [OF io(2) q a])
  have "io s0 W (a_read b a) (s\<lparr>bufs := B\<rparr>)"
    using B(2,3) io q log_frame_trans [OF io(1), of "s\<lparr>bufs := B\<rparr>"] by (simp add: io_def)
  then show ?thesis
    using B by simp
qed

lemma io_set:
  assumes "io s0 W a s" "hold (ldev s0) s b i"
  shows "io s0 W (a_set b x a) (s\<lparr>bufs := (bufs s)(i := (bufs s i)\<lparr>bdata := x\<rparr>)\<rparr>)"
    "hold (ldev s0) s b' i' \<Longrightarrow> hold (ldev s0) (s\<lparr>bufs := (bufs s)(i := (bufs s i)\<lparr>bdata := x\<rparr>)\<rparr>) b' i'"
proof -
  note io = ioD [OF assms(1)]
  show "io s0 W (a_set b x a) (s\<lparr>bufs := (bufs s)(i := (bufs s i)\<lparr>bdata := x\<rparr>)\<rparr>)"
    using bset_ok(1,2) [OF io(2) assms(2), of x] io log_frameD(1) [OF io(1)]
      log_frame_trans [OF io(1), of "s\<lparr>bufs := (bufs s)(i := (bufs s i)\<lparr>bdata := x\<rparr>)\<rparr>"] by (simp add: io_def)
  show "hold (ldev s0) (s\<lparr>bufs := (bufs s)(i := (bufs s i)\<lparr>bdata := x\<rparr>)\<rparr>) b' i'" if "hold (ldev s0) s b' i'"
    by (rule bset_ok(3) [OF io(2) assms(2) that])
qed

lemma io_data: "io s0 W a s \<Longrightarrow> hold (ldev s0) s b i \<Longrightarrow> bdata (bufs s i) = aview a b"
  using hold_data by (auto simp: io_def)

lemma io_bwrite:
  assumes "io s0 W a s" "hold (ldev s0) s b i"
  shows "ok (bwrite i s) (\<lambda>_ s'. io s0 (W @ [(b, aview a b)]) (a_write b a) s' \<and>
    (\<forall>b' i'. hold (ldev s0) s b' i' \<longrightarrow> hold (ldev s0) s' b' i'))"
proof -
  note io = ioD [OF assms(1)]
  have q: "quiet s"
    using log_frameD(1) [OF io(1)] .
  note w = bwrite_ok [OF io(2) assms(2) q]
  have v: "bview (ldev s0) s b = aview a b"
    using io(3) by auto
  have "io s0 (W @ [(b, aview a b)]) (a_write b a) (wrote b (aview a b) s)"
    using w(2,3) io q log_frame_trans [OF io(1), of "wrote b (aview a b) s"] unfolding v by (simp add: io_def)
  then show ?thesis
    using w(1,4) unfolding v by simp
qed

lemma io_brelse:
  assumes "io s0 W a s" "hold (ldev s0) s b i" "arefs a b = 1 \<Longrightarrow> aview a b = adisk a b"
  shows "ok (brelse i s) (\<lambda>_ s'. io s0 W (a_relse b a) s' \<and>
    (\<forall>b' i'. b' \<noteq> b \<longrightarrow> hold (ldev s0) s b' i' \<longrightarrow> hold (ldev s0) s' b' i'))"
proof -
  note io = ioD [OF assms(1)]
  have q: "quiet s"
    using log_frameD(1) [OF io(1)] .
  have clean: "brefs (ldev s0) (bufs s) b = 1 \<Longrightarrow> bview (ldev s0) s b = disk s b"
    using assms(3) io(3) by auto
  obtain B ps where B: "brelse i s = Ret () (s\<lparr>procs := ps, bufs := B\<rparr>)" "cache_inv (ldev s0) (s\<lparr>procs := ps, bufs := B\<rparr>)"
    "cabs (ldev s0) (s\<lparr>procs := ps, bufs := B\<rparr>) = a_relse b (cabs (ldev s0) s)" "\<forall>k. pid (ps k) = pid (procs s k)"
    "\<forall>b' i'. b' \<noteq> b \<longrightarrow> hold (ldev s0) s b' i' \<longrightarrow> hold (ldev s0) (s\<lparr>procs := ps, bufs := B\<rparr>) b' i'"
    by (rule brelse_ok [OF io(2) assms(2) q clean])
  have "io s0 W (a_relse b a) (s\<lparr>procs := ps, bufs := B\<rparr>)"
    using B(2,3) io q log_frame_trans [OF io(1), of "s\<lparr>procs := ps, bufs := B\<rparr>"] by (simp add: io_def)
  then show ?thesis
    using B by simp
qed

lemma io_bunpin:
  assumes "io s0 W a s" "hold (ldev s0) s b i" "1 < arefs a b"
  shows "ok (bunpin i s) (\<lambda>_ s'. io s0 W (a_unpin b a) s' \<and>
    (\<forall>b' i'. hold (ldev s0) s b' i' \<longrightarrow> hold (ldev s0) s' b' i'))"
proof -
  note io = ioD [OF assms(1)]
  have q: "quiet s"
    using log_frameD(1) [OF io(1)] .
  have cnt: "1 < brefs (ldev s0) (bufs s) b" and lk: "Lk_bcache \<notin> held s"
    using assms(3) io(3) q by (auto simp: quiet_def)
  obtain B where B: "bunpin i s = Ret () (s\<lparr>bufs := B\<rparr>)" "cache_inv (ldev s0) (s\<lparr>bufs := B\<rparr>)"
    "cabs (ldev s0) (s\<lparr>bufs := B\<rparr>) = a_unpin b (cabs (ldev s0) s)"
    "\<forall>b' i'. hold (ldev s0) s b' i' \<longrightarrow> hold (ldev s0) (s\<lparr>bufs := B\<rparr>) b' i'"
    by (rule bunpin_ok [OF io(2) assms(2) lk cnt])
  have "io s0 W (a_unpin b a) (s\<lparr>bufs := B\<rparr>)"
    using B(2,3) io q log_frame_trans [OF io(1), of "s\<lparr>bufs := B\<rparr>"] by (simp add: io_def)
  then show ?thesis
    using B by simp
qed

text \<open>The block of the log area that backs entry \<open>i\<close>.\<close>

definition log_blk :: "uint32 \<Rightarrow> nat \<Rightarrow> uint32" where
  "log_blk st i = st + of_nat i + 1"

text \<open>The body of \<^verbatim>\<open>write_log\<close>.\<close>

lemma a_copy_eq:
  assumes "x \<noteq> y" "arefs a x = 0" "0 < arefs a y" "\<not> alock a x" "\<not> alock a y" "0 < afree a"
  shows "a_relse x (a_relse y (a_write x (a_set x (aview a y) (a_read y (a_read x a))))) = a_put x (aview a y) a"
  using assms by (auto simp: a_relse_def a_write_def a_set_def a_read_def a_put_def fun_eq_iff intro!: acache.equality)

lemma write_log_one_ok:
  assumes io: "io s0 W a s" and idle: "a_idle a"
    and xy: "x = log_blk (lstart s0) tail" "y = lhblock s0 tail" and ne: "x \<noteq> y"
    and x: "arefs a x = 0" "0 < afree a" and y: "0 < arefs a y"
  shows "ok (write_log_one tail s) (\<lambda>_ s'. io s0 (W @ [(x, aview a y)]) (a_put x (aview a y) a) s')"
proof -
  let ?d = "ldev s0"
  have i: "\<not> alock a x" "\<not> alock a y" "arefs a x \<le> 2" "arefs a y \<le> 2"
    using idle by (auto simp: a_idle_def)
  have "ok (bread ?d x s) (\<lambda>i s'. io s0 W (a_read x a) s' \<and> hold ?d s' x i \<and> (\<forall>b' i'. hold ?d s b' i' \<longrightarrow> hold ?d s' b' i'))"
    using i x by (intro io_bread [OF io]) auto
  then obtain i1 s1 where 1: "bread ?d x s = Ret i1 s1" "io s0 W (a_read x a) s1" "hold ?d s1 x i1"
    by (auto simp: ok_iff)
  have "ok (bread ?d y s1) (\<lambda>i s'. io s0 W (a_read y (a_read x a)) s' \<and> hold ?d s' y i \<and> (\<forall>b' i'. hold ?d s1 b' i' \<longrightarrow> hold ?d s' b' i'))"
    using i y ne by (intro io_bread [OF 1(2)]) (auto simp: a_read_def)
  then obtain i2 s2 where 2: "bread ?d y s1 = Ret i2 s2" "io s0 W (a_read y (a_read x a)) s2" "hold ?d s2 y i2" "hold ?d s2 x i1"
    using 1(3) by (auto simp: ok_iff)
  have v: "bdata (bufs s2 i2) = aview a y"
    using io_data [OF 2(2,3)] by (simp add: a_read_def)
  let ?s3 = "s2\<lparr>bufs := (bufs s2)(i1 := (bufs s2 i1)\<lparr>bdata := aview a y\<rparr>)\<rparr>"
  have 3: "io s0 W (a_set x (aview a y) (a_read y (a_read x a))) ?s3" "hold ?d ?s3 x i1" "hold ?d ?s3 y i2"
    using io_set [OF 2(2,4)] 2(3,4) by blast+
  obtain s4 where 4: "bwrite i1 ?s3 = Ret () s4" "hold ?d s4 x i1" "hold ?d s4 y i2"
      "io s0 (W @ [(x, aview a y)]) (a_write x (a_set x (aview a y) (a_read y (a_read x a)))) s4"
    using io_bwrite [OF 3(1,2)] 3(2,3) by (auto simp: ok_iff a_set_def)
  let ?a4 = "a_write x (a_set x (aview a y) (a_read y (a_read x a)))"
  have "ok (brelse i2 s4) (\<lambda>_ s'. io s0 (W @ [(x, aview a y)]) (a_relse y ?a4) s' \<and>
      (\<forall>b' i'. b' \<noteq> y \<longrightarrow> hold ?d s4 b' i' \<longrightarrow> hold ?d s' b' i'))"
    using y ne by (intro io_brelse [OF 4(4,3)]) (simp add: a_write_def a_set_def a_read_def)
  then obtain s5 where 5: "brelse i2 s4 = Ret () s5" "io s0 (W @ [(x, aview a y)]) (a_relse y ?a4) s5" "hold ?d s5 x i1"
    using 4(2) ne by (auto simp: ok_iff)
  have "ok (brelse i1 s5) (\<lambda>_ s'. io s0 (W @ [(x, aview a y)]) (a_relse x (a_relse y ?a4)) s' \<and>
      (\<forall>b' i'. b' \<noteq> x \<longrightarrow> hold ?d s5 b' i' \<longrightarrow> hold ?d s' b' i'))"
    by (intro io_brelse [OF 5(2,3)]) (simp add: a_write_def a_set_def a_read_def a_relse_def)
  then obtain s6 where 6: "brelse i1 s5 = Ret () s6" "io s0 (W @ [(x, aview a y)]) (a_put x (aview a y) a) s6"
    unfolding a_copy_eq [OF ne x(1) y i(1,2) x(2)] by (auto simp: ok_iff)
  show ?thesis
    using 1(1) 2(1) 4(1) 5(1) 6 log_frameD(2,5,7) [OF ioD(1) [OF io]] log_frameD(5,7) [OF ioD(1) [OF 1(2)]]
    by (simp add: write_log_one_def v xy log_blk_def)
qed

text \<open>The body of \<^verbatim>\<open>install_trans\<close>; \<open>u\<close> is the number of pins it drops.\<close>

definition a_install :: "bool \<Rightarrow> uint32 \<Rightarrow> block \<Rightarrow> acache \<Rightarrow> acache" where
  "a_install recovering y v a =
     (let a = a_put y v a in
      if recovering then a
      else a\<lparr>arefs := (arefs a)(y := arefs a y - 1), afree := (if arefs a y = 1 then afree a + 1 else afree a)\<rparr>)"

lemma a_install_eq:
  assumes "x \<noteq> y" "arefs a x = 0" "\<not> alock a x" "\<not> alock a y" "0 < afree a" "v = aview a x"
  shows "recovering \<Longrightarrow> arefs a y = 0 \<Longrightarrow> 1 < afree a \<Longrightarrow>
      a_relse y (a_relse x (a_write y (a_set y v (a_read y (a_read x a))))) = a_install recovering y v a"
    "\<not> recovering \<Longrightarrow> 0 < arefs a y \<Longrightarrow>
      a_relse y (a_relse x (a_unpin y (a_write y (a_set y v (a_read y (a_read x a)))))) = a_install recovering y v a"
  using assms by (auto simp: a_relse_def a_write_def a_set_def a_read_def a_put_def a_unpin_def a_install_def
      fun_eq_iff intro!: acache.equality)

lemma install_one_ok:
  assumes io: "io s0 W a s" and idle: "a_idle a"
    and xy: "x = log_blk (lstart s0) tail" "y = lhblock s0 tail" and ne: "x \<noteq> y"
    and x: "arefs a x = 0" "0 < afree a"
    and y: "if recovering then arefs a y = 0 \<and> 1 < afree a else 0 < arefs a y"
    and clean: "aview a x = adisk a x"
  shows "ok (install_one recovering tail s)
    (\<lambda>_ s'. io s0 (W @ [(y, aview a x)]) (a_install recovering y (aview a x) a) s')"
proof -
  let ?d = "ldev s0"
  have i: "\<not> alock a x" "\<not> alock a y" "arefs a x \<le> 2" "arefs a y \<le> 2"
    using idle by (auto simp: a_idle_def)
  have "ok (bread ?d x s) (\<lambda>i s'. io s0 W (a_read x a) s' \<and> hold ?d s' x i \<and> (\<forall>b' i'. hold ?d s b' i' \<longrightarrow> hold ?d s' b' i'))"
    using i x by (intro io_bread [OF io]) auto
  then obtain i1 s1 where 1: "bread ?d x s = Ret i1 s1" "io s0 W (a_read x a) s1" "hold ?d s1 x i1"
    by (auto simp: ok_iff)
  have "ok (bread ?d y s1) (\<lambda>i s'. io s0 W (a_read y (a_read x a)) s' \<and> hold ?d s' y i \<and> (\<forall>b' i'. hold ?d s1 b' i' \<longrightarrow> hold ?d s' b' i'))"
    using i y x ne by (intro io_bread [OF 1(2)]) (auto simp: a_read_def split: if_splits)
  then obtain i2 s2 where 2: "bread ?d y s1 = Ret i2 s2" "io s0 W (a_read y (a_read x a)) s2" "hold ?d s2 y i2" "hold ?d s2 x i1"
    using 1(3) by (auto simp: ok_iff)
  have v: "bdata (bufs s2 i1) = aview a x"
    using io_data [OF 2(2,4)] by (simp add: a_read_def)
  let ?s3 = "s2\<lparr>bufs := (bufs s2)(i2 := (bufs s2 i2)\<lparr>bdata := aview a x\<rparr>)\<rparr>" and ?W = "W @ [(y, aview a x)]"
  have 3: "io s0 W (a_set y (aview a x) (a_read y (a_read x a))) ?s3" "hold ?d ?s3 x i1" "hold ?d ?s3 y i2"
    using io_set [OF 2(2,3)] 2(3,4) by blast+
  let ?a4 = "a_write y (a_set y (aview a x) (a_read y (a_read x a)))"
  obtain s4 where 4: "bwrite i2 ?s3 = Ret () s4" "hold ?d s4 x i1" "hold ?d s4 y i2" "io s0 ?W ?a4 s4"
    using io_bwrite [OF 3(1,3)] 3(2,3) by (auto simp: ok_iff a_set_def)
  let ?a5 = "if recovering then ?a4 else a_unpin y ?a4"
  have "ok (if recovering then Ret () s4 else bunpin i2 s4) (\<lambda>_ s'. io s0 ?W ?a5 s' \<and> hold ?d s' x i1 \<and> hold ?d s' y i2)"
  proof (cases recovering)
    case False
    have "1 < arefs ?a4 y"
      using y False by (simp add: a_write_def a_set_def a_read_def)
    from io_bunpin [OF 4(4,3) this] show ?thesis
      using False 4(2,3) by (auto simp: ok_iff)
  qed (use 4 in simp)
  then obtain s5 where 5: "(if recovering then Ret () s4 else bunpin i2 s4) = Ret () s5" "io s0 ?W ?a5 s5"
      "hold ?d s5 x i1" "hold ?d s5 y i2"
    by (auto simp: ok_iff)
  have "ok (brelse i1 s5) (\<lambda>_ s'. io s0 ?W (a_relse x ?a5) s' \<and> (\<forall>b' i'. b' \<noteq> x \<longrightarrow> hold ?d s5 b' i' \<longrightarrow> hold ?d s' b' i'))"
    using ne clean by (intro io_brelse [OF 5(2,3)]) (simp add: a_write_def a_set_def a_read_def a_unpin_def)
  then obtain s6 where 6: "brelse i1 s5 = Ret () s6" "io s0 ?W (a_relse x ?a5) s6" "hold ?d s6 y i2"
    using 5(4) ne by (auto simp: ok_iff)
  have "ok (brelse i2 s6) (\<lambda>_ s'. io s0 ?W (a_relse y (a_relse x ?a5)) s' \<and> (\<forall>b' i'. b' \<noteq> y \<longrightarrow> hold ?d s6 b' i' \<longrightarrow> hold ?d s' b' i'))"
    by (intro io_brelse [OF 6(2,3)]) (simp add: a_write_def a_set_def a_read_def a_relse_def a_unpin_def)
  moreover have "a_relse y (a_relse x ?a5) = a_install recovering y (aview a x) a"
    using a_install_eq [OF ne x(1) i(1,2) x(2) refl, of recovering] y by (auto split: if_splits)
  ultimately obtain s7 where 7: "brelse i2 s6 = Ret () s7" "io s0 ?W (a_install recovering y (aview a x) a) s7"
    by (auto simp: ok_iff)
  show ?thesis
    using 1(1) 2(1) 4(1) 5(1) 6(1) 7 log_frameD(2,5,7) [OF ioD(1) [OF io]] log_frameD(5,7) [OF ioD(1) [OF 1(2)]]
    by (simp add: install_one_def v xy log_blk_def)
qed

subsection \<open>The loops\<close>

definition upd_all :: "(nat \<Rightarrow> 'k) \<Rightarrow> (nat \<Rightarrow> 'v) \<Rightarrow> nat \<Rightarrow> ('k \<Rightarrow> 'v) \<Rightarrow> 'k \<Rightarrow> 'v" where
  "upd_all f g n m = fold (\<lambda>i m. m(f i := g i)) [0..<n] m"

lemma upd_all_0 [simp]: "upd_all f g 0 m = m"
  by (simp add: upd_all_def)

lemma upd_all_Suc: "upd_all f g (Suc n) m = (upd_all f g n m)(f n := g n)"
  by (simp add: upd_all_def)

lemma upd_all_out: "(\<And>i. i < n \<Longrightarrow> f i \<noteq> b) \<Longrightarrow> upd_all f g n m b = m b"
  by (induction n) (auto simp: upd_all_Suc)

lemma upd_all_in: "inj_on f {0..<n} \<Longrightarrow> i < n \<Longrightarrow> upd_all f g n m (f i) = g i"
proof (induction n)
  case (Suc n)
  show ?case
  proof (cases "i = n")
    case False
    then have "f i \<noteq> f n" "i < n"
      using Suc.prems by (auto simp: inj_on_def)
    then show ?thesis
      using Suc by (simp add: upd_all_Suc inj_on_def)
  qed (simp add: upd_all_Suc)
qed simp

definition log_area :: "uint32 \<Rightarrow> uint32 set" where
  "log_area st = {b. unat st \<le> unat b \<and> unat b \<le> unat st + LOGBLOCKS}"

definition log_fits :: "uint32 \<Rightarrow> bool" where
  "log_fits st \<longleftrightarrow> unat st + LOGBLOCKS < 2 ^ 32"

lemma unat_log_blk:
  assumes "log_fits st" "i < LOGBLOCKS"
  shows "unat (log_blk st i) = unat st + i + 1"
proof -
  have "log_blk st i = of_nat (unat st + i + 1)"
    by (simp add: log_blk_def)
  then show ?thesis
    using assms by (simp add: log_fits_def unat_of_nat take_bit_eq_mod del: of_nat_add of_nat_Suc)
qed

lemma log_blk_area:
  assumes "log_fits st" "i < LOGBLOCKS"
  shows "log_blk st i \<in> log_area st" "log_blk st i \<noteq> st"
  using unat_log_blk [OF assms] assms(2) by (auto simp: log_area_def)

lemma start_area [simp]: "st \<in> log_area st"
  by (simp add: log_area_def)

lemma log_area_not_all: obtains z where "z \<notin> log_area st"
proof (cases "st = 0")
  case True
  then have "31 \<notin> log_area st"
    by (simp add: log_area_def)
  then show thesis
    by (rule that)
next
  case False
  then have "0 \<notin> log_area st"
    by (simp add: log_area_def unat_eq_0)
  then show thesis
    by (rule that)
qed

lemma log_blk_inj:
  assumes "log_fits st" "n \<le> LOGBLOCKS"
  shows "inj_on (log_blk st) {0..<n}"
proof (rule inj_onI)
  fix i j
  assume "i \<in> {0..<n}" "j \<in> {0..<n}" and eq: "log_blk st i = log_blk st j"
  then have "i < LOGBLOCKS" "j < LOGBLOCKS"
    using assms(2) by simp_all
  then show "i = j"
    using arg_cong [OF eq, of unat] unfolding unat_log_blk [OF assms(1) \<open>i < LOGBLOCKS\<close>]
      unat_log_blk [OF assms(1) \<open>j < LOGBLOCKS\<close>] by linarith
qed

definition a_copied :: "(nat \<Rightarrow> uint32) \<Rightarrow> (nat \<Rightarrow> block) \<Rightarrow> nat \<Rightarrow> acache \<Rightarrow> acache" where
  "a_copied f v n a = a\<lparr>aview := upd_all f v n (aview a), adisk := upd_all f v n (adisk a)\<rparr>"

lemma a_copied_0 [simp]: "a_copied f v 0 a = a"
  by (simp add: a_copied_def)

lemma a_copied_Suc: "a_copied f v (Suc n) a = a_put (f n) (v n) (a_copied f v n a)"
  by (simp add: a_copied_def a_put_def upd_all_Suc)

lemma a_copied_sel [simp]:
  "arefs (a_copied f v n a) = arefs a" "alock (a_copied f v n a) = alock a" "afree (a_copied f v n a) = afree a"
  "a_idle (a_copied f v n a) = a_idle a"
  "aview (a_copied f v n a) = upd_all f v n (aview a)" "adisk (a_copied f v n a) = upd_all f v n (adisk a)"
  by (simp_all add: a_copied_def a_idle_def)

lemma map_upt_snoc: "map f [0..<Suc n] = map f [0..<n] @ [f n]"
  by simp

lemma write_log_ok:
  assumes io: "io s0 W a s" and idle: "a_idle a" and free: "0 < afree a" and n: "n = nat (lhn s)" "n \<le> LOGBLOCKS"
    and st: "log_fits (lstart s0)" and bl: "\<And>i. i < n \<Longrightarrow> lhblock s0 i \<notin> log_area (lstart s0) \<and> 0 < arefs a (lhblock s0 i)"
    and lg: "\<And>i. i < n \<Longrightarrow> arefs a (log_blk (lstart s0) i) = 0"
    and v: "\<And>i. v i = aview a (lhblock s0 i)"
  shows "ok (write_log s) (\<lambda>_. io s0 (W @ map (\<lambda>i. (log_blk (lstart s0) i, v i)) [0..<n])
    (a_copied (log_blk (lstart s0)) v n a))"
  unfolding write_log_def n(1) [symmetric]
proof (rule ok_for_upt)
  let ?f = "log_blk (lstart s0)"
  show "io s0 (W @ map (\<lambda>i. (?f i, v i)) [0..<0]) (a_copied ?f v 0 a) s"
    using io by simp
  fix t s'
  assume t: "t < n" and I: "io s0 (W @ map (\<lambda>i. (?f i, v i)) [0..<t]) (a_copied ?f v t a) s'"
  have ne: "?f i \<noteq> lhblock s0 t" if "i < LOGBLOCKS" for i
    using bl [OF t] log_blk_area(1) [OF st that] by auto
  have vt: "aview (a_copied ?f v t a) (lhblock s0 t) = v t"
    using ne t n(2) by (auto simp: v intro!: upd_all_out)
  have "ok (write_log_one t s') (\<lambda>_. io s0 ((W @ map (\<lambda>i. (?f i, v i)) [0..<t]) @ [(?f t, aview (a_copied ?f v t a) (lhblock s0 t))])
      (a_put (?f t) (aview (a_copied ?f v t a) (lhblock s0 t)) (a_copied ?f v t a)))"
    using idle free bl [OF t] lg [OF t] ne [of t] t n(2) by (intro write_log_one_ok [OF I _ refl refl]) simp_all
  then show "ok (write_log_one t s') (\<lambda>_. io s0 (W @ map (\<lambda>i. (?f i, v i)) [0..<Suc t]) (a_copied ?f v (Suc t) a))"
    unfolding vt a_copied_Suc map_upt_snoc append_assoc .
qed

text \<open>The header block.\<close>

definition head_block :: "int \<Rightarrow> (nat \<Rightarrow> uint32) \<Rightarrow> block \<Rightarrow> block" where
  "head_block n bl x = fold (\<lambda>i. put32 (4 + 4 * i) (bl i)) [0..<nat n] (put32 0 (of_int n) x)"

lemma head_block_read:
  assumes "n \<le> LOGBLOCKS"
  shows "get32 (head_block (int n) bl x) 0 = of_nat n"
    "i < n \<Longrightarrow> get32 (head_block (int n) bl x) (4 + 4 * i) = bl i"
proof -
  have "get32 (fold (\<lambda>i. put32 (4 + 4 * i) (bl i)) [0..<m] y) 0 = get32 y 0 \<and>
      (\<forall>i < m. get32 (fold (\<lambda>i. put32 (4 + 4 * i) (bl i)) [0..<m] y) (4 + 4 * i) = bl i)" if "m \<le> LOGBLOCKS" for m y
    using that
  proof (induction m)
    case (Suc m)
    then show ?case
      by (auto simp: get32_put32_other less_Suc_eq)
  qed simp
  from this [OF assms, of "put32 0 (of_nat n) x"]
  show "get32 (head_block (int n) bl x) 0 = of_nat n"
    "i < n \<Longrightarrow> get32 (head_block (int n) bl x) (4 + 4 * i) = bl i"
    by (simp_all add: head_block_def)
qed

lemma a_putback_eq:
  assumes "arefs a x = 0" "\<not> alock a x" "0 < afree a"
  shows "a_relse x (a_write x (a_set x v (a_read x a))) = a_put x v a" "a_relse x (a_read x a) = a"
  using assms by (auto simp: a_relse_def a_write_def a_set_def a_read_def a_put_def fun_eq_iff intro!: acache.equality)

lemma write_head_ok:
  assumes io: "io s0 W a s" and idle: "a_idle a" and x: "arefs a (lstart s0) = 0" "0 < afree a"
    and h: "h = head_block (lhn s0) (lhblock s0) (aview a (lstart s0))"
  shows "ok (write_head s) (\<lambda>_. io s0 (W @ [(lstart s0, h)]) (a_put (lstart s0) h a))"
proof -
  let ?d = "ldev s0" and ?x = "lstart s0"
  have i: "\<not> alock a ?x"
    using idle by (auto simp: a_idle_def)
  have "ok (bread ?d ?x s) (\<lambda>i s'. io s0 W (a_read ?x a) s' \<and> hold ?d s' ?x i \<and> (\<forall>b' i'. hold ?d s b' i' \<longrightarrow> hold ?d s' b' i'))"
    using i x by (intro io_bread [OF io]) auto
  then obtain i1 s1 where 1: "bread ?d ?x s = Ret i1 s1" "io s0 W (a_read ?x a) s1" "hold ?d s1 ?x i1"
    by (auto simp: ok_iff)
  have v: "bdata (bufs s1 i1) = aview a ?x"
    using io_data [OF 1(2,3)] by (simp add: a_read_def)
  let ?s2 = "s1\<lparr>bufs := (bufs s1)(i1 := (bufs s1 i1)\<lparr>bdata := h\<rparr>)\<rparr>"
  have 2: "io s0 W (a_set ?x h (a_read ?x a)) ?s2" "hold ?d ?s2 ?x i1"
    using io_set [OF 1(2,3)] 1(3) by blast+
  obtain s3 where 3: "bwrite i1 ?s2 = Ret () s3" "hold ?d s3 ?x i1"
      "io s0 (W @ [(?x, h)]) (a_write ?x (a_set ?x h (a_read ?x a))) s3"
    using io_bwrite [OF 2] 2(2) by (auto simp: ok_iff a_set_def)
  have "ok (brelse i1 s3) (\<lambda>_ s'. io s0 (W @ [(?x, h)]) (a_relse ?x (a_write ?x (a_set ?x h (a_read ?x a)))) s' \<and>
      (\<forall>b' i'. b' \<noteq> ?x \<longrightarrow> hold ?d s3 b' i' \<longrightarrow> hold ?d s' b' i'))"
    by (intro io_brelse [OF 3(3,2)]) (simp add: a_write_def a_set_def a_read_def)
  then obtain s4 where 4: "brelse i1 s3 = Ret () s4" "io s0 (W @ [(?x, h)]) (a_put ?x h a) s4"
    unfolding a_putback_eq(1) [OF x(1) i x(2)] by (auto simp: ok_iff)
  show ?thesis
    using 1(1) 3(1) 4 log_frameD [OF ioD(1) [OF io]] log_frameD [OF ioD(1) [OF 1(2)]]
    by (simp add: write_head_def v h head_block_def)
qed

text \<open>Installing: the home blocks are written, and outside recovery unpinned.\<close>

definition a_installed :: "bool \<Rightarrow> (nat \<Rightarrow> uint32) \<Rightarrow> (nat \<Rightarrow> block) \<Rightarrow> nat \<Rightarrow> acache \<Rightarrow> acache" where
  "a_installed recovering f v n a =
     (if recovering then a_copied f v n a
      else (a_copied f v n a)\<lparr>arefs := \<lambda>b. if b \<in> f ` {0..<n} then 0 else arefs a b, afree := afree a + n\<rparr>)"

lemma a_installed_0 [simp]: "a_installed recovering f v 0 a = a"
  by (simp add: a_installed_def)

lemma a_installed_sel [simp]:
  "alock (a_installed r f v n a) = alock a"
  "aview (a_installed r f v n a) = upd_all f v n (aview a)" "adisk (a_installed r f v n a) = upd_all f v n (adisk a)"
  by (simp_all add: a_installed_def)

lemma a_installed_idle: "a_idle a \<Longrightarrow> a_idle (a_installed r f v n a)"
  by (auto simp: a_idle_def a_installed_def)

lemma inj_upt_notin:
  fixes t :: nat
  assumes "inj_on f {0..<n}" "t < n"
  shows "f t \<notin> f ` {0..<t}"
proof
  assume "f t \<in> f ` {0..<t}"
  then obtain i where i: "i < t" "f t = f i"
    by auto
  then have "t = i"
    using assms(2) by (intro inj_onD [OF assms(1)]) auto
  then show False
    using i(1) by simp
qed

lemma a_installed_Suc:
  assumes "r \<or> inj_on f {0..<Suc n} \<and> arefs a (f n) = 1"
  shows "a_installed r f v (Suc n) a = a_install r (f n) (v n) (a_installed r f v n a)"
proof (cases r)
  case False
  then have "f n \<notin> f ` {0..<n}"
    using assms inj_upt_notin [of f "Suc n" n] by simp
  then show ?thesis
    using assms False
    by (auto simp: a_installed_def a_install_def a_put_def a_copied_def upd_all_Suc fun_eq_iff atLeast0_lessThan_Suc
        intro!: acache.equality)
qed (simp add: a_installed_def a_install_def a_copied_Suc)

lemma install_trans_ok:
  assumes io: "io s0 W a s" and idle: "a_idle a" and n: "n = nat (lhn s)" "n \<le> LOGBLOCKS"
    and st: "log_fits (lstart s0)" and bl: "\<And>i. i < n \<Longrightarrow> lhblock s0 i \<notin> log_area (lstart s0)"
    and lg: "\<And>i. i < n \<Longrightarrow> arefs a (log_blk (lstart s0) i) = 0 \<and>
      aview a (log_blk (lstart s0) i) = v i \<and> adisk a (log_blk (lstart s0) i) = v i"
    and pins: "if r then (\<forall>b. arefs a b = 0) \<and> 1 < afree a
      else inj_on (lhblock s0) {0..<n} \<and> (\<forall>i < n. arefs a (lhblock s0 i) = 1) \<and> 0 < afree a"
  shows "ok (install_trans r s) (\<lambda>_. io s0 (W @ map (\<lambda>i. (lhblock s0 i, v i)) [0..<n]) (a_installed r (lhblock s0) v n a))"
  unfolding install_trans_def n(1) [symmetric]
proof (rule ok_for_upt)
  let ?f = "lhblock s0"
  show "io s0 (W @ map (\<lambda>i. (?f i, v i)) [0..<0]) (a_installed r ?f v 0 a) s"
    using io by simp
  fix t s'
  let ?a = "a_installed r ?f v t a" and ?x = "log_blk (lstart s0) t"
  assume t: "t < n" and I: "io s0 (W @ map (\<lambda>i. (?f i, v i)) [0..<t]) ?a s'"
  have area: "?x \<in> log_area (lstart s0)"
    using t n(2) by (intro log_blk_area(1) [OF st]) simp
  have ne: "?f i \<noteq> ?x" if "i < n" for i
    using bl [OF that] area by auto
  have vt: "aview ?a ?x = v t" "adisk ?a ?x = v t"
    using lg [OF t] ne t by (auto simp: upd_all_out)
  have refs: "arefs ?a ?x = 0"
    using lg [OF t] ne t by (auto simp: a_installed_def)
  have free: "0 < afree ?a" "r \<Longrightarrow> 1 < afree ?a"
    using pins by (auto simp: a_installed_def split: if_splits)
  have pin: "if r then arefs ?a (?f t) = 0 \<and> 1 < afree ?a else 0 < arefs ?a (?f t)"
  proof (cases r)
    case False
    then have "?f t \<notin> ?f ` {0..<t}"
      using pins t inj_upt_notin [of ?f n t] by simp
    then show ?thesis
      using False pins t by (simp add: a_installed_def)
  qed (use free(2) pins in \<open>simp add: a_installed_def\<close>)
  have suc: "a_installed r ?f v (Suc t) a = a_install r (?f t) (v t) ?a"
    using pins t by (intro a_installed_Suc) (auto intro: inj_on_subset split: if_splits)
  have "ok (install_one r t s') (\<lambda>_. io s0 ((W @ map (\<lambda>i. (?f i, v i)) [0..<t]) @ [(?f t, aview ?a ?x)])
      (a_install r (?f t) (aview ?a ?x) ?a))"
    using ne [OF t] refs free(1) pin vt
    by (intro install_one_ok [OF I a_installed_idle [OF idle] refl refl]) auto
  then show "ok (install_one r t s') (\<lambda>_. io s0 (W @ map (\<lambda>i. (?f i, v i)) [0..<Suc t]) (a_installed r ?f v (Suc t) a))"
    unfolding vt suc map_upt_snoc append_assoc .
qed

subsection \<open>Commit\<close>

text \<open>
  \<open>log_ready s\<close>: the state in which \<^verbatim>\<open>end_op\<close> calls \<^verbatim>\<open>commit\<close>. No operation is active, so no buffer
  is locked and the logged blocks are the only ones with a reference, one pin each; the
  on-disk header is empty.
\<close>

definition log_ready :: "'a logst_scheme \<Rightarrow> bool" where
  "log_ready s \<longleftrightarrow> quiet s \<and> cache_inv (ldev s) s \<and> 0 \<le> lhn s \<and> lhn s \<le> int LOGBLOCKS \<and> log_fits (lstart s) \<and>
     inj_on (lhblock s) {0..<nat (lhn s)} \<and> (\<forall>i < nat (lhn s). lhblock s i \<notin> log_area (lstart s)) \<and>
     (\<forall>b. \<not> blocked (ldev s) (bufs s) b) \<and>
     (\<forall>b. brefs (ldev s) (bufs s) b = (if b \<in> lhblock s ` {0..<nat (lhn s)} then 1 else 0)) \<and>
     0 < nfree (bufs s) \<and> get32 (disk s (lstart s)) 0 = 0"

lemma log_readyD:
  assumes "log_ready s"
  shows "quiet s" "cache_inv (ldev s) s" "0 \<le> lhn s" "nat (lhn s) \<le> LOGBLOCKS" "log_fits (lstart s)"
    "inj_on (lhblock s) {0..<nat (lhn s)}" "i < nat (lhn s) \<Longrightarrow> lhblock s i \<notin> log_area (lstart s)"
    "\<not> blocked (ldev s) (bufs s) b"
    "brefs (ldev s) (bufs s) b = (if b \<in> lhblock s ` {0..<nat (lhn s)} then 1 else 0)"
    "0 < nfree (bufs s)" "get32 (disk s (lstart s)) 0 = 0"
  using assms by (auto simp: log_ready_def)

text \<open>The four groups of disk writes of \<^verbatim>\<open>commit\<close>.\<close>

definition commit_writes :: "'a logst_scheme \<Rightarrow> (uint32 \<times> block) list" where
  "commit_writes s =
     (let n = nat (lhn s); v = (\<lambda>i. bview (ldev s) s (lhblock s i));
          h = head_block (lhn s) (lhblock s) (disk s (lstart s)) in
      map (\<lambda>i. (log_blk (lstart s) i, v i)) [0..<n] @ [(lstart s, h)] @
      map (\<lambda>i. (lhblock s i, v i)) [0..<n] @ [(lstart s, head_block 0 (lhblock s) h)])"

text \<open>A state change of the in-memory header alone.\<close>

lemma io_lhn: "io s0 W a s \<Longrightarrow> io (s0\<lparr>lhn := k\<rparr>) W a (s\<lparr>lhn := k\<rparr>)"
  using cabs_cong [of "s\<lparr>lhn := k\<rparr>" s "ldev s0"] by (simp add: io_def log_frame_def quiet_def)

lemma commit_ok:
  assumes ready: "log_ready s" and pos: "0 < lhn s"
  shows "ok (commit s) (\<lambda>_ s'. dwrites s' = dwrites s @ commit_writes s \<and> lhn s' = 0 \<and> lstart s' = lstart s \<and>
    cache_inv (ldev s) s' \<and> quiet s' \<and> ldev s' = ldev s \<and> (\<forall>b. brefs (ldev s) (bufs s') b = 0) \<and>
    (\<forall>b. b \<notin> log_area (lstart s) \<longrightarrow> bview (ldev s) s' b = bview (ldev s) s b \<and> disk s' b = bview (ldev s) s b))"
proof -
  note R = log_readyD [OF ready]
  let ?n = "nat (lhn s)" and ?d = "ldev s" and ?st = "lstart s" and ?bl = "lhblock s"
  let ?a = "cabs ?d s" and ?v = "\<lambda>i. bview (ldev s) s (lhblock s i)" and ?f = "log_blk (lstart s)"
  have io0: "io s [] ?a s"
    using R(1,2) by (simp add: io_def log_frame_refl)
  have idle: "a_idle ?a"
    using R(8,9) by (simp add: a_idle_def)
  have area_ref: "arefs ?a b = 0" if "b \<in> log_area ?st" for b
    using R(7,9) that by auto
  have lblk: "?f i \<in> log_area ?st" "?f i \<noteq> ?st" if "i < ?n" for i
    using log_blk_area [OF R(5)] that R(4) by (meson less_le_trans)+
  obtain s1 where s1: "write_log s = Ret () s1"
      "io s (map (\<lambda>i. (?f i, ?v i)) [0..<?n]) (a_copied ?f ?v ?n ?a) s1"
  proof -
    have "ok (write_log s) (\<lambda>_. io s ([] @ map (\<lambda>i. (?f i, ?v i)) [0..<?n]) (a_copied ?f ?v ?n ?a))"
      using R(4,5,7,9,10) lblk area_ref by (intro write_log_ok [OF io0 idle]) auto
    then show thesis
      using that by (auto simp: ok_iff)
  qed
  let ?a1 = "a_copied ?f ?v ?n ?a" and ?W1 = "map (\<lambda>i. (?f i, ?v i)) [0..<?n]"
  have clean: "bview ?d s ?st = disk s ?st"
    using clean_view [OF R(2), of ?st] R(9) area_ref [of ?st] by auto
  let ?h = "head_block (lhn s) ?bl (disk s ?st)"
  have st1: "aview ?a1 ?st = disk s ?st"
    using lblk(2) clean by (simp add: upd_all_out)
  have idle1: "a_idle ?a1" "arefs ?a1 ?st = 0" "0 < afree ?a1"
    using idle area_ref [of ?st] R(10) by simp_all
  obtain s2 where s2: "write_head s1 = Ret () s2" "io s (?W1 @ [(?st, ?h)]) (a_put ?st ?h ?a1) s2"
    using write_head_ok [OF s1(2) idle1, of ?h] st1 by (auto simp: ok_iff)
  let ?a2 = "a_put ?st ?h ?a1"
  have inj: "inj_on ?f {0..<?n}"
    by (rule log_blk_inj [OF R(5,4)])
  have "ok (install_trans False s2) (\<lambda>_. io s ((?W1 @ [(?st, ?h)]) @ map (\<lambda>i. (?bl i, ?v i)) [0..<?n])
      (a_installed False ?bl ?v ?n ?a2))"
  proof (rule install_trans_ok [OF s2(2) _ _ R(4,5)])
    show "a_idle ?a2" "?n = nat (lhn s2)"
      using idle1(1) log_frameD(6) [OF ioD(1) [OF s2(2)]] by (simp_all add: a_idle_def a_put_def)
    show "?bl i \<notin> log_area ?st" if "i < ?n" for i
      using R(7) that by blast
    show "arefs ?a2 (?f i) = 0 \<and> aview ?a2 (?f i) = ?v i \<and> adisk ?a2 (?f i) = ?v i" if "i < ?n" for i
      using lblk [OF that] area_ref inj that by (simp add: a_put_def upd_all_in)
    show "if False then (\<forall>b. arefs ?a2 b = 0) \<and> 1 < afree ?a2
      else inj_on ?bl {0..<?n} \<and> (\<forall>i < ?n. arefs ?a2 (?bl i) = 1) \<and> 0 < afree ?a2"
      using R(6,9,10) by (simp add: a_put_def)
  qed
  then obtain s3 where s3: "install_trans False s2 = Ret () s3"
      "io s ((?W1 @ [(?st, ?h)]) @ map (\<lambda>i. (?bl i, ?v i)) [0..<?n]) (a_installed False ?bl ?v ?n ?a2) s3"
    by (auto simp: ok_iff)
  let ?a3 = "a_installed False ?bl ?v ?n ?a2"
  have out: "?bl i \<noteq> ?st" if "i < ?n" for i
    using R(7) [OF that] by auto
  have a3: "a_idle ?a3" "arefs ?a3 b = 0" "0 < afree ?a3" "aview ?a3 ?st = ?h" for b
    using idle R(9,10) out
    by (auto simp: a_installed_def a_put_def a_idle_def upd_all_out)
  note io3 = io_lhn [OF s3(2), of 0]
  let ?h' = "head_block 0 ?bl ?h"
  have "ok (write_head (s3\<lparr>lhn := 0\<rparr>)) (\<lambda>_. io (s\<lparr>lhn := 0\<rparr>)
      (((?W1 @ [(?st, ?h)]) @ map (\<lambda>i. (?bl i, ?v i)) [0..<?n]) @ [(?st, ?h')]) (a_put ?st ?h' ?a3))"
    using write_head_ok [OF io3 a3(1), of ?h'] a3 by simp
  then obtain s4 where s4: "write_head (s3\<lparr>lhn := 0\<rparr>) = Ret () s4"
      "io (s\<lparr>lhn := 0\<rparr>) (((?W1 @ [(?st, ?h)]) @ map (\<lambda>i. (?bl i, ?v i)) [0..<?n]) @ [(?st, ?h')]) (a_put ?st ?h' ?a3) s4"
    by (auto simp: ok_iff)
  note io4 = ioD [OF s4(2)] and fr4 = log_frameD [OF ioD(1) [OF s4(2)]]
  have "dwrites s4 = dwrites s @ commit_writes s"
    using io4(4) by (simp add: commit_writes_def Let_def)
  moreover have "brefs ?d (bufs s4) b = 0" for b
    using arg_cong [OF io4(3), of "\<lambda>a. arefs a b"] a3(2) [of b] by (simp add: a_put_def)
  moreover have "bview ?d s4 b = bview ?d s b \<and> disk s4 b = bview ?d s b" if b: "b \<notin> log_area ?st" for b
  proof -
    have "b \<noteq> ?st" and nf: "?f i \<noteq> b" if "i < ?n" for i
      using b lblk(1) that by auto
    have "b \<noteq> ?st"
      using b by auto
    then have v: "bview ?d s4 b = upd_all ?bl ?v ?n ((upd_all ?f ?v ?n (bview ?d s))(?st := ?h)) b"
      using arg_cong [OF io4(3), of "\<lambda>a. aview a b"] by (simp add: a_put_def cabs_def)
    have k: "disk s4 b = upd_all ?bl ?v ?n ((upd_all ?f ?v ?n (disk s))(?st := ?h)) b"
      using arg_cong [OF io4(3), of "\<lambda>a. adisk a b"] \<open>b \<noteq> ?st\<close> by (simp add: a_put_def cabs_def)
    show ?thesis
    proof (cases "b \<in> ?bl ` {0..<?n}")
      case True
      then obtain i where i: "i < ?n" "b = ?bl i"
        by auto
      have "upd_all ?bl ?v ?n m b = ?v i" for m
        unfolding i(2) by (rule upd_all_in [OF R(6) i(1)])
      then show ?thesis
        unfolding v k by (simp add: i(2))
    next
      case False
      then have nb: "?bl i \<noteq> b" if "i < ?n" for i
        using that by auto
      have "brefs ?d (bufs s) b = 0"
        using R(9) False by simp
      then have "bview ?d s b = disk s b"
        by (rule clean_view [OF R(2)])
      then show ?thesis
        unfolding v k using nf nb \<open>b \<noteq> ?st\<close> by (simp add: upd_all_out)
    qed
  qed
  ultimately show ?thesis
    using pos s1(1) s2(1) s3(1) s4(1) io4(2) fr4 by (simp add: commit_def)
qed

subsection \<open>Recovery\<close>

text \<open>The state in which \<^verbatim>\<open>initlog\<close> runs: the cache is fresh, with at least two buffers.\<close>

definition booted :: "'a logst_scheme \<Rightarrow> bool" where
  "booted s \<longleftrightarrow> quiet s \<and> cache_inv (ldev s) s \<and> log_fits (lstart s) \<and> 1 < nfree (bufs s) \<and>
     (\<forall>b. \<not> blocked (ldev s) (bufs s) b \<and> brefs (ldev s) (bufs s) b = 0)"

text \<open>What the on-disk header says.\<close>

definition head_n :: "block \<Rightarrow> nat" where
  "head_n x = nat (sint (get32 x 0))"

definition head_bl :: "block \<Rightarrow> nat \<Rightarrow> uint32" where
  "head_bl x i = get32 x (4 + 4 * i)"

definition recover_writes :: "uint32 \<Rightarrow> (uint32 \<Rightarrow> block) \<Rightarrow> (uint32 \<times> block) list" where
  "recover_writes st dk =
     map (\<lambda>i. (head_bl (dk st) i, dk (log_blk st i))) [0..<head_n (dk st)] @ [(st, put32 0 0 (dk st))]"

lemma read_loop:
  fixes s :: "'a logst_scheme"
  assumes "n \<le> LOGBLOCKS"
  shows "for_each [0..<n] (\<lambda>i s. if i < LOGBLOCKS then Ret () (s\<lparr>lhblock := (lhblock s)(i := g i)\<rparr>)
      else Panic ''out of bounds'') s = Ret () (s\<lparr>lhblock := \<lambda>i. if i < n then g i else lhblock s i\<rparr>)"
proof -
  let ?I = "\<lambda>t s'. s' = s\<lparr>lhblock := \<lambda>i. if i < t then g i else lhblock s i\<rparr>"
  have "ok (for_each [0..<n] (\<lambda>i s. if i < LOGBLOCKS then Ret () (s\<lparr>lhblock := (lhblock s)(i := g i)\<rparr>)
      else Panic ''out of bounds'') s) (\<lambda>_. ?I n)"
  proof (rule ok_for_upt [of ?I])
    fix t s'
    assume t: "t < n" and s': "?I t s'"
    have "(\<lambda>i. if i < t then g i else lhblock s i)(t := g t) = (\<lambda>i. if i < Suc t then g i else lhblock s i)"
      by (auto simp: less_Suc_eq)
    then show "ok (if t < LOGBLOCKS then Ret () (s'\<lparr>lhblock := (lhblock s')(t := g t)\<rparr>)
        else Panic ''out of bounds'') (\<lambda>_. ?I (Suc t))"
      using s' t assms by simp
  qed simp
  then show ?thesis
    by (simp add: ok_iff)
qed

lemma read_head_ok:
  assumes boot: "booted s" and n: "head_n (disk s (lstart s)) \<le> LOGBLOCKS"
  shows "ok (read_head s) (\<lambda>_ s'. \<exists>s0. s0 = s\<lparr>lhn := sint (get32 (disk s (lstart s)) 0),
      lhblock := \<lambda>i. if i < head_n (disk s (lstart s)) then head_bl (disk s (lstart s)) i else lhblock s i\<rparr> \<and>
    io s0 [] (cabs (ldev s) s) s')"
proof -
  let ?d = "ldev s" and ?x = "lstart s" and ?h = "disk s (lstart s)" and ?a = "cabs (ldev s) s"
  have B: "quiet s" "cache_inv ?d s" "\<not> alock ?a b" "arefs ?a b = 0" "0 < afree ?a" for b
    using boot by (auto simp: booted_def)
  have io: "io s [] ?a s"
    using B(1,2) by (simp add: io_def log_frame_refl)
  have "ok (bread ?d ?x s) (\<lambda>i s'. io s [] (a_read ?x ?a) s' \<and> hold ?d s' ?x i \<and> (\<forall>b' i'. hold ?d s b' i' \<longrightarrow> hold ?d s' b' i'))"
    using B(3) [of ?x] B(4) [of ?x] B(5) by (intro io_bread [OF io]) auto
  then obtain i1 s1 where 1: "bread ?d ?x s = Ret i1 s1" "io s [] (a_read ?x ?a) s1" "hold ?d s1 ?x i1"
    by (auto simp: ok_iff)
  have v: "bdata (bufs s1 i1) = ?h"
    using io_data [OF 1(2,3)] clean_view [OF B(2), of ?x] B(4) [of ?x] by (simp add: a_read_def)
  let ?g = "\<lambda>i. if i < head_n ?h then head_bl ?h i else lhblock s i"
  let ?s0 = "s\<lparr>lhn := sint (get32 ?h 0), lhblock := ?g\<rparr>"
  let ?s2 = "s1\<lparr>lhn := sint (get32 ?h 0), lhblock := ?g\<rparr>"
  have "io ?s0 [] (a_read ?x ?a) ?s2"
    using 1(2) cabs_cong [of ?s2 s1 ?d] by (simp add: io_def log_frame_def quiet_def)
  moreover have "hold ?d ?s2 ?x i1"
    using 1(3) by (simp add: hold_def)
  ultimately have "ok (brelse i1 ?s2) (\<lambda>_ s'. io ?s0 [] (a_relse ?x (a_read ?x ?a)) s' \<and>
      (\<forall>b' i'. b' \<noteq> ?x \<longrightarrow> hold (ldev ?s0) ?s2 b' i' \<longrightarrow> hold (ldev ?s0) s' b' i'))"
    using clean_view [OF B(2), of ?x] B(4) [of ?x] by (intro io_brelse) (simp_all add: a_read_def)
  then obtain s3 where 3: "brelse i1 ?s2 = Ret () s3" "io ?s0 [] ?a s3"
    unfolding a_putback_eq(2) [OF B(4,3,5)] by (auto simp: ok_iff)
  have "for_each [0..<head_n ?h] (\<lambda>i s. if i < LOGBLOCKS then Ret () (s\<lparr>lhblock := (lhblock s)(i := get32 ?h (4 + 4 * i))\<rparr>)
      else Panic ''out of bounds'') (s1\<lparr>lhn := sint (get32 ?h 0)\<rparr>) = Ret () ?s2"
    using read_loop [OF n, of "\<lambda>i. get32 ?h (4 + 4 * i)" "s1\<lparr>lhn := sint (get32 ?h 0)\<rparr>"] log_frameD(7) [OF ioD(1) [OF 1(2)]]
    by (simp add: head_bl_def del: LOGBLOCKS_def cong: if_cong)
  then show ?thesis
    using 1(1) 3 by (simp add: read_head_def v head_n_def del: LOGBLOCKS_def)
qed

lemma recover_ok:
  assumes boot: "booted s" and n: "head_n (disk s (lstart s)) \<le> LOGBLOCKS"
    and out: "\<And>i. i < head_n (disk s (lstart s)) \<Longrightarrow> head_bl (disk s (lstart s)) i \<notin> log_area (lstart s)"
  shows "ok (recover_from_log s) (\<lambda>_ s'. dwrites s' = dwrites s @ recover_writes (lstart s) (disk s) \<and>
    disk s' = (upd_all (head_bl (disk s (lstart s))) (\<lambda>i. disk s (log_blk (lstart s) i)) (head_n (disk s (lstart s)))
      (disk s))(lstart s := put32 0 0 (disk s (lstart s))) \<and>
    bview (ldev s) s' = disk s' \<and> booted s' \<and> lhn s' = 0 \<and> lstart s' = lstart s \<and> ldev s' = ldev s)"
proof -
  let ?d = "ldev s" and ?st = "lstart s" and ?h = "disk s (lstart s)" and ?a = "cabs (ldev s) s"
  let ?n = "head_n ?h" and ?g = "\<lambda>i. if i < head_n ?h then head_bl ?h i else lhblock s i"
  let ?v = "\<lambda>i. disk s (log_blk ?st i)"
  let ?s0 = "s\<lparr>lhn := sint (get32 ?h 0), lhblock := ?g\<rparr>"
  have B: "quiet s" "cache_inv ?d s" "\<not> alock ?a b" "arefs ?a b = 0" "1 < afree ?a" "log_fits ?st" for b
    using boot by (auto simp: booted_def)
  have view: "bview ?d s b = disk s b" for b
    using clean_view [OF B(2)] B(4) by simp
  obtain s1 where 1: "read_head s = Ret () s1" "io ?s0 [] ?a s1"
    using read_head_ok [OF boot n] by (auto simp: ok_iff)
  have n1: "?n = nat (lhn s1)"
    using log_frameD(6) [OF ioD(1) [OF 1(2)]] by (simp add: head_n_def)
  have "ok (install_trans True s1) (\<lambda>_. io ?s0 ([] @ map (\<lambda>i. (lhblock ?s0 i, ?v i)) [0..<?n])
      (a_installed True (lhblock ?s0) ?v ?n ?a))"
    using B(3-6) view n1 out n by (intro install_trans_ok [OF 1(2)]) (simp_all add: a_idle_def del: LOGBLOCKS_def)
  moreover have "map (\<lambda>i. (?g i, ?v i)) [0..<?n] = map (\<lambda>i. (head_bl ?h i, ?v i)) [0..<?n]"
    by simp
  moreover have "a_installed True ?g ?v ?n ?a = a_copied (head_bl ?h) ?v ?n ?a"
  proof -
    have "upd_all ?g ?v m M = upd_all (head_bl ?h) ?v m M" if "m \<le> ?n" for m and M :: "uint32 \<Rightarrow> block"
      using that by (induction m) (simp_all add: upd_all_Suc)
    then show ?thesis
      by (simp add: a_installed_def a_copied_def)
  qed
  ultimately obtain s2 where 2: "install_trans True s1 = Ret () s2"
      "io ?s0 (map (\<lambda>i. (head_bl ?h i, ?v i)) [0..<?n]) (a_copied (head_bl ?h) ?v ?n ?a) s2"
    by (auto simp: ok_iff)
  let ?a2 = "a_copied (head_bl ?h) ?v ?n ?a"
  have ne: "head_bl ?h i \<noteq> ?st" if "i < ?n" for i
    using out [OF that] by auto
  have a2: "a_idle ?a2" "arefs ?a2 ?st = 0" "0 < afree ?a2" "aview ?a2 ?st = ?h"
    using B(3-5) ne by (simp_all add: a_idle_def upd_all_out view)
  have hb: "head_block 0 ?g ?h = put32 0 0 ?h"
    by (simp add: head_block_def)
  have "ok (write_head (s2\<lparr>lhn := 0\<rparr>)) (\<lambda>_. io (?s0\<lparr>lhn := 0\<rparr>)
      (map (\<lambda>i. (head_bl ?h i, ?v i)) [0..<?n] @ [(?st, put32 0 0 ?h)]) (a_put ?st (put32 0 0 ?h) ?a2))"
    using write_head_ok [OF io_lhn [OF 2(2), of 0] a2(1), of "put32 0 0 ?h"] a2 hb by simp
  then obtain s3 where 3: "write_head (s2\<lparr>lhn := 0\<rparr>) = Ret () s3"
      "io (?s0\<lparr>lhn := 0\<rparr>) (recover_writes ?st (disk s)) (a_put ?st (put32 0 0 ?h) ?a2) s3"
    by (auto simp: ok_iff recover_writes_def)
  note io3 = ioD [OF 3(2)] and fr3 = log_frameD [OF ioD(1) [OF 3(2)]]
  have sel: "bview ?d s3 = (upd_all (head_bl ?h) ?v ?n (bview ?d s))(?st := put32 0 0 ?h)"
      "disk s3 = (upd_all (head_bl ?h) ?v ?n (disk s))(?st := put32 0 0 ?h)"
      "brefs ?d (bufs s3) = brefs ?d (bufs s)" "blocked ?d (bufs s3) = blocked ?d (bufs s)"
      "nfree (bufs s3) = nfree (bufs s)"
    using io3(3) by (simp_all add: cabs_def a_put_def a_copied_def)
  have "bview ?d s = disk s"
    using view by auto
  then have "bview ?d s3 = disk s3"
    by (simp add: sel(1,2))
  moreover have "booted s3"
    using boot io3(2) fr3 sel(3-5) by (simp add: booted_def)
  ultimately show ?thesis
    using 1(1) 2(1) 3(1) io3(4) fr3 sel(2) by (simp add: recover_from_log_def)
qed

subsection \<open>Crash safety\<close>

definition apply_writes :: "(uint32 \<times> block) list \<Rightarrow> (uint32 \<Rightarrow> block) \<Rightarrow> uint32 \<Rightarrow> block" where
  "apply_writes W dk = fold (\<lambda>(b, x) dk. dk(b := x)) W dk"

lemma apply_writes_simps [simp]:
  "apply_writes [] dk = dk" "apply_writes (w # W) dk = apply_writes W (dk(fst w := snd w))"
  "apply_writes (W @ W') dk = apply_writes W' (apply_writes W dk)"
  by (simp_all add: apply_writes_def split_beta)

lemma apply_writes_map: "apply_writes (map (\<lambda>i. (f i, g i)) [0..<n]) dk = upd_all f g n dk"
  by (induction n) (simp_all add: upd_all_Suc)

lemma take_map_upt: "take k (map f [0..<n]) = map f [0..<min k n]"
  by (cases "k \<le> n") (simp_all add: take_map min_def)

text \<open>
  The disk recovery starts from, after \<open>t\<close> of the \<open>n\<close> home writes: the header of a committed
  transaction, its blocks in the log.
\<close>

definition recovered :: "uint32 \<Rightarrow> (uint32 \<Rightarrow> block) \<Rightarrow> uint32 \<Rightarrow> block" where
  "recovered st dk = upd_all (head_bl (dk st)) (\<lambda>i. dk (log_blk st i)) (head_n (dk st)) dk"

lemma recovered_empty: "get32 (dk st) 0 = 0 \<Longrightarrow> recovered st dk = dk"
  by (simp add: recovered_def head_n_def)

lemma head_block_n:
  assumes "n \<le> LOGBLOCKS"
  shows "head_n (head_block (int n) bl x) = n" "i < n \<Longrightarrow> head_bl (head_block (int n) bl x) i = bl i"
proof -
  have "sint (of_nat n :: uint32) = int n"
    using assms by (simp add: signed_of_nat signed_take_bit_int_eq_self)
  then show "head_n (head_block (int n) bl x) = n"
    by (simp add: head_n_def head_block_read [OF assms])
  show "head_bl (head_block (int n) bl x) i = bl i" if "i < n"
    using head_block_read(2) [OF assms that] by (simp add: head_bl_def)
qed

lemma upd_all_cong: "(\<And>i. i < n \<Longrightarrow> f i = f' i) \<Longrightarrow> (\<And>i. i < n \<Longrightarrow> g i = g' i) \<Longrightarrow> upd_all f g n m = upd_all f' g' n m"
  by (induction n) (auto simp: upd_all_Suc)

lemma upd_all_dep: "b \<in> f ` {0..<n} \<Longrightarrow> upd_all f g n m b = upd_all f g n m' b"
  by (induction n) (auto simp: upd_all_Suc atLeast0_lessThan_Suc)

lemma upd_all_absorb:
  assumes "t \<le> n"
  shows "upd_all f g n (upd_all f g t m) = upd_all f g n m"
proof
  fix b
  show "upd_all f g n (upd_all f g t m) b = upd_all f g n m b"
  proof (cases "b \<in> f ` {0..<n}")
    case False
    have ne: "f i \<noteq> b" if "i < n" for i
      using that False by auto
    have "f i \<noteq> b" if "i < t" for i
      using that assms by (intro ne) simp
    then show ?thesis
      using ne by (simp add: upd_all_out)
  qed (rule upd_all_dep)
qed

text \<open>Recovery from every prefix of the writes of \<^verbatim>\<open>commit\<close>, on the level of disks.\<close>

lemma crash_disk:
  assumes ready: "log_ready s" and b: "b \<notin> log_area (lstart s)"
    and dk: "dk = apply_writes (take k (commit_writes s)) (disk s)"
  shows "recovered (lstart s) dk b = (if k \<le> nat (lhn s) then disk s b else bview (ldev s) s b)"
    "head_n (dk (lstart s)) \<le> LOGBLOCKS"
    "i < head_n (dk (lstart s)) \<Longrightarrow> head_bl (dk (lstart s)) i \<notin> log_area (lstart s)"
proof -
  note R = log_readyD [OF ready]
  let ?n = "nat (lhn s)" and ?d = "ldev s" and ?st = "lstart s" and ?bl = "lhblock s" and ?f = "log_blk (lstart s)"
  let ?v = "\<lambda>i. bview (ldev s) s (lhblock s i)" and ?h = "head_block (int (nat (lhn s))) (lhblock s) (disk s (lstart s))"
  let ?h' = "head_block 0 ?bl ?h" and ?L = "upd_all ?f ?v ?n (disk s)"
  have lblk: "?f i \<in> log_area ?st" "?f i \<noteq> ?st" if "i < ?n" for i
    using log_blk_area [OF R(5)] that R(4) by (meson less_le_trans)+
  have home: "?bl i \<noteq> ?st" if "i < ?n" for i
    using R(7) [OF that] by auto
  have home_log: "?bl i \<noteq> ?f j" if "i < ?n" "j < ?n" for i j
    using R(7) [OF that(1)] lblk(1) [OF that(2)] by metis
  have nb: "b \<noteq> ?st" "?f i \<noteq> b" if "i < ?n" for i
    using b lblk(1) that by auto
  have bst: "b \<noteq> ?st"
    using b by auto
  have W: "commit_writes s = map (\<lambda>i. (?f i, ?v i)) [0..<?n] @ (?st, ?h) # map (\<lambda>i. (?bl i, ?v i)) [0..<?n] @ [(?st, ?h')]"
    using R(3) by (simp add: commit_writes_def Let_def)
  have view: "upd_all ?bl ?v ?n ((upd_all ?f ?v m (disk s))(?st := x)) b = bview ?d s b" if "m \<le> ?n" for m x
  proof (cases "b \<in> ?bl ` {0..<?n}")
    case True
    then obtain i where "i < ?n" "b = ?bl i"
      by auto
    then show ?thesis
      using upd_all_in [OF R(6)] by simp
  next
    case False
    then have "bview ?d s b = disk s b"
      using clean_view [OF R(2), of b] R(9) [of b] by simp
    moreover have "?bl i \<noteq> b" if "i < ?n" for i
      using that False by auto
    moreover have "?f i \<noteq> b" if "i < m" for i
      using nb(2) that \<open>m \<le> ?n\<close> by simp
    ultimately show ?thesis
      using bst by (simp add: upd_all_out)
  qed
  consider (log) "k \<le> ?n" | (inst) t where "k = ?n + 1 + t" "t \<le> ?n" | (fin) "k \<ge> 2 * ?n + 2"
  proof (cases "k \<le> ?n")
    case False
    then show thesis
      using that(2) [of "k - ?n - 1"] that(3) by (cases "k - ?n - 1 \<le> ?n") auto
  qed
  then have "recovered ?st dk b = (if k \<le> ?n then disk s b else bview ?d s b) \<and> head_n (dk ?st) \<le> LOGBLOCKS \<and>
    (\<forall>i < head_n (dk ?st). head_bl (dk ?st) i \<notin> log_area ?st)"
  proof cases
    case log
    then have d: "dk = upd_all ?f ?v k (disk s)"
      by (simp add: dk W take_map_upt apply_writes_map min_absorb1)
    have st: "dk ?st = disk s ?st"
      unfolding d using lblk(2) log by (intro upd_all_out) simp
    then have "head_n (dk ?st) = 0"
      using R(11) by (simp add: head_n_def)
    moreover have "dk b = disk s b"
      unfolding d using nb(2) log by (intro upd_all_out) simp
    ultimately show ?thesis
      using log R(11) st by (simp add: recovered_empty)
  next
    case inst
    have d: "dk = upd_all ?bl ?v t (?L(?st := ?h))"
      using inst by (simp add: dk W take_map_upt apply_writes_map min_absorb1)
    have st: "dk ?st = ?h"
      unfolding d using inst(2) home by (subst upd_all_out) auto
    have hn: "head_n ?h = ?n" "\<And>i. i < ?n \<Longrightarrow> head_bl ?h i = ?bl i"
      by (rule head_block_n [OF R(4)])+
    have lg: "dk (?f i) = ?v i" if "i < ?n" for i
    proof -
      have "dk (?f i) = (?L(?st := ?h)) (?f i)"
        unfolding d using home_log inst(2) that by (intro upd_all_out) auto
      also have "\<dots> = ?v i"
        using lblk(2) [OF that] upd_all_in [OF log_blk_inj [OF R(5,4)] that] by simp
      finally show ?thesis .
    qed
    have "recovered ?st dk = upd_all ?bl ?v ?n dk"
      unfolding recovered_def st hn(1) by (rule upd_all_cong) (rule hn(2), assumption, rule lg, assumption)
    also have "\<dots> = upd_all ?bl ?v ?n (?L(?st := ?h))"
      unfolding d by (rule upd_all_absorb [OF inst(2)])
    finally have "recovered ?st dk b = bview ?d s b"
      using view by simp
    then show ?thesis
      using inst hn st R(4,7) by simp
  next
    case fin
    have d: "dk = (upd_all ?bl ?v ?n (?L(?st := ?h)))(?st := ?h')"
      using fin by (simp add: dk W apply_writes_map)
    have st: "get32 (dk ?st) 0 = 0"
      using head_block_read(1) [of 0 ?bl ?h] by (simp add: d)
    then have "recovered ?st dk b = dk b" "head_n (dk ?st) = 0"
      by (simp_all add: recovered_empty head_n_def)
    then show ?thesis
      using fin view [of ?n ?h] bst by (simp add: d)
  qed
  then show "recovered ?st dk b = (if k \<le> ?n then disk s b else bview ?d s b)" "head_n (dk ?st) \<le> LOGBLOCKS"
    "i < head_n (dk ?st) \<Longrightarrow> head_bl (dk ?st) i \<notin> log_area ?st"
    by blast+
qed

lemma crash_disk_recovery:
  assumes out: "\<forall>i < head_n (dk st). head_bl (dk st) i \<notin> log_area st"
    and n: "head_n (dk st) \<le> LOGBLOCKS" and st: "log_fits st" and b: "b \<notin> log_area st"
    and dk': "dk' = apply_writes (take k (recover_writes st dk)) dk"
  shows "recovered st dk' b = recovered st dk b" "head_n (dk' st) \<le> LOGBLOCKS"
    "i < head_n (dk' st) \<Longrightarrow> head_bl (dk' st) i \<notin> log_area st"
proof -
  let ?n = "head_n (dk st)" and ?bl = "head_bl (dk st)" and ?v = "\<lambda>i. dk (log_blk st i)"
  have ne: "?bl i \<noteq> st" "?bl i \<noteq> log_blk st j" if "i < ?n" "j < ?n" for i j
    using out that(1) log_blk_area(1) [OF st, of j] that(2) n by auto
  have "recovered st dk' b = recovered st dk b \<and> head_n (dk' st) \<le> LOGBLOCKS \<and>
    (\<forall>i < head_n (dk' st). head_bl (dk' st) i \<notin> log_area st)"
  proof (cases "k \<le> ?n")
    case True
    then have d: "dk' = upd_all ?bl ?v k dk"
      by (simp add: dk' recover_writes_def take_map_upt apply_writes_map min_absorb1)
    have s: "dk' st = dk st"
      unfolding d using ne True by (intro upd_all_out) (metis less_le_trans)
    have l: "dk' (log_blk st i) = ?v i" if "i < ?n" for i
      unfolding d using ne that True by (intro upd_all_out) (metis less_le_trans)
    have "recovered st dk' = upd_all ?bl ?v ?n dk'"
      unfolding recovered_def s by (rule upd_all_cong) (simp_all add: l)
    then show ?thesis
      unfolding recovered_def d upd_all_absorb [OF True] using n out s d by simp
  next
    case False
    then have d: "dk' = (upd_all ?bl ?v ?n dk)(st := put32 0 0 (dk st))"
      by (simp add: dk' recover_writes_def apply_writes_map)
    have "b \<noteq> st"
      using b by auto
    moreover have "head_n (dk' st) = 0" "recovered st dk' = dk'"
      unfolding d by (simp_all add: head_n_def recovered_empty)
    ultimately show ?thesis
      by (simp add: d recovered_def)
  qed
  then show "recovered st dk' b = recovered st dk b" "head_n (dk' st) \<le> LOGBLOCKS"
    "i < head_n (dk' st) \<Longrightarrow> head_bl (dk' st) i \<notin> log_area st"
    by blast+
qed

text \<open>A freshly booted system, and one with a transaction of one block.\<close>

definition boot_log :: logst where
  "boot_log = bcache.extend boot_cache (logst.fields 256 0 False 1 0 (\<lambda>_. 0))"

definition tx_log :: logst where
  "tx_log = boot_log\<lparr>lhn := 1, lhblock := \<lambda>_. 7, bufs := (bufs boot_cache)(0 := (bufs boot_cache 0)\<lparr>
     bvalid := True, bdev := 1, bblockno := 7, brefcnt := 1, bdata := \<lambda>_. 99\<rparr>)\<rparr>"

lemma boot_log_sel:
  "bufs boot_log = bufs boot_cache" "disk boot_log = (\<lambda>b i. ucast b)" "held boot_log = {}" "myproc boot_log = Some 0"
  "lstart boot_log = 256" "ldev boot_log = 1" "dwrites boot_log = []"
  by (simp_all add: boot_log_def bcache.defs logst.defs boot_cache_sel)

lemma tx_log_sel:
  "bufs tx_log = (bufs boot_cache)(0 := (bufs boot_cache 0)\<lparr>bvalid := True, bdev := 1, bblockno := 7, brefcnt := 1, bdata := \<lambda>_. 99\<rparr>)"
  "disk tx_log = (\<lambda>b i. ucast b)" "held tx_log = {}" "myproc tx_log = Some 0"
  "lstart tx_log = 256" "ldev tx_log = 1" "lhn tx_log = 1" "lhblock tx_log = (\<lambda>_. 7)"
  by (simp_all add: tx_log_def boot_log_sel)

lemma tx_log_ready: "log_ready tx_log" "bview 1 tx_log 7 = (\<lambda>_. 99)"
proof -
  have slot: "slot 1 (bufs tx_log) b i \<longleftrightarrow> b = 7 \<and> i = 0" for b i
    by (auto simp: slot_def tx_log_sel boot_cache_sel(3))
  have "lru (bufs tx_log) (rev [0..<NBUF])"
    using boot_cache_sel(1) lru_cong [of "bufs tx_log" "bufs boot_cache"] by (simp add: tx_log_sel del: NBUF_def)
  then have inv: "cache_inv 1 tx_log"
    unfolding cache_inv_def using slot
    by (auto simp: tx_log_sel boot_cache_sel(2,3) boot_cache_sel(8) initsleeplock_def simp del: NBUF_def)
  have s7: "bslot 1 (bufs tx_log) b = (if b = 7 then Some 0 else None)" for b
  proof (cases "b = 7")
    case True
    then show ?thesis
      using cache_slot [OF inv, of b 0] slot by simp
  next
    case False
    then show ?thesis
      using bslot_None [of 1 "bufs tx_log" b] slot by simp
  qed
  show "bview 1 tx_log 7 = (\<lambda>_. 99)"
    unfolding bview_def s7 by (simp add: tx_log_sel)
  have "brefs 1 (bufs tx_log) b = (if b = 7 then 1 else 0)" for b
    unfolding brefs_def s7 by (simp add: tx_log_sel)
  moreover have "blocked 1 (bufs tx_log) b = False" for b
    unfolding blocked_def s7 by (simp add: tx_log_sel boot_cache_sel(8) initsleeplock_def)
  moreover have "0 < nfree (bufs tx_log)"
    by (rule nfree_pos [of 1]) (simp_all add: tx_log_sel boot_cache_sel(2))
  moreover have "(\<lambda>i. ucast (256 :: uint32)) = (\<lambda>_ :: 10 word. 0 :: uint8)"
    by (simp add: fun_eq_iff)
  ultimately show "log_ready tx_log"
    unfolding log_ready_def using inv
    by (simp add: tx_log_sel quiet_def log_fits_def log_area_def inj_on_def)
qed

lemma boot_log_booted:
  assumes "bufs r = bufs boot_cache" "held r = {}" "myproc r = Some 0" "lstart r = 256" "ldev r = 1"
  shows "booted r"
proof -
  have slot: "\<not> slot 1 (bufs r) b i" for b i
    by (auto simp: slot_def assms(1) boot_cache_sel(3))
  then have none: "bslot 1 (bufs boot_cache) b = None" for b
    by (simp add: bslot_None assms(1))
  have "cache_inv 1 r"
    using boot_cache_inv(1) assms(1) by (auto simp: cache_inv_def boot_cache_sel(3))
  moreover have "{0, 1} \<subseteq> {i. i < NBUF \<and> brefcnt (bufs r i) = 0}"
    by (simp add: assms(1) boot_cache_sel(2))
  then have "card {0, 1 :: nat} \<le> nfree (bufs r)"
    unfolding nfree_def by (intro card_mono) simp_all
  ultimately show ?thesis
    using assms by (simp add: booted_def quiet_def log_fits_def brefs_def blocked_def none)
qed

text \<open>
  C1: the log makes a transaction atomic. The disk writes of \<^verbatim>\<open>commit\<close> are a sequence \<open>W\<close>; if
  the machine crashes after any number \<open>k\<close> of them and boots again, recovery ends with the
  file system's blocks as they were before the transaction, when \<open>k\<close> does not reach the write
  of the header, and with all of the transaction's updates otherwise. A commit that is not
  interrupted installs every update in its home block.
\<close>

theorem commit_crash_safe:
  fixes s :: "'a logst_scheme"
  assumes "log_ready s" "0 < lhn s"
  shows "\<exists>s' W. commit s = Ret () s' \<and> dwrites s' = dwrites s @ W \<and>
    (\<forall>b. b \<notin> log_area (lstart s) \<longrightarrow> disk s' b = bview (ldev s) s b) \<and>
    (\<forall>k (r :: 'a logst_scheme). booted r \<and> lstart r = lstart s \<and> disk r = apply_writes (take k W) (disk s) \<longrightarrow>
      (\<exists>r'. recover_from_log r = Ret () r' \<and>
        (\<forall>b. b \<notin> log_area (lstart s) \<longrightarrow>
          disk r' b = (if k \<le> nat (lhn s) then disk s b else bview (ldev s) s b))))"
proof -
  obtain s' where s': "commit s = Ret () s'" "dwrites s' = dwrites s @ commit_writes s"
      "\<forall>b. b \<notin> log_area (lstart s) \<longrightarrow> disk s' b = bview (ldev s) s b"
    using commit_ok [OF assms] by (auto simp: ok_iff)
  have "\<exists>r'. recover_from_log r = Ret () r' \<and> (\<forall>b. b \<notin> log_area (lstart s) \<longrightarrow>
      disk r' b = (if k \<le> nat (lhn s) then disk s b else bview (ldev s) s b))"
    if r: "booted r" "lstart r = lstart s" "disk r = apply_writes (take k (commit_writes s)) (disk s)"
    for k and r :: "'a logst_scheme"
  proof -
    obtain z where z: "z \<notin> log_area (lstart s)"
      by (rule log_area_not_all)
    have dk: "disk r = apply_writes (take k (commit_writes s)) (disk s)"
      by (rule r(3))
    have n: "head_n (disk r (lstart r)) \<le> LOGBLOCKS"
      using crash_disk(2) [OF assms(1) z dk] r(2) by simp
    have o: "\<And>i. i < head_n (disk r (lstart r)) \<Longrightarrow> head_bl (disk r (lstart r)) i \<notin> log_area (lstart r)"
      using crash_disk(3) [OF assms(1) z dk] r(2) by simp
    obtain r' where r': "recover_from_log r = Ret () r'"
        "disk r' = (recovered (lstart s) (disk r))(lstart s := put32 0 0 (disk r (lstart s)))"
      using recover_ok [OF r(1) n o] r(2) by (auto simp: ok_iff recovered_def)
    have "disk r' b = (if k \<le> nat (lhn s) then disk s b else bview (ldev s) s b)" if "b \<notin> log_area (lstart s)" for b
    proof -
      have "b \<noteq> lstart s"
        using that by auto
      then show ?thesis
        unfolding r'(2) using crash_disk(1) [OF assms(1) that dk] by simp
    qed
    then show ?thesis
      using r'(1) by blast
  qed
  then show ?thesis
    using s' by blast
qed

theorem commit_crash_safe_witness:
  "\<exists>W. length W = 4 \<and> (\<exists>s'. commit tx_log = Ret () s' \<and> disk s' 7 = (\<lambda>_. 99) \<and> dwrites s' = W) \<and>
     (\<exists>r'. recover_from_log (boot_log\<lparr>disk := apply_writes (take 1 W) (disk tx_log)\<rparr>) = Ret () r' \<and> disk r' 7 = (\<lambda>_. 7)) \<and>
     (\<exists>r'. recover_from_log (boot_log\<lparr>disk := apply_writes (take 2 W) (disk tx_log)\<rparr>) = Ret () r' \<and> disk r' 7 = (\<lambda>_. 99))"
proof -
  have pos: "0 < lhn tx_log"
    by (simp add: tx_log_sel)
  from commit_crash_safe [OF tx_log_ready(1) pos]
  obtain s' W where s': "commit tx_log = Ret () s'" "dwrites s' = dwrites tx_log @ W"
      "\<forall>b. b \<notin> log_area (lstart tx_log) \<longrightarrow> disk s' b = bview (ldev tx_log) tx_log b"
    and rec: "\<And>k (r :: logst). booted r \<Longrightarrow> lstart r = lstart tx_log \<Longrightarrow> disk r = apply_writes (take k W) (disk tx_log) \<Longrightarrow>
      (\<exists>r'. recover_from_log r = Ret () r' \<and> (\<forall>b. b \<notin> log_area (lstart tx_log) \<longrightarrow>
        disk r' b = (if k \<le> nat (lhn tx_log) then disk tx_log b else bview (ldev tx_log) tx_log b)))"
    by blast
  have W: "W = commit_writes tx_log"
    using commit_ok [OF tx_log_ready(1) pos] s'(1,2) by (simp add: ok_iff)
  have dw: "dwrites tx_log = []"
    by (simp add: tx_log_def boot_log_sel)
  have len: "length W = 4"
    by (simp add: W commit_writes_def Let_def tx_log_sel)
  have area: "7 \<notin> log_area (lstart tx_log)"
    by (simp add: tx_log_sel log_area_def)
  have run: "\<exists>r'. recover_from_log (boot_log\<lparr>disk := apply_writes (take k W) (disk tx_log)\<rparr>) = Ret () r' \<and>
      disk r' 7 = (if k \<le> 1 then (\<lambda>_. 7) else (\<lambda>_. 99))" for k
    using rec [of "boot_log\<lparr>disk := apply_writes (take k W) (disk tx_log)\<rparr>" k] area tx_log_ready(2)
      boot_log_booted [of "boot_log\<lparr>disk := apply_writes (take k W) (disk tx_log)\<rparr>"]
    by (auto simp: boot_log_sel tx_log_sel split: if_splits)
  show ?thesis
    using s' len dw run [of 1] run [of 2] area tx_log_ready(2) by (intro exI [of _ W]) (auto simp: tx_log_sel)
qed

text \<open>
  C21: recovery can itself be interrupted. After any prefix of the writes of
  \<^verbatim>\<open>recover_from_log\<close>, running it again ends with the same file system blocks as an
  uninterrupted run.
\<close>

theorem recovery_idempotent:
  fixes s r :: "'a logst_scheme"
  assumes "booted s" "head_n (disk s (lstart s)) \<le> LOGBLOCKS"
    and "\<forall>i < head_n (disk s (lstart s)). head_bl (disk s (lstart s)) i \<notin> log_area (lstart s)"
    and "booted r" "lstart r = lstart s"
  shows "\<exists>s' W. recover_from_log s = Ret () s' \<and> dwrites s' = dwrites s @ W \<and>
    (disk r = apply_writes (take k W) (disk s) \<longrightarrow>
      (\<exists>r'. recover_from_log r = Ret () r' \<and> (\<forall>b. b \<notin> log_area (lstart s) \<longrightarrow> disk r' b = disk s' b)))"
proof -
  let ?st = "lstart s"
  obtain s' where s': "recover_from_log s = Ret () s'" "dwrites s' = dwrites s @ recover_writes ?st (disk s)"
      "disk s' = (recovered ?st (disk s))(?st := put32 0 0 (disk s ?st))"
    using recover_ok [OF assms(1,2)] assms(3) by (auto simp: ok_iff recovered_def)
  have fits: "log_fits ?st"
    using assms(1) by (simp add: booted_def)
  have "\<exists>r'. recover_from_log r = Ret () r' \<and> (\<forall>b. b \<notin> log_area ?st \<longrightarrow> disk r' b = disk s' b)"
    if dk: "disk r = apply_writes (take k (recover_writes ?st (disk s))) (disk s)"
  proof -
    note c = crash_disk_recovery [OF assms(3,2) fits _ dk]
    obtain z where z: "z \<notin> log_area ?st"
      by (rule log_area_not_all)
    obtain r' where "recover_from_log r = Ret () r'" "disk r' = (recovered ?st (disk r))(?st := put32 0 0 (disk r ?st))"
      using recover_ok [OF assms(4)] c(2,3) [OF z] assms(5) by (auto simp: ok_iff recovered_def)
    moreover have "disk r' b = disk s' b" if "b \<notin> log_area ?st" for b
    proof -
      have "b \<noteq> ?st"
        using that by auto
      then show ?thesis
        using calculation(2) s'(3) c(1) [OF that] by simp
    qed
    ultimately show ?thesis
      by blast
  qed
  then show ?thesis
    using s' by blast
qed

theorem recovery_idempotent_witness:
  "\<exists>s' W r'. recover_from_log boot_log = Ret () s' \<and> dwrites s' = W \<and>
     recover_from_log (boot_log\<lparr>disk := apply_writes (take 1 W) (disk boot_log)\<rparr>) = Ret () r' \<and> disk r' 7 = disk s' 7"
proof -
  have b: "booted boot_log"
    by (rule boot_log_booted) (simp_all add: boot_log_sel)
  have h: "disk boot_log (lstart boot_log) = (\<lambda>_. 0)"
    by (simp add: boot_log_sel fun_eq_iff)
  have n: "head_n (disk boot_log (lstart boot_log)) = 0"
    unfolding h by (simp add: head_n_def)
  obtain s' where s': "recover_from_log boot_log = Ret () s'"
    using recover_ok [OF b] n by (auto simp: ok_iff)
  let ?r = "boot_log\<lparr>disk := apply_writes (take 1 (dwrites s')) (disk boot_log)\<rparr>"
  have r: "booted ?r" "lstart ?r = lstart boot_log"
    by (rule boot_log_booted) (simp_all add: boot_log_sel)
  have "dwrites boot_log = []" "7 \<notin> log_area (lstart boot_log)"
    by (simp_all add: boot_log_sel log_area_def)
  then show ?thesis
    using recovery_idempotent [OF b _ _ r, of 1] n s' by auto
qed

subsection \<open>The log never overflows\<close>

text \<open>The fields of the log that count; no operation of the layers below changes them.\<close>

definition counts :: "'a logst_scheme \<Rightarrow> int \<times> int \<times> bool" where
  "counts s = (lhn s, outstanding s, committing s)"

lemma counts_upd [simp]:
  "counts (s\<lparr>held := h\<rparr>) = counts s" "counts (s\<lparr>procs := ps\<rparr>) = counts s"
  "counts (s\<lparr>bufs := B\<rparr>) = counts s" "counts (s\<lparr>disk := dk\<rparr>) = counts s"
  "counts (s\<lparr>dwrites := w\<rparr>) = counts s" "counts (upd_proc i f s) = counts s"
  "counts (upd_buf i g s) = counts s" "counts (s\<lparr>lhblock := bl\<rparr>) = counts s"
  by (simp_all add: counts_def upd_proc_def upd_buf_def)

named_theorems counts_ret

lemma more_counts: "bcache.more s' = bcache.more s \<Longrightarrow> counts s' = counts s"
  by (cases s; cases s') (simp add: counts_def)

lemmas bio_counts [counts_ret] = bio_more [THEN more_counts]

lemma for_each_counts:
  assumes "\<And>x s s'. f x s = Ret () s' \<Longrightarrow> counts s' = counts s"
  shows "for_each xs f s = Ret () s' \<Longrightarrow> counts s' = counts s"
  by (induction xs arbitrary: s) (auto simp: ret_iff dest!: assms)

lemma log_loop_counts [counts_ret]:
  "write_log s = Ret () s' \<Longrightarrow> counts s' = counts s"
  "install_trans r s = Ret () s' \<Longrightarrow> counts s' = counts s"
  "write_head s = Ret () s' \<Longrightarrow> counts s' = counts s"
proof -
  show "write_log s = Ret () s' \<Longrightarrow> counts s' = counts s"
    unfolding write_log_def
    by (erule for_each_counts [rotated]) (auto simp: write_log_one_def ret_iff Let_def dest!: counts_ret)
  show "install_trans r s = Ret () s' \<Longrightarrow> counts s' = counts s"
    unfolding install_trans_def
    by (erule for_each_counts [rotated]) (auto simp: install_one_def ret_iff Let_def dest!: counts_ret split: if_splits)
  show "write_head s = Ret () s' \<Longrightarrow> counts s' = counts s"
    by (auto simp: write_head_def ret_iff Let_def dest!: counts_ret)
qed

lemma commit_counts:
  assumes "commit s = Ret () s'"
  shows "counts s' = (min (lhn s) 0, outstanding s, committing s)"
  using assms by (auto simp: commit_def ret_iff counts_def dest!: log_loop_counts split: if_splits)

lemma begin_op_counts:
  assumes "begin_op s = Ret () s' \<or> begin_op_resume s = Ret () s'"
  shows "lhn s' = lhn s" "outstanding s' = outstanding s + 1" "\<not> committing s" "\<not> committing s'"
    "lhn s + (outstanding s + 1) * int MAXOPBLOCKS \<le> int LOGBLOCKS"
proof -
  have "lhn s' = lhn s \<and> outstanding s' = outstanding s + 1 \<and> \<not> committing s \<and> \<not> committing s' \<and>
      lhn s + (outstanding s + 1) * int MAXOPBLOCKS \<le> int LOGBLOCKS"
    using assms
    by (auto simp: begin_op_def begin_op_resume_def begin_op_loop_def sleep_resume_def with_myproc_def ret_iff counts_def upd_proc_def
        dest!: counts_ret split: if_splits option.splits)
  then show "lhn s' = lhn s" "outstanding s' = outstanding s + 1" "\<not> committing s" "\<not> committing s'"
    "lhn s + (outstanding s + 1) * int MAXOPBLOCKS \<le> int LOGBLOCKS"
    by blast+
qed

lemma end_op_counts:
  assumes "end_op s = Ret () s'"
  shows "outstanding s' = outstanding s - 1" "\<not> committing s'"
    "lhn s' = (if outstanding s = 1 then min (lhn s) 0 else lhn s)"
proof -
  have "outstanding s' = outstanding s - 1 \<and> \<not> committing s' \<and>
    lhn s' = (if outstanding s = 1 then min (lhn s) 0 else lhn s)"
    using assms
    by (auto simp: end_op_def ret_iff Let_def counts_def
        dest!: counts_ret commit_counts split: if_splits)
  then show "outstanding s' = outstanding s - 1" "\<not> committing s'"
    "lhn s' = (if outstanding s = 1 then min (lhn s) 0 else lhn s)"
    by blast+
qed

lemma log_write_counts:
  assumes "log_write i s = Ret () s'" "0 \<le> lhn s"
  shows "outstanding s' = outstanding s" "committing s' = committing s" "lhn s' = lhn s \<or> lhn s' = lhn s + 1"
proof -
  have "outstanding s' = outstanding s \<and> committing s' = committing s \<and> (lhn s' = lhn s \<or> lhn s' = lhn s + 1)"
    using assms
    by (auto simp: log_write_def ret_iff Let_def counts_def
        dest!: counts_ret split: if_splits)
  then show "outstanding s' = outstanding s" "committing s' = committing s" "lhn s' = lhn s \<or> lhn s' = lhn s + 1"
    by blast+
qed

text \<open>
  File-system operations running concurrently: \<open>bud op\<close> is how many more blocks operation \<open>op\<close>
  may log, \<^verbatim>\<open>MAXOPBLOCKS\<close> when it begins. Their calls interleave with each other and with
  anything that leaves the log alone.
\<close>

inductive log_step :: "'a logst_scheme \<Rightarrow> (nat \<rightharpoonup> nat) \<Rightarrow> 'a logst_scheme \<Rightarrow> (nat \<rightharpoonup> nat) \<Rightarrow> bool" where
  step_begin: "bud op = None \<Longrightarrow> begin_op s = Ret () s' \<or> begin_op_resume s = Ret () s' \<Longrightarrow>
    log_step s bud s' (bud(op \<mapsto> MAXOPBLOCKS))"
| step_write: "bud op = Some (Suc k) \<Longrightarrow> log_write i s = Ret () s' \<Longrightarrow>
    log_step s bud s' (bud(op \<mapsto> (if lhn s' = lhn s then Suc k else k)))"
| step_end: "bud op = Some k \<Longrightarrow> end_op s = Ret () s' \<Longrightarrow> log_step s bud s' (bud(op := None))"
| step_other: "counts s' = counts s \<Longrightarrow> log_step s bud s' bud"

inductive log_reach :: "'a logst_scheme \<Rightarrow> (nat \<rightharpoonup> nat) \<Rightarrow> bool" where
  reach_init: "counts s = (0, 0, False) \<Longrightarrow> log_reach s (\<lambda>_. None)"
| reach_step: "log_reach s bud \<Longrightarrow> log_step s bud s' bud' \<Longrightarrow> log_reach s' bud'"

definition reserved :: "(nat \<rightharpoonup> nat) \<Rightarrow> nat" where
  "reserved bud = (\<Sum>op \<in> dom bud. the (bud op))"

definition log_inv :: "'a logst_scheme \<Rightarrow> (nat \<rightharpoonup> nat) \<Rightarrow> bool" where
  "log_inv s bud \<longleftrightarrow> finite (dom bud) \<and> outstanding s = int (card (dom bud)) \<and> 0 \<le> lhn s \<and> \<not> committing s \<and>
     (\<forall>op k. bud op = Some k \<longrightarrow> k \<le> MAXOPBLOCKS) \<and> lhn s + int (reserved bud) \<le> int LOGBLOCKS"

lemma reserved_upd:
  assumes "finite (dom bud)"
  shows "reserved (bud(op \<mapsto> k)) = reserved (bud(op := None)) + k"
    "bud op = Some k' \<Longrightarrow> reserved bud = reserved (bud(op := None)) + k'"
proof -
  let ?D = "dom bud - {op}"
  have d: "dom (bud(op \<mapsto> k)) = insert op ?D" "dom (bud(op := None)) = ?D"
    by auto
  have same: "(\<Sum>x \<in> ?D. the ((bud(op \<mapsto> k)) x)) = (\<Sum>x \<in> ?D. the (bud x))"
    "(\<Sum>x \<in> ?D. the ((bud(op := None)) x)) = (\<Sum>x \<in> ?D. the (bud x))"
    by (rule sum.cong; auto)+
  show "reserved (bud(op \<mapsto> k)) = reserved (bud(op := None)) + k"
    unfolding reserved_def d using assms same sum.insert [of ?D op "\<lambda>x. the ((bud(op \<mapsto> k)) x)"]
    by (simp del: insert_Diff_single)
  show "reserved bud = reserved (bud(op := None)) + k'" if "bud op = Some k'"
  proof -
    have "dom bud = insert op ?D"
      using that by auto
    then have "reserved bud = the (bud op) + (\<Sum>x \<in> ?D. the (bud x))"
      unfolding reserved_def using assms sum.insert [of ?D op "\<lambda>x. the (bud x)"] by (metis Diff_iff finite_Diff insertI1)
    then show ?thesis
      unfolding reserved_def d using same that by simp
  qed
qed

lemma reserved_le:
  assumes "finite (dom bud)" "\<forall>op k. bud op = Some k \<longrightarrow> k \<le> m"
  shows "reserved bud \<le> card (dom bud) * m"
  unfolding reserved_def using assms(2) by (intro sum_bounded_above [of _ _ m, simplified]) auto

lemma log_step_inv:
  assumes "log_step s bud s' bud'" "log_inv s bud"
  shows "log_inv s' bud'"
  using assms
proof (cases rule: log_step.cases)
  case (step_begin op)
  note c = begin_op_counts [OF step_begin(3)]
  have I: "finite (dom bud)" "outstanding s = int (card (dom bud))" "0 \<le> lhn s"
      "\<forall>op k. bud op = Some k \<longrightarrow> k \<le> MAXOPBLOCKS"
    using assms(2) by (auto simp: log_inv_def)
  have fresh: "bud(op := None) = bud" "op \<notin> dom bud"
    using step_begin(2) by (auto simp: fun_upd_idem)
  have "lhn s + int (reserved bud + MAXOPBLOCKS) \<le> lhn s + (outstanding s + 1) * int MAXOPBLOCKS"
    using reserved_le [OF I(1,4)] I(2) by (simp add: algebra_simps)
  then have "lhn s' + int (reserved (bud(op \<mapsto> MAXOPBLOCKS))) \<le> int LOGBLOCKS"
    using c(1,5) reserved_upd(1) [OF I(1), of op MAXOPBLOCKS] fresh(1) by simp
  then show ?thesis
    using step_begin(1) c I fresh(2) by (auto simp: log_inv_def simp del: MAXOPBLOCKS_def LOGBLOCKS_def)
next
  case (step_write op k i)
  have I: "finite (dom bud)" "outstanding s = int (card (dom bud))" "0 \<le> lhn s" "\<not> committing s"
      "\<forall>op k. bud op = Some k \<longrightarrow> k \<le> MAXOPBLOCKS" "lhn s + int (reserved bud) \<le> int LOGBLOCKS"
    using assms(2) by (auto simp: log_inv_def)
  note c = log_write_counts [OF step_write(3) I(3)]
  have "dom (bud(op \<mapsto> x)) = dom bud" for x
    using step_write(2) by auto
  moreover have "Suc k \<le> MAXOPBLOCKS"
    using I(5) step_write(2) by blast
  ultimately show ?thesis
    using I c reserved_upd(1) [OF I(1), of op] reserved_upd(2) [OF I(1) step_write(2)]
    unfolding step_write(1) log_inv_def by (auto simp del: MAXOPBLOCKS_def LOGBLOCKS_def)
next
  case (step_end op k)
  have I: "finite (dom bud)" "outstanding s = int (card (dom bud))" "0 \<le> lhn s" "\<not> committing s"
      "\<forall>op k. bud op = Some k \<longrightarrow> k \<le> MAXOPBLOCKS" "lhn s + int (reserved bud) \<le> int LOGBLOCKS"
    using assms(2) by (auto simp: log_inv_def)
  note c = end_op_counts [OF step_end(3)]
  have "op \<in> dom bud"
    using step_end(2) by auto
  then have "card (dom bud - {op}) = card (dom bud) - 1" "0 < card (dom bud)"
    using I(1) by (auto simp: card_gt_0_iff)
  then show ?thesis
    using I c reserved_upd(2) [OF I(1) step_end(2)]
    unfolding step_end(1) log_inv_def by (auto simp del: MAXOPBLOCKS_def LOGBLOCKS_def split: if_splits)
next
  case step_other
  then show ?thesis
    using assms(2) by (simp add: log_inv_def counts_def)
qed

lemma log_reach_inv: "log_reach s bud \<Longrightarrow> log_inv s bud"
proof (induction rule: log_reach.induct)
  case (reach_init s)
  then show ?case
    by (simp add: log_inv_def counts_def reserved_def)
next
  case (reach_step s bud s' bud')
  then show ?case
    by (blast intro: log_step_inv)
qed

lemma log_write_returns:
  assumes "lhn s < int LOGBLOCKS" "1 \<le> outstanding s" "Lk_log \<notin> held s" "Lk_bcache \<notin> held s"
  shows "\<exists>s'. log_write i s = Ret () s'"
  using assms by (auto simp: log_write_def bpin_def upd_buf_def Let_def simp del: LOGBLOCKS_def)

text \<open>
  C7: the reservation of \<^verbatim>\<open>begin_op\<close> is enough. However operations interleave, as long as each
  logs at most \<^verbatim>\<open>MAXOPBLOCKS\<close> blocks, the log holds at most \<^verbatim>\<open>LOGBLOCKS\<close> blocks and
  \<^verbatim>\<open>log_write\<close> always returns: it panics neither with ``too big a transaction'' nor with
  ``outside of trans''.
\<close>

theorem log_never_overflows:
  assumes "log_reach s bud" "bud op = Some (Suc k)" "Lk_log \<notin> held s" "Lk_bcache \<notin> held s"
  shows "0 \<le> lhn s \<and> lhn s < int LOGBLOCKS \<and> (\<exists>s'. log_write i s = Ret () s')"
proof -
  have I: "finite (dom bud)" "outstanding s = int (card (dom bud))" "0 \<le> lhn s" "lhn s + int (reserved bud) \<le> int LOGBLOCKS"
    using log_reach_inv [OF assms(1)] by (auto simp: log_inv_def)
  have "0 < reserved bud"
    using reserved_upd(2) [OF I(1) assms(2)] by simp
  then have "lhn s < int LOGBLOCKS"
    using I(4) by linarith
  moreover have "dom bud \<noteq> {}"
    using assms(2) by auto
  then have "1 \<le> outstanding s"
    using I(1,2) by (simp add: Suc_le_eq card_gt_0_iff)
  ultimately show ?thesis
    using log_write_returns [OF _ _ assms(3,4)] I(3) by blast
qed

theorem log_never_overflows_witness:
  "\<exists>s s'. begin_op boot_log = Ret () s \<and> log_write 0 s = Ret () s' \<and> lhn s = 0"
proof -
  let ?s = "boot_log\<lparr>outstanding := 1, held := {}\<rparr>"
  have c: "counts boot_log = (0, 0, False)"
    by (simp add: counts_def boot_log_def bcache.defs logst.defs)
  then have b: "begin_op boot_log = Ret () (boot_log\<lparr>held := {}, outstanding := 1\<rparr>)"
    by (simp add: begin_op_def begin_op_loop_def boot_log_sel(3) counts_def)
  let ?bud = "(\<lambda>_. None)(0 \<mapsto> MAXOPBLOCKS)"
  have "log_reach (boot_log\<lparr>held := {}, outstanding := 1\<rparr>) ?bud"
    using b by (blast intro: reach_step [OF reach_init [OF c]] step_begin)
  moreover have "?bud 0 = Some (Suc 9)"
    by simp
  ultimately have "0 \<le> lhn (boot_log\<lparr>held := {}, outstanding := 1\<rparr>) \<and>
      lhn (boot_log\<lparr>held := {}, outstanding := 1\<rparr>) < int LOGBLOCKS \<and>
      (\<exists>s'. log_write 0 (boot_log\<lparr>held := {}, outstanding := 1\<rparr>) = Ret () s')"
    by (rule log_never_overflows) simp_all
  then show ?thesis
    using b c by (auto simp: counts_def)
qed

text \<open>
  C22: a full log cannot be committed. \<^verbatim>\<open>NBUF\<close> is equal to \<^verbatim>\<open>LOGBLOCKS\<close>, so a transaction of
  \<^verbatim>\<open>LOGBLOCKS\<close> blocks pins every buffer of the cache, and the first \<^verbatim>\<open>bread\<close> of
  \<^verbatim>\<open>write_log\<close> panics for want of a buffer for the log block.
\<close>

theorem commit_full_log_panics:
  assumes inv: "cache_inv (ldev s) s" and q: "quiet s" and n: "lhn s = int LOGBLOCKS"
    and inj: "inj_on (lhblock s) {0..<LOGBLOCKS}"
    and pinned: "\<forall>i < LOGBLOCKS. 0 < brefs (ldev s) (bufs s) (lhblock s i) \<and> lhblock s i \<noteq> log_blk (lstart s) 0"
  shows "commit s = Panic ''bget: no buffers''"
proof -
  let ?d = "ldev s" and ?B = "bufs s"
  obtain f where f: "\<And>i. i < LOGBLOCKS \<Longrightarrow> slot ?d ?B (lhblock s i) (f i) \<and> brefcnt (?B (f i)) \<noteq> 0"
  proof -
    have "\<exists>j. slot ?d ?B (lhblock s i) j \<and> brefcnt (?B j) \<noteq> 0" if "i < LOGBLOCKS" for i
    proof (cases "bslot ?d ?B (lhblock s i)")
      case None
      then show ?thesis
        using pinned that by (auto simp: brefs_def)
    next
      case (Some j)
      then have "slot ?d ?B (lhblock s i) j"
        using cache_slot [OF inv] by simp
      moreover have "0 < brefs ?d ?B (lhblock s i)"
        using pinned that by blast
      then have "brefcnt (?B j) \<noteq> 0"
        using Some by (simp add: brefs_def unat_gt_0)
      ultimately show ?thesis
        by blast
    qed
    then show thesis
      using that by metis
  qed
  have "inj_on f {0..<LOGBLOCKS}"
  proof (rule inj_onI)
    fix i j
    assume "i \<in> {0..<LOGBLOCKS}" "j \<in> {0..<LOGBLOCKS}" "f i = f j"
    then show "i = j"
      using f [of i] f [of j] by (intro inj_onD [OF inj]) (auto simp: slot_def)
  qed
  moreover have "f ` {0..<LOGBLOCKS} \<subseteq> {0..<LOGBLOCKS}"
    using f by (auto simp: slot_def)
  ultimately have surj: "f ` {0..<LOGBLOCKS} = {0..<LOGBLOCKS}"
    by (intro endo_inj_surj) simp_all
  have full: "brefcnt (?B j) \<noteq> 0" "bblockno (?B j) \<noteq> log_blk (lstart s) 0" if "j < NBUF" for j
  proof -
    have "j \<in> f ` {0..<LOGBLOCKS}"
      unfolding surj using that by simp
    then obtain i where "i < LOGBLOCKS" "j = f i"
      by auto
    then show "brefcnt (?B j) \<noteq> 0" "bblockno (?B j) \<noteq> log_blk (lstart s) 0"
      using f [of i] pinned by (auto simp: slot_def)
  qed
  obtain xs where xs: "lru ?B xs"
    using cache_invD(1) [OF inv] by blast
  obtain p where p: "held s = {}" "myproc s = Some p"
    using q by (auto elim: quietE)
  have "find (\<lambda>i. brefcnt (?B i) = 0) (rev xs) = None"
    using xs full(1) by (auto simp: find_None_iff lru_def)
  moreover have "\<forall>i. \<not> slot ?d ?B (log_blk (lstart s) 0) i"
    using full(2) by (auto simp: slot_def)
  ultimately have "bread ?d (log_blk (lstart s) 0) s = Panic ''bget: no buffers''"
    using bget_miss [OF inv xs _ p] by (simp add: bread_def)
  then have "write_log_one 0 s = Panic ''bget: no buffers''"
    by (simp add: write_log_one_def log_blk_def)
  then show ?thesis
    using n by (simp add: commit_def write_log_def upt_rec)
qed

definition full_log :: logst where
  "full_log = boot_log\<lparr>lhn := 30, lhblock := \<lambda>i. of_nat i, bufs := \<lambda>i. (bufs boot_cache i)\<lparr>
     bvalid := True, bdev := 1, bblockno := of_nat i, brefcnt := 1\<rparr>\<rparr>"

theorem commit_full_log_panics_witness: "commit full_log = Panic ''bget: no buffers''"
proof (rule commit_full_log_panics)
  have sel: "bufs full_log = (\<lambda>i. (bufs boot_cache i)\<lparr>bvalid := True, bdev := 1, bblockno := of_nat i, brefcnt := 1\<rparr>)"
    "ldev full_log = 1" "lstart full_log = 256" "lhn full_log = 30" "lhblock full_log = (\<lambda>i. of_nat i)"
    by (simp_all add: full_log_def boot_log_sel)
  have of_nat: "of_nat i = (of_nat j :: uint32) \<longleftrightarrow> i = j" if "i < 30" "j < 30" for i j
    using that by (simp add: word_of_nat_eq_iff take_bit_eq_mod)
  have slot: "slot 1 (bufs full_log) (of_nat i) j \<longleftrightarrow> i = j" if "i < 30" "j < 30" for i j
    using that by (auto simp: slot_def sel of_nat)
  have "lru (bufs full_log) (rev [0..<NBUF])"
    using boot_cache_sel(1) lru_cong [of "bufs full_log" "bufs boot_cache"] by (simp add: sel del: NBUF_def)
  then show inv: "cache_inv (ldev full_log) full_log"
    unfolding cache_inv_def by (auto simp: sel slot_def of_nat)
  show "quiet full_log" "lhn full_log = int LOGBLOCKS"
    by (simp_all add: quiet_def full_log_def boot_log_sel)
  show "inj_on (lhblock full_log) {0..<LOGBLOCKS}"
    by (rule inj_onI) (simp add: sel of_nat)
  show "\<forall>i < LOGBLOCKS. 0 < brefs (ldev full_log) (bufs full_log) (lhblock full_log i) \<and>
      lhblock full_log i \<noteq> log_blk (lstart full_log) 0"
  proof (intro allI impI conjI)
    fix i
    assume i: "i < LOGBLOCKS"
    then have "bslot 1 (bufs full_log) (of_nat i) = Some i"
      using cache_slot [OF inv, of "of_nat i" i] by (simp add: sel slot_def)
    then show "0 < brefs (ldev full_log) (bufs full_log) (lhblock full_log i)"
      by (simp add: brefs_def sel)
    have "unat (of_nat i :: uint32) \<noteq> unat (257 :: uint32)"
      using i by (simp add: unat_of_nat take_bit_eq_mod)
    then show "lhblock full_log i \<noteq> log_blk (lstart full_log) 0"
      by (auto simp: sel log_blk_def)
  qed
qed

subsection \<open>The layers above are untouched\<close>

lemma more_logst: "bcache.more s' = bcache.more s \<Longrightarrow> logst.more s' = logst.more s"
  by (cases s; cases s') simp

lemmas bio_log_more = bio_more [THEN more_logst]

lemma for_each_log_more:
  assumes "\<And>x s s'. f x s = Ret () s' \<Longrightarrow> logst.more s' = logst.more s"
  shows "for_each xs f s = Ret () s' \<Longrightarrow> logst.more s' = logst.more s"
  by (induction xs arbitrary: s) (auto simp: ret_iff dest!: assms)

lemma log_loop_more:
  "write_log s = Ret () s' \<Longrightarrow> logst.more s' = logst.more s"
  "install_trans r s = Ret () s' \<Longrightarrow> logst.more s' = logst.more s"
  "write_head s = Ret () s' \<Longrightarrow> logst.more s' = logst.more s"
  "read_head s = Ret () s' \<Longrightarrow> logst.more s' = logst.more s"
proof -
  show "write_log s = Ret () s' \<Longrightarrow> logst.more s' = logst.more s"
    unfolding write_log_def
    by (erule for_each_log_more [rotated]) (auto simp: write_log_one_def ret_iff Let_def dest!: bio_log_more)
  show "install_trans r s = Ret () s' \<Longrightarrow> logst.more s' = logst.more s"
    unfolding install_trans_def
    by (erule for_each_log_more [rotated]) (auto simp: install_one_def ret_iff Let_def dest!: bio_log_more split: if_splits)
  show "write_head s = Ret () s' \<Longrightarrow> logst.more s' = logst.more s"
    by (auto simp: write_head_def ret_iff Let_def dest!: bio_log_more)
  show "read_head s = Ret () s' \<Longrightarrow> logst.more s' = logst.more s"
    unfolding read_head_def ret_iff Let_def
    by (auto dest!: bio_log_more for_each_log_more [rotated] split: if_splits)
qed

lemma log_write_more: "log_write i s = Ret () s' \<Longrightarrow> logst.more s' = logst.more s"
  by (auto simp: log_write_def ret_iff Let_def dest!: bio_log_more split: if_splits)

lemma commit_more: "commit s = Ret () s' \<Longrightarrow> logst.more s' = logst.more s"
  by (auto simp: commit_def ret_iff dest!: log_loop_more split: if_splits)

lemma op_more:
  "begin_op s = Ret () s' \<Longrightarrow> logst.more s' = logst.more s" "end_op s = Ret () s' \<Longrightarrow> logst.more s' = logst.more s"
  by (auto simp: begin_op_def begin_op_loop_def end_op_def ret_iff Let_def dest!: bio_log_more commit_more split: if_splits)

lemmas log_more = bio_log_more log_write_more op_more

end
