(* ===== verification/Fs.thy ===== *)
theory Fs
  imports Log Vm
begin

section \<open>The file system (fs.c)\<close>

text \<open>
  \<^verbatim>\<open>riscv/kernel/fs.c\<close> with the structures of \<^verbatim>\<open>riscv/kernel/fs.h\<close> and \<^verbatim>\<open>riscv/kernel/file.h\<close>:
  block allocation in the bitmap, the inode table, the contents of files, directories and
  path names. An \<^verbatim>\<open>inode *\<close> is an index of the table, a null pointer is \<open>None\<close>. A
  NUL-terminated string is the list of its bytes before the NUL.

  A buffer for \<^verbatim>\<open>readi\<close> and \<^verbatim>\<open>writei\<close> is an address, in user or kernel memory, or a local
  variable of the caller; the bytes that go into a local variable are part of the result.
  The messages the code prints are left out.
\<close>

subsection \<open>On-disk layout\<close>

definition ROOTINO :: uint32 where [simp]: "ROOTINO = 1"
definition FSMAGIC :: uint32 where [simp]: "FSMAGIC = 0x10203040"
definition NDIRECT :: nat where [simp]: "NDIRECT = 12"
definition NINDIRECT :: nat where [simp]: "NINDIRECT = BSIZE div 4"
definition MAXFILE :: nat where [simp]: "MAXFILE = NDIRECT + NINDIRECT"
definition IPB :: nat where [simp]: "IPB = BSIZE div 64"
definition BPB :: nat where [simp]: "BPB = BSIZE * 8"
definition DIRSIZ :: nat where [simp]: "DIRSIZ = 14"
definition T_DIR :: uint16 where [simp]: "T_DIR = 1"
definition T_FILE :: uint16 where [simp]: "T_FILE = 2"
definition T_DEVICE :: uint16 where [simp]: "T_DEVICE = 3"

record superblock =
  sb_magic :: uint32
  sb_size :: uint32
  sb_nblocks :: uint32
  sb_ninodes :: uint32
  sb_nlog :: uint32
  sb_logstart :: uint32
  sb_inodestart :: uint32
  sb_bmapstart :: uint32

record inode =
  idev :: uint32
  inum :: uint32
  iref :: int
  islock :: sleeplock
  ivalid :: bool
  itype :: uint16
  imajor :: uint16
  iminor :: uint16
  inlink :: uint16
  isize :: uint32
  iaddrs :: "nat \<Rightarrow> uint32"

record fsst = logst +
  sb :: superblock
  inodes :: "nat \<Rightarrow> inode"

definition IBLOCK :: "uint32 \<Rightarrow> superblock \<Rightarrow> uint32" where
  "IBLOCK i b = of_nat (unat i div IPB) + sb_inodestart b"

definition BBLOCK :: "nat \<Rightarrow> superblock \<Rightarrow> uint32" where
  "BBLOCK b x = of_nat (b div BPB) + sb_bmapstart x"

definition upd_inode :: "nat \<Rightarrow> (inode \<Rightarrow> inode) \<Rightarrow> 'a fsst_scheme \<Rightarrow> 'a fsst_scheme" where
  "upd_inode i f s = s\<lparr>inodes := (inodes s)(i := f (inodes s i))\<rparr>"

text \<open>The structure \<^verbatim>\<open>dinode\<close> at offset \<open>off\<close> of a block.\<close>

definition load_dinode :: "block \<Rightarrow> nat \<Rightarrow> inode \<Rightarrow> inode" where
  "load_dinode x off ip = ip\<lparr>itype := get16 x off, imajor := get16 x (off + 2), iminor := get16 x (off + 4),
     inlink := get16 x (off + 6), isize := get32 x (off + 8),
     iaddrs := (\<lambda>i. if i < NDIRECT + 1 then get32 x (off + 12 + 4 * i) else iaddrs ip i)\<rparr>"

definition store_dinode :: "inode \<Rightarrow> nat \<Rightarrow> block \<Rightarrow> block" where
  "store_dinode ip off x =
     (let x = put16 off (itype ip) x;
          x = put16 (off + 2) (imajor ip) x;
          x = put16 (off + 4) (iminor ip) x;
          x = put16 (off + 6) (inlink ip) x;
          x = put32 (off + 8) (isize ip) x
      in fold (\<lambda>i. put32 (off + 12 + 4 * i) (iaddrs ip i)) [0..<NDIRECT + 1] x)"

definition dinode_off :: "uint32 \<Rightarrow> nat" where
  "dinode_off i = unat i mod IPB * 64"

subsection \<open>Blocks\<close>

definition upd_data :: "nat \<Rightarrow> (block \<Rightarrow> block) \<Rightarrow> 'a fsst_scheme \<Rightarrow> 'a fsst_scheme" where
  "upd_data i f s = s\<lparr>bufs := (bufs s)(i := (bufs s i)\<lparr>bdata := f (bdata (bufs s i))\<rparr>)\<rparr>"

definition readsb :: "uint32 \<Rightarrow> 'a fsst_scheme \<Rightarrow> ('a fsst_scheme, unit) outcome" where
  "readsb dev s =
     bnd (bread dev 1 s) (\<lambda>bp s.
     let x = bdata (bufs s bp);
         s = s\<lparr>sb := \<lparr>sb_magic = get32 x 0, sb_size = get32 x 4, sb_nblocks = get32 x 8, sb_ninodes = get32 x 12,
           sb_nlog = get32 x 16, sb_logstart = get32 x 20, sb_inodestart = get32 x 24, sb_bmapstart = get32 x 28\<rparr>\<rparr> in
     brelse bp s)"

definition bzero :: "uint32 \<Rightarrow> uint32 \<Rightarrow> 'a fsst_scheme \<Rightarrow> ('a fsst_scheme, unit) outcome" where
  "bzero dev bno s =
     bnd (bread dev bno s) (\<lambda>bp s.
     let s = upd_data bp (\<lambda>_ _. 0) s in
     bnd (log_write bp s) (\<lambda>_ s.
     brelse bp s))"

definition bit_used :: "block \<Rightarrow> nat \<Rightarrow> bool" where
  "bit_used x bi = (x (of_nat (bi div 8)) AND push_bit (bi mod 8) 1 \<noteq> 0)"

definition mark_used :: "nat \<Rightarrow> block \<Rightarrow> block" where
  "mark_used bi x = x(of_nat (bi div 8) := x (of_nat (bi div 8)) OR push_bit (bi mod 8) 1)"

definition mark_free :: "nat \<Rightarrow> block \<Rightarrow> block" where
  "mark_free bi x = x(of_nat (bi div 8) := x (of_nat (bi div 8)) AND NOT (push_bit (bi mod 8) 1))"

text \<open>The layers below leave the superblock and the inode table alone.\<close>

lemma more_fsst:
  assumes "logst.more s' = logst.more s"
  shows "sb s' = sb s" "inodes s' = inodes s" "fsst.more s' = fsst.more s"
  using assms by (cases s; cases s'; simp)+

lemma upd_data_sel [simp]: "sb (upd_data i f s) = sb s" "inodes (upd_data i f s) = inodes s"
  by (simp_all add: upd_data_def)

lemma bread_sb: "bread d b s = Ret i s' \<Longrightarrow> sb s' = sb s"
  by (rule more_fsst(1)) (rule log_more)

lemma brelse_sb: "brelse i s = Ret () s' \<Longrightarrow> sb s' = sb s"
  by (rule more_fsst(1)) (rule log_more)

text \<open>
  The loop over the bitmap blocks; \<open>b\<close> is the number of the first block a bitmap block is
  about. The inner loop is the search for the first free bit.
\<close>

function balloc_from :: "uint32 \<Rightarrow> nat \<Rightarrow> 'a fsst_scheme \<Rightarrow> ('a fsst_scheme, uint32) outcome" where
  "balloc_from dev b s =
     (if b < unat (sb_size (sb s)) then
        bnd (bread dev (BBLOCK b (sb s)) s) (\<lambda>bp s.
        case find (\<lambda>bi. b + bi < unat (sb_size (sb s)) \<and> \<not> bit_used (bdata (bufs s bp)) bi) [0..<BPB] of
          Some bi \<Rightarrow>
            bnd (log_write bp (upd_data bp (mark_used bi) s)) (\<lambda>_ s.
            bnd (brelse bp s) (\<lambda>_ s.
            bnd (bzero dev (of_nat (b + bi)) s) (\<lambda>_ s.
            Ret (of_nat (b + bi)) s)))
        | None \<Rightarrow>
            bnd (brelse bp s) (\<lambda>_ s.
            balloc_from dev (b + BPB) s))
      else Ret 0 s)"
  by pat_completeness auto
termination
  by (relation "measure (\<lambda>(dev, b, s). unat (sb_size (sb s)) - b)")
    (auto dest!: bread_sb brelse_sb)

declare balloc_from.simps [simp del]

definition balloc :: "uint32 \<Rightarrow> 'a fsst_scheme \<Rightarrow> ('a fsst_scheme, uint32) outcome" where
  "balloc dev s = balloc_from dev 0 s"

definition bfree :: "uint32 \<Rightarrow> uint32 \<Rightarrow> 'a fsst_scheme \<Rightarrow> ('a fsst_scheme, unit) outcome" where
  "bfree dev b s =
     bnd (bread dev (BBLOCK (unat b) (sb s)) s) (\<lambda>bp s.
     let bi = unat b mod BPB in
     if \<not> bit_used (bdata (bufs s bp)) bi then Panic ''freeing free block''
     else
       bnd (log_write bp (upd_data bp (mark_free bi) s)) (\<lambda>_ s.
       brelse bp s))"

subsection \<open>Inodes\<close>

abbreviation get_inode_lock :: "nat \<Rightarrow> 'a fsst_scheme \<Rightarrow> sleeplock" where
  "get_inode_lock i s \<equiv> islock (inodes s i)"

abbreviation put_inode_lock :: "nat \<Rightarrow> sleeplock \<Rightarrow> 'a fsst_scheme \<Rightarrow> 'a fsst_scheme" where
  "put_inode_lock i x s \<equiv> s\<lparr>inodes := (inodes s)(i := (inodes s i)\<lparr>islock := x\<rparr>)\<rparr>"

definition iinit :: "'a fsst_scheme \<Rightarrow> 'a fsst_scheme" where
  "iinit s = fold (\<lambda>i. upd_inode i (\<lambda>ip. ip\<lparr>islock := initsleeplock\<rparr>)) [0..<NINODE] s"

definition iget :: "uint32 \<Rightarrow> uint32 \<Rightarrow> 'a fsst_scheme \<Rightarrow> ('a fsst_scheme, nat) outcome" where
  "iget dev num s =
     bnd (acquire Lk_itable s) (\<lambda>_ s.
     case find (\<lambda>i. iref (inodes s i) > 0 \<and> idev (inodes s i) = dev \<and> inum (inodes s i) = num) [0..<NINODE] of
       Some ip \<Rightarrow>
         bnd (release Lk_itable (upd_inode ip (\<lambda>x. x\<lparr>iref := iref x + 1\<rparr>) s)) (\<lambda>_ s. Ret ip s)
     | None \<Rightarrow>
         (case find (\<lambda>i. iref (inodes s i) = 0) [0..<NINODE] of
            None \<Rightarrow> Panic ''iget: no inodes''
          | Some ip \<Rightarrow>
              bnd (release Lk_itable (upd_inode ip (\<lambda>x. x\<lparr>idev := dev, inum := num, iref := 1, ivalid := False\<rparr>) s)) (\<lambda>_ s.
              Ret ip s)))"

definition ialloc_one :: "uint32 \<Rightarrow> uint16 \<Rightarrow> nat \<Rightarrow> 'a fsst_scheme \<Rightarrow> ('a fsst_scheme, nat option) outcome" where
  "ialloc_one dev type num s =
     bnd (bread dev (IBLOCK (of_nat num) (sb s)) s) (\<lambda>bp s.
     let off = dinode_off (of_nat num) in
     if get16 (bdata (bufs s bp)) off = 0 then
       let s = upd_data bp (\<lambda>x. put16 off type (blk_store x off (replicate 64 0))) s in
       bnd (log_write bp s) (\<lambda>_ s.
       bnd (brelse bp s) (\<lambda>_ s.
       bnd (iget dev (of_nat num) s) (\<lambda>ip s.
       Ret (Some ip) s)))
     else bnd (brelse bp s) (\<lambda>_ s. Ret None s))"

definition ialloc :: "uint32 \<Rightarrow> uint16 \<Rightarrow> 'a fsst_scheme \<Rightarrow> ('a fsst_scheme, nat option) outcome" where
  "ialloc dev type s = for_return [1..<unat (sb_ninodes (sb s))] (ialloc_one dev type) s"

definition iupdate :: "nat \<Rightarrow> 'a fsst_scheme \<Rightarrow> ('a fsst_scheme, unit) outcome" where
  "iupdate ip s =
     bnd (bread (idev (inodes s ip)) (IBLOCK (inum (inodes s ip)) (sb s)) s) (\<lambda>bp s.
     let s = upd_data bp (store_dinode (inodes s ip) (dinode_off (inum (inodes s ip)))) s in
     bnd (log_write bp s) (\<lambda>_ s.
     brelse bp s))"

definition idup :: "nat \<Rightarrow> 'a fsst_scheme \<Rightarrow> ('a fsst_scheme, nat) outcome" where
  "idup ip s =
     bnd (acquire Lk_itable s) (\<lambda>_ s.
     bnd (release Lk_itable (upd_inode ip (\<lambda>x. x\<lparr>iref := iref x + 1\<rparr>) s)) (\<lambda>_ s.
     Ret ip s))"

definition ilock :: "nat option \<Rightarrow> 'a fsst_scheme \<Rightarrow> ('a fsst_scheme, unit) outcome" where
  "ilock p s =
     (case p of
        None \<Rightarrow> Panic ''ilock''
      | Some ip \<Rightarrow>
          if iref (inodes s ip) < 1 then Panic ''ilock''
          else
            bnd (acquiresleep (Lk_inode ip) (Chan_inode_lock ip) (get_inode_lock ip) (put_inode_lock ip) s) (\<lambda>_ s.
            if \<not> ivalid (inodes s ip) then
              bnd (bread (idev (inodes s ip)) (IBLOCK (inum (inodes s ip)) (sb s)) s) (\<lambda>bp s.
              let s = upd_inode ip (load_dinode (bdata (bufs s bp)) (dinode_off (inum (inodes s ip)))) s in
              bnd (brelse bp s) (\<lambda>_ s.
              let s = upd_inode ip (\<lambda>x. x\<lparr>ivalid := True\<rparr>) s in
              if itype (inodes s ip) = 0 then Panic ''ilock: no type'' else Ret () s))
            else Ret () s))"

definition iunlock :: "nat option \<Rightarrow> 'a fsst_scheme \<Rightarrow> ('a fsst_scheme, unit) outcome" where
  "iunlock p s =
     (case p of
        None \<Rightarrow> Panic ''iunlock''
      | Some ip \<Rightarrow>
          bnd (holdingsleep (Lk_inode ip) (get_inode_lock ip) s) (\<lambda>h s.
          if \<not> h \<or> iref (inodes s ip) < 1 then Panic ''iunlock''
          else releasesleep (Lk_inode ip) (Chan_inode_lock ip) (put_inode_lock ip) s))"

definition bmap :: "nat \<Rightarrow> nat \<Rightarrow> 'a fsst_scheme \<Rightarrow> ('a fsst_scheme, uint32) outcome" where
  "bmap ip bn s =
     (if bn < NDIRECT then
        let addr = iaddrs (inodes s ip) bn in
        if addr = 0 then
          bnd (balloc (idev (inodes s ip)) s) (\<lambda>addr s.
          if addr = 0 then Ret 0 s
          else Ret addr (upd_inode ip (\<lambda>x. x\<lparr>iaddrs := (iaddrs x)(bn := addr)\<rparr>) s))
        else Ret addr s
      else if bn - NDIRECT < NINDIRECT then
        let bn = bn - NDIRECT in
        bnd (if iaddrs (inodes s ip) NDIRECT = 0 then
               bnd (balloc (idev (inodes s ip)) s) (\<lambda>addr s.
               if addr = 0 then Ret 0 s
               else Ret addr (upd_inode ip (\<lambda>x. x\<lparr>iaddrs := (iaddrs x)(NDIRECT := addr)\<rparr>) s))
             else Ret (iaddrs (inodes s ip) NDIRECT) s) (\<lambda>addr s.
        if addr = 0 then Ret 0 s
        else
          bnd (bread (idev (inodes s ip)) addr s) (\<lambda>bp s.
          let addr = get32 (bdata (bufs s bp)) (4 * bn) in
          bnd (if addr = 0 then
                 bnd (balloc (idev (inodes s ip)) s) (\<lambda>addr s.
                 if addr \<noteq> 0 then
                   bnd (log_write bp (upd_data bp (put32 (4 * bn) addr) s)) (\<lambda>_ s. Ret addr s)
                 else Ret addr s)
               else Ret addr s) (\<lambda>addr s.
          bnd (brelse bp s) (\<lambda>_ s.
          Ret addr s))))
      else Panic ''bmap: out of range'')"

definition itrunc :: "nat \<Rightarrow> 'a fsst_scheme \<Rightarrow> ('a fsst_scheme, unit) outcome" where
  "itrunc ip s =
     bnd (for_each [0..<NDIRECT] (\<lambda>i s.
       if iaddrs (inodes s ip) i \<noteq> 0 then
         bnd (bfree (idev (inodes s ip)) (iaddrs (inodes s ip) i) s) (\<lambda>_ s.
         Ret () (upd_inode ip (\<lambda>x. x\<lparr>iaddrs := (iaddrs x)(i := 0)\<rparr>) s))
       else Ret () s) s) (\<lambda>_ s.
     bnd (if iaddrs (inodes s ip) NDIRECT \<noteq> 0 then
            bnd (bread (idev (inodes s ip)) (iaddrs (inodes s ip) NDIRECT) s) (\<lambda>bp s.
            bnd (for_each [0..<NINDIRECT] (\<lambda>j s.
              if get32 (bdata (bufs s bp)) (4 * j) \<noteq> 0
              then bfree (idev (inodes s ip)) (get32 (bdata (bufs s bp)) (4 * j)) s
              else Ret () s) s) (\<lambda>_ s.
            bnd (brelse bp s) (\<lambda>_ s.
            bnd (bfree (idev (inodes s ip)) (iaddrs (inodes s ip) NDIRECT) s) (\<lambda>_ s.
            Ret () (upd_inode ip (\<lambda>x. x\<lparr>iaddrs := (iaddrs x)(NDIRECT := 0)\<rparr>) s)))))
          else Ret () s) (\<lambda>_ s.
     iupdate ip (upd_inode ip (\<lambda>x. x\<lparr>isize := 0\<rparr>) s)))"

definition iput :: "nat \<Rightarrow> 'a fsst_scheme \<Rightarrow> ('a fsst_scheme, unit) outcome" where
  "iput ip s =
     bnd (acquire Lk_itable s) (\<lambda>_ s.
     bnd (if iref (inodes s ip) = 1 \<and> ivalid (inodes s ip) \<and> inlink (inodes s ip) = 0 then
            bnd (acquiresleep (Lk_inode ip) (Chan_inode_lock ip) (get_inode_lock ip) (put_inode_lock ip) s) (\<lambda>_ s.
            bnd (release Lk_itable s) (\<lambda>_ s.
            bnd (itrunc ip s) (\<lambda>_ s.
            bnd (iupdate ip (upd_inode ip (\<lambda>x. x\<lparr>itype := 0\<rparr>) s)) (\<lambda>_ s.
            let s = upd_inode ip (\<lambda>x. x\<lparr>ivalid := False\<rparr>) s in
            bnd (releasesleep (Lk_inode ip) (Chan_inode_lock ip) (put_inode_lock ip) s) (\<lambda>_ s.
            acquire Lk_itable s)))))
          else Ret () s) (\<lambda>_ s.
     release Lk_itable (upd_inode ip (\<lambda>x. x\<lparr>iref := iref x - 1\<rparr>) s)))"

definition iunlockput :: "nat \<Rightarrow> 'a fsst_scheme \<Rightarrow> ('a fsst_scheme, unit) outcome" where
  "iunlockput ip s = bnd (iunlock (Some ip) s) (\<lambda>_ s. iput ip s)"

definition ireclaim_one :: "uint32 \<Rightarrow> nat \<Rightarrow> 'a fsst_scheme \<Rightarrow> ('a fsst_scheme, unit) outcome" where
  "ireclaim_one dev num s =
     bnd (bread dev (IBLOCK (of_nat num) (sb s)) s) (\<lambda>bp s.
     let x = bdata (bufs s bp); off = dinode_off (of_nat num) in
     bnd (if get16 x off \<noteq> 0 \<and> get16 x (off + 6) = 0
          then bnd (iget dev (of_nat num) s) (\<lambda>ip s. Ret (Some ip) s)
          else Ret None s) (\<lambda>p s.
     bnd (brelse bp s) (\<lambda>_ s.
     case p of
       None \<Rightarrow> Ret () s
     | Some ip \<Rightarrow>
         bnd (begin_op s) (\<lambda>_ s.
         bnd (ilock (Some ip) s) (\<lambda>_ s.
         bnd (iunlock (Some ip) s) (\<lambda>_ s.
         bnd (iput ip s) (\<lambda>_ s.
         end_op s)))))))"

definition ireclaim :: "uint32 \<Rightarrow> 'a fsst_scheme \<Rightarrow> ('a fsst_scheme, unit) outcome" where
  "ireclaim dev s = for_each [1..<unat (sb_ninodes (sb s))] (ireclaim_one dev) s"

definition fsinit :: "uint32 \<Rightarrow> 'a fsst_scheme \<Rightarrow> ('a fsst_scheme, unit) outcome" where
  "fsinit dev s =
     bnd (readsb dev s) (\<lambda>_ s.
     if sb_magic (sb s) \<noteq> FSMAGIC then Panic ''invalid file system''
     else
       bnd (initlog dev (sb_logstart (sb s)) s) (\<lambda>_ s.
       ireclaim dev s))"

subsection \<open>Contents of files\<close>

record stat =
  st_dev :: uint32
  st_ino :: uint32
  st_type :: uint16
  st_nlink :: uint16
  st_size :: uint64

definition stati :: "nat \<Rightarrow> 'a fsst_scheme \<Rightarrow> stat" where
  "stati ip s = \<lparr>st_dev = idev (inodes s ip), st_ino = inum (inodes s ip), st_type = itype (inodes s ip),
     st_nlink = inlink (inodes s ip), st_size = ucast (isize (inodes s ip))\<rparr>"

datatype rbuf = RAddr bool uint64 | RLocal
datatype wbuf = WAddr bool uint64 | WLocal "uint8 list"

definition copy_dst :: "rbuf \<Rightarrow> nat \<Rightarrow> uint8 list \<Rightarrow> 'a fsst_scheme \<Rightarrow> ('a fsst_scheme, int) outcome" where
  "copy_dst dst tot bs s =
     (case dst of RAddr user a \<Rightarrow> either_copyout user (a + of_nat tot) bs s | RLocal \<Rightarrow> Ret 0 s)"

definition copy_src :: "wbuf \<Rightarrow> nat \<Rightarrow> nat \<Rightarrow> 'a fsst_scheme \<Rightarrow> ('a fsst_scheme, int \<times> uint8 list) outcome" where
  "copy_src src tot m s =
     (case src of WAddr user a \<Rightarrow> either_copyin user (a + of_nat tot) m s | WLocal bs \<Rightarrow> Ret (0, take m (drop tot bs)) s)"

text \<open>
  The loops of \<^verbatim>\<open>readi\<close> and \<^verbatim>\<open>writei\<close> run after the checks that \<^verbatim>\<open>off + n\<close> does not overflow, so
  their counters are natural numbers. \<open>readi_loop\<close> also returns the bytes it has delivered.
\<close>

definition chunk :: "nat \<Rightarrow> nat \<Rightarrow> nat \<Rightarrow> nat" where
  "chunk n tot off = min (n - tot) (BSIZE - off mod BSIZE)"

lemma chunk_pos: "tot < n \<Longrightarrow> 0 < chunk n tot off"
  by (simp add: chunk_def)

lemma chunk_step: "tot < n \<Longrightarrow> n - (tot + chunk n tot off) < n - tot"
  using chunk_pos [of tot n off] by linarith

function readi_loop :: "nat \<Rightarrow> rbuf \<Rightarrow> nat \<Rightarrow> nat \<Rightarrow> nat \<Rightarrow> 'a fsst_scheme \<Rightarrow>
    ('a fsst_scheme, int \<times> uint8 list) outcome" where
  "readi_loop ip dst n tot off s =
     (if tot < n then
        bnd (bmap ip (off div BSIZE) s) (\<lambda>addr s.
        if addr = 0 then Ret (int tot, []) s
        else
          bnd (bread (idev (inodes s ip)) addr s) (\<lambda>bp s.
          let m = chunk n tot off; bs = blk_load (bdata (bufs s bp)) (off mod BSIZE) m in
          bnd (copy_dst dst tot bs s) (\<lambda>r s.
          if r = -1 then bnd (brelse bp s) (\<lambda>_ s. Ret (-1, []) s)
          else
            bnd (brelse bp s) (\<lambda>_ s.
            bnd (readi_loop ip dst n (tot + m) (off + m) s) (\<lambda>r s.
            Ret (fst r, bs @ snd r) s)))))
      else Ret (int tot, []) s)"
  by pat_completeness auto
termination
  by (relation "measure (\<lambda>(ip, dst, n, tot, off, s). n - tot)") (auto simp: chunk_step)

declare readi_loop.simps [simp del]

definition readi :: "nat \<Rightarrow> rbuf \<Rightarrow> uint32 \<Rightarrow> uint32 \<Rightarrow> 'a fsst_scheme \<Rightarrow>
    ('a fsst_scheme, int \<times> uint8 list) outcome" where
  "readi ip dst off n s =
     (let size = isize (inodes s ip) in
      if off > size \<or> off + n < off then Ret (0, []) s
      else
        let n = (if off + n > size then size - off else n) in
        readi_loop ip dst (unat n) 0 (unat off) s)"

text \<open>\<open>writei_loop\<close> returns the number of bytes written and the offset it stopped at.\<close>

function writei_loop :: "nat \<Rightarrow> wbuf \<Rightarrow> nat \<Rightarrow> nat \<Rightarrow> nat \<Rightarrow> 'a fsst_scheme \<Rightarrow>
    ('a fsst_scheme, nat \<times> nat) outcome" where
  "writei_loop ip src n tot off s =
     (if tot < n then
        bnd (bmap ip (off div BSIZE) s) (\<lambda>addr s.
        if addr = 0 then Ret (tot, off) s
        else
          bnd (bread (idev (inodes s ip)) addr s) (\<lambda>bp s.
          let m = chunk n tot off in
          bnd (copy_src src tot m s) (\<lambda>r s.
          let s = upd_data bp (\<lambda>x. blk_store x (off mod BSIZE) (snd r)) s in
          if fst r = -1 then bnd (brelse bp s) (\<lambda>_ s. Ret (tot, off) s)
          else
            bnd (log_write bp s) (\<lambda>_ s.
            bnd (brelse bp s) (\<lambda>_ s.
            writei_loop ip src n (tot + m) (off + m) s)))))
      else Ret (tot, off) s)"
  by pat_completeness auto
termination
  by (relation "measure (\<lambda>(ip, src, n, tot, off, s). n - tot)") (auto simp: chunk_step)

declare writei_loop.simps [simp del]

definition writei :: "nat \<Rightarrow> wbuf \<Rightarrow> uint32 \<Rightarrow> uint32 \<Rightarrow> 'a fsst_scheme \<Rightarrow> ('a fsst_scheme, int) outcome" where
  "writei ip src off n s =
     (if off > isize (inodes s ip) \<or> off + n < off then Ret (-1) s
      else if unat (off + n) > MAXFILE * BSIZE then Ret (-1) s
      else
        bnd (writei_loop ip src (unat n) 0 (unat off) s) (\<lambda>r s.
        let s = (if snd r > unat (isize (inodes s ip))
                 then upd_inode ip (\<lambda>x. x\<lparr>isize := of_nat (snd r)\<rparr>) s else s) in
        bnd (iupdate ip s) (\<lambda>_ s.
        Ret (int (fst r)) s)))"

subsection \<open>Directories\<close>

text \<open>
  A directory entry is 16 bytes: the inode number and a name that is padded with NUL bytes
  and has no NUL when it is \<^verbatim>\<open>DIRSIZ\<close> bytes long.
\<close>

definition cbytes :: "uint8 list \<Rightarrow> bytes" where
  "cbytes xs i = (if i < length xs then xs ! i else 0)"

definition de_inum :: "uint8 list \<Rightarrow> uint16" where
  "de_inum de = le_word (take 2 de)"

definition de_name :: "uint8 list \<Rightarrow> bytes" where
  "de_name de = cbytes (drop 2 de)"

definition make_dirent :: "uint8 list \<Rightarrow> uint32 \<Rightarrow> bytes \<Rightarrow> uint8 list" where
  "make_dirent name num old =
     le_bytes 2 (ucast num :: uint16) @ map (strncpy old (cbytes name) (int DIRSIZ)) [0..<DIRSIZ]"

definition namecmp :: "bytes \<Rightarrow> bytes \<Rightarrow> int" where
  "namecmp p q = strncmp p q DIRSIZ"

definition dirlookup :: "nat \<Rightarrow> uint8 list \<Rightarrow> 'a fsst_scheme \<Rightarrow> ('a fsst_scheme, (nat \<times> nat) option) outcome" where
  "dirlookup dp name s =
     (if itype (inodes s dp) \<noteq> T_DIR then Panic ''dirlookup not DIR''
      else
        for_return [0..<(unat (isize (inodes s dp)) + 15) div 16] (\<lambda>k s.
          bnd (readi dp RLocal (of_nat (16 * k)) 16 s) (\<lambda>r s.
          if fst r \<noteq> 16 then Panic ''dirlookup read''
          else if de_inum (snd r) = 0 then Ret None s
          else if namecmp (cbytes name) (de_name (snd r)) = 0 then
            bnd (iget (idev (inodes s dp)) (ucast (de_inum (snd r))) s) (\<lambda>ip s. Ret (Some (ip, 16 * k)) s)
          else Ret None s)) s)"

text \<open>
  The search of \<^verbatim>\<open>dirlink\<close> for an empty entry gives the offset to write at and the bytes left in
  the local variable \<^verbatim>\<open>de\<close>, \<open>junk\<close> when the directory is empty.
\<close>

fun dirlink_scan :: "nat \<Rightarrow> nat list \<Rightarrow> uint8 list \<Rightarrow> 'a fsst_scheme \<Rightarrow>
    ('a fsst_scheme, (nat option) \<times> uint8 list) outcome" where
  "dirlink_scan dp [] de s = Ret (None, de) s"
| "dirlink_scan dp (k # ks) de s =
     bnd (readi dp RLocal (of_nat (16 * k)) 16 s) (\<lambda>r s.
     if fst r \<noteq> 16 then Panic ''dirlink read''
     else if de_inum (snd r) = 0 then Ret (Some (16 * k), snd r) s
     else dirlink_scan dp ks (snd r) s)"

definition dirlink :: "uint8 list \<Rightarrow> nat \<Rightarrow> uint8 list \<Rightarrow> uint32 \<Rightarrow> 'a fsst_scheme \<Rightarrow> ('a fsst_scheme, int) outcome" where
  "dirlink junk dp name num s =
     bnd (dirlookup dp name s) (\<lambda>r s.
     case r of
       Some (ip, off) \<Rightarrow> bnd (iput ip s) (\<lambda>_ s. Ret (-1) s)
     | None \<Rightarrow>
         let k = (unat (isize (inodes s dp)) + 15) div 16 in
         bnd (dirlink_scan dp [0..<k] junk s) (\<lambda>r s.
         let off = (case fst r of None \<Rightarrow> 16 * k | Some off \<Rightarrow> off);
             de = make_dirent name num (de_name (snd r)) in
         bnd (writei dp (WLocal de) (of_nat off) 16 s) (\<lambda>w s.
         Ret (if w \<noteq> 16 then -1 else 0) s)))"

subsection \<open>Paths\<close>

definition SLASH :: uint8 where [simp]: "SLASH = 47"

definition skipelem :: "uint8 list \<Rightarrow> (uint8 list \<times> uint8 list) option" where
  "skipelem path =
     (let path = dropWhile (\<lambda>c. c = SLASH) path in
      if path = [] then None
      else
        let elem = takeWhile (\<lambda>c. c \<noteq> SLASH) path;
            rest = dropWhile (\<lambda>c. c \<noteq> SLASH) path;
            name = (if length elem \<ge> DIRSIZ then take DIRSIZ elem else elem)
        in Some (dropWhile (\<lambda>c. c = SLASH) rest, name))"

lemma length_dropWhile_less: "path \<noteq> [] \<Longrightarrow> P (hd path) \<Longrightarrow> length (dropWhile P path) < length path"
  by (cases path) (simp_all add: le_imp_less_Suc length_dropWhile_le)

lemma skipelem_shorter:
  assumes "skipelem path = Some (rest, name)"
  shows "length rest < length path"
proof -
  let ?p = "dropWhile (\<lambda>c. c = SLASH) path"
  have ne: "?p \<noteq> []" and rest: "rest = dropWhile (\<lambda>c. c = SLASH) (dropWhile (\<lambda>c. c \<noteq> SLASH) ?p)"
    using assms by (auto simp: skipelem_def Let_def split: if_splits)
  have "hd ?p \<noteq> SLASH"
    using hd_dropWhile [OF ne] by simp
  then have "length (dropWhile (\<lambda>c. c \<noteq> SLASH) ?p) < length ?p"
    by (intro length_dropWhile_less ne)
  then show ?thesis
    using length_dropWhile_le [of "\<lambda>c. c = SLASH" path]
      length_dropWhile_le [of "\<lambda>c. c = SLASH" "dropWhile (\<lambda>c. c \<noteq> SLASH) ?p"] unfolding rest by linarith
qed

function namex_loop :: "nat \<Rightarrow> uint8 list \<Rightarrow> bool \<Rightarrow> uint8 list \<Rightarrow> 'a fsst_scheme \<Rightarrow>
    ('a fsst_scheme, nat option \<times> uint8 list) outcome" where
  "namex_loop ip path parent_only name s =
     (case skipelem path of
        None \<Rightarrow>
          if parent_only then bnd (iput ip s) (\<lambda>_ s. Ret (None, name) s)
          else Ret (Some ip, name) s
      | Some (path, name) \<Rightarrow>
          bnd (ilock (Some ip) s) (\<lambda>_ s.
          if itype (inodes s ip) \<noteq> T_DIR then bnd (iunlockput ip s) (\<lambda>_ s. Ret (None, name) s)
          else if parent_only \<and> path = [] then bnd (iunlock (Some ip) s) (\<lambda>_ s. Ret (Some ip, name) s)
          else
            bnd (dirlookup ip name s) (\<lambda>r s.
            case r of
              None \<Rightarrow> bnd (iunlockput ip s) (\<lambda>_ s. Ret (None, name) s)
            | Some (next, off) \<Rightarrow>
                bnd (iunlockput ip s) (\<lambda>_ s.
                namex_loop next path parent_only name s))))"
  by pat_completeness auto
termination
  by (relation "measure (\<lambda>(ip, path, parent_only, name, s). length path)") (auto dest: skipelem_shorter)

declare namex_loop.simps [simp del]

definition namex :: "uint8 list \<Rightarrow> bool \<Rightarrow> 'a fsst_scheme \<Rightarrow> ('a fsst_scheme, nat option \<times> uint8 list) outcome" where
  "namex path parent_only s =
     bnd (if path \<noteq> [] \<and> hd path = SLASH then iget ROOTDEV ROOTINO s
          else with_myproc (\<lambda>p s. case cwd (procs s p) of None \<Rightarrow> Panic ''kerneltrap'' | Some ip \<Rightarrow> idup ip s) s) (\<lambda>ip s.
     namex_loop ip path parent_only [] s)"

definition namei :: "uint8 list \<Rightarrow> 'a fsst_scheme \<Rightarrow> ('a fsst_scheme, nat option) outcome" where
  "namei path s = bnd (namex path False s) (\<lambda>r s. Ret (fst r) s)"

definition nameiparent :: "uint8 list \<Rightarrow> 'a fsst_scheme \<Rightarrow> ('a fsst_scheme, nat option \<times> uint8 list) outcome" where
  "nameiparent path s = namex path True s"

end
