(* ===== verification/FsTx.thy ===== *)
theory FsTx
  imports Fs
begin

section \<open>Blocks inside a transaction\<close>

text \<open>
  What the file system relies on when it reads and writes blocks between \<^verbatim>\<open>begin_op\<close> and
  \<^verbatim>\<open>end_op\<close>. \<open>tx s V L H D\<close>: the contents of the blocks are \<open>V\<close>, the blocks in the log are \<open>L\<close>, the
  caller has the buffers of the blocks \<open>H\<close> locked, and has changed those of \<open>D\<close> without calling
  \<^verbatim>\<open>log_write\<close> yet. Every other block is equal to its copy on disk.
\<close>

definition tx :: "'a fsst_scheme \<Rightarrow> (uint32 \<Rightarrow> block) \<Rightarrow> uint32 set \<Rightarrow> uint32 set \<Rightarrow> uint32 set \<Rightarrow> bool" where
  "tx s V L H D \<longleftrightarrow> quiet s \<and> cache_inv (ldev s) s \<and> bview (ldev s) s = V \<and> 1 \<le> outstanding s \<and>
     0 \<le> lhn s \<and> nat (lhn s) = card L \<and> card L \<le> LOGBLOCKS \<and> lhblock s ` {0..<nat (lhn s)} = L \<and>
     (\<forall>b. brefs (ldev s) (bufs s) b = (if b \<in> L then 1 else 0) + (if b \<in> H then 1 else 0)) \<and>
     (\<forall>b. blocked (ldev s) (bufs s) b \<longleftrightarrow> b \<in> H) \<and> (\<forall>b. b \<notin> L \<union> D \<longrightarrow> V b = disk s b) \<and>
     finite H \<and> D \<subseteq> H \<and> NBUF \<le> nfree (bufs s) + card (L \<union> H)"

lemma txD:
  assumes "tx s V L H D"
  shows "quiet s" "cache_inv (ldev s) s" "bview (ldev s) s = V" "1 \<le> outstanding s" "0 \<le> lhn s"
    "nat (lhn s) = card L" "card L \<le> LOGBLOCKS" "lhblock s ` {0..<nat (lhn s)} = L"
    "brefs (ldev s) (bufs s) b = (if b \<in> L then 1 else 0) + (if b \<in> H then 1 else 0)"
    "blocked (ldev s) (bufs s) b \<longleftrightarrow> b \<in> H" "b \<notin> L \<union> D \<Longrightarrow> V b = disk s b" "finite H" "D \<subseteq> H"
    "NBUF \<le> nfree (bufs s) + card (L \<union> H)" "finite L"
  using assms by (auto simp: tx_def)

text \<open>The parts of the state the block layer does not touch.\<close>

definition same_fs :: "'a fsst_scheme \<Rightarrow> 'a fsst_scheme \<Rightarrow> bool" where
  "same_fs s s' \<longleftrightarrow> sb s' = sb s \<and> inodes s' = inodes s \<and> ldev s' = ldev s"

lemma same_fs_refl [simp]: "same_fs s s"
  by (simp add: same_fs_def)

lemma same_fs_trans: "same_fs s s' \<Longrightarrow> same_fs s' s'' \<Longrightarrow> same_fs s s''"
  by (simp add: same_fs_def)

lemma same_fs_upd [simp]: "same_fs s (upd_data i f s)"
  by (simp add: same_fs_def upd_data_def)

lemma same_fsD: "same_fs s s' \<Longrightarrow> sb s' = sb s" "same_fs s s' \<Longrightarrow> inodes s' = inodes s" "same_fs s s' \<Longrightarrow> ldev s' = ldev s"
  by (simp_all add: same_fs_def)

text \<open>The handle of a locked buffer.\<close>

abbreviation bheld :: "'a fsst_scheme \<Rightarrow> uint32 \<Rightarrow> nat \<Rightarrow> bool" where
  "bheld s \<equiv> hold (ldev s) s"

lemma tx_bread:
  assumes tx: "tx s V L H D" and b: "b \<notin> H" "card (insert b (L \<union> H)) \<le> NBUF"
  shows "ok (bread (ldev s) b s) (\<lambda>i s'. tx s' V L (insert b H) D \<and> bheld s' b i \<and> same_fs s s' \<and>
    (\<forall>b' i'. bheld s b' i' \<longrightarrow> bheld s' b' i'))"
proof -
  note T = txD [OF tx]
  have fin: "finite (L \<union> H)"
    using T(12,15) by simp
  have room: "0 < brefs (ldev s) (bufs s) b \<or> 0 < nfree (bufs s)"
    using T(9) [of b] T(14) b fin by (cases "b \<in> L") (auto simp: card_insert_if)
  have cnt: "brefs (ldev s) (bufs s) b < 2 ^ 32 - 1" and free: "\<not> blocked (ldev s) (bufs s) b"
    using T(9,10) [of b] b(1) by auto
  obtain i B where B: "bread (ldev s) b s = Ret i (s\<lparr>bufs := B\<rparr>)" "cache_inv (ldev s) (s\<lparr>bufs := B\<rparr>)"
    "cabs (ldev s) (s\<lparr>bufs := B\<rparr>) = a_read b (cabs (ldev s) s)" "hold (ldev s) (s\<lparr>bufs := B\<rparr>) b i"
    "\<forall>b' i'. hold (ldev s) s b' i' \<longrightarrow> hold (ldev s) (s\<lparr>bufs := B\<rparr>) b' i'"
    by (rule bread_ok [OF T(2,1) free room cnt])
  have sel: "bview (ldev s) (s\<lparr>bufs := B\<rparr>) = V" "brefs (ldev s) B = (brefs (ldev s) (bufs s))(b := brefs (ldev s) (bufs s) b + 1)"
    "blocked (ldev s) B = (blocked (ldev s) (bufs s))(b := True)"
    "nfree B = (if brefs (ldev s) (bufs s) b = 0 then nfree (bufs s) - 1 else nfree (bufs s))"
    using B(3) T(3) by (simp_all add: cabs_def a_read_def)
  have "NBUF \<le> nfree B + card (L \<union> insert b H)"
    using T(9) [of b] T(14) sel(4) room b(1) fin by (cases "b \<in> L") (auto simp: card_insert_if insert_absorb)
  then have "tx (s\<lparr>bufs := B\<rparr>) V L (insert b H) D"
    using tx B(2) sel b(1) unfolding tx_def by (auto simp del: LOGBLOCKS_def NBUF_def)
  then show ?thesis
    using B(1,4,5) by (simp add: same_fs_def)
qed

lemma tx_data: "tx s V L H D \<Longrightarrow> bheld s b i \<Longrightarrow> bdata (bufs s i) = V b"
  using hold_data txD(2,3) by metis

lemma tx_upd:
  assumes tx: "tx s V L H D" and h: "bheld s b i" and b: "b \<in> H"
  shows "tx (upd_data i f s) (V(b := f (V b))) L H (insert b D)" "bheld s b' i' \<Longrightarrow> bheld (upd_data i f s) b' i'"
proof -
  note T = txD [OF tx]
  let ?x = "f (bdata (bufs s i))"
  note B = bset_ok [OF T(2) h, where x = ?x]
  have e: "upd_data i f s = s\<lparr>bufs := (bufs s)(i := (bufs s i)\<lparr>bdata := ?x\<rparr>)\<rparr>"
    by (simp add: upd_data_def)
  have x: "?x = f (V b)"
    using tx_data [OF tx h] by simp
  let ?B = "(bufs s)(i := (bufs s i)\<lparr>bdata := ?x\<rparr>)"
  have sel: "bview (ldev s) (s\<lparr>bufs := ?B\<rparr>) = V(b := ?x)" "brefs (ldev s) ?B = brefs (ldev s) (bufs s)"
    "blocked (ldev s) ?B = blocked (ldev s) (bufs s)" "nfree ?B = nfree (bufs s)"
    using B(2) T(3) by (simp_all add: cabs_def a_set_def)
  show "tx (upd_data i f s) (V(b := f (V b))) L H (insert b D)"
    using tx B(1) sel b unfolding tx_def e x by (auto simp del: LOGBLOCKS_def NBUF_def fun_upd_apply simp: fun_upd_other)
  show "bheld (upd_data i f s) b' i'" if "bheld s b' i'"
    using B(3) [OF that] by (simp add: e)
qed

lemma tx_brelse:
  assumes tx: "tx s V L H D" and h: "bheld s b i" and b: "b \<in> H" "b \<notin> D"
  shows "ok (brelse i s) (\<lambda>_ s'. tx s' V L (H - {b}) D \<and> same_fs s s' \<and>
    (\<forall>b' i'. b' \<noteq> b \<longrightarrow> bheld s b' i' \<longrightarrow> bheld s' b' i'))"
proof -
  note T = txD [OF tx]
  have clean: "brefs (ldev s) (bufs s) b = 1 \<Longrightarrow> bview (ldev s) s b = disk s b"
    using T(9) [of b] T(11) [of b] T(3) b by (auto split: if_splits)
  obtain B ps where B: "brelse i s = Ret () (s\<lparr>procs := ps, bufs := B\<rparr>)" "cache_inv (ldev s) (s\<lparr>procs := ps, bufs := B\<rparr>)"
    "cabs (ldev s) (s\<lparr>procs := ps, bufs := B\<rparr>) = a_relse b (cabs (ldev s) s)" "\<forall>k. pid (ps k) = pid (procs s k)"
    "\<forall>b' i'. b' \<noteq> b \<longrightarrow> hold (ldev s) s b' i' \<longrightarrow> hold (ldev s) (s\<lparr>procs := ps, bufs := B\<rparr>) b' i'"
    by (rule brelse_ok [OF T(2) h T(1) clean])
  have sel: "bview (ldev s) (s\<lparr>procs := ps, bufs := B\<rparr>) = V" "brefs (ldev s) B = (brefs (ldev s) (bufs s))(b := brefs (ldev s) (bufs s) b - 1)"
    "blocked (ldev s) B = (blocked (ldev s) (bufs s))(b := False)"
    "nfree B = (if brefs (ldev s) (bufs s) b = 1 then nfree (bufs s) + 1 else nfree (bufs s))"
    using B(3) T(3) by (simp_all add: cabs_def a_relse_def)
  have "NBUF \<le> nfree B + card (L \<union> (H - {b}))"
  proof (cases "b \<in> L")
    case True
    then have "L \<union> (H - {b}) = L \<union> H"
      by auto
    then show ?thesis
      using T(9) [of b] T(14) sel(4) b(1) True by (auto simp del: NBUF_def)
  next
    case False
    then have "L \<union> (H - {b}) = (L \<union> H) - {b}" "b \<in> L \<union> H"
      using b(1) by auto
    then have "card (L \<union> (H - {b})) = card (L \<union> H) - 1" "0 < card (L \<union> H)"
      using T(12,15) by (auto simp: card_gt_0_iff)
    then show ?thesis
      using T(9) [of b] T(14) sel(4) b(1) False by (auto simp del: NBUF_def)
  qed
  then have "tx (s\<lparr>procs := ps, bufs := B\<rparr>) V L (H - {b}) D"
    using tx B(2) sel b unfolding tx_def by (auto simp del: LOGBLOCKS_def NBUF_def)
  then show ?thesis
    using B(1,5) by (simp add: same_fs_def)
qed

lemma log_find_spec:
  "(\<exists>i < n. bl i = b) \<Longrightarrow> log_find bl b n [0..<n] < n \<and> bl (log_find bl b n [0..<n]) = b"
  "(\<forall>i < n. bl i \<noteq> b) \<Longrightarrow> log_find bl b n [0..<n] = n"
proof -
  have "(\<exists>i \<in> set xs. bl i = b) \<Longrightarrow> log_find bl b n xs \<in> set xs \<and> bl (log_find bl b n xs) = b" for xs
    by (induction xs) auto
  then show "(\<exists>i < n. bl i = b) \<Longrightarrow> log_find bl b n [0..<n] < n \<and> bl (log_find bl b n [0..<n]) = b"
    by (metis atLeastLessThan_iff atLeastLessThan_upt set_upt zero_le)
  have "(\<forall>i \<in> set xs. bl i \<noteq> b) \<Longrightarrow> log_find bl b n xs = n" for xs
    by (induction xs) auto
  then show "(\<forall>i < n. bl i \<noteq> b) \<Longrightarrow> log_find bl b n [0..<n] = n"
    by simp
qed

lemma tx_log_write:
  assumes tx: "tx s V L H D" and h: "bheld s b i" and b: "b \<in> H" and room: "card L < LOGBLOCKS"
  shows "ok (log_write i s) (\<lambda>_ s'. tx s' V (insert b L) H (D - {b}) \<and> same_fs s s' \<and>
    (\<forall>b' i'. bheld s b' i' \<longrightarrow> bheld s' b' i'))"
proof -
  note T = txD [OF tx]
  let ?n = "nat (lhn s)"
  have held: "held s = {}"
    using T(1) by (simp add: quiet_def)
  have blk: "bblockno (bufs s i) = b"
    using h by (simp add: hold_def slot_def)
  have n: "\<not> lhn s \<ge> int LOGBLOCKS" "\<not> outstanding s < 1"
    using T(4,5,6) room by auto
  show ?thesis
  proof (cases "b \<in> L")
    case True
    then have "\<exists>i < ?n. lhblock s i = b"
      using T(8) by auto
    then obtain j where j: "log_find (lhblock s) b ?n [0..<?n] = j" "j < ?n" "lhblock s j = b"
      using log_find_spec(1) by blast
    have idem: "(lhblock s)(j := b) = lhblock s"
      using j(3) by auto
    have "int j \<noteq> lhn s"
      using j(2) by auto
    then have lw: "log_write i s = Ret () (s\<lparr>lhblock := lhblock s\<rparr>)"
      using held n blk j(1) by (simp add: log_write_def Let_def idem held_id del: LOGBLOCKS_def)
    have "tx s V (insert b L) H (D - {b})"
      using tx True by (auto simp: tx_def insert_absorb simp del: LOGBLOCKS_def NBUF_def)
    then show ?thesis
      unfolding lw by simp
  next
    case False
    then have "\<forall>i < ?n. lhblock s i \<noteq> b"
      using T(8) by auto
    then have j: "log_find (lhblock s) b ?n [0..<?n] = ?n"
      by (rule log_find_spec(2))
    have nn: "int ?n = lhn s"
      using T(5) by simp
    let ?s1 = "s\<lparr>held := {Lk_log}, lhblock := (lhblock s)(?n := b)\<rparr>"
    have c1: "cabs (ldev s) ?s1 = cabs (ldev s) s" "cache_inv (ldev s) ?s1"
      using cabs_cong [of ?s1 s "ldev s"] T(2) by simp_all
    have h1: "hold (ldev s) ?s1 b' i' = hold (ldev s) s b' i'" for b' i'
      by (simp add: hold_def)
    have "brefs (ldev s) (bufs ?s1) b < 2 ^ 32 - 1" "Lk_bcache \<notin> held ?s1"
      using T(9) [of b] by simp_all
    then obtain B where B: "bpin i ?s1 = Ret () (?s1\<lparr>bufs := B\<rparr>)" "cache_inv (ldev s) (?s1\<lparr>bufs := B\<rparr>)"
      "cabs (ldev s) (?s1\<lparr>bufs := B\<rparr>) = a_pin b (cabs (ldev s) ?s1)"
      "\<forall>b' i'. hold (ldev s) ?s1 b' i' \<longrightarrow> hold (ldev s) (?s1\<lparr>bufs := B\<rparr>) b' i'"
      using bpin_ok [OF c1(2), of b i] h h1 by blast
    let ?s2 = "s\<lparr>bufs := B, lhblock := (lhblock s)(?n := b), lhn := lhn s + 1\<rparr>"
    have lw: "log_write i s = Ret () ?s2"
      using held n blk j nn B(1) by (simp add: log_write_def Let_def held_id del: LOGBLOCKS_def)
    have c2: "cabs (ldev s) ?s2 = a_pin b (cabs (ldev s) s)" "cache_inv (ldev s) ?s2"
      using cabs_cong [of ?s2 "?s1\<lparr>bufs := B\<rparr>" "ldev s"] B(2,3) c1(1) by simp_all
    have h2: "hold (ldev s) ?s2 b' i' = hold (ldev s) (?s1\<lparr>bufs := B\<rparr>) b' i'" for b' i'
      by (simp add: hold_def)
    have sel: "bview (ldev s) ?s2 = V" "brefs (ldev s) B = (brefs (ldev s) (bufs s))(b := brefs (ldev s) (bufs s) b + 1)"
      "blocked (ldev s) B = blocked (ldev s) (bufs s)" "nfree B = nfree (bufs s)"
      using c2(1) T(3) by (simp_all add: cabs_def a_pin_def)
    have suc: "nat (lhn s + 1) = Suc ?n"
      using T(5) by simp
    have L: "(\<lambda>x. if x = ?n then b else lhblock s x) ` {0..<Suc ?n} = insert b L"
    proof -
      have "(\<lambda>x. if x = ?n then b else lhblock s x) ` {0..<?n} = lhblock s ` {0..<?n}"
        by (rule image_cong) auto
      then show ?thesis
        unfolding atLeast0_lessThan_Suc image_insert using T(8) by simp
    qed
    have LH: "insert b L \<union> H = L \<union> H"
      using b by auto
    have card: "card (insert b L) = Suc (card L)"
      using False T(15) by simp
    have q: "quiet ?s2"
      using T(1) by (simp add: quiet_def)
    have refs: "brefs (ldev s) B b' = (if b' \<in> insert b L then 1 else 0) + (if b' \<in> H then 1 else 0)" for b'
      using T(9) [of b'] sel(2) False by auto
    have clean: "b' \<notin> insert b L \<union> (D - {b}) \<longrightarrow> V b' = disk s b'" for b'
      using T(11) [of b'] by auto
    have "tx ?s2 V (insert b L) H (D - {b})"
      unfolding tx_def LH card using q c2(2) sel(1,3,4) suc L T(4,5,6,10,12,13,14) room refs clean
      by (auto simp: fun_upd_def simp del: LOGBLOCKS_def NBUF_def)
    then show ?thesis
      using lw B(4) h1 h2 by (simp add: same_fs_def)
  qed
qed

text \<open>The three shapes of a block access: look, change, and change a whole block.\<close>

lemma tx_look:
  assumes tx: "tx s V L H D" and b: "b \<notin> H" "card (insert b (L \<union> H)) \<le> NBUF"
  obtains i s1 where "bread (ldev s) b s = Ret i s1" "tx s1 V L (insert b H) D" "bheld s1 b i" "same_fs s s1"
    "bdata (bufs s1 i) = V b" "\<forall>b' i'. bheld s b' i' \<longrightarrow> bheld s1 b' i'"
  using tx_bread [OF tx b] by (auto simp: ok_iff intro: that tx_data)

lemma tx_unlook:
  assumes tx: "tx s V L (insert b H) D" and h: "bheld s b i" and b: "b \<notin> H" "b \<notin> D"
  obtains s1 where "brelse i s = Ret () s1" "tx s1 V L H D" "same_fs s s1"
    "\<forall>b' i'. b' \<noteq> b \<longrightarrow> bheld s b' i' \<longrightarrow> bheld s1 b' i'"
  using tx_brelse [OF tx h _ b(2)] b(1) by (auto simp: ok_iff)

lemma tx_change:
  assumes tx: "tx s V L (insert b H) D" and h: "bheld s b i" and b: "b \<notin> H" "b \<notin> D" and room: "card L < LOGBLOCKS"
  obtains s1 s2 where "log_write i (upd_data i f s) = Ret () s1" "brelse i s1 = Ret () s2"
    "tx s1 (V(b := f (V b))) (insert b L) (insert b H) D" "bheld s1 b i" "same_fs s s1"
    "tx s2 (V(b := f (V b))) (insert b L) H D" "same_fs s s2"
    "\<forall>b' i'. bheld s b' i' \<longrightarrow> bheld s1 b' i'" "\<forall>b' i'. b' \<noteq> b \<longrightarrow> bheld s b' i' \<longrightarrow> bheld s2 b' i'"
proof -
  note u = tx_upd [OF tx h, where f = f, OF insertI1]
  have 1: "tx (upd_data i f s) (V(b := f (V b))) L (insert b H) (insert b D)" "bheld (upd_data i f s) b i"
    using u h by auto
  have D: "insert b D - {b} = D"
    using b(2) by auto
  obtain s1 where s1: "log_write i (upd_data i f s) = Ret () s1" "same_fs (upd_data i f s) s1"
      "tx s1 (V(b := f (V b))) (insert b L) (insert b H) D" "\<forall>b' i'. bheld (upd_data i f s) b' i' \<longrightarrow> bheld s1 b' i'"
    using tx_log_write [OF 1 _ room] D by (auto simp: ok_iff)
  have h1: "bheld s1 b i"
    using s1(4) 1(2) by blast
  obtain s2 where s2: "brelse i s1 = Ret () s2" "tx s2 (V(b := f (V b))) (insert b L) H D" "same_fs s1 s2"
      "\<forall>b' i'. b' \<noteq> b \<longrightarrow> bheld s1 b' i' \<longrightarrow> bheld s2 b' i'"
    by (rule tx_unlook [OF s1(3) h1 b])
  have f: "same_fs s s1"
    by (rule same_fs_trans [OF same_fs_upd s1(2)])
  show thesis
    using that [OF s1(1) s2(1) s1(3) h1 f s2(2) same_fs_trans [OF f s2(3)]] s1(4) s2(4) u(2) by blast
qed

subsection \<open>The block allocator\<close>

lemma bzero_ok:
  assumes tx: "tx s V L H D" and b: "b \<notin> H" "card (insert b (L \<union> H)) \<le> NBUF" "card L < LOGBLOCKS"
  obtains s' where "bzero (ldev s) b s = Ret () s'" "tx s' (V(b := \<lambda>_. 0)) (insert b L) H D" "same_fs s s'"
    "\<forall>b' i'. b' \<noteq> b \<longrightarrow> bheld s b' i' \<longrightarrow> bheld s' b' i'"
proof -
  obtain i s1 where 1: "bread (ldev s) b s = Ret i s1" "tx s1 V L (insert b H) D" "bheld s1 b i" "same_fs s s1"
    "\<forall>b' i'. bheld s b' i' \<longrightarrow> bheld s1 b' i'"
    by (rule tx_look [OF tx b(1,2)])
  have D: "b \<notin> D"
    using txD(13) [OF tx] b(1) by auto
  obtain s2 s3 where 2: "log_write i (upd_data i (\<lambda>_ _. 0) s1) = Ret () s2" "brelse i s2 = Ret () s3"
      "tx s3 (V(b := (\<lambda>_ _. 0) (V b))) (insert b L) H D" "same_fs s1 s3"
      "\<forall>b' i'. b' \<noteq> b \<longrightarrow> bheld s1 b' i' \<longrightarrow> bheld s3 b' i'"
    by (rule tx_change [OF 1(2,3) b(1) D b(3), of "\<lambda>_ _. 0"])
  show thesis
  proof (rule that)
    show "bzero (ldev s) b s = Ret () s3"
      by (simp add: bzero_def 1(1) 2(1,2))
    show "tx s3 (V(b := \<lambda>_. 0)) (insert b L) H D" "same_fs s s3"
      using 2(3) same_fs_trans [OF 1(4) 2(4)] by simp_all
    show "\<forall>b' i'. b' \<noteq> b \<longrightarrow> bheld s b' i' \<longrightarrow> bheld s3 b' i'"
      using 1(5) 2(5) by blast
  qed
qed

text \<open>The bitmap as a predicate on block numbers.\<close>

definition used :: "superblock \<Rightarrow> (uint32 \<Rightarrow> block) \<Rightarrow> nat \<Rightarrow> bool" where
  "used sbk V b = bit_used (V (BBLOCK b sbk)) (b mod BPB)"

lemma and_bit_iff:
  fixes w :: uint8
  assumes "n < 8"
  shows "w AND push_bit n 1 \<noteq> 0 \<longleftrightarrow> bit w n"
proof -
  have e: "bit (w AND push_bit n 1) m \<longleftrightarrow> m = n \<and> bit w n" for m
    using assms by (auto simp: bit_simps)
  show ?thesis
  proof
    assume "w AND push_bit n 1 \<noteq> 0"
    then show "bit w n"
      using e by (auto intro: bit_word_eqI)
  next
    assume "bit w n"
    then have "bit (w AND push_bit n 1) n"
      using e by blast
    then show "w AND push_bit n 1 \<noteq> 0"
      by auto
  qed
qed

lemma bit_used_iff: "bit_used x bi \<longleftrightarrow> bit (x (of_nat (bi div 8))) (bi mod 8)"
  unfolding bit_used_def by (rule and_bit_iff) simp

lemma byte_of_bit:
  assumes "bi < BPB" "bj < BPB"
  shows "of_nat (bi div 8) = (of_nat (bj div 8) :: 10 word) \<longleftrightarrow> bi div 8 = bj div 8"
proof -
  have "bi div 8 < 2 ^ 10" "bj div 8 < 2 ^ 10"
    using assms by (simp_all add: less_mult_imp_div_less)
  then have "unat (of_nat (bi div 8) :: 10 word) = bi div 8" "unat (of_nat (bj div 8) :: 10 word) = bj div 8"
    by (simp_all add: unat_of_nat10)
  then show ?thesis
    by (metis (no_types))
qed

lemma bit_eq: "bi = bj \<longleftrightarrow> bi div 8 = bj div 8 \<and> bi mod 8 = bj mod (8 :: nat)"
  by (metis div_mult_mod_eq)

lemma bit_used_mark:
  assumes "bi < BPB" "bj < BPB"
  shows "bit_used (mark_used bi x) bj \<longleftrightarrow> bj = bi \<or> bit_used x bj"
    "bit_used (mark_free bi x) bj \<longleftrightarrow> bj \<noteq> bi \<and> bit_used x bj"
  using byte_of_bit [OF assms] bit_eq [of bj bi]
  by (auto simp: bit_used_iff mark_used_def mark_free_def bit_simps)

lemma unat_of_nat32: "n < 2 ^ 32 \<Longrightarrow> unat (of_nat n :: uint32) = n"
  by (simp add: unat_of_nat take_bit_nat_eq_self)

lemma BBLOCK_eq:
  assumes "b < 2 ^ 32" "b' < 2 ^ 32"
  shows "BBLOCK b x = BBLOCK b' x \<longleftrightarrow> b div BPB = b' div BPB"
proof -
  have "b div BPB < 2 ^ 32" "b' div BPB < 2 ^ 32"
    using assms by (auto intro: order.strict_trans1 [OF div_le_dividend])
  then have "(of_nat (b div BPB) :: uint32) = of_nat (b' div BPB) \<longleftrightarrow> b div BPB = b' div BPB"
    using unat_of_nat32 by (metis (no_types))
  then show ?thesis
    by (simp add: BBLOCK_def del: BPB_def)
qed

text \<open>
  The blocks of the metadata: the boot block, the inodes and the bitmap itself. On a sane volume
  they are in range and marked in use, so that the allocator never hands them out.
\<close>

definition bmap_blk :: "superblock \<Rightarrow> uint32 \<Rightarrow> bool" where
  "bmap_blk x a \<longleftrightarrow> (\<exists>b < unat (sb_size x). a = BBLOCK b x)"

definition meta_blk :: "superblock \<Rightarrow> uint32 \<Rightarrow> bool" where
  "meta_blk x a \<longleftrightarrow> a = 0 \<or> bmap_blk x a \<or> (\<exists>i < sb_ninodes x. a = IBLOCK i x)"

definition in_use :: "superblock \<Rightarrow> (uint32 \<Rightarrow> block) \<Rightarrow> uint32 \<Rightarrow> bool" where
  "in_use x V a \<longleftrightarrow> a < sb_size x \<and> used x V (unat a)"

definition volume_ok :: "superblock \<Rightarrow> (uint32 \<Rightarrow> block) \<Rightarrow> bool" where
  "volume_ok x V \<longleftrightarrow> (\<forall>a. meta_blk x a \<longrightarrow> in_use x V a)"

text \<open>The block allocator's specification: the lowest free block, marked and zeroed.\<close>

definition first_free :: "superblock \<Rightarrow> (uint32 \<Rightarrow> block) \<Rightarrow> nat \<Rightarrow> bool" where
  "first_free x V b \<longleftrightarrow> b < unat (sb_size x) \<and> \<not> used x V b \<and> (\<forall>b' < b. used x V b')"

definition alloc_view :: "superblock \<Rightarrow> nat \<Rightarrow> (uint32 \<Rightarrow> block) \<Rightarrow> uint32 \<Rightarrow> block" where
  "alloc_view x b V = V(BBLOCK b x := mark_used (b mod BPB) (V (BBLOCK b x)), of_nat b := \<lambda>_. 0)"

lemma used_alloc_view:
  assumes ok: "volume_ok x V" and b: "b < unat (sb_size x)" "\<not> used x V b" and b': "b' < unat (sb_size x)"
  shows "used x (alloc_view x b V) b' \<longleftrightarrow> b' = b \<or> used x V b'"
proof -
  have s: "unat (sb_size x) < 2 ^ 32"
    using unsigned_less [of "sb_size x"] by simp
  have b0: "unat (of_nat b :: uint32) = b"
    using b(1) s by (simp add: unat_of_nat32)
  have ne: "BBLOCK b' x \<noteq> of_nat b"
    using ok b' b(2) b0 unfolding volume_ok_def meta_blk_def bmap_blk_def in_use_def by metis
  have bits: "b mod BPB < BPB" "b' mod BPB < BPB"
    by simp_all
  have same: "BBLOCK b' x = BBLOCK b x \<longleftrightarrow> b' div BPB = b div BPB"
    using BBLOCK_eq b(1) b' s by (meson order.strict_trans)
  show ?thesis
  proof (cases "BBLOCK b' x = BBLOCK b x")
    case True
    then have "b' mod BPB = b mod BPB \<longleftrightarrow> b' = b"
      using same by (metis div_mult_mod_eq)
    then show ?thesis
      using ne True bit_used_mark(1) [OF bits] by (simp add: used_def alloc_view_def del: BPB_def)
  next
    case False
    then show ?thesis
      using ne by (auto simp: used_def alloc_view_def simp del: BPB_def)
  qed
qed

definition allocated :: "superblock \<Rightarrow> (uint32 \<Rightarrow> block) \<Rightarrow> uint32 set \<Rightarrow> uint32 set \<Rightarrow> uint32 \<Rightarrow> 'a fsst_scheme \<Rightarrow> bool" where
  "allocated x V L H r s' \<longleftrightarrow>
     (if \<exists>k. first_free x V k
      then \<exists>k. first_free x V k \<and> r = of_nat k \<and> tx s' (alloc_view x k V) (insert r (insert (BBLOCK k x) L)) H {}
      else r = 0 \<and> tx s' V L H {})"

lemma balloc_from_ok:
  assumes "tx s V L H {}" "dev = ldev s" "BPB dvd b" "\<forall>b' < b. b' < unat (sb_size (sb s)) \<longrightarrow> used (sb s) V b'"
    "\<forall>b' < unat (sb_size (sb s)). (\<not> used (sb s) V b' \<longrightarrow> of_nat b' \<notin> H) \<and> BBLOCK b' (sb s) \<notin> H"
    "card L + 2 \<le> LOGBLOCKS" "card (L \<union> H) + 2 \<le> NBUF"
  shows "ok (balloc_from dev b s) (\<lambda>r s'. same_fs s s' \<and> (\<forall>b' i'. bheld s b' i' \<longrightarrow> b' \<in> H \<longrightarrow> bheld s' b' i') \<and>
    allocated (sb s) V L H r s')"
  using assms
proof (induction dev b s rule: balloc_from.induct)
  case (1 dev b s)
  let ?n = "unat (sb_size (sb s))" and ?m = "BBLOCK b (sb s)"
  note tx = 1(2) and dev = 1(3) and dv = 1(4) and below = 1(5) and HH = 1(6) and room = 1(7,8)
  have fin: "finite (L \<union> H)" "finite L"
    using txD(12,15) [OF tx] by simp_all
  show ?case
  proof (cases "b < ?n")
    case False
    then have "\<not> first_free (sb s) V k" for k
      using below by (auto simp: first_free_def)
    then show ?thesis
      using False tx by (subst balloc_from.simps) (simp add: allocated_def)
  next
    case b: True
    have m: "?m \<notin> H"
      using HH b by blast
    have c1: "card (insert ?m (L \<union> H)) \<le> NBUF"
      using room fin card_insert_le_m1 [of "NBUF" "L \<union> H"] by (simp add: card_insert_if)
    obtain i s1 where s1: "bread (ldev s) ?m s = Ret i s1" "tx s1 V L (insert ?m H) {}" "bheld s1 ?m i" "same_fs s s1"
      "bdata (bufs s1 i) = V ?m" "\<forall>b' i'. bheld s b' i' \<longrightarrow> bheld s1 b' i'"
      by (rule tx_look [OF tx m c1])
    note e = same_fsD [OF s1(4)]
    let ?P = "\<lambda>bi. b + bi < ?n \<and> \<not> bit_used (V ?m) bi"
    have in_blk: "used (sb s) V (b + bi) \<longleftrightarrow> bit_used (V ?m) bi" if "bi < BPB" for bi
      using dv that unfolding used_def BBLOCK_def by (auto elim!: dvdE simp del: BPB_def)
    show ?thesis
    proof (cases "find ?P [0..<BPB]")
      case (Some bi)
      then have bi: "bi < BPB" "b + bi < ?n" "\<not> bit_used (V ?m) bi" "\<forall>j < bi. \<not> ?P j"
        by (auto simp: find_Some_iff simp del: BPB_def)
      let ?k = "b + bi"
      have mk: "BBLOCK ?k (sb s) = ?m" "?k mod BPB = bi"
        using dv bi(1) unfolding BBLOCK_def by (auto elim!: dvdE simp del: BPB_def)
      have "used (sb s) V b'" if "b' < ?k" for b'
      proof (cases "b' < b")
        case False
        then obtain j where "b' = b + j" "j < bi"
          using \<open>b' < ?k\<close> by (metis le_Suc_ex linorder_not_le nat_add_left_cancel_less)
        then show ?thesis
          using in_blk [of j] bi by (auto simp del: BPB_def)
      qed (use below bi(2) \<open>b' < ?k\<close> in auto)
      then have ff: "first_free (sb s) V ?k"
        using bi in_blk [of bi] by (simp add: first_free_def del: BPB_def)
      have k: "(of_nat ?k :: uint32) \<notin> H"
        using HH bi in_blk [of bi] by blast
      obtain s2 s3 where s2: "log_write i (upd_data i (mark_used bi) s1) = Ret () s2" "brelse i s2 = Ret () s3"
        "tx s3 (V(?m := mark_used bi (V ?m))) (insert ?m L) H {}" "same_fs s1 s3"
        "\<forall>b' i'. b' \<noteq> ?m \<longrightarrow> bheld s1 b' i' \<longrightarrow> bheld s3 b' i'"
        by (rule tx_change [OF s1(2,3) m, of "mark_used bi"]) (use room in auto)
      have e3: "ldev s3 = ldev s"
        using same_fsD [OF same_fs_trans [OF s1(4) s2(4)]] by simp
      have c2: "card (insert (of_nat ?k) (insert ?m L \<union> H)) \<le> NBUF" "card (insert ?m L) < LOGBLOCKS"
        using room fin by (auto simp: card_insert_if simp del: NBUF_def LOGBLOCKS_def)
      obtain s4 where s4: "bzero (ldev s3) (of_nat ?k) s3 = Ret () s4"
        "tx s4 ((V(?m := mark_used bi (V ?m)))(of_nat ?k := \<lambda>_. 0)) (insert (of_nat ?k) (insert ?m L)) H {}" "same_fs s3 s4"
        "\<forall>b' i'. b' \<noteq> of_nat ?k \<longrightarrow> bheld s3 b' i' \<longrightarrow> bheld s4 b' i'"
        by (rule bzero_ok [OF s2(3) k c2])
      have run: "balloc_from dev b s = Ret (of_nat ?k) s4"
        using b Some s1(1,5) s2(1,2) s4(1) e e3 dev by (subst balloc_from.simps) (simp del: BPB_def of_nat_add)
      have keep: "bheld s4 b' i'" if "bheld s b' i'" "b' \<in> H" for b' i'
        using that s1(6) s2(5) s4(4) m k by metis
      have fs: "same_fs s s4"
        using same_fs_trans [OF same_fs_trans [OF s1(4) s2(4)] s4(3)] .
      show ?thesis
        unfolding run using ff fs keep s4(2) mk by (auto simp: allocated_def alloc_view_def simp del: BPB_def of_nat_add)
    next
      case None
      then have no: "\<not> ?P bi" if "bi < BPB" for bi
        using that by (auto simp: find_None_iff simp del: BPB_def)
      obtain s2 where s2: "brelse i s1 = Ret () s2" "tx s2 V L H {}" "same_fs s1 s2"
        "\<forall>b' i'. b' \<noteq> ?m \<longrightarrow> bheld s1 b' i' \<longrightarrow> bheld s2 b' i'"
        by (rule tx_unlook [OF s1(2,3) m]) simp
      have fs: "same_fs s s2"
        using same_fs_trans [OF s1(4) s2(3)] .
      note e2 = same_fsD [OF fs]
      have run: "balloc_from dev b s = balloc_from dev (b + BPB) s2"
        using b None s1(1,5) s2(1) e dev by (subst balloc_from.simps) (simp del: BPB_def)
      have "used (sb s) V b'" if "b' < b + BPB" "b' < ?n" for b'
      proof (cases "b' < b")
        case False
        then obtain j where "b' = b + j" "j < BPB"
          using \<open>b' < b + BPB\<close> by (metis le_Suc_ex linorder_not_le nat_add_left_cancel_less)
        then show ?thesis
          using in_blk no \<open>b' < ?n\<close> by blast
      qed (use below \<open>b' < ?n\<close> in auto)
      moreover have "BPB dvd b + BPB"
        using dv by simp
      moreover have "find (\<lambda>bi. b + bi < unat (sb_size (sb s1)) \<and> \<not> bit_used (bdata (bufs s1 i)) bi) [0..<BPB] = None"
        using None s1(5) e by simp
      ultimately have "ok (balloc_from dev (b + BPB) s2) (\<lambda>r s'. same_fs s2 s' \<and> (\<forall>b' i'. bheld s2 b' i' \<longrightarrow> b' \<in> H \<longrightarrow> bheld s' b' i') \<and>
        allocated (sb s) V L H r s')"
        using 1(1) [OF b _ _ s2(1)] s1(1) dev s2(2) HH room unfolding e2 by blast
      moreover have "bheld s2 b' i'" if "bheld s b' i'" "b' \<in> H" for b' i'
        using that s1(6) s2(4) m by metis
      ultimately show ?thesis
        unfolding run using same_fs_trans [OF fs] by (auto elim!: ok_mono)
    qed
  qed
qed

lemma balloc_ok:
  assumes tx: "tx s V L H {}" and H: "\<forall>a \<in> H. in_use (sb s) V a \<and> \<not> bmap_blk (sb s) a"
    and room: "card L + 2 \<le> LOGBLOCKS" "card (L \<union> H) + 2 \<le> NBUF"
  shows "ok (balloc (ldev s) s) (\<lambda>r s'. same_fs s s' \<and> (\<forall>b' i'. bheld s b' i' \<longrightarrow> b' \<in> H \<longrightarrow> bheld s' b' i') \<and>
    allocated (sb s) V L H r s')"
  unfolding balloc_def
proof (rule balloc_from_ok [OF tx refl _ _ _ room])
  have "(\<not> used (sb s) V b \<longrightarrow> of_nat b \<notin> H) \<and> BBLOCK b (sb s) \<notin> H" if b: "b < unat (sb_size (sb s))" for b
  proof
    show "BBLOCK b (sb s) \<notin> H"
      using H b unfolding bmap_blk_def by blast
    have "unat (of_nat b :: uint32) = b"
      using b unat32_less [of "sb_size (sb s)"] by (intro unat_of_nat32) simp
    then show "\<not> used (sb s) V b \<longrightarrow> of_nat b \<notin> H"
      using H unfolding in_use_def by metis
  qed
  then show "\<forall>b' < unat (sb_size (sb s)). (\<not> used (sb s) V b' \<longrightarrow> of_nat b' \<notin> H) \<and> BBLOCK b' (sb s) \<notin> H"
    by blast
qed simp_all

text \<open>What a client of the allocator sees of a block it got.\<close>

lemma first_freeD:
  assumes "first_free x V k"
  shows "unat (of_nat k :: uint32) = k" "of_nat k < sb_size x" "\<not> in_use x V (of_nat k)" "k < unat (sb_size x)" "\<not> used x V k"
proof -
  have k: "k < unat (sb_size x)" "\<not> used x V k"
    using assms by (simp_all add: first_free_def)
  then show u: "unat (of_nat k :: uint32) = k"
    using unat32_less [of "sb_size x"] by (intro unat_of_nat32) simp
  show "of_nat k < sb_size x" "\<not> in_use x V (of_nat k)"
    using k u by (simp_all add: in_use_def word_less_nat_alt)
  show "k < unat (sb_size x)" "\<not> used x V k"
    by (fact k)+
qed

lemma alloc_view_use:
  assumes ok: "volume_ok x V" and k: "first_free x V k"
  shows "in_use x (alloc_view x k V) a \<longleftrightarrow> a = of_nat k \<or> in_use x V a" "volume_ok x (alloc_view x k V)"
    "(of_nat k :: uint32) \<noteq> 0" "\<not> meta_blk x (of_nat k)" "alloc_view x k V (of_nat k) = (\<lambda>_. 0)"
    "\<not> bmap_blk x a \<Longrightarrow> a \<noteq> of_nat k \<Longrightarrow> alloc_view x k V a = V a"
proof -
  note f = first_freeD [OF k]
  show u: "in_use x (alloc_view x k V) a \<longleftrightarrow> a = of_nat k \<or> in_use x V a" for a
    using used_alloc_view [OF ok f(4,5), of "unat a"] f(1,2) by (auto simp: in_use_def word_less_nat_alt word_unat_eq_iff)
  then show "volume_ok x (alloc_view x k V)"
    using ok by (simp add: volume_ok_def)
  show m: "\<not> meta_blk x (of_nat k)"
    using f(3) ok by (auto simp: volume_ok_def)
  then show "(of_nat k :: uint32) \<noteq> 0"
    by (auto simp: meta_blk_def)
  show "alloc_view x k V (of_nat k) = (\<lambda>_. 0)"
    by (simp add: alloc_view_def)
  show "\<not> bmap_blk x a \<Longrightarrow> a \<noteq> of_nat k \<Longrightarrow> alloc_view x k V a = V a"
    using f(4) by (auto simp: alloc_view_def bmap_blk_def)
qed

lemma used_free_view:
  assumes b: "b < unat (sb_size x)" "b' < unat (sb_size x)"
  shows "used x (V(BBLOCK b x := mark_free (b mod BPB) (V (BBLOCK b x)))) b' \<longleftrightarrow> b' \<noteq> b \<and> used x V b'"
proof (cases "BBLOCK b' x = BBLOCK b x")
  case True
  have "b < 2 ^ 32" "b' < 2 ^ 32"
    using b unat32_less [of "sb_size x"] by linarith+
  then have "b' mod BPB = b mod BPB \<longleftrightarrow> b' = b"
    using True BBLOCK_eq by (metis div_mult_mod_eq)
  moreover have "b mod BPB < BPB" "b' mod BPB < BPB"
    by simp_all
  ultimately show ?thesis
    using True bit_used_mark(2) [of "b mod BPB" "b' mod BPB"] by (simp add: used_def del: BPB_def)
next
  case False
  then show ?thesis
    by (auto simp: used_def simp del: BPB_def)
qed

lemma bfree_ok:
  assumes tx: "tx s V L H {}" and a: "in_use (sb s) V a" and H: "\<forall>a \<in> H. \<not> bmap_blk (sb s) a"
    and room: "card L < LOGBLOCKS" "card (L \<union> H) < NBUF"
  obtains s' where "bfree (ldev s) a s = Ret () s'" "same_fs s s'"
    "tx s' (V(BBLOCK (unat a) (sb s) := mark_free (unat a mod BPB) (V (BBLOCK (unat a) (sb s))))) (insert (BBLOCK (unat a) (sb s)) L) H {}"
    "\<forall>b' i'. bheld s b' i' \<longrightarrow> b' \<in> H \<longrightarrow> bheld s' b' i'"
proof -
  let ?m = "BBLOCK (unat a) (sb s)"
  have m: "?m \<notin> H"
    using H a by (auto simp: bmap_blk_def in_use_def word_less_nat_alt)
  have c: "card (insert ?m (L \<union> H)) \<le> NBUF"
    using room(2) card_insert_le_m1 [of NBUF "L \<union> H" ?m] by (simp add: card_insert_if)
  obtain i s1 where s1: "bread (ldev s) ?m s = Ret i s1" "tx s1 V L (insert ?m H) {}" "bheld s1 ?m i" "same_fs s s1"
    "bdata (bufs s1 i) = V ?m" "\<forall>b' i'. bheld s b' i' \<longrightarrow> bheld s1 b' i'"
    by (rule tx_look [OF tx m c])
  obtain s2 s3 where s2: "log_write i (upd_data i (mark_free (unat a mod BPB)) s1) = Ret () s2" "brelse i s2 = Ret () s3"
      "tx s3 (V(?m := mark_free (unat a mod BPB) (V ?m))) (insert ?m L) H {}" "same_fs s1 s3"
      "\<forall>b' i'. b' \<noteq> ?m \<longrightarrow> bheld s1 b' i' \<longrightarrow> bheld s3 b' i'"
    by (rule tx_change [OF s1(2,3) m, of "mark_free (unat a mod BPB)"]) (use room in auto)
  have "bit_used (V ?m) (unat a mod BPB)"
    using a by (simp add: in_use_def used_def)
  then have "bfree (ldev s) a s = Ret () s3"
    using s1(1,5) s2(1,2) by (simp add: bfree_def Let_def)
  then show thesis
    using that s2(3) same_fs_trans [OF s1(4) s2(4)] s1(6) s2(5) m by metis
qed

lemma bfree_panics:
  assumes tx: "tx s V L H {}" and a: "a < sb_size (sb s)" "\<not> in_use (sb s) V a" and H: "\<forall>a \<in> H. \<not> bmap_blk (sb s) a"
    and room: "card (L \<union> H) < NBUF"
  shows "bfree (ldev s) a s = Panic ''freeing free block''"
proof -
  let ?m = "BBLOCK (unat a) (sb s)"
  have m: "?m \<notin> H"
    using H a by (auto simp: bmap_blk_def word_less_nat_alt)
  have c: "card (insert ?m (L \<union> H)) \<le> NBUF"
    using room card_insert_le_m1 [of NBUF "L \<union> H" ?m] by (simp add: card_insert_if)
  obtain i s1 where s1: "bread (ldev s) ?m s = Ret i s1" "bdata (bufs s1 i) = V ?m"
    by (rule tx_look [OF tx m c])
  then show ?thesis
    using a by (simp add: bfree_def Let_def in_use_def used_def)
qed

subsection \<open>A volume for the examples\<close>

definition boot_fs :: "(uint32 \<Rightarrow> block) \<Rightarrow> superblock \<Rightarrow> (nat \<Rightarrow> inode) \<Rightarrow> fsst" where
  "boot_fs dk x t = logst.extend (boot_log\<lparr>outstanding := 1, disk := dk\<rparr>) (fsst.fields x t)"

lemma boot_fs_sel:
  "bufs (boot_fs dk x t) = bufs boot_cache" "disk (boot_fs dk x t) = dk" "held (boot_fs dk x t) = {}"
  "myproc (boot_fs dk x t) = Some 0" "ldev (boot_fs dk x t) = 1" "outstanding (boot_fs dk x t) = 1" "lhn (boot_fs dk x t) = 0"
  "sb (boot_fs dk x t) = x" "inodes (boot_fs dk x t) = t"
  using boot_log_sel by (simp_all add: boot_fs_def boot_log_def logst.defs fsst.defs bcache.defs)

lemma boot_fs_tx: "tx (boot_fs dk x t) dk {} {} {}"
proof -
  let ?s = "boot_fs dk x t"
  have slot: "bslot 1 (bufs ?s) b = None" for b
    using bslot_None [of 1 "bufs ?s" b] by (simp add: slot_def boot_fs_sel boot_cache_sel(3))
  have "cache_inv 1 ?s"
    unfolding cache_inv_def using boot_cache_sel(1)
    by (auto simp: slot_def boot_fs_sel boot_cache_sel(3,8) initsleeplock_def simp del: NBUF_def)
  moreover have "bview 1 ?s = dk" "brefs 1 (bufs ?s) b = 0" "\<not> blocked 1 (bufs ?s) b" for b
    using slot by (auto simp: bview_def brefs_def blocked_def boot_fs_sel)
  moreover have "nfree (bufs ?s) = NBUF"
    by (simp add: nfree_def boot_fs_sel boot_cache_sel(2))
  ultimately show ?thesis
    by (simp add: tx_def quiet_def boot_fs_sel)
qed

text \<open>A volume of eight blocks: block 1 is the bitmap, block 2 holds the inodes.\<close>

definition tiny_sb :: superblock where
  "tiny_sb = \<lparr>sb_magic = FSMAGIC, sb_size = 8, sb_nblocks = 5, sb_ninodes = 4, sb_nlog = 0, sb_logstart = 0,
     sb_inodestart = 2, sb_bmapstart = 1\<rparr>"

definition tiny_disk :: "uint32 \<Rightarrow> block" where
  "tiny_disk b i = (if b = 1 then (if i = 0 then 0b00000111 else 0) else 9)"

definition blank_inode :: inode where
  "blank_inode = \<lparr>idev = 0, inum = 0, iref = 0, islock = initsleeplock, ivalid = False, itype = 0, imajor = 0, iminor = 0,
     inlink = 0, isize = 0, iaddrs = \<lambda>_. 0\<rparr>"

definition tiny_fs :: fsst where
  "tiny_fs = boot_fs tiny_disk tiny_sb (\<lambda>_. blank_inode)"

lemmas tiny_fs_sel = boot_fs_sel [of tiny_disk tiny_sb "\<lambda>_. blank_inode", folded tiny_fs_def]
lemmas tiny_fs_tx = boot_fs_tx [of tiny_disk tiny_sb "\<lambda>_. blank_inode", folded tiny_fs_def]

lemma tiny_sb_sel: "sb_size tiny_sb = 8" "sb_ninodes tiny_sb = 4" "sb_inodestart tiny_sb = 2" "sb_bmapstart tiny_sb = 1"
  by (simp_all add: tiny_sb_def)

lemma tiny_used: "b < 8 \<Longrightarrow> used tiny_sb tiny_disk b \<longleftrightarrow> b < 3"
proof -
  have "b < 8 \<Longrightarrow> b div 8192 = 0 \<and> b mod 8192 = b \<and> b div 8 = 0 \<and> b mod 8 = b"
    by simp
  moreover have "n < 8 \<Longrightarrow> bit (7 :: uint8) n \<longleftrightarrow> n < 3" for n
    using bit_mask_iff [where 'a = uint8, of 3 n] by (simp add: mask_eq_exp_minus_1)
  ultimately show "b < 8 \<Longrightarrow> used tiny_sb tiny_disk b \<longleftrightarrow> b < 3"
    by (simp add: used_def BBLOCK_def bit_used_iff tiny_disk_def tiny_sb_def)
qed

lemma tiny_volume: "volume_ok tiny_sb tiny_disk"
proof -
  have "unat i div 16 = 0" if "i < 4" for i :: uint32
    using that by (simp add: word_less_nat_alt)
  then have "meta_blk tiny_sb a \<Longrightarrow> a = 0 \<or> a = 1 \<or> a = 2" for a
    by (auto simp: meta_blk_def bmap_blk_def BBLOCK_def IBLOCK_def tiny_sb_sel)
  moreover have "in_use tiny_sb tiny_disk a" if "a = 0 \<or> a = 1 \<or> a = 2" for a
    using that tiny_used [of 0] tiny_used [of 1] tiny_used [of 2] by (auto simp: in_use_def tiny_sb_sel)
  ultimately show ?thesis
    by (simp add: volume_ok_def)
qed

text \<open>
  C23: \<^verbatim>\<open>balloc\<close> gives the lowest free block of the volume, marks it and no other block as in use,
  fills it with zeros, leaves every block but it and its bitmap block as it was, and logs both. When
  no block is free it gives 0 and changes nothing.
\<close>

theorem balloc_correct:
  assumes "tx s V L {} {}" and ok: "volume_ok (sb s) V" and "card L + 2 \<le> LOGBLOCKS"
  shows "\<exists>r s'. balloc (ldev s) s = Ret r s' \<and> same_fs s s' \<and>
    (if \<exists>b < unat (sb_size (sb s)). \<not> used (sb s) V b
     then \<exists>b V'. first_free (sb s) V b \<and> unat r = b \<and> r \<noteq> 0 \<and> tx s' V' (insert r (insert (BBLOCK b (sb s)) L)) {} {} \<and>
       V' r = (\<lambda>_. 0) \<and> (\<forall>b' < unat (sb_size (sb s)). used (sb s) V' b' = (b' = b \<or> used (sb s) V b')) \<and>
       (\<forall>c. c \<noteq> r \<and> c \<noteq> BBLOCK b (sb s) \<longrightarrow> V' c = V c)
     else r = 0 \<and> tx s' V L {} {})"
proof -
  have "card (L \<union> {}) + 2 \<le> NBUF"
    using assms(3) by simp
  then obtain r s' where s': "balloc (ldev s) s = Ret r s'" "same_fs s s'" "allocated (sb s) V L {} r s'"
    using balloc_ok [OF assms(1) _ assms(3)] by (auto simp: ok_iff simp del: LOGBLOCKS_def NBUF_def)
  show ?thesis
  proof (cases "\<exists>k. first_free (sb s) V k")
    case True
    then obtain k where k: "first_free (sb s) V k" "r = of_nat k"
        "tx s' (alloc_view (sb s) k V) (insert r (insert (BBLOCK k (sb s)) L)) {} {}"
      using s'(3) by (auto simp: allocated_def)
    note f = first_freeD [OF k(1)]
    have some: "\<exists>b < unat (sb_size (sb s)). \<not> used (sb s) V b"
      using f(4,5) by blast
    have other: "\<forall>c. c \<noteq> r \<and> c \<noteq> BBLOCK k (sb s) \<longrightarrow> alloc_view (sb s) k V c = V c"
      by (simp add: alloc_view_def k(2))
    have rest: "first_free (sb s) V k \<and> unat r = k \<and> r \<noteq> 0 \<and> alloc_view (sb s) k V r = (\<lambda>_. 0)"
      using k(1,2) f(1) alloc_view_use(3,5) [OF ok k(1)] by simp
    have "\<forall>b' < unat (sb_size (sb s)). used (sb s) (alloc_view (sb s) k V) b' = (b' = k \<or> used (sb s) V b')"
      using used_alloc_view [OF ok f(4,5)] by blast
    then have "\<exists>b V'. first_free (sb s) V b \<and> unat r = b \<and> r \<noteq> 0 \<and> tx s' V' (insert r (insert (BBLOCK b (sb s)) L)) {} {} \<and>
       V' r = (\<lambda>_. 0) \<and> (\<forall>b' < unat (sb_size (sb s)). used (sb s) V' b' = (b' = b \<or> used (sb s) V b')) \<and>
       (\<forall>c. c \<noteq> r \<and> c \<noteq> BBLOCK b (sb s) \<longrightarrow> V' c = V c)"
      using k(3) other rest by (intro exI [of _ k] exI [of _ "alloc_view (sb s) k V"]) blast
    then show ?thesis
      using s'(1,2) some by simp
  next
    case False
    have "used (sb s) V b" if "b < unat (sb_size (sb s))" for b
      using that
    proof (induction b rule: less_induct)
      case (less b)
      then show ?case
        using False unfolding first_free_def by (meson order.strict_trans)
    qed
    then show ?thesis
      using False s' by (auto simp: allocated_def)
  qed
qed

theorem balloc_correct_witness:
  "\<exists>s'. balloc 1 tiny_fs = Ret 3 s' \<and> bview 1 s' 3 = (\<lambda>_. 0) \<and> bview 1 s' 4 = (\<lambda>_. 9)"
proof -
  let ?s = tiny_fs
  have "\<exists>b < unat (sb_size tiny_sb). \<not> used tiny_sb tiny_disk b"
    using tiny_used [of 3] by (intro exI [of _ 3]) (simp add: tiny_sb_def)
  moreover from balloc_correct [of ?s tiny_disk "{}"] tiny_fs_tx tiny_volume
  obtain r s' where "balloc 1 ?s = Ret r s'" "same_fs ?s s'" "if \<exists>b < unat (sb_size tiny_sb). \<not> used tiny_sb tiny_disk b
     then \<exists>b V'. first_free tiny_sb tiny_disk b \<and> unat r = b \<and> r \<noteq> 0 \<and> tx s' V' (insert r (insert (BBLOCK b tiny_sb) {})) {} {} \<and>
       V' r = (\<lambda>_. 0) \<and> (\<forall>b' < unat (sb_size tiny_sb). used tiny_sb V' b' = (b' = b \<or> used tiny_sb tiny_disk b')) \<and>
       (\<forall>c. c \<noteq> r \<and> c \<noteq> BBLOCK b tiny_sb \<longrightarrow> V' c = tiny_disk c)
     else r = 0 \<and> tx s' tiny_disk {} {} {}"
    unfolding tiny_fs_sel by (auto simp del: if_split)
  ultimately obtain b V' where V': "balloc 1 ?s = Ret r s'" "same_fs ?s s'" "first_free tiny_sb tiny_disk b" "unat r = b"
      "tx s' V' (insert r (insert (BBLOCK b tiny_sb) {})) {} {}" "V' r = (\<lambda>_. 0)" "\<forall>c. c \<noteq> r \<and> c \<noteq> BBLOCK b tiny_sb \<longrightarrow> V' c = tiny_disk c"
    by auto
  have "b = 3"
  proof (rule ccontr)
    assume "b \<noteq> 3"
    then show False
      using V'(3) tiny_used [of b] tiny_used [of 3] by (cases "b < 3") (auto simp: first_free_def tiny_sb_def)
  qed
  then have "r = 3"
    using V'(4) by (simp add: word_unat_eq_iff)
  moreover have "ldev s' = 1"
    using same_fsD(3) [OF V'(2)] by (simp add: tiny_fs_sel)
  ultimately show ?thesis
    using V'(1,6,7) txD(3) [OF V'(5)] by (auto simp: BBLOCK_def tiny_sb_def tiny_disk_def \<open>b = 3\<close>)
qed

text \<open>
  C24: \<^verbatim>\<open>bfree\<close> takes the mark off the block it is given and off no other block, changes nothing but
  the block's bitmap block, and panics when the block is free already.
\<close>

theorem bfree_correct:
  assumes tx: "tx s V L {} {}" and a: "a < sb_size (sb s)" and room: "card L < LOGBLOCKS"
  shows "if used (sb s) V (unat a)
    then \<exists>s' V'. bfree (ldev s) a s = Ret () s' \<and> same_fs s s' \<and> tx s' V' (insert (BBLOCK (unat a) (sb s)) L) {} {} \<and>
      (\<forall>b < unat (sb_size (sb s)). used (sb s) V' b = (b \<noteq> unat a \<and> used (sb s) V b)) \<and>
      (\<forall>c. c \<noteq> BBLOCK (unat a) (sb s) \<longrightarrow> V' c = V c)
    else bfree (ldev s) a s = Panic ''freeing free block''"
proof -
  have nb: "card (L \<union> {}) < NBUF"
    using room by simp
  show ?thesis
  proof (cases "used (sb s) V (unat a)")
    case True
    have "in_use (sb s) V a"
      using True a by (simp add: in_use_def)
    then obtain s' where s': "bfree (ldev s) a s = Ret () s'" "same_fs s s'"
      "tx s' (V(BBLOCK (unat a) (sb s) := mark_free (unat a mod BPB) (V (BBLOCK (unat a) (sb s))))) (insert (BBLOCK (unat a) (sb s)) L) {} {}"
      by (rule bfree_ok [OF tx _ _ room nb]) auto
    moreover have "unat a < unat (sb_size (sb s))"
      using a by (simp add: word_less_nat_alt)
    ultimately show ?thesis
      using True used_free_view by auto
  next
    case False
    then show ?thesis
      using bfree_panics [OF tx a _ _ nb] by (simp add: in_use_def)
  qed
qed

theorem bfree_correct_witness:
  "bfree 1 5 tiny_fs = Panic ''freeing free block'' \<and>
   (\<exists>s'. bfree 1 2 tiny_fs = Ret () s')"
proof -
  have "(5 :: uint32) < sb_size tiny_sb" "(2 :: uint32) < sb_size tiny_sb"
    by (simp_all add: tiny_sb_def)
  then show ?thesis
    using bfree_correct [OF tiny_fs_tx, of 5] bfree_correct [OF tiny_fs_tx, of 2]
      tiny_used [of 5] tiny_used [of 2] by (auto simp: tiny_fs_sel split: if_splits)
qed

end
