(* ===== verification/FsData.thy ===== *)
theory FsData
  imports FsTx
begin

section \<open>The contents of files\<close>

text \<open>
  \<^verbatim>\<open>bmap\<close>, \<^verbatim>\<open>readi\<close> and \<^verbatim>\<open>writei\<close> against an abstract file: \<open>fblk V ip n\<close> is the disk block that holds
  block \<open>n\<close> of the file, found through the direct addresses of the inode or through its indirect
  block, and \<open>file_ok\<close> says that the blocks of a file are its own.
\<close>

subsection \<open>The block map of an inode\<close>

definition ind :: "inode \<Rightarrow> uint32" where
  "ind ip = iaddrs ip NDIRECT"

definition fblk :: "(uint32 \<Rightarrow> block) \<Rightarrow> inode \<Rightarrow> nat \<Rightarrow> uint32" where
  "fblk V ip n =
     (if n < NDIRECT then iaddrs ip n
      else if ind ip = 0 then 0
      else get32 (V (ind ip)) (4 * (n - NDIRECT)))"

definition data_blk :: "superblock \<Rightarrow> (uint32 \<Rightarrow> block) \<Rightarrow> uint32 \<Rightarrow> bool" where
  "data_blk x V a \<longleftrightarrow> in_use x V a \<and> \<not> meta_blk x a"

text \<open>\<open>own P F d\<close>: a block map \<open>F\<close> with the indirect block \<open>d\<close> uses blocks in \<open>P\<close>, none of them twice.\<close>

definition own :: "(uint32 \<Rightarrow> bool) \<Rightarrow> (nat \<Rightarrow> uint32) \<Rightarrow> uint32 \<Rightarrow> bool" where
  "own P F d \<longleftrightarrow> (\<forall>n < MAXFILE. F n \<noteq> 0 \<longrightarrow> P (F n) \<and> F n \<noteq> d) \<and> (d \<noteq> 0 \<longrightarrow> P d) \<and>
     (\<forall>n < MAXFILE. \<forall>m < MAXFILE. F n \<noteq> 0 \<longrightarrow> F n = F m \<longrightarrow> n = m)"

definition file_ok :: "superblock \<Rightarrow> (uint32 \<Rightarrow> block) \<Rightarrow> inode \<Rightarrow> bool" where
  "file_ok x V ip \<longleftrightarrow> own (data_blk x V) (fblk V ip) (ind ip)"

lemma own_add:
  assumes "own P F d" "\<not> P k"
  shows "own (\<lambda>a. a = k \<or> P a) (F(n := k)) d" "d = 0 \<Longrightarrow> own (\<lambda>a. a = k \<or> P a) F k"
  using assms unfolding own_def by (auto simp del: MAXFILE_def)

lemma own_cong: "(\<And>a. P a = P' a) \<Longrightarrow> (\<And>n. n < MAXFILE \<Longrightarrow> F n = F' n) \<Longrightarrow> own P F d = own P' F' d"
  unfolding own_def by (simp del: MAXFILE_def)

lemma file_okD:
  assumes "file_ok x V ip"
  shows "n < MAXFILE \<Longrightarrow> fblk V ip n \<noteq> 0 \<Longrightarrow> data_blk x V (fblk V ip n) \<and> fblk V ip n \<noteq> ind ip"
    "ind ip \<noteq> 0 \<Longrightarrow> data_blk x V (ind ip)"
    "n < MAXFILE \<Longrightarrow> m < MAXFILE \<Longrightarrow> fblk V ip n \<noteq> 0 \<Longrightarrow> fblk V ip n = fblk V ip m \<Longrightarrow> n = m"
  using assms unfolding file_ok_def own_def by blast+

lemma data_blkD:
  assumes "data_blk x V a"
  shows "in_use x V a" "\<not> bmap_blk x a" "\<not> meta_blk x a"
  using assms by (simp_all add: data_blk_def meta_blk_def)

definition set_addr :: "nat \<Rightarrow> uint32 \<Rightarrow> inode \<Rightarrow> inode" where
  "set_addr n a ip = ip\<lparr>iaddrs := (iaddrs ip)(n := a)\<rparr>"

lemma set_addr_sel [simp]:
  "iaddrs (set_addr n a ip) = (iaddrs ip)(n := a)" "idev (set_addr n a ip) = idev ip" "inum (set_addr n a ip) = inum ip"
  "isize (set_addr n a ip) = isize ip" "ind (set_addr n a ip) = (if n = NDIRECT then a else ind ip)"
  by (auto simp: set_addr_def ind_def)

text \<open>Adding the block \<open>k\<close>, just allocated, to a file.\<close>

lemma data_blk_alloc:
  assumes "volume_ok x V" "first_free x V k"
  shows "data_blk x (alloc_view x k V) a \<longleftrightarrow> a = of_nat k \<or> data_blk x V a" "\<not> data_blk x V (of_nat k)"
  using alloc_view_use [OF assms] first_freeD [OF assms(2)] by (auto simp: data_blk_def)

lemma alloc_keeps:
  assumes "volume_ok x V" "first_free x V k" "data_blk x V a"
  shows "alloc_view x k V a = V a" "a \<noteq> of_nat k"
proof -
  show "a \<noteq> of_nat k"
    using data_blk_alloc(2) [OF assms(1,2)] assms(3) by blast
  then show "alloc_view x k V a = V a"
    using alloc_view_use(6) [OF assms(1,2)] data_blkD(2) [OF assms(3)] by blast
qed

lemma fblk_alloc:
  assumes "volume_ok x V" "file_ok x V ip" "first_free x V k"
  shows "fblk (alloc_view x k V) ip n = fblk V ip n"
  using alloc_keeps [OF assms(1,3) file_okD(2) [OF assms(2)]] by (simp add: fblk_def)

lemma file_ok_alloc:
  assumes v: "volume_ok x V" and f: "file_ok x V ip" and k: "first_free x V k" and e: "\<And>n. n < MAXFILE \<Longrightarrow> fblk V' ip' n = F n"
    and P: "\<And>a. data_blk x V' a = data_blk x (alloc_view x k V) a"
    and F: "F = fblk V ip \<and> ind ip = 0 \<and> ind ip' = of_nat k \<or> F = (fblk V ip)(bn := of_nat k) \<and> ind ip' = ind ip"
  shows "file_ok x V' ip'"
proof -
  have o: "own (data_blk x V) (fblk V ip) (ind ip)"
    using f by (simp add: file_ok_def)
  have "own (\<lambda>a. a = of_nat k \<or> data_blk x V a) F (ind ip')"
    using F own_add [OF o data_blk_alloc(2) [OF v k]] by auto
  then show ?thesis
    unfolding file_ok_def using own_cong [of "data_blk x V'" "\<lambda>a. a = of_nat k \<or> data_blk x V a" "fblk V' ip'" F]
      P data_blk_alloc(1) [OF v k] e by blast
qed

text \<open>What one call of \<^verbatim>\<open>bmap\<close> may do to a file and to the volume.\<close>

definition full :: "superblock \<Rightarrow> (uint32 \<Rightarrow> block) \<Rightarrow> bool" where
  "full x V \<longleftrightarrow> (\<forall>b < unat (sb_size x). used x V b)"

definition grown :: "superblock \<Rightarrow> (uint32 \<Rightarrow> block) \<Rightarrow> inode \<Rightarrow> nat \<Rightarrow> uint32 \<Rightarrow> (uint32 \<Rightarrow> block) \<Rightarrow> inode \<Rightarrow> bool" where
  "grown x V ip bn r V' ip' \<longleftrightarrow> volume_ok x V' \<and> file_ok x V' ip' \<and> ip' = ip\<lparr>iaddrs := iaddrs ip'\<rparr> \<and>
     (\<forall>n < MAXFILE. fblk V' ip' n = (if n = bn then r else fblk V ip n)) \<and> (fblk V ip bn \<noteq> 0 \<longrightarrow> r = fblk V ip bn) \<and>
     (\<forall>a. in_use x V a \<longrightarrow> in_use x V' a \<and> (\<not> bmap_blk x a \<longrightarrow> a \<noteq> ind ip' \<longrightarrow> V' a = V a)) \<and>
     (fblk V ip bn = 0 \<longrightarrow> r \<noteq> 0 \<longrightarrow> V' r = (\<lambda>_. 0)) \<and> (r = 0 \<longrightarrow> full x V') \<and>
     (ind ip' = ind ip \<or> ind ip = 0 \<and> bn \<ge> NDIRECT)"

lemma grown_refl:
  assumes "volume_ok x V" "file_ok x V ip" "fblk V ip bn = r" "r = 0 \<longrightarrow> full x V"
  shows "grown x V ip bn r V ip"
  using assms by (auto simp: grown_def)

lemma grown_direct:
  assumes v: "volume_ok x V" and f: "file_ok x V ip" and k: "first_free x V k" and bn: "bn < NDIRECT" "iaddrs ip bn = 0"
  shows "grown x V ip bn (of_nat k) (alloc_view x k V) (set_addr bn (of_nat k) ip)"
proof -
  let ?V = "alloc_view x k V" and ?ip = "set_addr bn (of_nat k) ip"
  have i: "ind ?ip = ind ip"
    using bn(1) by simp
  have e: "fblk ?V ?ip n = ((fblk V ip)(bn := of_nat k)) n" for n
    using fblk_alloc [OF v f k, of n] bn(1) i by (auto simp: fblk_def)
  have ok: "file_ok x ?V ?ip"
    by (rule file_ok_alloc [OF v f k, of ?V ?ip "(fblk V ip)(bn := of_nat k)" bn]) (simp_all only: e i, simp_all)
  have z: "fblk V ip bn = 0"
    using bn by (simp add: fblk_def)
  show ?thesis
    unfolding grown_def i using ok e z alloc_view_use [OF v k] bn first_freeD(3) [OF k]
    by (auto simp: set_addr_def)
qed

lemma in_use_cong:
  assumes "\<And>a. bmap_blk x a \<Longrightarrow> V' a = V a"
  shows "in_use x V' a = in_use x V a" "volume_ok x V' = volume_ok x V" "data_blk x V' a = data_blk x V a" "full x V' = full x V"
proof -
  have u: "used x V' b = used x V b" if "b < unat (sb_size x)" for b
  proof -
    have "bmap_blk x (BBLOCK b x)"
      using that by (auto simp: bmap_blk_def)
    then show ?thesis
      using assms by (simp add: used_def)
  qed
  then show i: "in_use x V' a = in_use x V a" for a
    by (auto simp: in_use_def word_less_nat_alt)
  then show "volume_ok x V' = volume_ok x V" "data_blk x V' a = data_blk x V a"
    by (simp_all add: volume_ok_def data_blk_def)
  show "full x V' = full x V"
    using u by (simp add: full_def)
qed

text \<open>The first half of the indirect case: the indirect block is there.\<close>

definition with_ind :: "superblock \<Rightarrow> (uint32 \<Rightarrow> block) \<Rightarrow> inode \<Rightarrow> (uint32 \<Rightarrow> block) \<Rightarrow> inode \<Rightarrow> bool" where
  "with_ind x V ip V' ip' \<longleftrightarrow> volume_ok x V' \<and> file_ok x V' ip' \<and> ip' = ip\<lparr>iaddrs := iaddrs ip'\<rparr> \<and> ind ip' \<noteq> 0 \<and>
     (\<forall>n < MAXFILE. fblk V' ip' n = fblk V ip n) \<and>
     (\<forall>a. in_use x V a \<longrightarrow> in_use x V' a \<and> (\<not> bmap_blk x a \<longrightarrow> V' a = V a)) \<and>
     (ind ip' = ind ip \<or> ind ip = 0)"

lemma with_ind_alloc:
  assumes v: "volume_ok x V" and f: "file_ok x V ip" and k: "first_free x V k" and z: "ind ip = 0"
  shows "with_ind x V ip (alloc_view x k V) (set_addr NDIRECT (of_nat k) ip)"
proof -
  let ?V = "alloc_view x k V" and ?ip = "set_addr NDIRECT (of_nat k) ip"
  have i: "ind ?ip = of_nat k"
    by simp
  have e: "fblk ?V ?ip n = fblk V ip n" for n
    using z alloc_view_use(3,5) [OF v k] by (auto simp: fblk_def)
  have ok: "file_ok x ?V ?ip"
    by (rule file_ok_alloc [OF v f k, of ?V ?ip "fblk V ip"]) (simp_all only: e i z, simp_all)
  show ?thesis
    unfolding with_ind_def i using ok e z alloc_view_use [OF v k] first_freeD(3) [OF k]
    by (auto simp: set_addr_def)
qed

lemma grown_entry:
  assumes v: "volume_ok x V" and f: "file_ok x V ip" and k: "first_free x V k" and d: "ind ip \<noteq> 0"
    and bn: "NDIRECT \<le> bn" "bn < MAXFILE" "fblk V ip bn = 0"
  shows "grown x V ip bn (of_nat k) ((alloc_view x k V)(ind ip := put32 (4 * (bn - NDIRECT)) (of_nat k) (V (ind ip)))) ip"
proof -
  let ?V = "(alloc_view x k V)(ind ip := put32 (4 * (bn - NDIRECT)) (of_nat k) (V (ind ip)))"
  have D: "data_blk x V (ind ip)"
    by (rule file_okD(2) [OF f d])
  have c: "bmap_blk x a \<Longrightarrow> ?V a = alloc_view x k V a" for a
    using data_blkD(2) [OF D] by auto
  note cong = in_use_cong [of x ?V "alloc_view x k V", OF c]
  have e: "fblk ?V ip n = ((fblk V ip)(bn := of_nat k)) n" if "n < MAXFILE" for n
  proof (cases "n < NDIRECT \<or> n = bn")
    case True
    then show ?thesis
      using d bn(1,2) by (auto simp: fblk_def)
  next
    case False
    then have "4 * (n - NDIRECT) + 4 \<le> 4 * (bn - NDIRECT) \<or> 4 * (bn - NDIRECT) + 4 \<le> 4 * (n - NDIRECT)"
      using bn(1) by arith
    then have "get32 (put32 (4 * (bn - NDIRECT)) (of_nat k) (V (ind ip))) (4 * (n - NDIRECT)) = get32 (V (ind ip)) (4 * (n - NDIRECT))"
      using that by (intro get32_put32_other) auto
    then show ?thesis
      using False d by (simp add: fblk_def)
  qed
  have ok: "file_ok x ?V ip"
    by (rule file_ok_alloc [OF v f k, of ?V ip "(fblk V ip)(bn := of_nat k)" bn]) (use e cong in auto)
  have keep: "in_use x ?V a \<and> (\<not> bmap_blk x a \<longrightarrow> a \<noteq> ind ip \<longrightarrow> ?V a = V a)" if "in_use x V a" for a
    using that cong(1) alloc_view_use(1,6) [OF v k] first_freeD(3) [OF k] by (auto simp: fun_upd_def)
  have r: "?V (of_nat k) = (\<lambda>_. 0)" "(of_nat k :: uint32) \<noteq> 0"
    using alloc_view_use(3,5) [OF v k] alloc_keeps(2) [OF v k D] by auto
  have "volume_ok x ?V"
    using cong(2) alloc_view_use(2) [OF v k] by simp
  then show ?thesis
    unfolding grown_def using ok e keep r bn(3) by (simp del: fun_upd_apply add: fun_upd_apply [of "fblk V ip"])
qed

lemma grown_with_ind:
  assumes w: "with_ind x V ip V1 ip1" and g: "grown x V1 ip1 bn r V2 ip1" and bn: "NDIRECT \<le> bn" "bn < MAXFILE"
  shows "grown x V ip bn r V2 ip1"
proof -
  have W: "ip1 = ip\<lparr>iaddrs := iaddrs ip1\<rparr>" "\<forall>n < MAXFILE. fblk V1 ip1 n = fblk V ip n" "ind ip1 = ind ip \<or> ind ip = 0"
    "\<forall>a. in_use x V a \<longrightarrow> in_use x V1 a \<and> (\<not> bmap_blk x a \<longrightarrow> V1 a = V a)"
    using w unfolding with_ind_def by blast+
  show ?thesis
    using g W bn unfolding grown_def by (auto simp del: MAXFILE_def)
qed

subsection \<open>bmap\<close>

lemma tx_upd_inode [simp]: "tx (upd_inode ip f s) V L H D = tx s V L H D" "bheld (upd_inode ip f s) = bheld s"
  "sb (upd_inode ip f s) = sb s" "ldev (upd_inode ip f s) = ldev s" "bufs (upd_inode ip f s) = bufs s"
  "inodes (upd_inode ip f s) = (inodes s)(ip := f (inodes s ip))"
proof -
  have "bview d (upd_inode ip f s) = bview d s" "cache_inv d (upd_inode ip f s) = cache_inv d s" for d
    by (simp_all add: bview_def cache_inv_def upd_inode_def fun_eq_iff split: option.split)
  then show "tx (upd_inode ip f s) V L H D = tx s V L H D"
    unfolding tx_def by (simp add: quiet_def) (simp add: upd_inode_def)
qed (auto simp: upd_inode_def hold_def fun_eq_iff)

definition only_inode :: "nat \<Rightarrow> 'a fsst_scheme \<Rightarrow> 'a fsst_scheme \<Rightarrow> bool" where
  "only_inode ip s s' \<longleftrightarrow> sb s' = sb s \<and> ldev s' = ldev s \<and> (\<forall>j. j \<noteq> ip \<longrightarrow> inodes s' j = inodes s j)"

lemma only_inode_refl [simp]: "only_inode ip s s"
  by (simp add: only_inode_def)

lemma only_inode_trans: "only_inode ip s s' \<Longrightarrow> only_inode ip s' s'' \<Longrightarrow> only_inode ip s s''"
  by (simp add: only_inode_def)

lemma same_fs_only: "same_fs s s' \<Longrightarrow> only_inode ip s s'"
  by (simp add: same_fs_def only_inode_def)

lemma only_inode_upd [simp]: "only_inode ip s (upd_inode ip f s')  = only_inode ip s s'"
  by (simp add: only_inode_def)

lemma full_iff: "full x V \<longleftrightarrow> (\<nexists>k. first_free x V k)"
proof
  assume no: "\<nexists>k. first_free x V k"
  have "used x V b" if "b < unat (sb_size x)" for b
    using that
  proof (induction b rule: less_induct)
    case (less b)
    then show ?case
      using no unfolding first_free_def by (meson order.strict_trans)
  qed
  then show "full x V"
    by (simp add: full_def)
qed (auto simp: full_def first_free_def)

lemma balloc_cases:
  assumes tx: "tx s V L H {}" and H: "\<forall>a \<in> H. in_use (sb s) V a \<and> \<not> bmap_blk (sb s) a"
    and room: "card L + 2 \<le> LOGBLOCKS" "card (L \<union> H) + 2 \<le> NBUF"
  obtains (none) s' where "balloc (ldev s) s = Ret 0 s'" "same_fs s s'" "\<forall>b i. bheld s b i \<longrightarrow> b \<in> H \<longrightarrow> bheld s' b i"
      "full (sb s) V" "tx s' V L H {}"
  | (some) k s' where "balloc (ldev s) s = Ret (of_nat k) s'" "same_fs s s'" "\<forall>b i. bheld s b i \<longrightarrow> b \<in> H \<longrightarrow> bheld s' b i"
      "first_free (sb s) V k" "tx s' (alloc_view (sb s) k V) (insert (of_nat k) (insert (BBLOCK k (sb s)) L)) H {}"
      "bmap_blk (sb s) (BBLOCK k (sb s))"
proof -
  obtain r s' where s': "balloc (ldev s) s = Ret r s'" "same_fs s s'" "\<forall>b i. bheld s b i \<longrightarrow> b \<in> H \<longrightarrow> bheld s' b i"
      "allocated (sb s) V L H r s'"
    using balloc_ok [OF assms] by (auto simp: ok_iff)
  show thesis
  proof (cases "\<exists>k. first_free (sb s) V k")
    case True
    then obtain k where k: "first_free (sb s) V k" "r = of_nat k"
        "tx s' (alloc_view (sb s) k V) (insert r (insert (BBLOCK k (sb s)) L)) H {}"
      using s'(4) by (auto simp: allocated_def)
    then show thesis
      using some s' by (auto simp: bmap_blk_def first_free_def)
  next
    case False
    then show thesis
      using none s' by (auto simp: allocated_def full_iff)
  qed
qed

text \<open>The result of \<^verbatim>\<open>bmap\<close>: the state, and the blocks that went into the log.\<close>

definition mapped :: "nat \<Rightarrow> nat \<Rightarrow> (uint32 \<Rightarrow> block) \<Rightarrow> uint32 set \<Rightarrow> 'a fsst_scheme \<Rightarrow> uint32 \<Rightarrow> 'a fsst_scheme \<Rightarrow> bool" where
  "mapped ip bn V L s r s' \<longleftrightarrow> (\<exists>V' L'. tx s' V' L' {} {} \<and> only_inode ip s s' \<and>
     grown (sb s) V (inodes s ip) bn r V' (inodes s' ip) \<and> L \<subseteq> L' \<and>
     L' \<subseteq> L \<union> Collect (bmap_blk (sb s)) \<union> ({ind (inodes s' ip), r} - {0}) \<and> card L' \<le> card L + 4)"

lemma mappedI:
  assumes "tx s' V' L' {} {}" "only_inode ip s s'" "grown (sb s) V (inodes s ip) bn r V' (inodes s' ip)" "L \<subseteq> L'"
    "L' \<subseteq> L \<union> Collect (bmap_blk (sb s)) \<union> ({ind (inodes s' ip), r} - {0})" "card L' \<le> card L + 4"
  shows "mapped ip bn V L s r s'"
  using assms unfolding mapped_def by blast

lemma card_insert2: "finite L \<Longrightarrow> card (insert a (insert b L)) \<le> card L + 2"
  by (simp add: card_insert_if)

lemma bmap_direct:
  assumes tx: "tx s V L {} {}" and v: "volume_ok (sb s) V" and f: "file_ok (sb s) V (inodes s ip)"
    and d: "idev (inodes s ip) = ldev s" and bn: "bn < NDIRECT" and room: "card L + 4 < LOGBLOCKS"
  shows "ok (bmap ip bn s) (mapped ip bn V L s)"
proof (cases "iaddrs (inodes s ip) bn = 0")
  case False
  then have "grown (sb s) V (inodes s ip) bn (iaddrs (inodes s ip) bn) V (inodes s ip)"
    by (intro grown_refl [OF v f]) (use bn in \<open>simp_all add: fblk_def\<close>)
  then show ?thesis
    using False bn tx by (auto simp: bmap_def Let_def intro!: mappedI)
next
  case True
  have r: "card L + 2 \<le> LOGBLOCKS" "card (L \<union> {}) + 2 \<le> NBUF"
    using room by simp_all
  have z: "fblk V (inodes s ip) bn = 0"
    using True bn by (simp add: fblk_def)
  show ?thesis
  proof (rule balloc_cases [OF tx _ r])
    fix s'
    assume s': "balloc (ldev s) s = Ret 0 s'" "same_fs s s'" "full (sb s) V" "tx s' V L {} {}"
    have "grown (sb s) V (inodes s ip) bn 0 V (inodes s ip)"
      by (rule grown_refl [OF v f z]) (use s'(3) in simp)
    then show ?thesis
      using True bn d s' same_fs_only [OF s'(2), of ip] same_fsD(2) [OF s'(2)] by (auto simp: bmap_def Let_def intro!: mappedI)
  next
    fix k s'
    assume s': "balloc (ldev s) s = Ret (of_nat k) s'" "same_fs s s'" and k: "first_free (sb s) V k"
      "tx s' (alloc_view (sb s) k V) (insert (of_nat k) (insert (BBLOCK k (sb s)) L)) {} {}" "bmap_blk (sb s) (BBLOCK k (sb s))"
    have g: "grown (sb s) V (inodes s ip) bn (of_nat k) (alloc_view (sb s) k V) (set_addr bn (of_nat k) (inodes s ip))"
      by (rule grown_direct [OF v f k(1) bn True])
    have n: "(of_nat k :: uint32) \<noteq> 0"
      by (rule alloc_view_use(3) [OF v k(1)])
    have "bmap ip bn s = Ret (of_nat k) (upd_inode ip (set_addr bn (of_nat k)) s')"
      using True bn d s'(1) n by (simp add: bmap_def Let_def set_addr_def [abs_def])
    moreover have "card (insert (of_nat k) (insert (BBLOCK k (sb s)) L)) \<le> card L + 4"
      using card_insert2 [OF txD(15) [OF tx]] by (rule order.trans) simp
    ultimately show ?thesis
      using g k(2,3) n same_fs_only [OF s'(2), of ip] same_fsD(2) [OF s'(2)] by (auto intro!: mappedI)
  qed simp
qed

text \<open>The two halves of the indirect case.\<close>

definition bmap_block :: "nat \<Rightarrow> 'a fsst_scheme \<Rightarrow> ('a fsst_scheme, uint32) outcome" where
  "bmap_block ip s =
     (if iaddrs (inodes s ip) NDIRECT = 0 then
        bnd (balloc (idev (inodes s ip)) s) (\<lambda>addr s.
        if addr = 0 then Ret 0 s else Ret addr (upd_inode ip (set_addr NDIRECT addr) s))
      else Ret (iaddrs (inodes s ip) NDIRECT) s)"

definition bmap_entry :: "nat \<Rightarrow> nat \<Rightarrow> uint32 \<Rightarrow> 'a fsst_scheme \<Rightarrow> ('a fsst_scheme, uint32) outcome" where
  "bmap_entry ip bn addr s =
     bnd (bread (idev (inodes s ip)) addr s) (\<lambda>bp s.
     let addr = get32 (bdata (bufs s bp)) (4 * bn) in
     bnd (if addr = 0 then
            bnd (balloc (idev (inodes s ip)) s) (\<lambda>addr s.
            if addr \<noteq> 0 then bnd (log_write bp (upd_data bp (put32 (4 * bn) addr) s)) (\<lambda>_ s. Ret addr s)
            else Ret addr s)
          else Ret addr s) (\<lambda>addr s.
     bnd (brelse bp s) (\<lambda>_ s. Ret addr s)))"

lemma bmap_split:
  assumes "NDIRECT \<le> bn" "bn < MAXFILE"
  shows "bmap ip bn s = bnd (bmap_block ip s) (\<lambda>addr s. if addr = 0 then Ret 0 s else bmap_entry ip (bn - NDIRECT) addr s)"
proof -
  have c: "(bn < NDIRECT) = False" "(bn - NDIRECT < NINDIRECT) = True"
    using assms by auto
  show ?thesis
    unfolding bmap_def bmap_block_def bmap_entry_def set_addr_def Let_def c if_False if_True by (rule refl)
qed

lemma bmap_block_ok:
  assumes tx: "tx s V L {} {}" and v: "volume_ok (sb s) V" and f: "file_ok (sb s) V (inodes s ip)"
    and d: "idev (inodes s ip) = ldev s" and room: "card L + 4 < LOGBLOCKS"
  obtains (none) s' where "bmap_block ip s = Ret 0 s'" "same_fs s s'" "tx s' V L {} {}" "full (sb s) V" "ind (inodes s ip) = 0"
  | (some) V' L' s' where "bmap_block ip s = Ret (ind (inodes s' ip)) s'" "only_inode ip s s'" "tx s' V' L' {} {}"
      "with_ind (sb s) V (inodes s ip) V' (inodes s' ip)" "L \<subseteq> L'" "L' \<subseteq> L \<union> Collect (bmap_blk (sb s)) \<union> {ind (inodes s' ip)}"
      "card (insert (ind (inodes s' ip)) L') \<le> card L + 2"
proof (cases "ind (inodes s ip) = 0")
  case False
  have "bmap_block ip s = Ret (ind (inodes s ip)) s"
    using False by (simp add: bmap_block_def ind_def)
  moreover have "with_ind (sb s) V (inodes s ip) V (inodes s ip)"
    using v f False by (simp add: with_ind_def)
  moreover have "card (insert (ind (inodes s ip)) L) \<le> card L + 2"
    using txD(15) [OF tx] by (simp add: card_insert_if)
  ultimately show thesis
    using some tx by auto
next
  case True
  then have z: "iaddrs (inodes s ip) NDIRECT = 0"
    by (simp add: ind_def)
  have r: "card L + 2 \<le> LOGBLOCKS" "card (L \<union> {}) + 2 \<le> NBUF"
    using room by simp_all
  show thesis
  proof (rule balloc_cases [OF tx _ r])
    fix s'
    assume "balloc (ldev s) s = Ret 0 s'" "same_fs s s'" "full (sb s) V" "tx s' V L {} {}"
    then show thesis
      using none z True d by (simp add: bmap_block_def)
  next
    fix k s'
    assume s': "balloc (ldev s) s = Ret (of_nat k) s'" "same_fs s s'" and k: "first_free (sb s) V k"
      "tx s' (alloc_view (sb s) k V) (insert (of_nat k) (insert (BBLOCK k (sb s)) L)) {} {}" "bmap_blk (sb s) (BBLOCK k (sb s))"
    let ?s = "upd_inode ip (set_addr NDIRECT (of_nat k)) s'"
    have n: "(of_nat k :: uint32) \<noteq> 0"
      by (rule alloc_view_use(3) [OF v k(1)])
    have e: "inodes ?s ip = set_addr NDIRECT (of_nat k) (inodes s ip)"
      using same_fsD(2) [OF s'(2)] by simp
    have i: "ind (inodes ?s ip) = of_nat k"
      unfolding e by simp
    have run: "bmap_block ip s = Ret (ind (inodes ?s ip)) ?s"
      unfolding i using z d s'(1) n by (simp add: bmap_block_def)
    have w: "with_ind (sb s) V (inodes s ip) (alloc_view (sb s) k V) (inodes ?s ip)"
      unfolding e by (rule with_ind_alloc [OF v f k(1) True])
    have c: "card (insert (ind (inodes ?s ip)) (insert (of_nat k) (insert (BBLOCK k (sb s)) L))) \<le> card L + 2"
      unfolding i using card_insert2 [OF txD(15) [OF tx]] by simp
    show thesis
      by (rule some [OF run _ _ w _ _ c]) (use same_fs_only [OF s'(2)] k i in \<open>auto simp del: set_addr_sel\<close>)
  qed simp
qed

lemma bmap_entry_ok:
  assumes tx: "tx s V L {} {}" and v: "volume_ok (sb s) V" and f: "file_ok (sb s) V (inodes s ip)"
    and d: "idev (inodes s ip) = ldev s" and n: "ind (inodes s ip) \<noteq> 0" and bn: "NDIRECT \<le> bn" "bn < MAXFILE"
    and room: "card (insert (ind (inodes s ip)) L) + 2 < LOGBLOCKS"
  obtains r V' L' s' where "bmap_entry ip (bn - NDIRECT) (ind (inodes s ip)) s = Ret r s'" "same_fs s s'" "tx s' V' L' {} {}"
      "grown (sb s) V (inodes s ip) bn r V' (inodes s ip)" "L \<subseteq> L'"
      "L' \<subseteq> L \<union> Collect (bmap_blk (sb s)) \<union> ({ind (inodes s ip), r} - {0})" "card L' \<le> card (insert (ind (inodes s ip)) L) + 2"
proof -
  let ?d = "ind (inodes s ip)" and ?j = "4 * (bn - NDIRECT)"
  have D: "data_blk (sb s) V ?d"
    by (rule file_okD(2) [OF f n])
  have fin: "finite L"
    using txD(15) [OF tx] .
  have "card (insert ?d (L \<union> {})) \<le> NBUF"
    using room by simp
  then obtain i s1 where s1: "bread (ldev s) ?d s = Ret i s1" "tx s1 V L {?d} {}" "bheld s1 ?d i" "same_fs s s1" "bdata (bufs s1 i) = V ?d"
    by (rule tx_look [OF tx, rotated]) auto
  note e1 = same_fsD [OF s1(4)]
  have fb: "fblk V (inodes s ip) bn = get32 (V ?d) ?j"
    using bn n by (simp add: fblk_def)
  show thesis
  proof (cases "get32 (V ?d) ?j = 0")
    case False
    obtain s2 where s2: "brelse i s1 = Ret () s2" "tx s2 V L {} {}" "same_fs s1 s2"
      by (rule tx_unlook [OF s1(2,3)]) auto
    have run: "bmap_entry ip (bn - NDIRECT) ?d s = Ret (get32 (V ?d) ?j) s2"
      using s1(1,5) s2(1) False d by (simp add: bmap_entry_def Let_def)
    have g: "grown (sb s) V (inodes s ip) bn (get32 (V ?d) ?j) V (inodes s ip)"
      by (rule grown_refl [OF v f fb]) (use False in simp)
    show thesis
      by (rule that [OF run same_fs_trans [OF s1(4) s2(3)] s2(2) g]) (use fin in \<open>auto simp: card_insert_if\<close>)
  next
    case True
    have r: "card L + 2 \<le> LOGBLOCKS" "card (L \<union> {?d}) + 2 \<le> NBUF"
      using room fin by (auto simp: card_insert_if split: if_splits)
    have H: "\<forall>a \<in> {?d}. in_use (sb s1) V a \<and> \<not> bmap_blk (sb s1) a"
      using data_blkD(1,2) [OF D] e1 by simp
    show thesis
    proof (rule balloc_cases [OF s1(2) H r])
      fix s2
      assume s2: "balloc (ldev s1) s1 = Ret 0 s2" "same_fs s1 s2" "\<forall>b i. bheld s1 b i \<longrightarrow> b \<in> {?d} \<longrightarrow> bheld s2 b i"
        "full (sb s1) V" "tx s2 V L {?d} {}"
      have h: "bheld s2 ?d i"
        using s2(3) s1(3) by blast
      obtain s3 where s3: "brelse i s2 = Ret () s3" "tx s3 V L {} {}" "same_fs s2 s3"
        by (rule tx_unlook [OF s2(5) h]) auto
      have run: "bmap_entry ip (bn - NDIRECT) ?d s = Ret 0 s3"
        using s1(1,5) s2(1) s3(1) True d e1 by (simp add: bmap_entry_def Let_def)
      have g: "grown (sb s) V (inodes s ip) bn 0 V (inodes s ip)"
        by (rule grown_refl [OF v f]) (use True fb s2(4) e1 in simp_all)
      show thesis
        by (rule that [OF run same_fs_trans [OF same_fs_trans [OF s1(4) s2(2)] s3(3)] s3(2) g])
          (use fin in \<open>auto simp: card_insert_if\<close>)
    next
      fix k s2
      assume s2: "balloc (ldev s1) s1 = Ret (of_nat k) s2" "same_fs s1 s2" "\<forall>b i. bheld s1 b i \<longrightarrow> b \<in> {?d} \<longrightarrow> bheld s2 b i"
        and k1: "first_free (sb s1) V k"
        "tx s2 (alloc_view (sb s1) k V) (insert (of_nat k) (insert (BBLOCK k (sb s1)) L)) {?d} {}" "bmap_blk (sb s1) (BBLOCK k (sb s1))"
      note k = k1 [unfolded e1(1)]
      let ?L = "insert (of_nat k) (insert (BBLOCK k (sb s)) L)"
      have h: "bheld s2 ?d i"
        using s2(3) s1(3) by blast
      have nz: "(of_nat k :: uint32) \<noteq> 0" and vd: "alloc_view (sb s) k V ?d = V ?d"
        using alloc_view_use(3) [OF v k(1)] alloc_keeps(1) [OF v k(1) D] by simp_all
      have c: "card ?L < LOGBLOCKS"
        using card_insert2 [OF fin, of "of_nat k" "BBLOCK k (sb s)"] room fin by (auto simp: card_insert_if split: if_splits)
      obtain s3 s4 where s3: "log_write i (upd_data i (put32 ?j (of_nat k)) s2) = Ret () s3" "brelse i s3 = Ret () s4"
          "tx s4 ((alloc_view (sb s) k V)(?d := put32 ?j (of_nat k) (alloc_view (sb s) k V ?d))) (insert ?d ?L) {} {}" "same_fs s2 s4"
        by (rule tx_change [OF k(2) h _ _ c, of "put32 ?j (of_nat k)"]) auto
      have run: "bmap_entry ip (bn - NDIRECT) ?d s = Ret (of_nat k) s4"
        using s1(1,5) s2(1) s3(1,2) True d e1 nz by (simp add: bmap_entry_def Let_def)
      have "fblk V (inodes s ip) bn = 0"
        using True fb by simp
      then have g: "grown (sb s) V (inodes s ip) bn (of_nat k) ((alloc_view (sb s) k V)(?d := put32 ?j (of_nat k) (V ?d))) (inodes s ip)"
        by (rule grown_entry [OF v f k(1) n bn])
      have "insert ?d ?L = insert (of_nat k) (insert (BBLOCK k (sb s)) (insert ?d L))"
        by auto
      then have c': "card (insert ?d ?L) \<le> card (insert ?d L) + 2"
        using card_insert2 [of "insert ?d L"] fin by simp
      show thesis
        by (rule that [OF run same_fs_trans [OF same_fs_trans [OF s1(4) s2(2)] s3(4)] s3(3) [unfolded vd] g _ _ c'])
          (use k(3) n nz in auto)
    qed
  qed
qed

lemma bmap_ok:
  assumes tx: "tx s V L {} {}" and v: "volume_ok (sb s) V" and f: "file_ok (sb s) V (inodes s ip)"
    and d: "idev (inodes s ip) = ldev s" and bn: "bn < MAXFILE" and room: "card L + 4 < LOGBLOCKS"
  shows "ok (bmap ip bn s) (mapped ip bn V L s)"
proof (cases "bn < NDIRECT")
  case True
  then show ?thesis
    using bmap_direct [OF tx v f d _ room] by simp
next
  case False
  then have ge: "NDIRECT \<le> bn"
    by simp
  show ?thesis
  proof (rule bmap_block_ok [OF tx v f d room])
    fix s'
    assume s': "bmap_block ip s = Ret 0 s'" "same_fs s s'" "tx s' V L {} {}" "full (sb s) V" "ind (inodes s ip) = 0"
    have "fblk V (inodes s ip) bn = 0"
      using ge s'(5) by (simp add: fblk_def)
    then have "grown (sb s) V (inodes s ip) bn 0 V (inodes s ip)"
      by (rule grown_refl [OF v f]) (use s'(4) in simp)
    then have "mapped ip bn V L s 0 s'"
      by (intro mappedI [OF s'(3)]) (use same_fs_only [OF s'(2)] same_fsD(2) [OF s'(2)] in auto)
    then show ?thesis
      using s'(1) by (simp add: bmap_split [OF ge bn])
  next
    fix V1 L1 s1
    assume s1: "bmap_block ip s = Ret (ind (inodes s1 ip)) s1" "only_inode ip s s1" and t1: "tx s1 V1 L1 {} {}"
      and w: "with_ind (sb s) V (inodes s ip) V1 (inodes s1 ip)" and L1: "L \<subseteq> L1"
        "L1 \<subseteq> L \<union> Collect (bmap_blk (sb s)) \<union> {ind (inodes s1 ip)}" "card (insert (ind (inodes s1 ip)) L1) \<le> card L + 2"
    have e: "sb s1 = sb s" "ldev s1 = ldev s"
      using s1(2) by (simp_all add: only_inode_def)
    have W: "volume_ok (sb s1) V1" "file_ok (sb s1) V1 (inodes s1 ip)" "inodes s1 ip = (inodes s ip)\<lparr>iaddrs := iaddrs (inodes s1 ip)\<rparr>"
      "ind (inodes s1 ip) \<noteq> 0"
      using w unfolding with_ind_def e by blast+
    have d1: "idev (inodes s1 ip) = ldev s1"
      using arg_cong [OF W(3), of idev] d e by simp
    have room1: "card (insert (ind (inodes s1 ip)) L1) + 2 < LOGBLOCKS"
      using L1(3) room by linarith
    obtain r V2 L2 s2 where s2: "bmap_entry ip (bn - NDIRECT) (ind (inodes s1 ip)) s1 = Ret r s2" "same_fs s1 s2" "tx s2 V2 L2 {} {}"
      "grown (sb s1) V1 (inodes s1 ip) bn r V2 (inodes s1 ip)" "L1 \<subseteq> L2"
      "L2 \<subseteq> L1 \<union> Collect (bmap_blk (sb s1)) \<union> ({ind (inodes s1 ip), r} - {0})" "card L2 \<le> card (insert (ind (inodes s1 ip)) L1) + 2"
      by (rule bmap_entry_ok [OF t1 W(1,2) d1 W(4) ge bn room1])
    have i: "inodes s2 ip = inodes s1 ip"
      using same_fsD(2) [OF s2(2)] by simp
    have "grown (sb s) V (inodes s ip) bn r V2 (inodes s2 ip)"
      unfolding i by (rule grown_with_ind [OF w s2(4) [unfolded e] ge bn])
    then have "mapped ip bn V L s r s2"
      by (rule mappedI [OF s2(3) only_inode_trans [OF s1(2) same_fs_only [OF s2(2)]]])
        (use s2(5,6,7) L1 W(4) i e in auto)
    then show ?thesis
      using s1(1) s2(1) W(4) by (simp add: bmap_split [OF ge bn])
  qed
qed

subsection \<open>Reading\<close>

text \<open>The byte at an offset of a file. A block that was never written reads as zeros.\<close>

definition fbyte :: "(uint32 \<Rightarrow> block) \<Rightarrow> inode \<Rightarrow> nat \<Rightarrow> uint8" where
  "fbyte V ip k = (let a = fblk V ip (k div BSIZE) in if a = 0 then 0 else V a (of_nat (k mod BSIZE)))"

lemma bmap_hit:
  assumes tx: "tx s V L {} {}" and d: "idev (inodes s ip) = ldev s" and bn: "bn < MAXFILE" and a: "fblk V (inodes s ip) bn \<noteq> 0"
    and room: "card L < NBUF"
  obtains s' where "bmap ip bn s = Ret (fblk V (inodes s ip) bn) s'" "tx s' V L {} {}" "same_fs s s'"
proof (cases "bn < NDIRECT")
  case True
  then show thesis
    using that a tx by (auto simp: bmap_def Let_def fblk_def)
next
  case False
  let ?d = "ind (inodes s ip)"
  have n: "iaddrs (inodes s ip) NDIRECT \<noteq> 0" and fb: "fblk V (inodes s ip) bn = get32 (V ?d) (4 * (bn - NDIRECT))"
    using a False by (auto simp: fblk_def ind_def split: if_splits)
  have "card (insert ?d (L \<union> {})) \<le> NBUF"
    using room txD(15) [OF tx] by (simp add: card_insert_if)
  then obtain i s1 where s1: "bread (ldev s) ?d s = Ret i s1" "tx s1 V L {?d} {}" "bheld s1 ?d i" "same_fs s s1" "bdata (bufs s1 i) = V ?d"
    by (rule tx_look [OF tx, rotated]) auto
  obtain s2 where s2: "brelse i s1 = Ret () s2" "tx s2 V L {} {}" "same_fs s1 s2"
    by (rule tx_unlook [OF s1(2,3)]) auto
  have "bmap ip bn s = Ret (fblk V (inodes s ip) bn) s2"
    using False bn d s1(1,5) s2(1) n a fb
    by (subst bmap_split) (simp_all add: bmap_block_def bmap_entry_def Let_def ind_def del: NDIRECT_def)
  then show thesis
    using that s2(2) same_fs_trans [OF s1(4) s2(3)] by blast
qed

lemma chunk_block:
  assumes "k < chunk n tot off"
  shows "(off + k) div BSIZE = off div BSIZE" "(off + k) mod BSIZE = off mod BSIZE + k"
proof -
  have lt: "off mod BSIZE + k < BSIZE"
    using assms unfolding chunk_def by linarith
  have "off + k = off div BSIZE * BSIZE + (off mod BSIZE + k)"
    by simp
  then show "(off + k) div BSIZE = off div BSIZE" "(off + k) mod BSIZE = off mod BSIZE + k"
    using lt by (simp_all only: div_mult_self3 mod_mult_self3 div_less mod_less BSIZE_def)
qed

lemma chunk_bytes:
  assumes "fblk V ip (off div BSIZE) \<noteq> 0"
  shows "blk_load (V (fblk V ip (off div BSIZE))) (off mod BSIZE) (chunk n tot off) = map (fbyte V ip) [off..<off + chunk n tot off]"
  using assms chunk_block [of _ n tot off]
  by (intro nth_equalityI) (simp_all add: blk_load_def fbyte_def Let_def del: BSIZE_def of_nat_add)

lemma readi_loop_ok:
  assumes "tx s V L {} {}" "idev (inodes s ip) = ldev s" "card L < NBUF"
    "\<forall>k. off \<le> k \<longrightarrow> k < off + (n - tot) \<longrightarrow> k div BSIZE < MAXFILE \<and> fblk V (inodes s ip) (k div BSIZE) \<noteq> 0" "tot \<le> n"
  shows "ok (readi_loop ip RLocal n tot off s) (\<lambda>r s'. r = (int n, map (fbyte V (inodes s ip)) [off..<off + (n - tot)]) \<and>
    tx s' V L {} {} \<and> same_fs s s')"
  using assms
proof (induction "n - tot" arbitrary: tot off s rule: less_induct)
  case less
  show ?case
  proof (cases "tot < n")
    case False
    then show ?thesis
      using less.prems by (subst readi_loop.simps) simp
  next
    case True
    let ?m = "chunk n tot off" and ?a = "fblk V (inodes s ip) (off div BSIZE)"
    have m: "0 < ?m" "?m \<le> n - tot"
      using chunk_pos [OF True] by (simp_all add: chunk_def)
    have a: "off div BSIZE < MAXFILE" "?a \<noteq> 0"
      using less.prems(4) True by (auto simp del: BSIZE_def MAXFILE_def)
    obtain s1 where s1: "bmap ip (off div BSIZE) s = Ret ?a s1" "tx s1 V L {} {}" "same_fs s s1"
      by (rule bmap_hit [OF less.prems(1,2) a less.prems(3)])
    note e1 = same_fsD [OF s1(3)]
    have "card (insert ?a (L \<union> {})) \<le> NBUF"
      using less.prems(3) txD(15) [OF less.prems(1)] by (simp add: card_insert_if)
    then obtain i s2 where s2: "bread (ldev s1) ?a s1 = Ret i s2" "tx s2 V L {?a} {}" "bheld s2 ?a i" "same_fs s1 s2" "bdata (bufs s2 i) = V ?a"
      by (rule tx_look [OF s1(2), rotated]) auto
    obtain s3 where s3: "brelse i s2 = Ret () s3" "tx s3 V L {} {}" "same_fs s2 s3"
      by (rule tx_unlook [OF s2(2,3)]) auto
    have fs: "same_fs s s3"
      using same_fs_trans [OF same_fs_trans [OF s1(3) s2(4)] s3(3)] .
    note e3 = same_fsD [OF fs]
    have IH: "ok (readi_loop ip RLocal n (tot + ?m) (off + ?m) s3) (\<lambda>r s'.
        r = (int n, map (fbyte V (inodes s3 ip)) [off + ?m..<off + ?m + (n - (tot + ?m))]) \<and> tx s' V L {} {} \<and> same_fs s3 s')"
      by (rule less.hyps) (use m less.prems(2,3,4) s3(2) e3 in \<open>auto simp del: BSIZE_def MAXFILE_def NBUF_def\<close>)
    then obtain s4 where s4: "readi_loop ip RLocal n (tot + ?m) (off + ?m) s3 =
        Ret (int n, map (fbyte V (inodes s ip)) [off + ?m..<off + (n - tot)]) s4" "tx s4 V L {} {}" "same_fs s3 s4"
      using m e3 by (auto simp: ok_iff)
    have "[off..<off + (n - tot)] = [off..<off + ?m] @ [off + ?m..<off + (n - tot)]"
      using m(2) upt_add_eq_append [of off "off + ?m" "n - tot - ?m"] by (simp only: add.assoc le_add_diff_inverse)
    moreover have "readi_loop ip RLocal n tot off s =
        Ret (int n, map (fbyte V (inodes s ip)) [off..<off + ?m] @ map (fbyte V (inodes s ip)) [off + ?m..<off + (n - tot)]) s4"
      using True a(2) s1(1) s2(1,5) s3(1) s4(1) less.prems(2) e1 chunk_bytes [OF a(2), of n tot]
      by (subst readi_loop.simps) (simp add: Let_def copy_dst_def del: BSIZE_def)
    ultimately show ?thesis
      using s4(2) same_fs_trans [OF fs s4(3)] by simp
  qed
qed

definition no_holes :: "(uint32 \<Rightarrow> block) \<Rightarrow> inode \<Rightarrow> bool" where
  "no_holes V ip \<longleftrightarrow> unat (isize ip) \<le> MAXFILE * BSIZE \<and> (\<forall>n. n * BSIZE < unat (isize ip) \<longrightarrow> fblk V ip n \<noteq> 0)"

lemma no_holesD:
  assumes "no_holes V ip" "k < unat (isize ip)"
  shows "k div BSIZE < MAXFILE" "fblk V ip (k div BSIZE) \<noteq> 0"
proof -
  show "k div BSIZE < MAXFILE"
    using assms by (intro less_mult_imp_div_less) (simp add: no_holes_def)
  have "k div BSIZE * BSIZE \<le> k"
    by (rule div_times_less_eq_dividend)
  then show "fblk V ip (k div BSIZE) \<noteq> 0"
    using assms unfolding no_holes_def by (meson order.strict_trans1)
qed

lemma unat_add_le:
  fixes a b :: uint32
  shows "a + b < a \<longleftrightarrow> \<not> unat a + unat b < 2 ^ 32" "\<not> a + b < a \<Longrightarrow> unat (a + b) = unat a + unat b"
proof -
  have "unat (a + b) = (if unat a + unat b < 2 ^ 32 then unat a + unat b else unat a + unat b - 2 ^ 32)"
    by (simp add: unat_plus_if')
  then show "a + b < a \<longleftrightarrow> \<not> unat a + unat b < 2 ^ 32" "\<not> a + b < a \<Longrightarrow> unat (a + b) = unat a + unat b"
    using unat32_less [of a] unat32_less [of b] by (auto simp: word_less_nat_alt split: if_splits)
qed

lemma readi_ok:
  assumes tx: "tx s V L {} {}" and d: "idev (inodes s ip) = ldev s" and h: "no_holes V (inodes s ip)" and room: "card L < NBUF"
  obtains s' where "readi ip RLocal off n s =
      (if off > isize (inodes s ip) \<or> off + n < off then Ret (0, []) s
       else Ret (int (min (unat n) (unat (isize (inodes s ip)) - unat off)),
         map (fbyte V (inodes s ip)) [unat off..<unat off + min (unat n) (unat (isize (inodes s ip)) - unat off)]) s')"
    "tx s' V L {} {}" "same_fs s s'"
proof (cases "off > isize (inodes s ip) \<or> off + n < off")
  case True
  then show thesis
    using that tx by (auto simp: readi_def Let_def)
next
  case False
  let ?size = "isize (inodes s ip)"
  let ?n = "if off + n > ?size then ?size - off else n"
  have o: "off \<le> ?size" "unat (off + n) = unat off + unat n"
    using False unat_add_le(2) by auto
  have n: "unat ?n = min (unat n) (unat ?size - unat off)"
    using o by (auto simp: word_less_nat_alt word_le_nat_alt unat_sub min_def)
  have "\<forall>k. unat off \<le> k \<longrightarrow> k < unat off + (unat ?n - 0) \<longrightarrow> k div BSIZE < MAXFILE \<and> fblk V (inodes s ip) (k div BSIZE) \<noteq> 0"
    unfolding n using no_holesD [OF h] by (auto simp del: BSIZE_def MAXFILE_def)
  from readi_loop_ok [OF tx d room this]
  obtain s' where s': "readi_loop ip RLocal (unat ?n) 0 (unat off) s =
      Ret (int (unat ?n), map (fbyte V (inodes s ip)) [unat off..<unat off + (unat ?n - 0)]) s'" "tx s' V L {} {}" "same_fs s s'"
    by (auto simp: ok_iff simp del: if_split)
  show thesis
    by (rule that [OF _ s'(2,3)]) (use False s'(1) n in \<open>simp add: readi_def Let_def del: if_split\<close>)
qed

subsection \<open>Writing\<close>

lemma grown_bytes:
  assumes f: "file_ok x V ip" and g: "grown x V ip bn r V' ip'" and k: "k < MAXFILE * BSIZE"
  shows "fbyte V' ip' k = fbyte V ip k"
proof -
  let ?n = "k div BSIZE"
  have n: "?n < MAXFILE"
    using k by (rule less_mult_imp_div_less)
  have f': "file_ok x V' ip'" and b: "fblk V' ip' ?n = (if ?n = bn then r else fblk V ip ?n)"
    "fblk V ip bn \<noteq> 0 \<longrightarrow> r = fblk V ip bn" "fblk V ip bn = 0 \<longrightarrow> r \<noteq> 0 \<longrightarrow> V' r = (\<lambda>_. 0)"
    and keep: "\<And>a. in_use x V a \<Longrightarrow> \<not> bmap_blk x a \<Longrightarrow> a \<noteq> ind ip' \<Longrightarrow> V' a = V a"
    using g n unfolding grown_def by blast+
  show ?thesis
  proof (cases "fblk V ip ?n = 0")
    case True
    then show ?thesis
      using b by (auto simp: fbyte_def Let_def simp del: BSIZE_def)
  next
    case False
    then have e: "fblk V' ip' ?n = fblk V ip ?n"
      using b by auto
    have "data_blk x V (fblk V ip ?n)" "fblk V ip ?n \<noteq> ind ip'"
      using file_okD(1) [OF f n False] file_okD(1) [OF f' n] e False by auto
    then have "V' (fblk V ip ?n) = V (fblk V ip ?n)"
      using keep data_blkD by blast
    then show ?thesis
      using e by (simp add: fbyte_def Let_def del: BSIZE_def)
  qed
qed

text \<open>Storing into a data block of the file.\<close>

lemma store_bytes_file:
  assumes v: "volume_ok x V" and f: "file_ok x V ip" and n: "off div BSIZE < MAXFILE" and a: "a = fblk V ip (off div BSIZE)" "a \<noteq> 0"
    and bs: "length bs = chunk len tot off"
  defines "V' \<equiv> V(a := blk_store (V a) (off mod BSIZE) bs)"
  shows "volume_ok x V'" "file_ok x V' ip" "in_use x V' b = in_use x V b" "full x V' = full x V" "fblk V' ip m = fblk V ip m"
    "k < MAXFILE * BSIZE \<Longrightarrow> fbyte V' ip k = (if off \<le> k \<and> k < off + length bs then bs ! (k - off) else fbyte V ip k)"
proof -
  have D: "data_blk x V a" "a \<noteq> ind ip"
    using file_okD(1) [OF f n] a by auto
  have c: "bmap_blk x b \<Longrightarrow> V' b = V b" for b
    using data_blkD(2) [OF D(1)] by (auto simp: V'_def)
  note cong = in_use_cong [of x V' V, OF c]
  show "volume_ok x V'" "in_use x V' b = in_use x V b" "full x V' = full x V"
    using cong v by simp_all
  show e: "fblk V' ip m = fblk V ip m" for m
    using D(2) by (simp add: fblk_def V'_def)
  show "file_ok x V' ip"
    using f own_cong [of "data_blk x V'" "data_blk x V" "fblk V' ip" "fblk V ip"] cong(3) e by (simp add: file_ok_def)
  assume k: "k < MAXFILE * BSIZE"
  have kn: "k div BSIZE < MAXFILE"
    using k by (rule less_mult_imp_div_less)
  show "fbyte V' ip k = (if off \<le> k \<and> k < off + length bs then bs ! (k - off) else fbyte V ip k)"
  proof (cases "k div BSIZE = off div BSIZE")
    case True
    have u: "unat (of_nat (k mod BSIZE) :: 10 word) = k mod BSIZE"
      by (rule unat_of_nat10) simp
    have "off = off div BSIZE * BSIZE + off mod BSIZE" "k = off div BSIZE * BSIZE + k mod BSIZE"
      using True by (metis div_mult_mod_eq)+
    then have "off mod BSIZE \<le> k mod BSIZE \<longleftrightarrow> off \<le> k" "k mod BSIZE < off mod BSIZE + length bs \<longleftrightarrow> k < off + length bs"
        "k mod BSIZE - off mod BSIZE = k - off"
      by linarith+
    then show ?thesis
      unfolding fbyte_def e True a(1) [symmetric] using a(2) by (simp add: Let_def V'_def blk_store_def u del: BSIZE_def)
  next
    case False
    have "\<not> (off \<le> k \<and> k < off + length bs)"
    proof
      assume "off \<le> k \<and> k < off + length bs"
      then have "(off + (k - off)) div BSIZE = off div BSIZE"
        using bs by (intro chunk_block [of _ len tot]) auto
      then show False
        using False \<open>off \<le> k \<and> k < off + length bs\<close> by simp
    qed
    moreover have "fblk V ip (k div BSIZE) \<noteq> a \<or> fblk V ip (k div BSIZE) = 0"
      using file_okD(3) [OF f n kn] a(2) False unfolding a(1) by metis
    ultimately show ?thesis
      unfolding fbyte_def e by (auto simp: Let_def V'_def simp del: BSIZE_def)
  qed
qed

text \<open>The effect of writing \<open>bs\<close> from index \<open>tot\<close> to index \<open>t\<close> at offset \<open>off\<close> of a file.\<close>

definition fwrote :: "superblock \<Rightarrow> uint8 list \<Rightarrow> nat \<Rightarrow> nat \<Rightarrow> (uint32 \<Rightarrow> block) \<Rightarrow> inode \<Rightarrow> nat \<Rightarrow> (uint32 \<Rightarrow> block) \<Rightarrow> inode \<Rightarrow> bool" where
  "fwrote x bs tot off V ip t V' ip' \<longleftrightarrow> volume_ok x V' \<and> file_ok x V' ip' \<and> ip' = ip\<lparr>iaddrs := iaddrs ip'\<rparr> \<and>
     (ind ip \<noteq> 0 \<longrightarrow> ind ip' = ind ip) \<and>
     (\<forall>k < MAXFILE * BSIZE. fbyte V' ip' k = (if off \<le> k \<and> k < off + (t - tot) then bs ! (tot + (k - off)) else fbyte V ip k) \<and>
        (off \<le> k \<and> k < off + (t - tot) \<longrightarrow> fblk V' ip' (k div BSIZE) \<noteq> 0)) \<and>
     (\<forall>j < MAXFILE. fblk V ip j \<noteq> 0 \<longrightarrow> fblk V' ip' j = fblk V ip j) \<and>
     (\<forall>a. in_use x V a \<longrightarrow> in_use x V' a \<and>
        (\<not> bmap_blk x a \<longrightarrow> a \<noteq> 0 \<longrightarrow> a \<noteq> ind ip' \<longrightarrow> (\<forall>j < MAXFILE. a \<noteq> fblk V' ip' j) \<longrightarrow> V' a = V a))"

lemma fwroteD:
  assumes "fwrote x bs tot off V ip t V' ip'"
  shows "volume_ok x V'" "file_ok x V' ip'" "ip' = ip\<lparr>iaddrs := iaddrs ip'\<rparr>" "ind ip \<noteq> 0 \<Longrightarrow> ind ip' = ind ip"
    "k < MAXFILE * BSIZE \<Longrightarrow> fbyte V' ip' k = (if off \<le> k \<and> k < off + (t - tot) then bs ! (tot + (k - off)) else fbyte V ip k)"
    "k < MAXFILE * BSIZE \<Longrightarrow> off \<le> k \<Longrightarrow> k < off + (t - tot) \<Longrightarrow> fblk V' ip' (k div BSIZE) \<noteq> 0"
    "j < MAXFILE \<Longrightarrow> fblk V ip j \<noteq> 0 \<Longrightarrow> fblk V' ip' j = fblk V ip j"
    "in_use x V a \<Longrightarrow> in_use x V' a"
    "in_use x V a \<Longrightarrow> \<not> bmap_blk x a \<Longrightarrow> a \<noteq> 0 \<Longrightarrow> a \<noteq> ind ip' \<Longrightarrow> \<forall>j < MAXFILE. a \<noteq> fblk V' ip' j \<Longrightarrow> V' a = V a"
  using assms unfolding fwrote_def by blast+

lemma fwrote_refl: "volume_ok x V \<Longrightarrow> file_ok x V ip \<Longrightarrow> fwrote x bs tot off V ip tot V ip"
  unfolding fwrote_def by auto

lemma fwrote_grown:
  assumes f: "file_ok x V ip" and g: "grown x V ip bn r V' ip'" and bn: "bn < MAXFILE"
  shows "fwrote x bs tot off V ip tot V' ip'"
proof -
  have G: "volume_ok x V'" "file_ok x V' ip'" "ip' = ip\<lparr>iaddrs := iaddrs ip'\<rparr>"
    "\<forall>n < MAXFILE. fblk V' ip' n = (if n = bn then r else fblk V ip n)" "fblk V ip bn \<noteq> 0 \<longrightarrow> r = fblk V ip bn"
    "\<forall>a. in_use x V a \<longrightarrow> in_use x V' a \<and> (\<not> bmap_blk x a \<longrightarrow> a \<noteq> ind ip' \<longrightarrow> V' a = V a)"
    "ind ip' = ind ip \<or> ind ip = 0"
    using g unfolding grown_def by blast+
  have "fbyte V' ip' k = fbyte V ip k" if "k < MAXFILE * BSIZE" for k
    by (rule grown_bytes [OF f g that])
  then show ?thesis
    unfolding fwrote_def using G by auto
qed

lemma fwrote_trans:
  assumes 1: "fwrote x bs tot off V ip t V1 ip1" "tot \<le> t" and 2: "fwrote x bs t (off + (t - tot)) V1 ip1 t' V2 ip2" "t \<le> t'"
  shows "fwrote x bs tot off V ip t' V2 ip2"
proof -
  note A = fwroteD [OF 1(1)] and B = fwroteD [OF 2(1)]
  have keep1: "fblk V2 ip2 j = fblk V1 ip1 j" if "j < MAXFILE" "fblk V1 ip1 j \<noteq> 0" for j
    using B(7) that by blast
  have ip: "ip2 = ip\<lparr>iaddrs := iaddrs ip2\<rparr>"
    by (subst B(3), subst A(3)) simp
  have bytes: "fbyte V2 ip2 k = (if off \<le> k \<and> k < off + (t' - tot) then bs ! (tot + (k - off)) else fbyte V ip k)"
    if "k < MAXFILE * BSIZE" for k
    using A(5) [OF that] B(5) [OF that] 1(2) 2(2) by (auto simp: add.commute)
  have blks: "fblk V2 ip2 (k div BSIZE) \<noteq> 0" if k: "k < MAXFILE * BSIZE" "off \<le> k" "k < off + (t' - tot)" for k
  proof (cases "k < off + (t - tot)")
    case True
    then have "fblk V1 ip1 (k div BSIZE) \<noteq> 0"
      using A(6) k by blast
    then show ?thesis
      using keep1 [OF less_mult_imp_div_less [OF k(1)]] by simp
  next
    case False
    then show ?thesis
      using k 1(2) 2(2) by (intro B(6)) auto
  qed
  have keep: "fblk V2 ip2 j = fblk V ip j" if "j < MAXFILE" "fblk V ip j \<noteq> 0" for j
    using keep1 A(7) that by metis
  have frame: "V2 a = V a" if a: "in_use x V a" "\<not> bmap_blk x a" "a \<noteq> 0" "a \<noteq> ind ip2" "\<forall>j < MAXFILE. a \<noteq> fblk V2 ip2 j" for a
  proof -
    have "\<forall>j < MAXFILE. a \<noteq> fblk V1 ip1 j" "a \<noteq> ind ip1"
      using a(3,4,5) keep1 B(4) by metis+
    then show ?thesis
      using A(8,9) B(9) a by metis
  qed
  show ?thesis
    unfolding fwrote_def using B(1,2) ip A(4,8) B(4,8) bytes blks keep frame by (intro conjI allI impI) metis+
qed

lemma fwrote_store:
  assumes v: "volume_ok x V" and f: "file_ok x V ip" and n: "off div BSIZE < MAXFILE" and a: "a = fblk V ip (off div BSIZE)" "a \<noteq> 0"
    and bs: "length bs = len" "tot < len"
  shows "fwrote x bs tot off V ip (tot + chunk len tot off) (V(a := blk_store (V a) (off mod BSIZE) (take (chunk len tot off) (drop tot bs)))) ip"
proof -
  let ?m = "chunk len tot off" and ?bs = "take (chunk len tot off) (drop tot bs)"
  have m: "length ?bs = ?m" "tot + ?m \<le> len"
    using bs by (simp_all add: chunk_def)
  note S = store_bytes_file [OF v f n a m(1)]
  have nth: "?bs ! (k - off) = bs ! (tot + (k - off))" if "off \<le> k" "k < off + ?m" for k
    using that m(2) bs by simp
  have blk: "fblk V ip (k div BSIZE) \<noteq> 0" if "off \<le> k" "k < off + ?m" for k
    using chunk_block(1) [of "k - off" len tot off] that a by simp
  show ?thesis
    unfolding fwrote_def S(3,5) using S(1,2,6) nth blk n a m(1) by (auto simp del: BSIZE_def MAXFILE_def)
qed

text \<open>The number of blocks that \<open>len\<close> bytes at offset \<open>off\<close> touch.\<close>

definition nblk :: "nat \<Rightarrow> nat \<Rightarrow> nat" where
  "nblk off len = (if len = 0 then 0 else (off mod BSIZE + len - 1) div BSIZE + 1)"

lemma nblk_step:
  assumes "tot < n"
  shows "nblk (off + chunk n tot off) (n - (tot + chunk n tot off)) + 1 \<le> nblk off (n - tot)"
proof (cases "n - tot \<le> BSIZE - off mod BSIZE")
  case True
  then have "n - (tot + chunk n tot off) = 0"
    by (simp add: chunk_def)
  then show ?thesis
    using assms by (simp add: nblk_def)
next
  case False
  let ?r = "off mod BSIZE" and ?l = "n - tot"
  have c: "chunk n tot off = BSIZE - ?r"
    using False by (simp add: chunk_def)
  have r: "?r < BSIZE"
    by simp
  have "off + (BSIZE - ?r) = (off div BSIZE + 1) * BSIZE"
    using r div_mult_mod_eq [of off BSIZE] unfolding add_mult_distrib by linarith
  then have z: "(off + chunk n tot off) mod BSIZE = 0"
    unfolding c by (metis mod_mult_self2_is_0)
  have "?r + ?l - 1 = (?l - (BSIZE - ?r) - 1) + BSIZE"
    using False r by linarith
  moreover have "(a + BSIZE) div BSIZE = a div BSIZE + 1" for a
    by simp
  ultimately have "(?r + ?l - 1) div BSIZE = (?l - (BSIZE - ?r) - 1) div BSIZE + 1"
    by (simp only:)
  moreover have "n - (tot + chunk n tot off) = ?l - (BSIZE - ?r)" "0 < ?l - (BSIZE - ?r)"
    using False by (auto simp: c)
  ultimately show ?thesis
    unfolding nblk_def z using assms by simp
qed

lemma nblk_bound: "n \<le> 3 * BSIZE \<Longrightarrow> nblk off n \<le> 4"
proof -
  assume n: "n \<le> 3 * BSIZE"
  have "off mod BSIZE < BSIZE"
    by simp
  then have "off mod BSIZE + n - 1 < 4 * BSIZE"
    using n by linarith
  then have "(off mod BSIZE + n - 1) div BSIZE < 4"
    by (simp add: less_mult_imp_div_less)
  then show ?thesis
    by (simp add: nblk_def del: BSIZE_def)
qed

text \<open>
  The loop of \<^verbatim>\<open>writei\<close>. The volume has one bitmap block \<open>m\<close>, so that the log holds, besides it and
  the indirect block, one block per turn of the loop.
\<close>

lemma writei_loop_ok:
  assumes "tx s V L {} {}" "volume_ok (sb s) V" "file_ok (sb s) V (inodes s ip)" "idev (inodes s ip) = ldev s"
    "tot \<le> n" "length bs = n" "off + (n - tot) \<le> MAXFILE * BSIZE" "\<forall>a. bmap_blk (sb s) a \<longrightarrow> a = m" "0 \<notin> L - {m}"
    "card (L - {m, ind (inodes s ip)}) + nblk off (n - tot) + 5 < LOGBLOCKS"
  shows "ok (writei_loop ip (WLocal bs) n tot off s) (\<lambda>r s'. \<exists>V' L'. tot \<le> fst r \<and> fst r \<le> n \<and> snd r = off + (fst r - tot) \<and>
    tx s' V' L' {} {} \<and> only_inode ip s s' \<and> fwrote (sb s) bs tot off V (inodes s ip) (fst r) V' (inodes s' ip) \<and>
    (fst r < n \<longrightarrow> full (sb s) V') \<and> L \<subseteq> L' \<and> 0 \<notin> L' - {m} \<and>
    card (L' - {m, ind (inodes s' ip)}) \<le> card (L - {m, ind (inodes s ip)}) + nblk off (n - tot))"
  using assms
proof (induction "n - tot" arbitrary: tot off s V L rule: less_induct)
  case less
  note tx = less.prems(1) and v = less.prems(2) and f = less.prems(3) and d = less.prems(4) and bs = less.prems(6) and one = less.prems(8)
  have fin: "finite L"
    by (rule txD(15) [OF tx])
  show ?case
  proof (cases "tot < n")
    case False
    then show ?thesis
      using less.prems fwrote_refl [OF v f] by (subst writei_loop.simps) (auto intro!: exI [of _ V] exI [of _ L])
  next
    case True
    let ?m = "chunk n tot off" and ?bn = "off div BSIZE" and ?ip = "inodes s ip"
    have m: "0 < ?m" "tot + ?m \<le> n"
      using chunk_pos [OF True] True by (simp_all add: chunk_def)
    have bn: "?bn < MAXFILE"
      using less.prems(7) True by (intro less_mult_imp_div_less) linarith
    have step: "nblk (off + ?m) (n - (tot + ?m)) + 1 \<le> nblk off (n - tot)"
      by (rule nblk_step [OF True])
    have "L \<subseteq> {m, ind ?ip} \<union> (L - {m, ind ?ip})"
      by auto
    then have "card L \<le> card ({m, ind ?ip} \<union> (L - {m, ind ?ip}))"
      using fin by (intro card_mono) auto
    also have "\<dots> \<le> 2 + card (L - {m, ind ?ip})"
      by (rule order.trans [OF card_Un_le]) (simp add: card_insert_if)
    finally have room: "card L + 4 < LOGBLOCKS"
      using step less.prems(10) by linarith
    obtain r s1 V1 L1 where s1: "bmap ip ?bn s = Ret r s1" "tx s1 V1 L1 {} {}" "only_inode ip s s1"
        "grown (sb s) V ?ip ?bn r V1 (inodes s1 ip)" "L \<subseteq> L1"
        "L1 \<subseteq> L \<union> Collect (bmap_blk (sb s)) \<union> ({ind (inodes s1 ip), r} - {0})"
      using bmap_ok [OF tx v f d bn room] by (auto simp: ok_iff mapped_def)
    let ?ip1 = "inodes s1 ip"
    have e1: "sb s1 = sb s" "ldev s1 = ldev s"
      using s1(3) by (simp_all add: only_inode_def)
    have w1: "fwrote (sb s) bs tot off V ?ip tot V1 ?ip1"
      by (rule fwrote_grown [OF f s1(4) bn])
    note W1 = fwroteD [OF w1]
    have z1: "0 \<notin> L1 - {m}"
      using s1(6) one less.prems(9) by auto
    have sub1: "L1 - {m, ind ?ip1} \<subseteq> (L - {m, ind ?ip}) \<union> ({r} - {0})"
      using s1(6) one less.prems(9) W1(4) by fastforce
    show ?thesis
    proof (cases "r = 0")
      case True
      have "card (L1 - {m, ind ?ip1}) \<le> card (L - {m, ind ?ip})"
        using sub1 True fin by (intro card_mono) auto
      moreover have "full (sb s) V1"
        using s1(4) True by (simp add: grown_def)
      moreover have "writei_loop ip (WLocal bs) n tot off s = Ret (tot, off) s1"
        using \<open>tot < n\<close> s1(1) True by (subst writei_loop.simps) simp
      ultimately show ?thesis
        using m s1(2,3,5) w1 z1 by (auto intro!: exI [of _ V1] exI [of _ L1])
    next
      case False
      have r: "r = fblk V1 ?ip1 ?bn"
        using s1(4) bn by (simp add: grown_def)
      let ?c = "take ?m (drop tot bs)"
      let ?V = "V1(r := blk_store (V1 r) (off mod BSIZE) ?c)"
      have d1: "idev ?ip1 = ldev s1"
        using arg_cong [OF W1(3), of idev] d e1 by simp
      have card1: "card (L1 - {m, ind ?ip1}) \<le> card (L - {m, ind ?ip}) + 1"
        using card_mono [OF _ sub1] fin False by (auto simp: card_insert_if split: if_splits)
      have "L1 \<subseteq> {m, ind ?ip1} \<union> (L1 - {m, ind ?ip1})"
        by auto
      then have "card L1 \<le> card ({m, ind ?ip1} \<union> (L1 - {m, ind ?ip1}))"
        using txD(15) [OF s1(2)] by (intro card_mono) auto
      also have "\<dots> \<le> 2 + card (L1 - {m, ind ?ip1})"
        by (rule order.trans [OF card_Un_le]) (simp add: card_insert_if)
      finally have room1: "card L1 + 2 < LOGBLOCKS"
        using card1 step less.prems(10) by linarith
      then have "card (insert r (L1 \<union> {})) \<le> NBUF"
        using txD(15) [OF s1(2)] by (simp add: card_insert_if)
      then obtain i s2 where s2: "bread (ldev s1) r s1 = Ret i s2" "tx s2 V1 L1 {r} {}" "bheld s2 r i" "same_fs s1 s2"
        by (rule tx_look [OF s1(2), rotated]) auto
      obtain s3 s4 where s3: "log_write i (upd_data i (\<lambda>x. blk_store x (off mod BSIZE) ?c) s2) = Ret () s3" "brelse i s3 = Ret () s4"
          "tx s4 ?V (insert r L1) {} {}" "same_fs s2 s4"
        by (rule tx_change [OF s2(2,3), of "\<lambda>x. blk_store x (off mod BSIZE) ?c"]) (use room1 in auto)
      have fs: "same_fs s1 s4"
        by (rule same_fs_trans [OF s2(4) s3(4)])
      have e4: "sb s4 = sb s" "ldev s4 = ldev s" "inodes s4 = inodes s1"
        using same_fsD [OF fs] e1 by simp_all
      have w2: "fwrote (sb s) bs tot off V1 ?ip1 (tot + ?m) ?V ?ip1"
        by (rule fwrote_store [OF W1(1,2) bn r False bs \<open>tot < n\<close>])
      note W2 = fwroteD [OF w2]
      have w12: "fwrote (sb s) bs tot off V ?ip (tot + ?m) ?V ?ip1"
        by (rule fwrote_trans [OF w1 order.refl]) (use w2 in simp_all)
      have run: "writei_loop ip (WLocal bs) n tot off s = writei_loop ip (WLocal bs) n (tot + ?m) (off + ?m) s4"
        using \<open>tot < n\<close> s1(1) s2(1) s3(1,2) False d1 by (subst writei_loop.simps) (simp add: copy_src_def Let_def)
      have sub2: "insert r L1 - {m, ind ?ip1} \<subseteq> (L - {m, ind ?ip}) \<union> {r}"
        using sub1 by auto
      have card2: "card (insert r L1 - {m, ind ?ip1}) \<le> card (L - {m, ind ?ip}) + 1"
        using card_mono [OF _ sub2] fin by (auto simp: card_insert_if split: if_splits)
      have "ok (writei_loop ip (WLocal bs) n (tot + ?m) (off + ?m) s4) (\<lambda>r' s'. \<exists>V' L'. tot + ?m \<le> fst r' \<and> fst r' \<le> n \<and>
          snd r' = off + ?m + (fst r' - (tot + ?m)) \<and> tx s' V' L' {} {} \<and> only_inode ip s4 s' \<and>
          fwrote (sb s4) bs (tot + ?m) (off + ?m) ?V (inodes s4 ip) (fst r') V' (inodes s' ip) \<and>
          (fst r' < n \<longrightarrow> full (sb s4) V') \<and> insert r L1 \<subseteq> L' \<and> 0 \<notin> L' - {m} \<and>
          card (L' - {m, ind (inodes s' ip)}) \<le> card (insert r L1 - {m, ind (inodes s4 ip)}) + nblk (off + ?m) (n - (tot + ?m)))"
        by (rule less.hyps) (use m W2(1,2) d1 e1 e4 bs less.prems(7,10) one z1 False card2 step s3(3) \<open>tot < n\<close> in
          \<open>auto simp del: BSIZE_def MAXFILE_def LOGBLOCKS_def\<close>)
      then obtain r' s' V' L' where R: "writei_loop ip (WLocal bs) n (tot + ?m) (off + ?m) s4 = Ret r' s'"
          "tot + ?m \<le> fst r'" "fst r' \<le> n" "snd r' = off + ?m + (fst r' - (tot + ?m))" "tx s' V' L' {} {}" "only_inode ip s4 s'"
          "fwrote (sb s) bs (tot + ?m) (off + ?m) ?V ?ip1 (fst r') V' (inodes s' ip)"
          "fst r' < n \<longrightarrow> full (sb s) V'" "insert r L1 \<subseteq> L'" "0 \<notin> L' - {m}"
          "card (L' - {m, ind (inodes s' ip)}) \<le> card (insert r L1 - {m, ind ?ip1}) + nblk (off + ?m) (n - (tot + ?m))"
        unfolding ok_iff e4 by blast
      have w: "fwrote (sb s) bs tot off V ?ip (fst r') V' (inodes s' ip)"
        by (rule fwrote_trans [OF w12]) (use R(2,7) in simp_all)
      have "only_inode ip s s'"
        using only_inode_trans [OF only_inode_trans [OF s1(3) same_fs_only [OF fs]] R(6)] .
      moreover have "snd r' = off + (fst r' - tot)" "tot \<le> fst r'"
        using R(2,4) by linarith+
      moreover have "card (L' - {m, ind (inodes s' ip)}) \<le> card (L - {m, ind ?ip}) + nblk off (n - tot)"
        using R(11) card2 step by linarith
      ultimately show ?thesis
        unfolding run R(1) using R(3,5,8,9,10) s1(5) w by (auto intro!: exI [of _ V'] exI [of _ L'])
    qed
  qed
qed

subsection \<open>Inodes on disk\<close>

lemma addrs_fold:
  assumes "base + 4 * n \<le> 1024"
  shows "j < n \<Longrightarrow> get32 (fold (\<lambda>i. put32 (base + 4 * i) (a i)) [0..<n] x) (base + 4 * j) = a j"
    "off + 4 \<le> base \<Longrightarrow> get32 (fold (\<lambda>i. put32 (base + 4 * i) (a i)) [0..<n] x) off = get32 x off"
    "off + 2 \<le> base \<Longrightarrow> get16 (fold (\<lambda>i. put32 (base + 4 * i) (a i)) [0..<n] x) off = get16 x off"
  using assms
proof (induction n)
  case (Suc n)
  {
    case 1
    then show ?case
      using Suc by (cases "j = n") (simp_all add: get32_put32_other)
  next
    case 2
    then show ?case
      using Suc by (simp add: get32_put32_other)
  next
    case 3
    then show ?case
      using Suc by (simp add: get16_put32_other)
  }
qed simp_all

lemma blk_store_outside: "unat k < off \<or> off + length bs \<le> unat k \<Longrightarrow> blk_store x off bs k = x k"
  by (auto simp: blk_store_def)

lemma store_dinode_outside:
  assumes "unat k < off \<or> off + 64 \<le> unat k"
  shows "store_dinode ip off x k = x k"
proof -
  have "fold (\<lambda>i. put32 (off + 12 + 4 * i) (a i)) [0..<n] y k = y k" if "n \<le> 13" for a n y
    using that assms
  proof (induction n)
    case (Suc n)
    then show ?case
      by (auto simp: put32_def blk_store_outside)
  qed simp
  then show ?thesis
    using assms unfolding store_dinode_def Let_def by (auto simp: put16_def put32_def blk_store_def simp del: upt_Suc upt_rec_numeral)
qed

lemma load_store_dinode:
  assumes "off + 64 \<le> 1024"
  shows "load_dinode (store_dinode ip off x) off ip' = ip'\<lparr>itype := itype ip, imajor := imajor ip, iminor := iminor ip,
    inlink := inlink ip, isize := isize ip, iaddrs := \<lambda>i. if i < NDIRECT + 1 then iaddrs ip i else iaddrs ip' i\<rparr>"
proof -
  have "off + 12 + 4 * 13 \<le> 1024"
    using assms by simp
  note F = addrs_fold [OF this, where a = "iaddrs ip"]
  have "13 = NDIRECT + 1"
    by simp
  note F = F [unfolded this]
  show ?thesis
    unfolding load_dinode_def store_dinode_def Let_def using assms F
    by (simp add: get16_put16_other get16_put32_other get32_put16_other del: upt_Suc upt_rec_numeral NDIRECT_def cong: if_cong)
qed

lemma dinode_fits: "dinode_off i + 64 \<le> 1024"
proof -
  have "unat i mod IPB < 16"
    by simp
  then show ?thesis
    by (simp add: dinode_off_def del: IPB_def)
qed

text \<open>
  C25: an inode written by \<^verbatim>\<open>iupdate\<close> and loaded by \<^verbatim>\<open>ilock\<close> comes back with its type, device
  numbers, link count, size and addresses, and the other inodes of the block stay as they were.
\<close>

theorem dinode_roundtrip:
  "load_dinode (store_dinode ip (dinode_off i) x) (dinode_off i) ip' = ip'\<lparr>itype := itype ip, imajor := imajor ip,
     iminor := iminor ip, inlink := inlink ip, isize := isize ip,
     iaddrs := \<lambda>k. if k < NDIRECT + 1 then iaddrs ip k else iaddrs ip' k\<rparr> \<and>
   (unat i mod IPB \<noteq> unat j mod IPB \<longrightarrow>
     load_dinode (store_dinode ip (dinode_off i) x) (dinode_off j) ip' = load_dinode x (dinode_off j) ip')"
proof (intro conjI impI)
  show "load_dinode (store_dinode ip (dinode_off i) x) (dinode_off i) ip' = ip'\<lparr>itype := itype ip, imajor := imajor ip,
     iminor := iminor ip, inlink := inlink ip, isize := isize ip,
     iaddrs := \<lambda>k. if k < NDIRECT + 1 then iaddrs ip k else iaddrs ip' k\<rparr>"
    by (rule load_store_dinode [OF dinode_fits])
  assume "unat i mod IPB \<noteq> unat j mod IPB"
  then have "dinode_off j + 64 \<le> dinode_off i \<or> dinode_off i + 64 \<le> dinode_off j"
    unfolding dinode_off_def by linarith
  then have "store_dinode ip (dinode_off i) x (of_nat (dinode_off j + k)) = x (of_nat (dinode_off j + k))" if "k < 64" for k
    using that dinode_fits [of j] unat_of_nat10 [of "dinode_off j + k"] by (intro store_dinode_outside) auto
  then have "blk_load (store_dinode ip (dinode_off i) x) (dinode_off j + n) m = blk_load x (dinode_off j + n) m" if "n + m \<le> 64" for n m
    using that by (auto simp: blk_load_def add.assoc simp del: of_nat_add)
  from this [of 0] this
  show "load_dinode (store_dinode ip (dinode_off i) x) (dinode_off j) ip' = load_dinode x (dinode_off j) ip'"
    by (simp add: load_dinode_def get16_def get32_def add.assoc del: add_2_eq_Suc' cong: if_cong)
qed

theorem dinode_roundtrip_witness:
  "itype (load_dinode (store_dinode (blank_inode\<lparr>itype := 2, isize := 77\<rparr>) (dinode_off 3) (\<lambda>_. 5)) (dinode_off 3) blank_inode) = 2 \<and>
   isize (load_dinode (store_dinode (blank_inode\<lparr>itype := 2, isize := 77\<rparr>) (dinode_off 3) (\<lambda>_. 5)) (dinode_off 3) blank_inode) = 77"
  using dinode_roundtrip [of "blank_inode\<lparr>itype := 2, isize := 77\<rparr>" 3 "\<lambda>_. 5" blank_inode 4] by simp

lemma iupdate_ok:
  assumes tx: "tx s V L {} {}" and d: "idev (inodes s ip) = ldev s" and room: "card L < LOGBLOCKS"
  defines "b \<equiv> IBLOCK (inum (inodes s ip)) (sb s)"
  obtains s' where "iupdate ip s = Ret () s'" "same_fs s s'"
    "tx s' (V(b := store_dinode (inodes s ip) (dinode_off (inum (inodes s ip))) (V b))) (insert b L) {} {}"
proof -
  let ?f = "store_dinode (inodes s ip) (dinode_off (inum (inodes s ip)))"
  have "card (insert b (L \<union> {})) \<le> NBUF"
    using room txD(15) [OF tx] by (simp add: card_insert_if)
  then obtain i s1 where s1: "bread (ldev s) b s = Ret i s1" "tx s1 V L {b} {}" "bheld s1 b i" "same_fs s s1"
    by (rule tx_look [OF tx, rotated]) auto
  obtain s2 s3 where s2: "log_write i (upd_data i ?f s1) = Ret () s2" "brelse i s2 = Ret () s3"
      "tx s3 (V(b := ?f (V b))) (insert b L) {} {}" "same_fs s1 s3"
    by (rule tx_change [OF s1(2,3) _ _ room, of ?f]) auto
  have "iupdate ip s = Ret () s3"
    using s1(1) s2(1,2) d same_fsD(2) [OF s1(4)] by (simp add: iupdate_def Let_def b_def)
  then show thesis
    using that s2(3) same_fs_trans [OF s1(4) s2(4)] by blast
qed

text \<open>The inode's own block is metadata, apart from the bitmap.\<close>

definition inode_blk_ok :: "superblock \<Rightarrow> uint32 \<Rightarrow> bool" where
  "inode_blk_ok x i \<longleftrightarrow> i < sb_ninodes x \<and> IBLOCK i x \<noteq> 0 \<and> \<not> bmap_blk x (IBLOCK i x)"

lemma inode_store:
  fixes y :: block
  assumes v: "volume_ok x V" and f: "file_ok x V ip" and i: "inode_blk_ok x j"
  defines "V' \<equiv> V(IBLOCK j x := y)"
  shows "volume_ok x V'" "file_ok x V' ip" "full x V' = full x V" "fblk V' ip n = fblk V ip n"
    "k < MAXFILE * BSIZE \<Longrightarrow> fbyte V' ip k = fbyte V ip k"
proof -
  have b: "meta_blk x (IBLOCK j x)" "\<not> bmap_blk x (IBLOCK j x)" "IBLOCK j x \<noteq> 0"
    using i by (auto simp: inode_blk_ok_def meta_blk_def)
  have c: "bmap_blk x a \<Longrightarrow> V' a = V a" for a
    using b(2) by (auto simp: V'_def)
  note cong = in_use_cong [of x V' V, OF c]
  have e: "fblk V' ip n = fblk V ip n" for n
    using file_okD(2) [OF f] data_blkD(3) b(1) by (auto simp: fblk_def V'_def)
  show "volume_ok x V'" "full x V' = full x V" "fblk V' ip n = fblk V ip n"
    using cong v e by simp_all
  show "file_ok x V' ip"
    using f own_cong [of "data_blk x V'" "data_blk x V" "fblk V' ip" "fblk V ip"] cong(3) e by (simp add: file_ok_def)
  assume "k < MAXFILE * BSIZE"
  then have "k div BSIZE < MAXFILE"
    by (rule less_mult_imp_div_less)
  then have "fblk V ip (k div BSIZE) \<noteq> IBLOCK j x"
    using file_okD(1) [OF f] data_blkD(3) b(1,3) by metis
  then show "fbyte V' ip k = fbyte V ip k"
    using e by (simp add: fbyte_def Let_def V'_def del: BSIZE_def)
qed

text \<open>
  What a file system call sees of a file: the volume and the file are sane, the inode belongs to the
  device the log serves, and the bitmap is one block, as it is for every volume of up to 8192 blocks.
\<close>

definition file_tx :: "nat \<Rightarrow> uint32 \<Rightarrow> (uint32 \<Rightarrow> block) \<Rightarrow> uint32 set \<Rightarrow> 'a fsst_scheme \<Rightarrow> bool" where
  "file_tx ip m V L s \<longleftrightarrow> tx s V L {} {} \<and> volume_ok (sb s) V \<and> file_ok (sb s) V (inodes s ip) \<and> idev (inodes s ip) = ldev s \<and>
     inode_blk_ok (sb s) (inum (inodes s ip)) \<and> (\<forall>a. bmap_blk (sb s) a \<longrightarrow> a = m) \<and> 0 \<notin> L - {m}"

lemma file_txD:
  assumes "file_tx ip m V L s"
  shows "tx s V L {} {}" "volume_ok (sb s) V" "file_ok (sb s) V (inodes s ip)" "idev (inodes s ip) = ldev s"
    "inode_blk_ok (sb s) (inum (inodes s ip))" "\<forall>a. bmap_blk (sb s) a \<longrightarrow> a = m" "0 \<notin> L - {m}"
  using assms by (simp_all add: file_tx_def)

lemma card_diff2: "finite L \<Longrightarrow> card L \<le> card (L - {a, b}) + 2"
proof -
  assume fin: "finite L"
  have "card L \<le> card ((L - {a, b}) \<union> {a, b})"
    using fin by (intro card_mono) auto
  also have "\<dots> \<le> card (L - {a, b}) + card {a, b}"
    by (rule card_Un_le)
  also have "\<dots> \<le> card (L - {a, b}) + 2"
    by (simp add: card_insert_if)
  finally show ?thesis .
qed

lemma writei_ok:
  assumes F: "file_tx ip m V L s" and n: "length bs = unat n" "n \<le> 3 * 1024" and room: "card L + MAXOPBLOCKS \<le> LOGBLOCKS"
    and off: "off \<le> isize (inodes s ip)" "unat off + unat n \<le> MAXFILE * BSIZE"
  obtains t s' V' L' where "writei ip (WLocal bs) off n s = Ret (int t) s'" "t \<le> unat n" "file_tx ip m V' L' s'" "only_inode ip s s'"
    "t < unat n \<longrightarrow> full (sb s) V'" "L \<subseteq> L'" "card L' \<le> card L + 7"
    "unat (isize (inodes s' ip)) = max (unat (isize (inodes s ip))) (unat off + t)"
    "\<forall>k < MAXFILE * BSIZE. fbyte V' (inodes s' ip) k = (if unat off \<le> k \<and> k < unat off + t then bs ! (k - unat off) else fbyte V (inodes s ip) k)"
    "\<forall>k. unat off \<le> k \<longrightarrow> k < unat off + t \<longrightarrow> fblk V' (inodes s' ip) (k div BSIZE) \<noteq> 0"
    "\<forall>j < MAXFILE. fblk V (inodes s ip) j \<noteq> 0 \<longrightarrow> fblk V' (inodes s' ip) j = fblk V (inodes s ip) j"
    "load_dinode (V' (IBLOCK (inum (inodes s ip)) (sb s))) (dinode_off (inum (inodes s ip))) (inodes s' ip) = inodes s' ip"
proof -
  note T = file_txD [OF F]
  let ?ip = "inodes s ip" and ?n = "unat n" and ?o = "unat off"
  let ?i = "inum (inodes s ip)"
  let ?b = "IBLOCK ?i (sb s)"
  have n3: "?n \<le> 3 * BSIZE"
    using n(2) by (simp add: word_le_nat_alt)
  have no: "\<not> off + n < off" "unat (off + n) = ?o + ?n"
  proof -
    have "?o + ?n < 2 ^ 32"
      using off(2) by simp
    then show "\<not> off + n < off"
      using unat_add_le(1) by blast
    then show "unat (off + n) = ?o + ?n"
      by (rule unat_add_le(2))
  qed
  have L0: "card (L - {m, ind ?ip}) \<le> card L"
    using txD(15) [OF T(1)] by (intro card_mono) auto
  have "card (L - {m, ind ?ip}) + nblk ?o (?n - 0) + 5 < LOGBLOCKS"
    using L0 nblk_bound [OF n3, of ?o] room by simp
  from writei_loop_ok [OF T(1,2,3,4) le0 n(1) _ T(6,7) this] off(2)
  obtain r s1 V1 L1 where s1: "writei_loop ip (WLocal bs) ?n 0 ?o s = Ret r s1" "fst r \<le> ?n" "snd r = ?o + fst r"
      "tx s1 V1 L1 {} {}" "only_inode ip s s1" "fwrote (sb s) bs 0 ?o V ?ip (fst r) V1 (inodes s1 ip)"
      "fst r < ?n \<longrightarrow> full (sb s) V1" "L \<subseteq> L1" "0 \<notin> L1 - {m}" "card (L1 - {m, ind (inodes s1 ip)}) \<le> card (L - {m, ind ?ip}) + nblk ?o ?n"
    unfolding ok_iff by auto
  let ?t = "fst r"
  note W = fwroteD [OF s1(6)]
  have e1: "sb s1 = sb s" "ldev s1 = ldev s"
    using s1(5) by (simp_all add: only_inode_def)
  have i1: "isize (inodes s1 ip) = isize ?ip" "inum (inodes s1 ip) = ?i" "idev (inodes s1 ip) = ldev s"
    using arg_cong [OF W(3), of isize] arg_cong [OF W(3), of inum] arg_cong [OF W(3), of idev] T(4) by simp_all
  have cL1: "card L1 \<le> card L + 6"
    using card_diff2 [OF txD(15) [OF s1(4)], of m "ind (inodes s1 ip)"] s1(10) L0 nblk_bound [OF n3, of ?o] by linarith
  define s2 where "s2 = (if snd r > unat (isize (inodes s1 ip)) then upd_inode ip (\<lambda>x. x\<lparr>isize := of_nat (snd r)\<rparr>) s1 else s1)"
  have s2: "tx s2 V1 L1 {} {}" "only_inode ip s s2" "sb s2 = sb s" "ldev s2 = ldev s" "idev (inodes s2 ip) = ldev s2" "inum (inodes s2 ip) = ?i"
      "iaddrs (inodes s2 ip) = iaddrs (inodes s1 ip)"
    using s1(4,5) e1 i1 by (auto simp: s2_def)
  have sz: "unat (isize (inodes s2 ip)) = max (unat (isize ?ip)) (?o + ?t)"
  proof -
    have "?o + ?t < 2 ^ 32"
      using off(2) s1(2) by simp
    then show ?thesis
      using unat_of_nat32 [of "?o + ?t"] s1(3) i1 by (auto simp: s2_def)
  qed
  have "card L1 < LOGBLOCKS"
    using cL1 room by simp
  then obtain s3 where s3: "iupdate ip s2 = Ret () s3" "same_fs s2 s3"
      "tx s3 (V1(?b := store_dinode (inodes s2 ip) (dinode_off ?i) (V1 ?b))) (insert ?b L1) {} {}"
    by (rule iupdate_ok [OF s2(1,5)]) (simp add: s2)
  let ?V = "V1(?b := store_dinode (inodes s2 ip) (dinode_off ?i) (V1 ?b))"
  have i3: "inodes s3 ip = inodes s2 ip" "sb s3 = sb s" "ldev s3 = ldev s"
    using same_fsD [OF s3(2)] s2 by simp_all
  have fb: "fblk V' (inodes s2 ip) k = fblk V' (inodes s1 ip) k" "ind (inodes s2 ip) = ind (inodes s1 ip)"
      "fbyte V' (inodes s2 ip) k = fbyte V' (inodes s1 ip) k" for V' k
    using s2(7) by (simp_all add: fblk_def ind_def fbyte_def)
  have ok1: "file_ok (sb s) V1 (inodes s2 ip)"
    using W(2) fb own_cong [of "data_blk (sb s) V1" "data_blk (sb s) V1" "fblk V1 (inodes s2 ip)" "fblk V1 (inodes s1 ip)"]
    by (simp add: file_ok_def)
  note I = inode_store [OF W(1) ok1 T(5), where y = "store_dinode (inodes s2 ip) (dinode_off ?i) (V1 ?b)"]
  have fb3: "fblk ?V (inodes s3 ip) j = fblk V1 (inodes s1 ip) j" for j
    unfolding i3 using I(4) fb(1) by metis
  have run: "writei ip (WLocal bs) off n s = Ret (int ?t) s3"
    using off no s1(1) s3(1) unfolding writei_def s2_def by (simp add: not_less Let_def)
  have nz: "?b \<noteq> 0"
    using T(5) by (simp add: inode_blk_ok_def)
  have ft: "file_tx ip m ?V (insert ?b L1) s3"
    unfolding file_tx_def i3 using s3(3) I(1,2) s2 T(5,6) s1(9) nz by (auto simp del: fun_upd_apply)
  have card3: "card (insert ?b L1) \<le> card L + 7"
    using cL1 txD(15) [OF s1(4)] by (simp add: card_insert_if)
  show thesis
  proof (rule that [OF run s1(2) ft _ _ _ card3])
    show "only_inode ip s s3"
      by (rule only_inode_trans [OF s2(2) same_fs_only [OF s3(2)]])
    show "?t < ?n \<longrightarrow> full (sb s) ?V" "L \<subseteq> insert ?b L1"
      using s1(7,8) I(3) by auto
    show "unat (isize (inodes s3 ip)) = max (unat (isize ?ip)) (?o + ?t)"
      unfolding i3 by (rule sz)
    show "\<forall>k < MAXFILE * BSIZE. fbyte ?V (inodes s3 ip) k = (if ?o \<le> k \<and> k < ?o + ?t then bs ! (k - ?o) else fbyte V ?ip k)"
      unfolding i3 using I(5) fb(3) W(5) by simp
    have "?o + ?t \<le> MAXFILE * BSIZE"
      using off(2) s1(2) by linarith
    then show "\<forall>k. ?o \<le> k \<longrightarrow> k < ?o + ?t \<longrightarrow> fblk ?V (inodes s3 ip) (k div BSIZE) \<noteq> 0"
      unfolding fb3 using W(6) by (auto simp del: BSIZE_def MAXFILE_def)
    show "\<forall>j < MAXFILE. fblk V ?ip j \<noteq> 0 \<longrightarrow> fblk ?V (inodes s3 ip) j = fblk V ?ip j"
      unfolding fb3 using W(7) by blast
    show "load_dinode (?V ?b) (dinode_off ?i) (inodes s3 ip) = inodes s3 ip"
      unfolding i3 using load_store_dinode [OF dinode_fits, of "inodes s2 ip" ?i "V1 ?b" "inodes s2 ip"] by simp
  qed
qed

lemma no_holes_written:
  assumes h: "no_holes V ip" and sz: "unat (isize ip') = max (unat (isize ip)) (k + t)" and off: "k \<le> unat (isize ip)" "k + t \<le> MAXFILE * BSIZE"
    and new: "\<forall>i. k \<le> i \<longrightarrow> i < k + t \<longrightarrow> fblk V' ip' (i div BSIZE) \<noteq> 0"
    and old: "\<forall>j < MAXFILE. fblk V ip j \<noteq> 0 \<longrightarrow> fblk V' ip' j = fblk V ip j"
  shows "no_holes V' ip'"
  unfolding no_holes_def
proof (intro conjI allI impI)
  show "unat (isize ip') \<le> MAXFILE * BSIZE"
    using h sz off by (simp add: no_holes_def)
  fix j
  assume j: "j * BSIZE < unat (isize ip')"
  show "fblk V' ip' j \<noteq> 0"
  proof (cases "j * BSIZE < unat (isize ip)")
    case True
    then have "fblk V ip j \<noteq> 0" "j * BSIZE < MAXFILE * BSIZE"
      using h by (auto simp: no_holes_def)
    then show ?thesis
      using old by (simp add: mult_less_cancel2)
  next
    case False
    then have "fblk V' ip' (j * BSIZE div BSIZE) \<noteq> 0"
      using j sz off by (intro new [rule_format]) auto
    then show ?thesis
      by simp
  qed
qed

text \<open>
  C26: \<^verbatim>\<open>readi\<close> returns the bytes of the file from the offset on, as many as were asked for or as
  the file has, and changes no block. It returns 0 when the offset is behind the end or the sum
  of offset and count wraps around.
\<close>

theorem readi_correct:
  assumes "tx s V L {} {}" "idev (inodes s ip) = ldev s" "no_holes V (inodes s ip)" "card L < NBUF"
  shows "\<exists>s'. tx s' V L {} {} \<and> same_fs s s' \<and> readi ip RLocal off n s =
    (if off > isize (inodes s ip) \<or> off + n < off then Ret (0, []) s
     else Ret (int (min (unat n) (unat (isize (inodes s ip)) - unat off)),
       map (fbyte V (inodes s ip)) [unat off..<unat off + min (unat n) (unat (isize (inodes s ip)) - unat off)]) s')"
  by (rule readi_ok [OF assms, of off n]) blast

text \<open>A file of ten bytes in block 5 of the volume.\<close>

definition tiny_inode :: inode where
  "tiny_inode = blank_inode\<lparr>idev := 1, inum := 1, iref := 1, ivalid := True, itype := T_FILE\<rparr>"

definition ten_inode :: inode where
  "ten_inode = tiny_inode\<lparr>isize := 10, iaddrs := (\<lambda>_. 0)(0 := 5)\<rparr>"

theorem readi_correct_witness:
  "\<exists>s'. readi 0 RLocal 7 100 (boot_fs tiny_disk tiny_sb (\<lambda>_. ten_inode)) = Ret (3, [9, 9, 9]) s'"
proof -
  let ?s = "boot_fs tiny_disk tiny_sb (\<lambda>_. ten_inode)"
  have h: "no_holes tiny_disk (inodes ?s 0)"
    by (auto simp: no_holes_def boot_fs_sel ten_inode_def tiny_inode_def blank_inode_def fblk_def)
  have "fbyte tiny_disk ten_inode k = 9" if "k < 10" for k
    using that by (simp add: fbyte_def fblk_def ten_inode_def tiny_disk_def)
  then have "map (fbyte tiny_disk ten_inode) [7..<10] = [9, 9, 9]"
    by (simp add: upt_rec)
  then show ?thesis
    using readi_correct [OF boot_fs_tx [of tiny_disk tiny_sb "\<lambda>_. ten_inode"], of 0 7 100] h
    by (auto simp: boot_fs_sel ten_inode_def tiny_inode_def)
qed


definition tiny_file :: fsst where
  "tiny_file = boot_fs tiny_disk tiny_sb (\<lambda>_. tiny_inode)"

lemma tiny_file_tx: "file_tx 0 1 tiny_disk {} tiny_file" "isize (inodes tiny_file 0) = 0" "no_holes tiny_disk (inodes tiny_file 0)"
proof -
  have sel: "inodes tiny_file = (\<lambda>_. tiny_inode)" "sb tiny_file = tiny_sb" "ldev tiny_file = 1"
    by (simp_all add: tiny_file_def boot_fs_sel)
  have b: "bmap_blk tiny_sb a \<longleftrightarrow> a = 1" for a
    by (auto simp: bmap_blk_def BBLOCK_def tiny_sb_sel intro: exI [of _ 0])
  have f: "fblk tiny_disk tiny_inode n = 0" "ind tiny_inode = 0" for n
    by (simp_all add: fblk_def ind_def tiny_inode_def blank_inode_def)
  show "file_tx 0 1 tiny_disk {} tiny_file"
    using boot_fs_tx [of tiny_disk tiny_sb "\<lambda>_. tiny_inode"] tiny_volume
    by (auto simp: file_tx_def sel b f file_ok_def own_def inode_blk_ok_def IBLOCK_def tiny_sb_sel) (simp_all add: tiny_file_def tiny_inode_def)
  show "isize (inodes tiny_file 0) = 0" "no_holes tiny_disk (inodes tiny_file 0)"
    by (simp_all add: sel tiny_inode_def blank_inode_def no_holes_def)
qed


text \<open>
  C27: reading back what \<^verbatim>\<open>writei\<close> has written gives the same bytes.
\<close>

theorem writei_readi:
  assumes F: "file_tx ip m V L s" and n: "length bs = unat n" "n \<le> 3 * 1024" and room: "card L + MAXOPBLOCKS \<le> LOGBLOCKS"
    and off: "off \<le> isize (inodes s ip)" "unat off + unat n \<le> MAXFILE * BSIZE" and h: "no_holes V (inodes s ip)"
  shows "\<exists>t s' s'' V'. writei ip (WLocal bs) off n s = Ret (int t) s' \<and> t \<le> unat n \<and> (t < unat n \<longrightarrow> full (sb s) V') \<and>
    bview (ldev s) s' = V' \<and> readi ip RLocal off (of_nat t) s' = Ret (int t, take t bs) s''"
proof -
  obtain t s' V' L' where W: "writei ip (WLocal bs) off n s = Ret (int t) s'" "t \<le> unat n" "file_tx ip m V' L' s'" "only_inode ip s s'"
    "t < unat n \<longrightarrow> full (sb s) V'" "L \<subseteq> L'" "card L' \<le> card L + 7"
    "unat (isize (inodes s' ip)) = max (unat (isize (inodes s ip))) (unat off + t)"
    "\<forall>k < MAXFILE * BSIZE. fbyte V' (inodes s' ip) k = (if unat off \<le> k \<and> k < unat off + t then bs ! (k - unat off) else fbyte V (inodes s ip) k)"
    "\<forall>k. unat off \<le> k \<longrightarrow> k < unat off + t \<longrightarrow> fblk V' (inodes s' ip) (k div BSIZE) \<noteq> 0"
    "\<forall>j < MAXFILE. fblk V (inodes s ip) j \<noteq> 0 \<longrightarrow> fblk V' (inodes s' ip) j = fblk V (inodes s ip) j"
    by (rule writei_ok [OF F n room off])
  note T = file_txD [OF W(3)]
  have len: "unat off + t \<le> MAXFILE * BSIZE" "unat off + t < 2 ^ 32"
    using off(2) W(2) by simp_all
  have h': "no_holes V' (inodes s' ip)"
    using off(1) by (intro no_holes_written [OF h W(8) _ len(1) W(10,11)]) (simp add: word_le_nat_alt)
  have "card L' < NBUF"
    using W(7) room by simp
  then obtain s'' where R: "readi ip RLocal off (of_nat t) s' =
      (if off > isize (inodes s' ip) \<or> off + of_nat t < off then Ret (0, []) s'
       else Ret (int (min (unat (of_nat t :: uint32)) (unat (isize (inodes s' ip)) - unat off)),
         map (fbyte V' (inodes s' ip)) [unat off..<unat off + min (unat (of_nat t :: uint32)) (unat (isize (inodes s' ip)) - unat off)]) s'')"
    by (rule readi_ok [OF T(1,4) h'])
  have u: "unat (of_nat t :: uint32) = t"
    using len(2) by (intro unat_of_nat32) simp
  have "\<not> off > isize (inodes s' ip)" "\<not> off + of_nat t < off"
    using W(8) len(2) unat_add_le(1) [of off "of_nat t"] u by (auto simp: word_less_nat_alt)
  moreover have "min t (unat (isize (inodes s' ip)) - unat off) = t"
    using W(8) by simp
  moreover have "map (fbyte V' (inodes s' ip)) [unat off..<unat off + t] = take t bs"
    using W(2,9) len(1) n(1) by (intro nth_equalityI) auto
  ultimately have "readi ip RLocal off (of_nat t) s' = Ret (int t, take t bs) s''"
    using R u by simp
  moreover have "bview (ldev s) s' = V'"
    using txD(3) [OF T(1)] W(4) by (simp add: only_inode_def)
  ultimately show ?thesis
    using W(1,2,5) by blast
qed

theorem writei_readi_witness:
  "\<exists>t s' s''. writei 0 (WLocal [1, 2, 3]) 0 3 tiny_file = Ret (int t) s' \<and> readi 0 RLocal 0 (of_nat t) s' = Ret (int t, take t [1, 2, 3]) s''"
  using writei_readi [OF tiny_file_tx(1), of "[1, 2, 3]" 3 0] tiny_file_tx(2,3) by auto

end
