(* ===== verification/FsName.thy ===== *)
theory FsName
  imports FsData
begin

section \<open>The inode table, directories and path names\<close>

text \<open>
  The inode table counts references per inode: \<^verbatim>\<open>iget\<close>, \<^verbatim>\<open>idup\<close> and \<^verbatim>\<open>iput\<close> against a map from
  device and inode number to the count. A directory is a list of entries and \<^verbatim>\<open>dirlookup\<close> finds the
  first entry with the name. \<^verbatim>\<open>skipelem\<close> called in a loop splits a path at its slashes.
\<close>

interpretation inode_lock: sleeplock_field "Lk_inode i" "get_inode_lock i" "put_inode_lock i" for i
  by unfold_locales simp_all

subsection \<open>Reference counts\<close>

definition ilive :: "'a fsst_scheme \<Rightarrow> nat \<Rightarrow> uint32 \<Rightarrow> uint32 \<Rightarrow> bool" where
  "ilive s i dev num \<longleftrightarrow> i < NINODE \<and> 0 < iref (inodes s i) \<and> idev (inodes s i) = dev \<and> inum (inodes s i) = num"

definition itable_ok :: "'a fsst_scheme \<Rightarrow> bool" where
  "itable_ok s \<longleftrightarrow> (\<forall>i < NINODE. 0 \<le> iref (inodes s i)) \<and>
     (\<forall>i j dev num. ilive s i dev num \<longrightarrow> ilive s j dev num \<longrightarrow> i = j)"

definition icount :: "uint32 \<times> uint32 \<Rightarrow> inode \<Rightarrow> int" where
  "icount p x = (if (idev x, inum x) = p then iref x else 0)"

definition irefs :: "'a fsst_scheme \<Rightarrow> uint32 \<times> uint32 \<Rightarrow> int" where
  "irefs s p = (\<Sum>i < NINODE. icount p (inodes s i))"

lemma sum_upd:
  fixes f :: "nat \<Rightarrow> int"
  assumes "i < n"
  shows "(\<Sum>k < n. if k = i then v else f k) = (\<Sum>k < n. f k) - f i + v"
proof -
  have "(\<Sum>k < n. if k = i then v else f k) = v + (\<Sum>k \<in> {..<n} - {i}. f k)"
    using assms by (subst sum.remove [of _ i]) (auto intro!: sum.cong)
  moreover have "(\<Sum>k < n. f k) = f i + (\<Sum>k \<in> {..<n} - {i}. f k)"
    using assms by (intro sum.remove) auto
  ultimately show ?thesis
    by simp
qed

lemma irefs_upd:
  assumes "i < NINODE" "inodes s' = (inodes s)(i := x)"
  shows "irefs s' p = irefs s p - icount p (inodes s i) + icount p x"
proof -
  have "irefs s' p = (\<Sum>k < NINODE. if k = i then icount p x else icount p (inodes s k))"
    unfolding irefs_def assms(2) by (intro sum.cong) auto
  then show ?thesis
    using sum_upd [OF assms(1)] by (simp add: irefs_def del: NINODE_def)
qed

lemma itable_ok_ref:
  assumes ok: "itable_ok s" and i: "i < NINODE" "0 < iref (inodes s i) \<or> n = 0" "0 \<le> n"
    and e: "inodes s' = (inodes s)(i := (inodes s i)\<lparr>iref := n\<rparr>)"
  shows "itable_ok s'"
proof -
  have "ilive s' j dev num \<Longrightarrow> ilive s j dev num" for j dev num
    using i by (auto simp: ilive_def e split: if_splits)
  then have "i = j" if "ilive s' i dev num" "ilive s' j dev num" for i j dev num
    using that ok unfolding itable_ok_def by blast
  moreover have "0 \<le> iref (inodes s' j)" if "j < NINODE" for j
    using that ok i(3) unfolding itable_ok_def e by auto
  ultimately show ?thesis
    unfolding itable_ok_def by blast
qed

text \<open>
  C28: the inode table holds at most one entry per inode. \<^verbatim>\<open>iget\<close> keeps it so: it gives the entry
  that caches the inode, taking an unused one if there is none, and adds one to the inode's
  reference count and to no other. It panics only when all entries are in use.
\<close>

theorem iget_correct:
  assumes ok: "itable_ok s" and held: "held s = {}"
  shows "if (\<exists>i. ilive s i dev num) \<or> (\<exists>i < NINODE. iref (inodes s i) = 0)
    then \<exists>ip x. iget dev num s = Ret ip (s\<lparr>inodes := (inodes s)(ip := x)\<rparr>) \<and> itable_ok (s\<lparr>inodes := (inodes s)(ip := x)\<rparr>) \<and>
      ilive (s\<lparr>inodes := (inodes s)(ip := x)\<rparr>) ip dev num \<and>
      irefs (s\<lparr>inodes := (inodes s)(ip := x)\<rparr>) = (irefs s)((dev, num) := irefs s (dev, num) + 1) \<and>
      (if ilive s ip dev num then x = (inodes s ip)\<lparr>iref := iref (inodes s ip) + 1\<rparr> else iref (inodes s ip) = 0 \<and> \<not> ivalid x)
    else iget dev num s = Panic ''iget: no inodes''"
proof -
  let ?P = "\<lambda>i. iref (inodes s i) > 0 \<and> idev (inodes s i) = dev \<and> inum (inodes s i) = num"
  let ?s0 = "s\<lparr>held := {Lk_itable}\<rparr>"
  show ?thesis
  proof (cases "find ?P [0..<NINODE]")
    case (Some ip)
    then have ip: "?P ip" "ip < NINODE"
      by (auto simp: find_Some_iff)
    let ?x = "(inodes s ip)\<lparr>iref := iref (inodes s ip) + 1\<rparr>"
    let ?s = "s\<lparr>inodes := (inodes s)(ip := ?x)\<rparr>"
    have run: "iget dev num s = Ret ip ?s"
      using Some held by (simp add: iget_def acquire_def release_def upd_inode_def held_id)
    have "itable_ok ?s"
      by (rule itable_ok_ref [OF ok ip(2), of "iref (inodes s ip) + 1"]) (use ip in auto)
    moreover have "ilive ?s ip dev num" "ilive s ip dev num"
      using ip by (simp_all add: ilive_def)
    moreover have "irefs ?s = (irefs s)((dev, num) := irefs s (dev, num) + 1)"
      using ip irefs_upd [OF ip(2), of ?s s ?x] by (auto simp: fun_eq_iff icount_def)
    ultimately show ?thesis
      using run by auto
  next
    case None
    then have none: "\<not> ilive s i dev num" for i
      by (auto simp: find_None_iff ilive_def)
    show ?thesis
    proof (cases "find (\<lambda>i. iref (inodes s i) = 0) [0..<NINODE]")
      case (Some ip)
      then have ip: "iref (inodes s ip) = 0" "ip < NINODE"
        by (auto simp: find_Some_iff)
      let ?x = "(inodes s ip)\<lparr>idev := dev, inum := num, iref := 1, ivalid := False\<rparr>"
      let ?s = "s\<lparr>inodes := (inodes s)(ip := ?x)\<rparr>"
      have run: "iget dev num s = Ret ip ?s"
        using None Some held by (simp add: iget_def acquire_def release_def upd_inode_def held_id)
      have live: "ilive ?s j d n \<longleftrightarrow> (if j = ip then (d, n) = (dev, num) else ilive s j d n)" for j d n
        using ip by (auto simp: ilive_def)
      have "i = j" if "ilive ?s i d n" "ilive ?s j d n" for i j d n
        using that none ok by (auto simp: live itable_ok_def split: if_splits)
      then have "itable_ok ?s"
        using ok ip unfolding itable_ok_def by (auto simp del: NINODE_def)
      moreover have "irefs ?s = (irefs s)((dev, num) := irefs s (dev, num) + 1)"
        using ip irefs_upd [OF ip(2), of ?s s ?x] by (auto simp: fun_eq_iff icount_def)
      moreover have "ilive ?s ip dev num"
        by (simp add: live)
      moreover have "\<exists>i < NINODE. iref (inodes s i) = 0"
        using ip by blast
      ultimately show ?thesis
        using run none ip(1) by (auto simp del: NINODE_def)
    next
      case none2: None
      then have "\<not> (\<exists>i < NINODE. iref (inodes s i) = 0)"
        by (auto simp: find_None_iff)
      then show ?thesis
        using None none2 none held by (auto simp: iget_def acquire_def)
    qed
  qed
qed

theorem iget_correct_witness:
  "\<exists>ip s'. iget 1 7 tiny_fs = Ret ip s' \<and> irefs s' (1, 7) = 1 \<and> itable_ok s'"
proof -
  have z: "iref (inodes tiny_fs i) = 0" for i
    by (simp add: tiny_fs_sel blank_inode_def)
  then have ok: "itable_ok tiny_fs" and live: "\<not> ilive tiny_fs i d n" for i d n
    by (simp_all add: itable_ok_def ilive_def)
  have "irefs tiny_fs (1, 7) = 0"
    unfolding irefs_def icount_def by (rule sum.neutral) (simp add: z)
  moreover have "\<exists>i < NINODE. iref (inodes tiny_fs i) = 0"
    using z by (intro exI [of _ 0]) simp
  ultimately show ?thesis
    using iget_correct [OF ok tiny_fs_sel(3), of 1 7] live by (auto simp del: NINODE_def)
qed

text \<open>The other two operations on the count.\<close>

lemma idup_ok:
  assumes "itable_ok s" "held s = {}" "ip < NINODE" "0 < iref (inodes s ip)"
  obtains s' where "idup ip s = Ret ip s'" "itable_ok s'" "\<And>p. irefs s' p = irefs s p + (if p = (idev (inodes s ip), inum (inodes s ip)) then 1 else 0)"
proof -
  let ?x = "(inodes s ip)\<lparr>iref := iref (inodes s ip) + 1\<rparr>"
  let ?s = "s\<lparr>inodes := (inodes s)(ip := ?x)\<rparr>"
  have "idup ip s = Ret ip ?s"
    using assms(2) by (simp add: idup_def acquire_def release_def upd_inode_def held_id)
  moreover have "itable_ok ?s"
    by (rule itable_ok_ref [OF assms(1,3), of "iref (inodes s ip) + 1"]) (use assms(4) in auto)
  moreover have "irefs ?s p = irefs s p + (if p = (idev (inodes s ip), inum (inodes s ip)) then 1 else 0)" for p
    using irefs_upd [OF assms(3), of ?s s ?x p] by (auto simp: icount_def)
  ultimately show thesis
    using that by blast
qed

lemma iput_ok:
  assumes "itable_ok s" "held s = {}" "ip < NINODE" "0 < iref (inodes s ip)"
    "\<not> (iref (inodes s ip) = 1 \<and> ivalid (inodes s ip) \<and> inlink (inodes s ip) = 0)"
  obtains s' where "iput ip s = Ret () s'" "itable_ok s'" "\<And>p. irefs s' p = irefs s p - (if p = (idev (inodes s ip), inum (inodes s ip)) then 1 else 0)"
proof -
  let ?x = "(inodes s ip)\<lparr>iref := iref (inodes s ip) - 1\<rparr>"
  let ?s = "s\<lparr>inodes := (inodes s)(ip := ?x)\<rparr>"
  have "iput ip s = Ret () ?s"
    using assms(2,5) by (auto simp: iput_def acquire_def release_def upd_inode_def held_id)
  moreover have "itable_ok ?s"
    by (rule itable_ok_ref [OF assms(1,3), of "iref (inodes s ip) - 1"]) (use assms(4) in auto)
  moreover have "irefs ?s p = irefs s p - (if p = (idev (inodes s ip), inum (inodes s ip)) then 1 else 0)" for p
    using irefs_upd [OF assms(3), of ?s s ?x p] by (auto simp: icount_def)
  ultimately show thesis
    using that by blast
qed

subsection \<open>Directories\<close>

definition dirents :: "(uint32 \<Rightarrow> block) \<Rightarrow> inode \<Rightarrow> uint8 list list" where
  "dirents V ip = map (\<lambda>k. map (fbyte V ip) [16 * k..<16 * k + 16]) [0..<unat (isize ip) div 16]"

definition de_match :: "uint8 list \<Rightarrow> uint8 list \<Rightarrow> bool" where
  "de_match name de \<longleftrightarrow> de_inum de \<noteq> 0 \<and> cstr (cbytes name) DIRSIZ = cstr (de_name de) DIRSIZ"

lemma readi_dirent:
  assumes tx: "tx s V L {} {}" and d: "idev (inodes s dp) = ldev s" and h: "no_holes V (inodes s dp)" and room: "card L < NBUF"
    and k: "16 * k + 16 \<le> unat (isize (inodes s dp))"
  obtains s' where "readi dp RLocal (of_nat (16 * k)) 16 s = Ret (16, dirents V (inodes s dp) ! k) s'" "tx s' V L {} {}" "same_fs s s'"
proof -
  have lt: "16 * k + 16 < 2 ^ 32"
    using k unat32_less [of "isize (inodes s dp)"] by linarith
  have u: "unat (of_nat (16 * k) :: uint32) = 16 * k"
    using lt by (intro unat_of_nat32) simp
  obtain s' where R: "readi dp RLocal (of_nat (16 * k)) 16 s =
      (if of_nat (16 * k) > isize (inodes s dp) \<or> of_nat (16 * k) + 16 < (of_nat (16 * k) :: uint32) then Ret (0, []) s
       else Ret (int (min (unat (16 :: uint32)) (unat (isize (inodes s dp)) - unat (of_nat (16 * k) :: uint32))),
         map (fbyte V (inodes s dp)) [unat (of_nat (16 * k) :: uint32)..<unat (of_nat (16 * k) :: uint32) +
           min (unat (16 :: uint32)) (unat (isize (inodes s dp)) - unat (of_nat (16 * k) :: uint32))]) s')"
    "tx s' V L {} {}" "same_fs s s'"
    by (rule readi_ok [OF tx d h room])
  have "\<not> of_nat (16 * k) > isize (inodes s dp)" "\<not> of_nat (16 * k) + 16 < (of_nat (16 * k) :: uint32)"
    using k u lt unat_add_le(1) [of "of_nat (16 * k)" 16] by (simp_all add: word_less_nat_alt del: of_nat_mult)
  moreover have "min (unat (16 :: uint32)) (unat (isize (inodes s dp)) - 16 * k) = 16"
    using k by simp
  moreover have "k < unat (isize (inodes s dp)) div 16"
    using k by simp
  then have "dirents V (inodes s dp) ! k = map (fbyte V (inodes s dp)) [16 * k..<16 * k + 16]"
    by (simp add: dirents_def del: upt_Suc)
  ultimately show thesis
    using that R u by (simp del: of_nat_mult)
qed

text \<open>
  C29: \<^verbatim>\<open>dirlookup\<close> searches the entries of the directory in order. The first one in use whose name
  agrees with the given one in up to \<^verbatim>\<open>DIRSIZ\<close> characters gives the inode it names, by \<^verbatim>\<open>iget\<close>, and
  its offset; without one the result is 0. No block changes.
\<close>

theorem dirlookup_correct:
  assumes "tx s V L {} {}" "idev (inodes s dp) = ldev s" "no_holes V (inodes s dp)" "card L < NBUF"
    and ty: "itype (inodes s dp) = T_DIR" and sz: "unat (isize (inodes s dp)) mod 16 = 0"
  shows "\<exists>s'. tx s' V L {} {} \<and> same_fs s s' \<and> dirlookup dp name s =
    (case find (\<lambda>k. de_match name (dirents V (inodes s dp) ! k)) [0..<length (dirents V (inodes s dp))] of
       None \<Rightarrow> Ret None s'
     | Some k \<Rightarrow> bnd (iget (ldev s) (ucast (de_inum (dirents V (inodes s dp) ! k))) s') (\<lambda>ip s. Ret (Some (ip, 16 * k)) s))"
proof -
  let ?n = "unat (isize (inodes s dp)) div 16" and ?D = "dirents V (inodes s dp)"
  let ?f = "\<lambda>k s. bnd (readi dp RLocal (of_nat (16 * k)) 16 s) (\<lambda>r s.
          if fst r \<noteq> 16 then Panic ''dirlookup read''
          else if de_inum (snd r) = 0 then Ret None s
          else if namecmp (cbytes name) (de_name (snd r)) = 0 then
            bnd (iget (idev (inodes s dp)) (ucast (de_inum (snd r))) s) (\<lambda>ip s. Ret (Some (ip, 16 * k)) s)
          else Ret None s)"
  have loop: "\<exists>s'. tx s' V L {} {} \<and> same_fs s s' \<and> for_return ks ?f s0 =
      (case find (\<lambda>k. de_match name (?D ! k)) ks of
         None \<Rightarrow> Ret None s'
       | Some k \<Rightarrow> bnd (iget (ldev s) (ucast (de_inum (?D ! k))) s') (\<lambda>ip s. Ret (Some (ip, 16 * k)) s))"
    if "set ks \<subseteq> {..<?n}" "tx s0 V L {} {}" "same_fs s s0" for ks s0
    using that
  proof (induction ks arbitrary: s0)
    case Nil
    then show ?case
      by auto
  next
    case (Cons k ks)
    note e0 = same_fsD [OF Cons.prems(3)]
    have k: "16 * k + 16 \<le> unat (isize (inodes s0 dp))"
      using Cons.prems(1) e0 by (simp add: less_eq_div_iff_mult_less_eq flip: Suc_le_eq)
    obtain s1 where s1: "readi dp RLocal (of_nat (16 * k)) 16 s0 = Ret (16, ?D ! k) s1" "tx s1 V L {} {}" "same_fs s0 s1"
      by (rule readi_dirent [OF Cons.prems(2) _ _ assms(4) k]) (use assms(2,3) e0 in auto)
    have fs: "same_fs s s1"
      by (rule same_fs_trans [OF Cons.prems(3) s1(3)])
    note e1 = same_fsD [OF fs]
    obtain s' where s': "tx s' V L {} {}" "same_fs s s'" "for_return ks ?f s1 =
      (case find (\<lambda>k. de_match name (?D ! k)) ks of
         None \<Rightarrow> Ret None s'
       | Some k \<Rightarrow> bnd (iget (ldev s) (ucast (de_inum (?D ! k))) s') (\<lambda>ip s. Ret (Some (ip, 16 * k)) s))"
      using Cons.IH [OF _ s1(2) fs] Cons.prems(1) by auto
    show ?case
    proof (cases "de_match name (?D ! k)")
      case True
      then have "for_return (k # ks) ?f s0 = bnd (iget (ldev s) (ucast (de_inum (?D ! k))) s1) (\<lambda>ip s. Ret (Some (ip, 16 * k)) s)"
        using s1(1) e1 assms(2) by (cases "iget (ldev s) (ucast (de_inum (?D ! k))) s1")
          (simp_all add: de_match_def namecmp_def strncmp_eq_0 del: of_nat_mult DIRSIZ_def)
      then show ?thesis
        using True s1(2) fs by auto
    next
      case False
      then have "for_return (k # ks) ?f s0 = for_return ks ?f s1"
        using s1(1) by (auto simp: de_match_def namecmp_def strncmp_eq_0 simp del: of_nat_mult DIRSIZ_def)
      then show ?thesis
        using False s' by auto
    qed
  qed
  have "set [0..<?n] \<subseteq> {..<?n}"
    by auto
  note L = loop [OF this assms(1) same_fs_refl]
  have len: "length ?D = ?n"
    by (simp add: dirents_def)
  have cnt: "(unat (isize (inodes s dp)) + 15) div 16 = ?n"
    using sz div_mult_mod_eq [of "unat (isize (inodes s dp))" 16] by linarith
  have "dirlookup dp name s = for_return [0..<?n] ?f s"
    unfolding dirlookup_def cnt using ty by simp
  then show ?thesis
    unfolding len using L by (simp only:)
qed

definition tiny_dir :: inode where
  "tiny_dir = ten_inode\<lparr>itype := T_DIR, isize := 16\<rparr>"

theorem dirlookup_correct_witness:
  "\<exists>s'. dirlookup 0 (replicate 14 9) (boot_fs tiny_disk tiny_sb (\<lambda>_. tiny_dir)) = bnd (iget 1 0x0909 s') (\<lambda>ip s. Ret (Some (ip, 0)) s)"
proof -
  let ?s = "boot_fs tiny_disk tiny_sb (\<lambda>_. tiny_dir)"
  have sel: "itype tiny_dir = T_DIR" "isize tiny_dir = 16" "idev tiny_dir = 1" "iaddrs tiny_dir = (\<lambda>_. 0)(0 := 5)"
    by (simp_all add: tiny_dir_def ten_inode_def tiny_inode_def)
  have h: "no_holes tiny_disk tiny_dir"
    by (auto simp: no_holes_def sel fblk_def)
  have "fbyte tiny_disk tiny_dir k = 9" if "k < 16" for k
    using that by (simp add: fbyte_def fblk_def sel tiny_disk_def)
  then have "map (fbyte tiny_disk tiny_dir) [0..<16] = map (\<lambda>_. 9) [0..<16]"
    by (intro map_cong) auto
  then have D: "dirents tiny_disk tiny_dir = [replicate 16 9]"
    by (simp add: dirents_def sel map_replicate_const)
  have "take 2 (replicate 16 (9 :: uint8)) = [9, 9]"
    by (simp add: numeral_eq_Suc)
  then have "de_inum (replicate 16 9) = 0x0909"
    by (simp add: de_inum_def)
  then have i: "ucast (de_inum (replicate 16 9)) = (0x0909 :: uint32)" "de_inum (replicate 16 9) \<noteq> 0"
    by simp_all
  have "cstr (cbytes (replicate 14 9)) DIRSIZ = cstr (de_name (replicate 16 9)) DIRSIZ"
    by (simp add: de_name_def cbytes_def [abs_def] numeral_eq_Suc)
  then have m: "de_match (replicate 14 9) (replicate 16 9)"
    using i by (simp add: de_match_def)
  show ?thesis
    using dirlookup_correct [OF boot_fs_tx [of tiny_disk tiny_sb "\<lambda>_. tiny_dir"], of 0 "replicate 14 9"] h D m i
    by (auto simp: boot_fs_sel sel)
qed

subsection \<open>Path names\<close>

text \<open>The elements a loop of \<^verbatim>\<open>skipelem\<close> calls gives, as \<^verbatim>\<open>namex\<close> runs it.\<close>

function elements :: "uint8 list \<Rightarrow> uint8 list list" where
  "elements path = (case skipelem path of None \<Rightarrow> [] | Some (path, name) \<Rightarrow> name # elements path)"
  by pat_completeness auto
termination
  by (relation "measure length") (auto dest: skipelem_shorter)

declare elements.simps [simp del]

text \<open>The reference: cut at the slashes, without empty pieces.\<close>

fun split_at :: "uint8 list \<Rightarrow> uint8 list list" where
  "split_at [] = [[]]"
| "split_at (c # cs) = (if c = SLASH then [] # split_at cs else (c # hd (split_at cs)) # tl (split_at cs))"

lemma split_at_ne [simp]: "split_at p \<noteq> []"
  by (cases p) auto

lemma split_at_elem: "\<forall>c \<in> set e. c \<noteq> SLASH \<Longrightarrow> split_at (e @ p) = (e @ hd (split_at p)) # tl (split_at p)"
  by (induction e) auto

lemma split_at_slashes: "filter (\<lambda>e. e \<noteq> []) (split_at (dropWhile (\<lambda>c. c = SLASH) p)) = filter (\<lambda>e. e \<noteq> []) (split_at p)"
  by (induction p) auto

lemma split_at_take:
  "split_at p = takeWhile (\<lambda>c. c \<noteq> SLASH) p # (case dropWhile (\<lambda>c. c \<noteq> SLASH) p of [] \<Rightarrow> [] | c # q \<Rightarrow> split_at q)"
  by (induction p) auto

lemma filter_split_at:
  assumes "p \<noteq> []" "hd p \<noteq> SLASH"
  shows "filter (\<lambda>e. e \<noteq> []) (split_at p) =
    takeWhile (\<lambda>c. c \<noteq> SLASH) p # filter (\<lambda>e. e \<noteq> []) (split_at (dropWhile (\<lambda>c. c = SLASH) (dropWhile (\<lambda>c. c \<noteq> SLASH) p)))"
proof -
  have ne: "takeWhile (\<lambda>c. c \<noteq> SLASH) p \<noteq> []"
    using assms by (cases p) auto
  show ?thesis
  proof (cases "dropWhile (\<lambda>c. c \<noteq> SLASH) p")
    case Nil
    then show ?thesis
      unfolding split_at_take [of p] Nil using ne by simp
  next
    case (Cons c q)
    then have "c = SLASH"
      using hd_dropWhile [of "\<lambda>c. c \<noteq> SLASH" p] by simp
    then show ?thesis
      using ne Cons by (subst split_at_take) (simp add: split_at_slashes del: SLASH_def)
  qed
qed

lemma elements_split: "elements p = map (take DIRSIZ) (filter (\<lambda>e. e \<noteq> []) (split_at p))"
proof (induction p rule: elements.induct)
  case (1 p)
  let ?q = "dropWhile (\<lambda>c. c = SLASH) p"
  show ?case
  proof (cases "?q = []")
    case True
    then have "skipelem p = None"
      by (simp add: skipelem_def Let_def)
    moreover have "filter (\<lambda>e. e \<noteq> []) (split_at p) = []"
      using split_at_slashes [of p] unfolding True by simp
    ultimately show ?thesis
      by (subst elements.simps) simp
  next
    case False
    let ?r = "dropWhile (\<lambda>c. c = SLASH) (dropWhile (\<lambda>c. c \<noteq> SLASH) ?q)" and ?e = "takeWhile (\<lambda>c. c \<noteq> SLASH) ?q"
    have sk: "skipelem p = Some (?r, take DIRSIZ ?e)"
      using False by (simp add: skipelem_def Let_def del: SLASH_def DIRSIZ_def)
    have "hd ?q \<noteq> SLASH"
      using hd_dropWhile [OF False] by simp
    then have "filter (\<lambda>e. e \<noteq> []) (split_at p) = ?e # filter (\<lambda>e. e \<noteq> []) (split_at ?r)"
      using filter_split_at [OF False] split_at_slashes [of p] by simp
    moreover have "elements ?r = map (take DIRSIZ) (filter (\<lambda>e. e \<noteq> []) (split_at ?r))"
      using 1 [OF sk] by simp
    ultimately show ?thesis
      using sk by (subst elements.simps) (simp del: SLASH_def DIRSIZ_def)
  qed
qed

text \<open>
  C30: a loop of \<^verbatim>\<open>skipelem\<close> calls gives the non-empty pieces between the slashes of the path, in
  order, each cut to \<^verbatim>\<open>DIRSIZ\<close> characters. A path put together from such names comes apart into them
  again, however many slashes stand between them.
\<close>

theorem skipelem_elements:
  "elements p = map (take DIRSIZ) (filter (\<lambda>e. e \<noteq> []) (split_at p)) \<and>
   (list_all (\<lambda>e. e \<noteq> [] \<and> length e \<le> DIRSIZ \<and> SLASH \<notin> set e) es \<longrightarrow>
     elements (concat (map (\<lambda>e. replicate (Suc k) SLASH @ e) es)) = es)"
proof (intro conjI impI)
  show "elements p = map (take DIRSIZ) (filter (\<lambda>e. e \<noteq> []) (split_at p))"
    by (rule elements_split)
  have sl: "split_at (replicate n SLASH @ q) = replicate n [] @ split_at q" for n q
    by (induction n) auto
  have hd: "\<exists>t. split_at (concat (map (\<lambda>e. replicate (Suc k) SLASH @ e) es)) = [] # t" for es
    by (cases es) auto
  assume "list_all (\<lambda>e. e \<noteq> [] \<and> length e \<le> DIRSIZ \<and> SLASH \<notin> set e) es"
  then have "filter (\<lambda>e. e \<noteq> []) (split_at (concat (map (\<lambda>e. replicate (Suc k) SLASH @ e) es))) = es \<and> map (take DIRSIZ) es = es"
  proof (induction es)
    case (Cons e es)
    obtain t where t: "split_at (concat (map (\<lambda>e. replicate (Suc k) SLASH @ e) es)) = [] # t"
      using hd by blast
    have "\<forall>c \<in> set e. c \<noteq> SLASH"
      using Cons.prems by auto
    then have "split_at (e @ concat (map (\<lambda>e. replicate (Suc k) SLASH @ e) es)) = e # t"
      using split_at_elem t by simp
    then show ?case
      using Cons sl [of "Suc k"] t by (simp del: replicate_Suc SLASH_def DIRSIZ_def)
  qed simp
  then show "elements (concat (map (\<lambda>e. replicate (Suc k) SLASH @ e) es)) = es"
    by (simp only: elements_split)
qed

theorem skipelem_elements_witness:
  "elements [97, 47, 47, 98, 47] = [[97], [98]] \<and> elements [47, 47, 97, 98, 47, 47, 99] = [[97, 98], [99]]"
  using skipelem_elements [of "[97, 47, 47, 98, 47]" "[[97, 98], [99]]" 1] by simp

end
