(* ===== verification/Ring.thy ===== *)
theory Ring
  imports Riscv
begin

section \<open>Ring buffers with running counters\<close>

text \<open>
  The pipe, the console and the disk driver keep a queue in an array of fixed size with two
  counters that only ever grow, modulo \<open>2 ^ 32\<close> or \<open>2 ^ 16\<close>; the slot of a counter is its remainder
  modulo the size. \<open>ring_list n buf r w\<close> is the queue between the counters \<open>r\<close> and \<open>w\<close>. The interface
  \<open>ring\<close> is what makes the counters' wrap-around harmless: the size divides the range of the counter.
\<close>

definition slot_of :: "nat \<Rightarrow> 'w::len word \<Rightarrow> nat" where
  "slot_of n k = unat k mod n"

definition ring_list :: "nat \<Rightarrow> (nat \<Rightarrow> 'b) \<Rightarrow> 'w::len word \<Rightarrow> 'w word \<Rightarrow> 'b list" where
  "ring_list n buf r w = map (\<lambda>k. buf (slot_of n (r + of_nat k))) [0..<unat (w - r)]"

lemma length_ring_list [simp]: "length (ring_list n buf r w) = unat (w - r)"
  by (simp add: ring_list_def)

lemma ring_list_empty [simp]: "ring_list n buf r r = []"
  by (simp add: ring_list_def)

lemma ring_list_Nil: "ring_list n buf r w = [] \<longleftrightarrow> r = w"
  by (auto simp: ring_list_def unat_eq_0)

locale ring =
  fixes n :: nat and counter :: "'w::len itself"
  assumes pos: "0 < n"
    and small: "n < 2 ^ LENGTH('w)"
    and divides: "n dvd 2 ^ LENGTH('w)"
begin

lemma unat_pred: "a \<noteq> b \<Longrightarrow> c = a - b - 1 \<Longrightarrow> unat (a - b) = Suc (unat (c :: 'w word))"
proof -
  assume ne: "a \<noteq> b" and c: "c = a - b - 1"
  have "a - b \<noteq> 0"
    using ne by simp
  then have "unat c = unat (a - b) - 1" "unat (a - b) \<noteq> 0"
    using unat_minus_one [of "a - b"] c by (simp_all add: unat_eq_0)
  then show ?thesis
    by simp
qed

lemma slot_less: "slot_of n (k :: 'w word) < n"
  using pos by (simp add: slot_of_def)

lemma slot_add: "slot_of n (a + b :: 'w word) = (slot_of n a + slot_of n b) mod n"
proof -
  have "unat (a + b) mod n = (unat a + unat b) mod 2 ^ LENGTH('w) mod n"
    by (simp add: unat_word_ariths)
  also have "\<dots> = (unat a + unat b) mod n"
    using divides by (rule mod_mod_cancel)
  finally show ?thesis
    by (simp add: slot_of_def mod_add_eq)
qed

lemma slot_inj:
  assumes "i < n" "j < n" "slot_of n (r + of_nat i :: 'w word) = slot_of n (r + of_nat j)"
  shows "i = j"
proof -
  have u: "slot_of n (of_nat k :: 'w word) = k" if "k < n" for k
    using that small by (simp add: slot_of_def unat_of_nat take_bit_nat_eq_self)
  have m: "x mod n = (if x < n then x else x - n)" if "x < n + n" for x
    using that by (simp add: mod_if)
  have "(slot_of n r + i) mod n = (slot_of n r + j) mod n"
    using assms u by (simp add: slot_add)
  then show ?thesis
    using assms(1,2) slot_less [of r] m [of "slot_of n r + i"] m [of "slot_of n r + j"] by (auto split: if_splits)
qed

lemma push:
  fixes r w :: "'w word"
  assumes "unat (w - r) < n"
  shows "ring_list n (buf(slot_of n w := c)) r (w + 1) = ring_list n buf r w @ [c]"
proof -
  let ?d = "unat (w - r)"
  have w: "r + of_nat ?d = w"
    by simp
  have d: "unat (w + 1 - r) = Suc ?d"
  proof -
    have "w + 1 - r = (w - r) + 1"
      by simp
    also have "unat \<dots> = Suc ?d"
      using assms small by (subst unat_add_lem [THEN iffD1]) simp_all
    finally show ?thesis .
  qed
  have "slot_of n (r + of_nat k) \<noteq> slot_of n w" if "k < ?d" for k
  proof
    assume "slot_of n (r + of_nat k) = slot_of n w"
    then have "k = ?d"
      using that assms by (intro slot_inj [of k ?d r]) simp_all
    then show False
      using that by simp
  qed
  then show ?thesis
    unfolding ring_list_def d by simp
qed

lemma pop:
  fixes r w :: "'w word"
  assumes "r \<noteq> w"
  shows "ring_list n buf r w = buf (slot_of n r) # ring_list n buf (r + 1) w"
proof -
  have d: "unat (w - r) = Suc (unat (w - (r + 1)))"
    by (rule unat_pred) (use assms in simp_all)
  show ?thesis
    unfolding ring_list_def d upt_rec [of 0 "Suc _"] by (simp add: map_Suc_upt [symmetric] add.assoc del: upt_Suc)
qed

lemma unpush:
  fixes r w :: "'w word"
  assumes "r \<noteq> w"
  shows "ring_list n buf r w = ring_list n buf r (w - 1) @ [buf (slot_of n (w - 1))]"
proof -
  have d: "unat (w - r) = Suc (unat (w - 1 - r))"
    by (rule unat_pred) (use assms in simp_all)
  have "r + of_nat (unat (w - 1 - r)) = w - 1"
    by simp
  then show ?thesis
    unfolding ring_list_def d by simp
qed

lemma append:
  fixes r w e :: "'w word"
  assumes "unat (w - r) + unat (e - w) < 2 ^ LENGTH('w)"
  shows "ring_list n buf r e = ring_list n buf r w @ ring_list n buf w e"
proof -
  let ?a = "unat (w - r)" and ?b = "unat (e - w)"
  have "e - r = (w - r) + (e - w)"
    by simp
  then have d: "unat (e - r) = ?a + ?b"
    using assms by (simp only:) (subst unat_add_lem [THEN iffD1], simp_all)
  have tail: "map (\<lambda>k. buf (slot_of n (r + of_nat k))) [?a..<?a + ?b] = ring_list n buf w e"
    by (intro nth_equalityI) (simp_all add: ring_list_def)
  have cut: "[0..<?a + ?b] = [0..<?a] @ [?a..<?a + ?b]"
    by (rule upt_add_eq_append) simp
  show ?thesis
    unfolding ring_list_def [of n buf r e] d cut map_append tail unfolding ring_list_def [of n buf r w] by (rule refl)
qed

end

end
