(* ===== verification/VmFrame.thy ===== *)
theory VmFrame
  imports UserVm
begin

section \<open>What the memory operations leave alone\<close>

text \<open>
  Every operation of \<^verbatim>\<open>kalloc.c\<close> and \<^verbatim>\<open>vm.c\<close> that returns has changed nothing but the memory and the
  list of free pages: the locks held, the process table and the state of the layers above are as
  before, whatever state it starts from. \<open>post P m\<close> says that \<open>P\<close> holds of the state if \<open>m\<close> returns.
\<close>

definition post :: "('s \<Rightarrow> bool) \<Rightarrow> ('s, 'a) outcome \<Rightarrow> bool" where
  "post P m \<longleftrightarrow> (\<forall>x s. m = Ret x s \<longrightarrow> P s)"

named_theorems post_intro

lemma post_Ret [simp]: "post P (Ret x s) = P s"
  by (simp add: post_def)

lemma post_Sleep [simp]: "post P (Sleep c s)"
  by (simp add: post_def)

lemma post_Panic [simp]: "post P (Panic e)"
  by (simp add: post_def)

lemma postD: "post P m \<Longrightarrow> m = Ret x s \<Longrightarrow> P s"
  by (simp add: post_def)

lemma post_bnd [post_intro]:
  "post P m \<Longrightarrow> (\<And>x s. m = Ret x s \<Longrightarrow> P s \<Longrightarrow> post P (f x s)) \<Longrightarrow> post P (bnd m f)"
  by (cases m) (auto simp: post_def)

lemma post_if [post_intro]: "(b \<Longrightarrow> post P m) \<Longrightarrow> (\<not> b \<Longrightarrow> post P n) \<Longrightarrow> post P (if b then m else n)"
  by simp

lemma post_let [post_intro]: "(\<And>x. x = v \<Longrightarrow> post P (f x)) \<Longrightarrow> post P (let x = v in f x)"
  by simp

lemma post_for_each:
  assumes "P s" and "\<And>x s. x \<in> set xs \<Longrightarrow> P s \<Longrightarrow> post P (f x s)"
  shows "post P (for_each xs f s)"
  using assms
proof (induction xs arbitrary: s)
  case (Cons x xs)
  show ?case
    unfolding for_each.simps by (rule post_bnd) (use Cons in auto)
qed simp

lemma post_with_myproc [post_intro]: "(\<And>p. myproc s = Some p \<Longrightarrow> post P (f p s)) \<Longrightarrow> post P (with_myproc f s)"
  by (auto simp: with_myproc_def split: option.split)

lemma mem_only_more:
  assumes "mem_only s s'"
  shows "nextpid s' = nextpid s" "initproc s' = initproc s" "machine.more s' = machine.more s"
  using assms by (auto simp: mem_only_def)

lemma mem_only_freelist: "mem_only s s' \<Longrightarrow> mem_only s (s'\<lparr>freelist := f\<rparr>)"
  unfolding mem_only_def by (elim exE) (auto intro!: exI)

lemma kalloc_frame [post_intro]: "mem_only s0 s \<Longrightarrow> post (mem_only s0) (kalloc s)"
  by (cases "Lk_kmem \<in> held s")
    (auto simp: kalloc_def acquire_def Let_def held_id intro!: mem_only_mem mem_only_freelist split: if_splits)

lemma kfree_frame [post_intro]: "mem_only s0 s \<Longrightarrow> post (mem_only s0) (kfree p s)"
  by (cases "Lk_kmem \<in> held s")
    (auto simp: kfree_def acquire_def Let_def held_id intro!: mem_only_mem mem_only_freelist split: if_splits)

lemma walk_levels_frame [post_intro]: "mem_only s0 s \<Longrightarrow> post (mem_only s0) (walk_levels l pt va alloc s)"
proof (induction l pt va alloc s rule: walk_levels.induct)
  case (2 l pt va alloc s)
  show ?case
    unfolding walk_levels.simps by (intro post_intro 2) (auto intro!: 2 mem_only_mem)
qed simp

lemma walk_frame [post_intro]: "mem_only s0 s \<Longrightarrow> post (mem_only s0) (walk pt va alloc s)"
  by (auto simp: walk_def intro!: post_intro)

lemma load_pte_frame [post_intro]: "mem_only s0 s \<Longrightarrow> post (mem_only s0) (load_pte e s)"
  by (simp add: load_pte_def)

lemma walkaddr_frame [post_intro]: "mem_only s0 s \<Longrightarrow> post (mem_only s0) (walkaddr pt va s)"
  unfolding walkaddr_def by (intro post_intro) auto

lemma mappages_loop_frame [post_intro]: "mem_only s0 s \<Longrightarrow> post (mem_only s0) (mappages_loop pt a l pa perm s)"
proof (induction pt a l pa perm s rule: mappages_loop.induct)
  case (1 pt a l pa perm s)
  show ?case
    by (subst mappages_loop.simps, intro post_intro 1(2); ((rule 1(1); (assumption | simp add: mem_only_mem)?) | simp add: mem_only_mem 1(2))?)
qed

lemma mappages_frame [post_intro]: "mem_only s0 s \<Longrightarrow> post (mem_only s0) (mappages pt va n pa perm s)"
  unfolding mappages_def by (intro post_intro) auto

lemma uvmcreate_frame [post_intro]: "mem_only s0 s \<Longrightarrow> post (mem_only s0) (uvmcreate s)"
  unfolding uvmcreate_def by (intro post_intro) (auto intro!: mem_only_mem)

lemma uvmunmap_loop_frame [post_intro]: "mem_only s0 s \<Longrightarrow> post (mem_only s0) (uvmunmap_loop pt a e fr s)"
proof (induction pt a e fr s rule: uvmunmap_loop.induct)
  case (1 pt a e fr s)
  show ?case
    by (subst uvmunmap_loop.simps, intro post_intro 1(4);
      ((rule 1(1), assumption, assumption, assumption, assumption) | (rule 1(2), assumption, assumption, assumption, assumption, assumption)
      | (rule 1(3), assumption, assumption, assumption, assumption, assumption, rule mem_only_mem, assumption) | simp add: 1(4)))
qed

lemma uvmunmap_frame [post_intro]: "mem_only s0 s \<Longrightarrow> post (mem_only s0) (uvmunmap pt va n fr s)"
  unfolding uvmunmap_def by (intro post_intro) auto

lemma uvmdealloc_frame [post_intro]: "mem_only s0 s \<Longrightarrow> post (mem_only s0) (uvmdealloc pt o1 n s)"
  unfolding uvmdealloc_def by (intro post_intro) auto

lemma uvmalloc_loop_frame [post_intro]: "mem_only s0 s \<Longrightarrow> post (mem_only s0) (uvmalloc_loop pt a o1 n perm s)"
proof (induction pt a o1 n perm s rule: uvmalloc_loop.induct)
  case (1 pt a o1 n perm s)
  show ?case
    by (subst uvmalloc_loop.simps, intro post_intro 1(2); ((rule 1(1); (assumption | simp add: mem_only_mem)?) | simp add: mem_only_mem 1(2))?)
qed

lemma uvmalloc_frame [post_intro]: "mem_only s0 s \<Longrightarrow> post (mem_only s0) (uvmalloc pt o1 n perm s)"
  unfolding uvmalloc_def by (intro post_intro) auto

lemma freewalk_depth_frame: "mem_only s0 s \<Longrightarrow> post (mem_only s0) (freewalk_depth d pt s)"
proof (induction d arbitrary: pt s)
  case (Suc d)
  show ?case
    unfolding freewalk_depth.simps
    by (rule post_bnd, rule post_for_each)
      (auto simp: Let_def intro!: post_intro Suc mem_only_mem simp del: upt_rec_numeral)
qed simp

lemma freewalk_frame [post_intro]: "mem_only s0 s \<Longrightarrow> post (mem_only s0) (freewalk pt s)"
  unfolding freewalk_def by (rule freewalk_depth_frame)

lemma uvmfree_frame [post_intro]: "mem_only s0 s \<Longrightarrow> post (mem_only s0) (uvmfree pt n s)"
  unfolding uvmfree_def by (intro post_intro) auto

lemma uvmcopy_loop_frame [post_intro]: "mem_only s0 s \<Longrightarrow> post (mem_only s0) (uvmcopy_loop old new i n s)"
proof (induction old new i n s rule: uvmcopy_loop.induct)
  case (1 old new i n s)
  show ?case
    by (subst uvmcopy_loop.simps, intro post_intro 1(4);
      ((rule 1(1), assumption, assumption, assumption, assumption) | (rule 1(2), assumption, assumption, assumption, assumption, assumption)
      | (rule 1(3), assumption, assumption, assumption, assumption, assumption, assumption, assumption, assumption, assumption, assumption, assumption, assumption)
      | simp add: 1(4) mem_only_mem))
qed

lemma uvmcopy_frame [post_intro]: "mem_only s0 s \<Longrightarrow> post (mem_only s0) (uvmcopy old new n s)"
  unfolding uvmcopy_def by (intro post_intro) auto

lemma uvmclear_frame [post_intro]: "mem_only s0 s \<Longrightarrow> post (mem_only s0) (uvmclear pt va s)"
  unfolding uvmclear_def by (intro post_intro) (auto intro!: mem_only_mem)

lemma ismapped_frame [post_intro]: "mem_only s0 s \<Longrightarrow> post (mem_only s0) (ismapped pt va s)"
  unfolding ismapped_def by (intro post_intro) auto

lemma vmfault_frame [post_intro]: "mem_only s0 s \<Longrightarrow> post (mem_only s0) (vmfault pt va rd s)"
  unfolding vmfault_def by (intro post_intro) (auto intro!: mem_only_mem)

lemma copyout_frame [post_intro]: "mem_only s0 s \<Longrightarrow> post (mem_only s0) (copyout pt va src s)"
proof (induction pt va src s rule: copyout.induct)
  case (1 pt va src s)
  show ?case
    by (subst copyout.simps, intro post_intro 1(2); ((rule 1(1); (assumption | simp add: mem_only_mem)?) | simp add: mem_only_mem 1(2))?)
qed

lemma copyin_frame [post_intro]: "mem_only s0 s \<Longrightarrow> post (mem_only s0) (copyin pt va n s)"
proof (induction pt va n s rule: copyin.induct)
  case (1 pt va n s)
  show ?case
    by (subst copyin.simps, intro post_intro 1(2); ((rule 1(1); (assumption | simp add: mem_only_mem)?) | simp add: mem_only_mem 1(2))?)
qed

lemma copyinstr_frame [post_intro]: "mem_only s0 s \<Longrightarrow> post (mem_only s0) (copyinstr pt va n s)"
proof (induction pt va n s rule: copyinstr.induct)
  case (1 pt va n s)
  show ?case
    by (subst copyinstr.simps, intro post_intro 1(2); ((rule 1(1); (assumption | simp add: mem_only_mem)?) | simp add: mem_only_mem 1(2))?)
qed

lemma either_copyout_frame [post_intro]: "mem_only s0 s \<Longrightarrow> post (mem_only s0) (either_copyout u a bs s)"
  unfolding either_copyout_def by (intro post_intro) (auto intro!: mem_only_mem)

lemma either_copyin_frame [post_intro]: "mem_only s0 s \<Longrightarrow> post (mem_only s0) (either_copyin u a n s)"
  unfolding either_copyin_def by (intro post_intro) auto

end
