(* ===== verification/UserMem.thy ===== *)
theory UserMem
  imports VmFrame
begin

section \<open>The memory a process sees (vm.c)\<close>

text \<open>
  The address space of a process as a function from addresses to bytes. A page below the size that
  is not mapped yet reads as zeros: \<^verbatim>\<open>vmfault\<close> maps a zeroed page when it is first used, and that
  changes nothing a process can see. \<^verbatim>\<open>copyin\<close> and \<^verbatim>\<open>copyout\<close> are reads and writes of this function.
\<close>

subsection \<open>What a process sees\<close>

definition ulim :: "'a machine_scheme \<Rightarrow> nat \<Rightarrow> nat" where
  "ulim s p = unat (PGROUNDUP (sz (procs s p)))"

definition upte :: "'a machine_scheme \<Rightarrow> nat \<Rightarrow> uint64 \<Rightarrow> uint64" where
  "upte s p va = pt_get 2 (mem s) (pagetable (procs s p)) va"

definition ubyte :: "'a machine_scheme \<Rightarrow> nat \<Rightarrow> uint64 \<Rightarrow> uint8 option" where
  "ubyte s p va =
     (if ulim s p \<le> unat va then None
      else if \<not> pte_valid (upte s p va) then Some 0
      else if upte s p va AND PTE_U = 0 then None
      else Some (mem s (PTE2PA (upte s p va) + (va - PGROUNDDOWN va))))"

definition uwritable :: "'a machine_scheme \<Rightarrow> nat \<Rightarrow> uint64 \<Rightarrow> bool" where
  "uwritable s p va \<longleftrightarrow> ubyte s p va \<noteq> None \<and> (pte_valid (upte s p va) \<longrightarrow> upte s p va AND PTE_W \<noteq> 0)"

text \<open>
  The pages of the process are its own, the size leaves room for the trapframe and the trampoline,
  and the process cannot reach a page above its size.
\<close>

definition uspace :: "'a machine_scheme \<Rightarrow> nat \<Rightarrow> uint64 list \<Rightarrow> bool" where
  "uspace s p xs \<longleftrightarrow> uvm_ok s (pagetable (procs s p)) (ulim s p) xs \<and> sz (procs s p) \<le> TRAPFRAME \<and>
     (\<forall>va < SV39. ulim s p \<le> unat va \<longrightarrow> pte_valid (upte s p va) \<longrightarrow> upte s p va AND PTE_U = 0)"

lemma uspaceD:
  assumes "uspace s p xs"
  shows "uvm_ok s (pagetable (procs s p)) (ulim s p) xs" "unat (sz (procs s p)) \<le> 0x3FFFFFE000"
    "\<And>va. va < SV39 \<Longrightarrow> ulim s p \<le> unat va \<Longrightarrow> pte_valid (upte s p va) \<Longrightarrow> upte s p va AND PTE_U = 0"
  using assms by (auto simp: uspace_def word_le_nat_alt)

lemma ulim_le: "uspace s p xs \<Longrightarrow> ulim s p \<le> 0x3FFFFFE000"
proof -
  assume u: "uspace s p xs"
  have "ulim s p = (unat (sz (procs s p)) + 4095) div 4096 * 4096"
    unfolding ulim_def by (rule unat_PGROUNDUP) (use uspaceD(2) [OF u] in simp)
  also have "\<dots> \<le> (0x3FFFFFE000 + 4095) div 4096 * 4096"
    using uspaceD(2) [OF u] by (intro mult_le_mono1 div_le_mono) simp
  finally show ?thesis by simp
qed

text \<open>A page-aligned address is below the size exactly when its page is.\<close>

lemma ulim_page:
  assumes "uspace s p xs" "page_aligned va"
  shows "unat va < ulim s p \<longleftrightarrow> va < sz (procs s p)"
proof -
  obtain k where k: "unat va = 4096 * k"
    using assms(2) by (rule page_alignedE)
  have "ulim s p = (unat (sz (procs s p)) + 4095) div 4096 * 4096"
    unfolding ulim_def by (rule unat_PGROUNDUP) (use uspaceD(2) [OF assms(1)] in simp)
  then show ?thesis
    unfolding word_less_nat_alt k by (simp add: mult.commute) linarith
qed

lemma ulim_PGROUNDDOWN: "unat (PGROUNDDOWN va) < ulim s p \<longleftrightarrow> unat va < ulim s p"
proof -
  obtain k where "ulim s p = 4096 * k"
    unfolding ulim_def by (rule page_alignedE [of "PGROUNDUP (sz (procs s p))"]) simp_all
  then show ?thesis
    by (simp add: unat_PGROUNDDOWN) linarith
qed

lemma upte_page: "upte s p (PGROUNDDOWN va) = upte s p va"
  by (simp add: upte_def pt_get_page)

lemma below_SV39: "uspace s p xs \<Longrightarrow> unat va < ulim s p \<Longrightarrow> va < SV39 \<and> va < MAXVA"
  using ulim_le by (fastforce simp: word_less_nat_alt)

lemma upage_of:
  assumes u: "uspace s p xs" and va: "unat va < ulim s p" "pte_valid (upte s p va)"
  shows "PGROUNDDOWN va \<in> umapped s (pagetable (procs s p)) 0 (ulim s p)"
    and "upage s (pagetable (procs s p)) (PGROUNDDOWN va) = PTE2PA (upte s p va)"
    and "phys_page s (PTE2PA (upte s p va))"
    and "PTE2PA (upte s p va) \<notin> set xs"
    and "PTE2PA (upte s p va) \<notin> pt_pages 2 (mem s) (pagetable (procs s p))"
proof -
  show m: "PGROUNDDOWN va \<in> umapped s (pagetable (procs s p)) 0 (ulim s p)"
    using va by (simp add: umapped_def pt_get_page ulim_PGROUNDDOWN upte_def)
  show e: "upage s (pagetable (procs s p)) (PGROUNDDOWN va) = PTE2PA (upte s p va)"
    by (simp add: upage_def pt_get_page upte_def)
  show "phys_page s (PTE2PA (upte s p va))" "PTE2PA (upte s p va) \<notin> set xs"
    "PTE2PA (upte s p va) \<notin> pt_pages 2 (mem s) (pagetable (procs s p))"
    using uvm_okD(4-6) [OF uspaceD(1) [OF u] m] e by simp_all
qed

lemma in_page_of: "PTE2PA e + (va - PGROUNDDOWN va) \<in> page (PTE2PA e)"
  using PGROUNDDOWN_offset [of va] by (simp add: page_def run_at_def)

text \<open>Different pages of the process lie in different physical pages.\<close>

lemma upage_inj:
  assumes u: "uspace s p xs" and va: "unat va < ulim s p" "pte_valid (upte s p va)"
    and va': "unat va' < ulim s p" "pte_valid (upte s p va')" and eq: "PTE2PA (upte s p va) = PTE2PA (upte s p va')"
  shows "PGROUNDDOWN va = PGROUNDDOWN va'"
  using inj_onD [OF uvm_okD(3) [OF uspaceD(1) [OF u]] _ upage_of(1) [OF u va] upage_of(1) [OF u va']]
    upage_of(2) [OF u va] upage_of(2) [OF u va'] eq by simp

lemma pt_leaf_mapped: "pte_valid (upte s p va) \<Longrightarrow>
    \<exists>a. pt_leaf 2 (mem s) (pagetable (procs s p)) va = Some a \<and> load64 (mem s) a = upte s p va"
  by (cases "pt_leaf 2 (mem s) (pagetable (procs s p)) va") (auto simp: upte_def pt_get_def)

lemma walkaddr_eq:
  assumes "uspace s p xs" "unat va < ulim s p"
  shows "walkaddr (pagetable (procs s p)) va s =
    Ret (if pte_valid (upte s p va) \<and> upte s p va AND PTE_U \<noteq> 0 then PTE2PA (upte s p va) else 0) s"
proof -
  have "va < MAXVA"
    using below_SV39 [OF assms] by simp
  moreover have "a \<noteq> 0" if "pt_leaf 2 (mem s) (pagetable (procs s p)) va = Some a" for a
    using vm_ok_leaf_nz [OF uvm_okD(1) [OF uspaceD(1) [OF assms(1)]] that] .
  ultimately show ?thesis
    using walk_find [of va "pagetable (procs s p)" s]
    by (auto simp: walkaddr_def upte_def pt_get_def pte_valid_def split: option.splits)
qed

subsection \<open>Changes a process does not see\<close>

definition unseen :: "nat \<Rightarrow> 'a machine_scheme \<Rightarrow> uint64 list \<Rightarrow> 'a machine_scheme \<Rightarrow> uint64 list \<Rightarrow> bool" where
  "unseen p s xs s' xs' \<longleftrightarrow> mem_only s s' \<and> uspace s' p xs' \<and> set xs' \<subseteq> set xs \<and>
     ubyte s' p = ubyte s p \<and> uwritable s' p = uwritable s p"

lemma mem_only_ulim: "mem_only s s' \<Longrightarrow> ulim s' p = ulim s p"
  by (simp add: ulim_def mem_onlyD(2))

lemma uspace_frame:
  assumes u: "uspace s p xs" and mo: "mem_only s s'" and ok: "vm_ok 2 s' (pagetable (procs s p)) xs'"
    and sub: "set xs' \<subseteq> set xs"
      "pt_pages 2 (mem s') (pagetable (procs s p)) \<subseteq> pt_pages 2 (mem s) (pagetable (procs s p)) \<union> set xs"
    and get: "\<And>va. va < SV39 \<Longrightarrow> upte s' p va = upte s p va"
  shows "uspace s' p xs'"
proof -
  let ?pt = "pagetable (procs s p)"
  have pr: "procs s' = procs s" "ulim s' p = ulim s p" "kernel_end s' = kernel_end s"
    using mem_onlyD [OF mo] mem_only_ulim [OF mo] by auto
  have get': "upte s' p va = upte s p va" if "unat va < ulim s p" for va
    using get below_SV39 [OF u that] by blast
  have um: "umapped s' ?pt 0 (ulim s p) = umapped s ?pt 0 (ulim s p)"
    using get' by (auto simp: umapped_def upte_def pr(1))
  have up: "upage s' ?pt va = upage s ?pt va" if "va \<in> umapped s ?pt 0 (ulim s p)" for va
    using that get' [of va] by (simp add: umapped_def upage_def upte_def pr(1))
  have uok: "uvm_ok s ?pt (ulim s p) xs"
    using uspaceD(1) [OF u] .
  have "uvm_ok s' ?pt (ulim s p) xs'"
    unfolding uvm_ok_def um
  proof (intro conjI ballI ok)
    show "inj_on (upage s' ?pt) (umapped s ?pt 0 (ulim s p))"
      using uvm_okD(3) [OF uok] up by (metis (no_types, lifting) inj_on_cong)
    fix va
    assume va: "va \<in> umapped s ?pt 0 (ulim s p)"
    show "phys_page s' (upage s' ?pt va)" "upage s' ?pt va \<notin> set xs'" "upage s' ?pt va \<notin> pt_pages 2 (mem s') ?pt"
      using uvm_okD(4-6) [OF uok va] up [OF va] sub phys_page_cong [OF pr(3)] by auto
  qed (rule uvm_okD(2) [OF uok])
  then show ?thesis
    using u get unfolding uspace_def pr by auto
qed

lemma unseen_frame:
  assumes u: "uspace s p xs" and mo: "mem_only s s'" and ok: "vm_ok 2 s' (pagetable (procs s p)) xs'"
    and sub: "set xs' \<subseteq> set xs"
      "pt_pages 2 (mem s') (pagetable (procs s p)) \<subseteq> pt_pages 2 (mem s) (pagetable (procs s p)) \<union> set xs"
    and get: "\<And>va. va < SV39 \<Longrightarrow> upte s' p va = upte s p va"
    and same: "\<And>va. unat va < ulim s p \<Longrightarrow> pte_valid (upte s p va) \<Longrightarrow>
      same_on (page (PTE2PA (upte s p va))) (mem s) (mem s')"
  shows "unseen p s xs s' xs'"
proof -
  have pr: "ulim s' p = ulim s p"
    using mem_only_ulim [OF mo] .
  have get': "upte s' p va = upte s p va" if "unat va < ulim s p" for va
    using get below_SV39 [OF u that] by blast
  have b: "ubyte s' p va = ubyte s p va" for va
    using get' [of va] same [of va] in_page_of [of "upte s p va" va] by (auto simp: ubyte_def pr same_on_def)
  then have "uwritable s' p va = uwritable s p va" for va
    using get' [of va] by (auto simp: uwritable_def ubyte_def pr)
  then show ?thesis
    using uspace_frame [OF u mo ok sub get] b mo sub(1) by (simp add: unseen_def fun_eq_iff)
qed

definition zeroed :: "memory \<Rightarrow> uint64 \<Rightarrow> bool" where
  "zeroed m pg \<longleftrightarrow> (\<forall>x \<in> page pg. m x = 0)"

text \<open>Mapping a zeroed page where none was.\<close>

lemma unseen_map:
  assumes u: "uspace s p xs" and mo: "mem_only s s'" and ok: "vm_ok 2 s' (pagetable (procs s p)) xs'"
    and va: "page_aligned va" "unat va < ulim s p" "\<not> pte_valid (upte s p va)"
    and sub: "set xs' \<subseteq> set xs" "pg \<in> set xs" "pg \<notin> set xs'"
      "pt_pages 2 (mem s') (pagetable (procs s p)) \<subseteq> pt_pages 2 (mem s) (pagetable (procs s p)) \<union> (set xs - {pg})"
    and get: "\<And>va'. va' < SV39 \<Longrightarrow> upte s' p va' = (if PGROUNDDOWN va' = va then e else upte s p va')"
    and e: "pte_valid e" "e AND PTE_U \<noteq> 0" "e AND PTE_W \<noteq> 0" "PTE2PA e = pg" "zeroed (mem s') pg"
    and same: "\<And>va'. unat va' < ulim s p \<Longrightarrow> pte_valid (upte s p va') \<Longrightarrow>
      same_on (page (PTE2PA (upte s p va'))) (mem s) (mem s')"
  shows "unseen p s xs s' xs'"
proof -
  let ?pt = "pagetable (procs s p)"
  have pr: "procs s' = procs s" "ulim s' p = ulim s p" "kernel_end s' = kernel_end s"
    using mem_onlyD [OF mo] mem_only_ulim [OF mo] by auto
  have uok: "uvm_ok s ?pt (ulim s p) xs"
    using uspaceD(1) [OF u] .
  have get': "upte s' p va' = (if PGROUNDDOWN va' = va then e else upte s p va')" if "unat va' < ulim s p" for va'
    using get below_SV39 [OF u that] by blast
  have inval: "\<not> pte_valid (upte s p va')" if "PGROUNDDOWN va' = va" for va'
    using va(3) that upte_page [of s p va'] by simp
  have um: "umapped s' ?pt 0 (ulim s p) = insert va (umapped s ?pt 0 (ulim s p))"
    using get' va e(1) by (auto simp: umapped_def upte_def pr(1) split: if_splits)
  have up: "upage s' ?pt va' = upage s ?pt va'" if "va' \<in> umapped s ?pt 0 (ulim s p)" for va'
    using that get' [of va'] va by (auto simp: umapped_def upage_def upte_def pr(1) split: if_splits)
  have up_va: "upage s' ?pt va = pg"
    using get' [OF va(2)] va(1) e(4) by (simp add: upage_def upte_def pr(1))
  have "phys_page s pg" "pg \<notin> pt_pages 2 (mem s) ?pt"
    using sub(2) vm_okD(1,5) [OF uvm_okD(1) [OF uok]] kmem_inv_phys by blast+
  have "uvm_ok s' ?pt (ulim s p) xs'"
    unfolding uvm_ok_def um
  proof (intro conjI ballI ok)
    have "inj_on (upage s' ?pt) (umapped s ?pt 0 (ulim s p))"
      using uvm_okD(3) [OF uok] up by (metis (no_types, lifting) inj_on_cong)
    moreover have "pg \<notin> upage s' ?pt ` umapped s ?pt 0 (ulim s p)"
      using uvm_okD(5) [OF uok] up sub(2) by force
    ultimately show "inj_on (upage s' ?pt) (insert va (umapped s ?pt 0 (ulim s p)))"
      using up_va by auto
    fix va'
    assume "va' \<in> insert va (umapped s ?pt 0 (ulim s p))"
    then consider "va' = va" | "va' \<in> umapped s ?pt 0 (ulim s p)"
      by blast
    then have "phys_page s (upage s' ?pt va') \<and> upage s' ?pt va' \<notin> set xs' \<and> upage s' ?pt va' \<notin> pt_pages 2 (mem s') ?pt"
    proof cases
      case 1
      then show ?thesis
        using up_va sub(3,4) \<open>phys_page s pg\<close> \<open>pg \<notin> pt_pages 2 (mem s) ?pt\<close> by auto
    next
      case 2
      then show ?thesis
        using uvm_okD(4-6) [OF uok 2] up [OF 2] sub by auto
    qed
    then show "phys_page s' (upage s' ?pt va')" "upage s' ?pt va' \<notin> set xs'" "upage s' ?pt va' \<notin> pt_pages 2 (mem s') ?pt"
      using phys_page_cong [OF pr(3)] by simp_all
  qed (rule uvm_okD(2) [OF uok])
  moreover have "PGROUNDDOWN va' \<noteq> va" if "ulim s p \<le> unat va'" for va'
    using that va(2) ulim_PGROUNDDOWN [of va' s p] by auto
  ultimately have "uspace s' p xs'"
    using u get unfolding uspace_def pr by auto
  moreover have "ubyte s' p va' = ubyte s p va'" for va'
    using get' [of va'] same [of va'] in_page_of [of "upte s p va'" va'] in_page_of [of e va'] inval [of va'] e
    by (auto simp: ubyte_def pr same_on_def zeroed_def)
  moreover from this have "uwritable s' p va' = uwritable s p va'" for va'
    using get' [of va'] inval [of va'] e by (auto simp: uwritable_def ubyte_def pr)
  ultimately show ?thesis
    using mo sub(1) by (simp add: unseen_def fun_eq_iff)
qed

subsection \<open>vmfault\<close>

lemma unseen_refl: "uspace s p xs \<Longrightarrow> unseen p s xs s xs"
  by (simp add: unseen_def)

lemma unseen_trans: "unseen p s xs s1 xs1 \<Longrightarrow> unseen p s1 xs1 s2 xs2 \<Longrightarrow> unseen p s xs s2 xs2"
  unfolding unseen_def using mem_only_trans by auto

text \<open>Taking a page from the free list and clearing it.\<close>

lemma kalloc_zero:
  assumes ok: "vm_ok 2 s pt (pg # ys)"
  obtains s1 where "kalloc s = Ret pg s1" "mem_only s (s1\<lparr>mem := memset (mem s1) pg 0 4096\<rparr>)"
    "vm_ok 2 (s1\<lparr>mem := memset (mem s1) pg 0 4096\<rparr>) pt ys"
    "pt_pages 2 (memset (mem s1) pg 0 4096) pt = pt_pages 2 (mem s) pt"
    "\<And>va. pt_get 2 (memset (mem s1) pg 0 4096) pt va = pt_get 2 (mem s) pt va"
    "zeroed (memset (mem s1) pg 0 4096) pg" "same_on (- page pg) (mem s) (memset (mem s1) pg 0 4096)"
    "pg \<noteq> 0" "phys_page s pg" "pg \<notin> set ys"
proof -
  note okD = vm_okD [OF ok]
  obtain m f where k: "kalloc s = Ret pg (s\<lparr>mem := m, freelist := f\<rparr>)" "kmem_inv (s\<lparr>mem := m, freelist := f\<rparr>) ys"
    "\<forall>x. m x = (if x \<in> page pg then 5 else mem s x)"
    using kalloc_ok [OF okD(1,2)] by blast
  let ?m = "memset m pg 0 4096"
  let ?s = "s\<lparr>mem := ?m, freelist := f\<rparr>"
  have out: "same_on (- page pg) (mem s) ?m"
    using k(3) by (simp add: same_on_def page_fill)
  have pg: "phys_page s pg" "pg \<noteq> 0" "pg \<notin> set ys" "pg \<notin> pt_pages 2 (mem s) pt"
    using kmem_inv_cons [OF okD(1)] okD(5) by auto
  have "same_on (span (pt_pages 2 (mem s) pt)) (mem s) ?m"
    using out page_span_disjoint [OF phys_aligned [OF pg(1)], of "pt_pages 2 (mem s) pt"]
      pt_tree_aligned [OF okD(3)] pg(4) by (auto simp: same_on_def)
  note fr = pt_frame [OF this]
  have "kmem_inv ?s ys"
  proof (rule kmem_inv_cong [OF k(2)])
    fix x y
    assume y: "y \<in> set ys" "x \<in> page y"
    then have "page_aligned y" "y \<noteq> pg"
      using kmem_inv_phys [OF k(2)] phys_aligned pg(3) by (auto simp: phys_page_def)
    then have "x \<notin> page pg"
      using page_disjoint phys_aligned [OF pg(1)] y(2) by blast
    then show "mem ?s x = mem (s\<lparr>mem := m, freelist := f\<rparr>) x"
      by (simp add: page_fill)
  qed simp_all
  then have "vm_ok 2 ?s pt ys"
    using ok fr phys_page_cong [of ?s s] by (simp add: vm_ok_def)
  moreover have "zeroed ?m pg"
    by (simp add: zeroed_def page_fill)
  moreover have "mem_only s ?s"
    by (auto simp: mem_only_def)
  ultimately show thesis
    using that [OF k(1)] fr pg out by simp
qed

definition lazy_pte :: "uint64 \<Rightarrow> uint64" where
  "lazy_pte pg = PA2PTE pg OR (PTE_W OR PTE_U OR PTE_R) OR PTE_V"

lemma lazy_pte:
  assumes "page_aligned pg"
  shows "pte_valid (lazy_pte pg)" "lazy_pte pg AND PTE_U \<noteq> 0" "lazy_pte pg AND PTE_W \<noteq> 0" "PTE2PA (lazy_pte pg) = pg"
proof -
  have l: "lazy_pte pg = PA2PTE pg OR 23"
    by (simp add: lazy_pte_def or.assoc)
  show "PTE2PA (lazy_pte pg) = pg"
    unfolding l by (rule PTE2PA_PA2PTE_or) (use assms in simp_all)
  have f: "PTE_FLAGS (lazy_pte pg) = 23"
    unfolding l by (rule PTE_FLAGS_PA2PTE_or) simp
  have "lazy_pte pg AND k = 23 AND k" if "k AND 0x3FF = k" for k
    using pte_flag_and [OF that, of "lazy_pte pg"] f by simp
  then show "pte_valid (lazy_pte pg)" "lazy_pte pg AND PTE_U \<noteq> 0" "lazy_pte pg AND PTE_W \<noteq> 0"
    by (simp_all add: pte_valid_def)
qed

lemma vmfault_ok:
  assumes u: "uspace s p xs" and me: "myproc s = Some p"
    and va: "page_aligned va" "unat va < ulim s p" "\<not> pte_valid (upte s p va)"
  shows "\<exists>r s' xs'. vmfault (pagetable (procs s p)) va rd s = Ret r s' \<and> unseen p s xs s' xs' \<and>
    (r = 0 \<and> length xs' \<le> 1 \<or>
     r \<noteq> 0 \<and> pte_valid (upte s' p va) \<and> upte s' p va AND PTE_U \<noteq> 0 \<and> upte s' p va AND PTE_W \<noteq> 0 \<and> PTE2PA (upte s' p va) = r)"
proof -
  let ?pt = "pagetable (procs s p)"
  have ok: "vm_ok 2 s ?pt xs"
    using uvm_okD(1) [OF uspaceD(1) [OF u]] .
  have "va < sz (procs s p)" "va < MAXVA"
    using va ulim_page [OF u va(1)] below_SV39 [OF u] by auto
  then have vf: "vmfault ?pt va rd s = bnd (kalloc s) (\<lambda>pg s.
         if pg = 0 then Ret 0 s
         else
           let s = s\<lparr>mem := memset (mem s) pg 0 4096\<rparr> in
           bnd (mappages (pagetable (procs s p)) va PGSIZE pg (PTE_W OR PTE_U OR PTE_R) s) (\<lambda>r s.
           if r \<noteq> 0 then bnd (kfree pg s) (\<lambda>_ s. Ret 0 s)
           else Ret pg s))"
    using va me walk_find [of va ?pt s] pt_leaf_mapped [of s p va] vm_ok_leaf_nz [OF ok]
    by (auto simp: vmfault_def with_myproc_def ismapped_def upte_def pt_get_def pte_valid_def split: option.splits)
  show ?thesis
  proof (cases xs)
    case Nil
    then have "kalloc s = Ret 0 s"
      using kalloc_empty vm_okD(1,2) [OF ok] by simp
    then show ?thesis
      using vf unseen_refl [OF u] Nil by auto
  next
    case (Cons pg ys)
    obtain s1 where k: "kalloc s = Ret pg s1" "mem_only s (s1\<lparr>mem := memset (mem s1) pg 0 4096\<rparr>)"
      "vm_ok 2 (s1\<lparr>mem := memset (mem s1) pg 0 4096\<rparr>) ?pt ys"
      "pt_pages 2 (memset (mem s1) pg 0 4096) ?pt = pt_pages 2 (mem s) ?pt"
      "\<And>va. pt_get 2 (memset (mem s1) pg 0 4096) ?pt va = pt_get 2 (mem s) ?pt va"
      "zeroed (memset (mem s1) pg 0 4096) pg" "same_on (- page pg) (mem s) (memset (mem s1) pg 0 4096)"
      "pg \<noteq> 0" "phys_page s pg" "pg \<notin> set ys"
      by (rule kalloc_zero [OF ok [unfolded Cons]]) blast
    let ?s2 = "s1\<lparr>mem := memset (mem s1) pg 0 4096\<rparr>"
    have al: "page_aligned y" if "y \<in> set (take n ys)" for y n
      using that kmem_inv_phys [OF vm_okD(1) [OF ok]] Cons phys_aligned by (auto dest!: in_set_takeD)
    have inval: "\<not> pte_valid (upte s p va')" if "PGROUNDDOWN va' = va" for va'
      using va(3) that upte_page [of s p va'] by simp
    have bnd38: "unat va + 1 * 4096 \<le> 2 ^ 38"
      using va(1,2) ulim_le [OF u] by (auto elim: page_alignedE)
    have "\<exists>r s3 k j. mappages ?pt va (of_nat 1 * 4096) pg (PTE_W OR PTE_U OR PTE_R) ?s2 = Ret r s3 \<and>
      vm_maps ?s2 s3 ?pt ys k (map_range va j pg (PTE_W OR PTE_U OR PTE_R) (pt_get 2 (mem ?s2) ?pt)) \<and>
      (r = 0 \<and> j = 1 \<or> r = -1 \<and> j < 1 \<and> drop k ys = [])"
      by (rule mappages_ok [OF k(3) va(1) _ bnd38])
        (use inval k(5) PGROUNDDOWN_iff [OF va(1)] in \<open>auto simp: upte_def\<close>)
    then obtain r s3 j n where m: "mappages ?pt va 4096 pg (PTE_W OR PTE_U OR PTE_R) ?s2 = Ret r s3"
      "vm_maps ?s2 s3 ?pt ys n (map_range va j pg (PTE_W OR PTE_U OR PTE_R) (pt_get 2 (mem ?s2) ?pt))"
      "r = 0 \<and> j = 1 \<or> r = -1 \<and> j < 1 \<and> drop n ys = []"
      by auto
    note mD = vm_mapsD [OF m(2)]
    have mo: "mem_only s s3" "procs s3 = procs s"
      using mem_only_trans [OF k(2) mD(1)] mem_onlyD(2) by blast+
    have pages: "pt_pages 2 (mem s3) ?pt \<subseteq> pt_pages 2 (mem s) ?pt \<union> (set xs - {pg})"
      using mD(3) k(4,10) Cons set_take_subset [of n ys] by auto
    have user: "same_on (page (PTE2PA (upte s p va'))) (mem s) (mem s3)" "pg \<noteq> PTE2PA (upte s p va')"
      if v: "unat va' < ulim s p" "pte_valid (upte s p va')" for va'
    proof -
      let ?q = "PTE2PA (upte s p va')"
      note q = upage_of(3-5) [OF u v]
      show ne: "pg \<noteq> ?q"
        using q(2) Cons by auto
      have "x \<notin> page pg" "x \<notin> span (pt_pages 2 (mem s) ?pt \<union> set (take n ys))" if "x \<in> page ?q" for x
      proof -
        show "x \<notin> page pg"
          using that ne page_disjoint [OF phys_aligned [OF k(9)] phys_aligned [OF q(1)]] by blast
        have "?q \<notin> pt_pages 2 (mem s) ?pt \<union> set (take n ys)"
          using q(2,3) Cons set_take_subset [of n ys] by auto
        moreover have "page_aligned y" if "y \<in> pt_pages 2 (mem s) ?pt \<union> set (take n ys)" for y
          using that pt_tree_aligned [OF vm_okD(3) [OF ok]] al by auto
        ultimately show "x \<notin> span (pt_pages 2 (mem s) ?pt \<union> set (take n ys))"
          using page_span_disjoint [OF phys_aligned [OF q(1)] _ _ that] by blast
      qed
      then show "same_on (page ?q) (mem s) (mem s3)"
        using mD(5) k(4,7) by (simp add: same_on_def)
    qed
    from m(3) show ?thesis
    proof (elim disjE conjE)
      assume r: "r = 0" "j = 1"
      have get: "upte s3 p va' = (if PGROUNDDOWN va' = va then lazy_pte pg else upte s p va')" if "va' < SV39" for va'
        using mD(4) [OF that] k(5) PGROUNDDOWN_iff [OF va(1), of va'] mo(2) r(2)
        by (auto simp: upte_def map_range_def lazy_pte_def)
      have "zeroed (mem s3) pg"
      proof -
        have "x \<notin> span (pt_pages 2 (mem s) ?pt \<union> set (take n ys))" if "x \<in> page pg" for x
          by (rule page_span_disjoint [OF phys_aligned [OF k(9)] _ _ that])
            (use pt_tree_aligned [OF vm_okD(3) [OF ok]] al Cons k(10) vm_okD(5) [OF ok] in \<open>auto dest: in_set_takeD\<close>)
        then show ?thesis
          using mD(5) k(4,6) by (simp add: zeroed_def same_on_def)
      qed
      moreover have "set (drop n ys) \<subseteq> set xs" "pg \<in> set xs" "pg \<notin> set (drop n ys)"
        using Cons k(10) set_drop_subset [of n ys] by auto
      ultimately have "unseen p s xs s3 (drop n ys)"
        by (intro unseen_map [OF u mo(1) mD(2) va, of pg "lazy_pte pg"])
          (use pages get user lazy_pte [OF phys_aligned [OF k(9)]] in auto)
      moreover have "upte s3 p va = lazy_pte pg"
        using get [of va] below_SV39 [OF u va(2)] va(1) by simp
      moreover have "vmfault ?pt va rd s = Ret pg s3"
        using vf k(1) m(1) r(1) \<open>pg \<noteq> 0\<close> mem_onlyD(2) [OF k(2)] by simp
      ultimately show ?thesis
        using lazy_pte [OF phys_aligned [OF k(9)]] \<open>pg \<noteq> 0\<close>
        by (intro exI [of _ pg] exI [of _ s3] exI [of _ "drop n ys"]) simp
    next
      assume r: "r = -1" "j < 1" "drop n ys = []"
      have free: "pg \<notin> pt_pages 2 (mem s3) ?pt" "phys_page s3 pg"
        using pages vm_okD(5) [OF ok] Cons k(9) phys_page_cong [OF mem_onlyD(4) [OF mo(1)]] by auto
      obtain s4 where f: "kfree pg s3 = Ret () s4" "mem_only s3 s4" "vm_ok 2 s4 ?pt [pg]"
        "pt_pages 2 (mem s4) ?pt = pt_pages 2 (mem s3) ?pt" "\<And>va. pt_get 2 (mem s4) ?pt va = pt_get 2 (mem s3) ?pt va"
        "same_on (- page pg) (mem s3) (mem s4)"
        by (rule vm_ok_free [OF mD(2) free(2) _ free(1), unfolded r(3)]) simp_all
      have "procs s4 = procs s"
        using mem_onlyD(2) [OF f(2)] mo(2) by simp
      then have get: "upte s4 p va' = upte s p va'" if "va' < SV39" for va'
        using mD(4) [OF that] k(5) r(2) f(5) by (simp add: upte_def)
      have "same_on (page (PTE2PA (upte s p va'))) (mem s) (mem s4)"
        if v: "unat va' < ulim s p" "pte_valid (upte s p va')" for va'
      proof -
        have "page (PTE2PA (upte s p va')) \<subseteq> - page pg"
          using page_disjoint [OF phys_aligned [OF k(9)] phys_aligned [OF upage_of(3) [OF u v]] user(2) [OF v]] by blast
        then show ?thesis
          using user(1) [OF v] f(6) by (auto simp: same_on_def)
      qed
      then have "unseen p s xs s4 [pg]"
        by (intro unseen_frame [OF u mem_only_trans [OF mo(1) f(2)] f(3)]) (use Cons pages f(4) get in auto)
      moreover have "vmfault ?pt va rd s = Ret 0 s4"
        using vf k(1) m(1) r(1) f(1) \<open>pg \<noteq> 0\<close> mem_onlyD(2) [OF k(2)] by simp
      ultimately show ?thesis
        by (metis One_nat_def length_Cons list.size(3) order_refl)
    qed
  qed
qed

subsection \<open>Finding the page of an address\<close>

text \<open>The first steps of \<^verbatim>\<open>copyin\<close> and \<^verbatim>\<open>copyout\<close>.\<close>

definition resolve :: "uint64 \<Rightarrow> uint64 \<Rightarrow> 'a machine_scheme \<Rightarrow> ('a machine_scheme, uint64) outcome" where
  "resolve pt va s = bnd (walkaddr pt va s) (\<lambda>pa s. if pa = 0 then vmfault pt va False s else Ret pa s)"

lemma walkaddr_eq_above:
  assumes "uspace s p xs" "ulim s p \<le> unat va"
  shows "walkaddr (pagetable (procs s p)) va s = Ret 0 s"
proof (cases "va < MAXVA")
  case True
  have "\<not> pte_valid (upte s p va) \<or> upte s p va AND PTE_U = 0"
    using uspaceD(3) [OF assms(1) MAXVA_SV39 [OF True] assms(2)] by blast
  then show ?thesis
    using walk_find [OF True, of "pagetable (procs s p)" s]
    by (auto simp: walkaddr_def upte_def pt_get_def pte_valid_def split: option.splits)
qed (simp add: walkaddr_def not_less)

lemma vmfault_above:
  assumes "uspace s p xs" "myproc s = Some p" "page_aligned va" "ulim s p \<le> unat va"
  shows "vmfault pt va rd s = Ret 0 s"
proof -
  have "sz (procs s p) \<le> va"
    using ulim_page [OF assms(1,3)] assms(4) by auto
  then show ?thesis
    using assms(2) by (simp add: vmfault_def with_myproc_def)
qed

lemma vmfault_mapped:
  assumes "uspace s p xs" "myproc s = Some p" "page_aligned va" "unat va < ulim s p" "pte_valid (upte s p va)"
  shows "vmfault (pagetable (procs s p)) va rd s = Ret 0 s"
proof -
  have "va < MAXVA"
    using below_SV39 [OF assms(1,4)] by simp
  moreover obtain a where "pt_leaf 2 (mem s) (pagetable (procs s p)) va = Some a" "load64 (mem s) a = upte s p va"
    using pt_leaf_mapped [OF assms(5)] by blast
  moreover from this have "a \<noteq> 0"
    using vm_ok_leaf_nz [OF uvm_okD(1) [OF uspaceD(1) [OF assms(1)]]] by blast
  ultimately show ?thesis
    using walk_find [of va "pagetable (procs s p)" s] assms
    by (auto simp: vmfault_def with_myproc_def ismapped_def pte_valid_def PGROUNDDOWN_aligned_eq)
qed

lemma resolve_ok:
  assumes u: "uspace s p xs" and me: "myproc s = Some p" and va: "page_aligned va"
  shows "\<exists>r s' xs'. resolve (pagetable (procs s p)) va s = Ret r s' \<and> unseen p s xs s' xs' \<and>
    (if r = 0 then ubyte s p va = None \<or> length xs' \<le> 1
     else unat va < ulim s p \<and> pte_valid (upte s' p va) \<and> upte s' p va AND PTE_U \<noteq> 0 \<and> r = PTE2PA (upte s' p va))"
proof -
  consider "ulim s p \<le> unat va" | "unat va < ulim s p" "\<not> pte_valid (upte s p va)"
    | "unat va < ulim s p" "pte_valid (upte s p va)" "upte s p va AND PTE_U = 0"
    | "unat va < ulim s p" "pte_valid (upte s p va)" "upte s p va AND PTE_U \<noteq> 0"
    by linarith
  then show ?thesis
  proof cases
    case 1
    then show ?thesis
      using walkaddr_eq_above [OF u 1] vmfault_above [OF u me va 1] unseen_refl [OF u]
      by (intro exI [of _ 0] exI [of _ s] exI [of _ xs]) (simp add: resolve_def ubyte_def)
  next
    case 2
    obtain r s' xs' where "vmfault (pagetable (procs s p)) va False s = Ret r s'" "unseen p s xs s' xs'"
      "r = 0 \<and> length xs' \<le> 1 \<or>
       r \<noteq> 0 \<and> pte_valid (upte s' p va) \<and> upte s' p va AND PTE_U \<noteq> 0 \<and> upte s' p va AND PTE_W \<noteq> 0 \<and> PTE2PA (upte s' p va) = r"
      using vmfault_ok [OF u me va 2] by blast
    then show ?thesis
      using walkaddr_eq [OF u 2(1)] 2
      by (intro exI [of _ r] exI [of _ s'] exI [of _ xs']) (auto simp: resolve_def)
  next
    case 3
    then show ?thesis
      using walkaddr_eq [OF u 3(1)] vmfault_mapped [OF u me va 3(1,2)] unseen_refl [OF u]
      by (intro exI [of _ 0] exI [of _ s] exI [of _ xs]) (simp add: resolve_def ubyte_def)
  next
    case 4
    have "PTE2PA (upte s p va) \<noteq> 0"
      using upage_of(3) [OF u 4(1,2)] vm_okD(1) [OF uvm_okD(1) [OF uspaceD(1) [OF u]]]
      by (auto simp: kmem_inv_def dest: phys_page_nz)
    then show ?thesis
      using walkaddr_eq [OF u 4(1)] 4 unseen_refl [OF u]
      by (intro exI [of _ "PTE2PA (upte s p va)"] exI [of _ s] exI [of _ xs]) (simp add: resolve_def)
  qed
qed

subsection \<open>Writing to a page\<close>

definition uwrite :: "(uint64 \<Rightarrow> uint8 option) \<Rightarrow> uint64 \<Rightarrow> uint8 list \<Rightarrow> uint64 \<Rightarrow> uint8 option" where
  "uwrite f va bs = (\<lambda>x. if unat (x - va) < length bs then Some (bs ! unat (x - va)) else f x)"

lemma same_page_run:
  assumes "i < 4096 - unat va mod 4096"
  shows "PGROUNDDOWN (va + of_nat i) = PGROUNDDOWN va"
proof -
  have "unat va + i < unat (PGROUNDDOWN va) + 4096"
    using assms div_mult_mod_eq [of "unat va" 4096] unfolding unat_PGROUNDDOWN by linarith
  moreover have "unat (PGROUNDDOWN va) + 4096 \<le> 2 ^ 64"
    by (rule page_aligned_bound) simp
  ultimately have "unat (va + of_nat i) = unat va + i"
    by (intro unat_add_small) simp
  then show ?thesis
    using \<open>unat va + i < unat (PGROUNDDOWN va) + 4096\<close> PGROUNDDOWN_le [of va]
    by (simp add: PGROUNDDOWN_iff)
qed

lemma run_in_user_page:
  assumes "n \<le> 4096 - unat va mod 4096"
  shows "run_at (PTE2PA e + (va - PGROUNDDOWN va)) n \<subseteq> page (PTE2PA e)"
proof
  fix x
  assume "x \<in> run_at (PTE2PA e + (va - PGROUNDDOWN va)) n"
  then obtain i where i: "i < n" "x = PTE2PA e + (va - PGROUNDDOWN va) + of_nat i"
    by (rule run_atE)
  have "unat ((va - PGROUNDDOWN va) + of_nat i) = unat va mod 4096 + i"
    using unat_add_small [of "va - PGROUNDDOWN va" i] i(1) assms PGROUNDDOWN_offset [of va] by simp
  then show "x \<in> page (PTE2PA e)"
    using i assms by (simp add: page_def run_at_def add.assoc)
qed

lemma vm_ok_data:
  assumes ok: "vm_ok 2 s pt xs" and q: "page_aligned q" "q \<notin> set xs" "q \<notin> pt_pages 2 (mem s) pt"
    and out: "same_on (- page q) (mem s) m"
  shows "vm_ok 2 (s\<lparr>mem := m\<rparr>) pt xs" "pt_pages 2 m pt = pt_pages 2 (mem s) pt"
    "\<And>va. pt_get 2 m pt va = pt_get 2 (mem s) pt va"
proof -
  note okD = vm_okD [OF ok]
  have "x \<notin> page q" if "x \<in> span P" "\<And>y. y \<in> P \<Longrightarrow> page_aligned y" "q \<notin> P" for x P
    using page_span_disjoint [OF q(1), of P x] that by blast
  then have sp: "same_on (span P) (mem s) m" if "\<And>y. y \<in> P \<Longrightarrow> page_aligned y" "q \<notin> P" for P
    using out that by (auto simp: same_on_def)
  have a: "same_on (span (pt_pages 2 (mem s) pt)) (mem s) m" "same_on (span (set xs)) (mem s) m"
    by (rule sp, use pt_tree_aligned [OF okD(3)] q in blast, rule q)
      (rule sp, use kmem_inv_phys [OF okD(1)] phys_aligned in blast, rule q)
  note fr = pt_frame [OF a(1)]
  show "pt_pages 2 m pt = pt_pages 2 (mem s) pt" "\<And>va. pt_get 2 m pt va = pt_get 2 (mem s) pt va"
    using fr by simp_all
  show "vm_ok 2 (s\<lparr>mem := m\<rparr>) pt xs"
    using ok fr kmem_inv_store_outside [OF okD(1) a(2)] phys_page_cong [of "s\<lparr>mem := m\<rparr>" s] by (simp add: vm_ok_def)
qed

lemma store_user:
  assumes u: "uspace s p xs" and va: "unat va < ulim s p" "pte_valid (upte s p va)" "upte s p va AND PTE_U \<noteq> 0"
    and n: "length bs \<le> 4096 - unat va mod 4096"
    and s': "s' = s\<lparr>mem := store_bytes (mem s) (PTE2PA (upte s p va) + (va - PGROUNDDOWN va)) bs\<rparr>"
  shows "mem_only s s'" "uspace s' p xs" "ubyte s' p = uwrite (ubyte s p) va bs" "uwritable s' p = uwritable s p"
proof -
  let ?pt = "pagetable (procs s p)" and ?q = "PTE2PA (upte s p va)"
  let ?a = "?q + (va - PGROUNDDOWN va)"
  note q = upage_of(3-5) [OF u va(1,2)]
  show mo: "mem_only s s'"
    unfolding s' by (rule mem_only_mem) simp
  have pr: "procs s' = procs s" "ulim s' p = ulim s p"
    using mem_onlyD [OF mo] mem_only_ulim [OF mo] by auto
  have out: "same_on (- page ?q) (mem s) (mem s')"
    using run_in_user_page [OF n, of "upte s p va"] by (auto simp: same_on_def s' intro!: store_bytes_out)
  have mem': "mem s' = store_bytes (mem s) ?a bs"
    by (simp add: s')
  note d = vm_ok_data [OF uvm_okD(1) [OF uspaceD(1) [OF u]] phys_aligned [OF q(1)] q(2,3) out]
  have get: "upte s' p x = upte s p x" for x
    using d(3) by (simp add: upte_def pr)
  show "uspace s' p xs"
    by (rule uspace_frame [OF u mo _ subset_refl]) (use d get in \<open>simp_all add: s'\<close>)
  have "ubyte s' p x = uwrite (ubyte s p) va bs x" for x
  proof (cases "PGROUNDDOWN x = PGROUNDDOWN va")
    case True
    then have e: "upte s p x = upte s p va" "unat x < ulim s p"
      using upte_page [of s p x] upte_page [of s p va] ulim_PGROUNDDOWN va(1) by metis+
    have "?q + (x - PGROUNDDOWN x) - ?a = x - va"
      by (simp add: True)
    then show ?thesis
      using e va get [of x] by (simp add: ubyte_def uwrite_def pr mem' store_bytes_def)
  next
    case False
    have nr: "\<not> unat (x - va) < length bs"
      using same_page_run [of "unat (x - va)" va] n False by auto
    have "mem s' (PTE2PA (upte s p x) + (x - PGROUNDDOWN x)) = mem s (PTE2PA (upte s p x) + (x - PGROUNDDOWN x))"
      if x: "unat x < ulim s p" "pte_valid (upte s p x)"
    proof -
      have "PTE2PA (upte s p x) \<noteq> ?q"
        using upage_inj [OF u x va(1,2)] False by blast
      then show ?thesis
        using out page_disjoint [OF phys_aligned [OF upage_of(3) [OF u x]] phys_aligned [OF q(1)]] in_page_of
        unfolding same_on_def by blast
    qed
    then show ?thesis
      using get [of x] nr by (auto simp: ubyte_def uwrite_def pr)
  qed
  then show b: "ubyte s' p = uwrite (ubyte s p) va bs"
    by (rule ext)
  show "uwritable s' p = uwritable s p"
    using get by (auto simp: uwritable_def ubyte_def pr fun_eq_iff)
qed

subsection \<open>copyout\<close>

lemma ubyte_page: "ubyte s p (PGROUNDDOWN va) = None \<longleftrightarrow> ubyte s p va = None"
  using ulim_PGROUNDDOWN [of va s p] upte_page [of s p va] by (auto simp: ubyte_def)

lemma uwritable_page: "uwritable s p (PGROUNDDOWN va) \<longleftrightarrow> uwritable s p va"
  using ubyte_page [of s p va] upte_page [of s p va] by (simp add: uwritable_def)

text \<open>The bytes of \<open>bs\<close> up to the end of the page, and the rest from the next page on.\<close>

lemma page_run_next:
  assumes "page_run va n < n"
  shows "PGROUNDDOWN va + 4096 = va + of_nat (page_run va n)"
proof -
  have n: "page_run va n = 4096 - unat va mod 4096"
    using assms by (simp add: page_run_eq min_def split: if_splits)
  have "va - PGROUNDDOWN va = of_nat (unat va mod 4096)"
    using PGROUNDDOWN_offset [of va] unat_eq_of_nat64 by blast
  then have g: "PGROUNDDOWN va = va - of_nat (unat va mod 4096)"
    by (metis add_diff_cancel_right' diff_add_cancel add.commute)
  have "(of_nat (4096 - unat va mod 4096) :: uint64) = 4096 - of_nat (unat va mod 4096)"
    by (subst of_nat_diff) simp_all
  then show ?thesis
    unfolding n g by simp
qed

lemma uwrite_append:
  assumes "length as + length bs < 2 ^ 64"
  shows "uwrite (uwrite f va as) (va + of_nat (length as)) bs = uwrite f va (as @ bs)"
proof
  fix x :: uint64
  let ?d = "unat (x - va)"
  have "x - (va + of_nat (length as)) = (x - va) - of_nat (length as)"
    by simp
  moreover have "unat (of_nat (length as) :: uint64) = length as"
    using assms by (intro unat_of_nat64) simp
  ultimately have d: "unat (x - (va + of_nat (length as))) = (if length as \<le> ?d then ?d - length as else ?d + 2 ^ 64 - length as)"
    by (simp only: unat_sub_if_size) (simp add: word_size)
  show "uwrite (uwrite f va as) (va + of_nat (length as)) bs x = uwrite f va (as @ bs) x"
    using assms d by (auto simp: uwrite_def nth_append)
qed

lemma uwrite_Nil [simp]: "uwrite f va [] = f"
  by (simp add: uwrite_def)

text \<open>What \<^verbatim>\<open>copyout\<close> has done when it has written the first \<open>k\<close> bytes.\<close>

definition wrote :: "nat \<Rightarrow> 'a machine_scheme \<Rightarrow> uint64 list \<Rightarrow> uint64 \<Rightarrow> uint8 list \<Rightarrow> 'a machine_scheme \<Rightarrow> uint64 list \<Rightarrow> bool" where
  "wrote p s xs va bs s' xs' \<longleftrightarrow> mem_only s s' \<and> uspace s' p xs' \<and> set xs' \<subseteq> set xs \<and>
     ubyte s' p = uwrite (ubyte s p) va bs \<and> uwritable s' p = uwritable s p"

lemma wrote_unseen: "unseen p s xs s' xs' \<Longrightarrow> wrote p s xs va [] s' xs'"
  by (simp add: wrote_def unseen_def)

lemma wrote_trans:
  "wrote p s xs va as s1 xs1 \<Longrightarrow> wrote p s1 xs1 (va + of_nat (length as)) bs s2 xs2 \<Longrightarrow>
   length as + length bs < 2 ^ 64 \<Longrightarrow> wrote p s xs va (as @ bs) s2 xs2"
  unfolding wrote_def by (auto simp: uwrite_append elim: mem_only_trans)

lemma unseen_wrote:
  "unseen p s xs s1 xs1 \<Longrightarrow> wrote p s1 xs1 va bs s2 xs2 \<Longrightarrow> wrote p s xs va bs s2 xs2"
  unfolding wrote_def unseen_def by (auto elim: mem_only_trans)

lemma copyout_unfold:
  "src \<noteq> [] \<Longrightarrow> copyout pt va src s =
     (if PGROUNDDOWN va \<ge> MAXVA then Ret (-1) s
      else bnd (resolve pt (PGROUNDDOWN va) s) (\<lambda>pa0 s.
          if pa0 = 0 then Ret (-1) s
          else
            bnd (walk pt (PGROUNDDOWN va) False s) (\<lambda>pte s.
            bnd (load_pte pte s) (\<lambda>e s.
            if e AND PTE_W = 0 then Ret (-1) s
            else
              let n = page_run va (length src);
                  s = s\<lparr>mem := store_bytes (mem s) (pa0 + (va - PGROUNDDOWN va)) (take n src)\<rparr>
              in copyout pt (PGROUNDDOWN va + PGSIZE) (drop n src) s))))"
  by (subst copyout.simps) (simp add: resolve_def bnd_assoc Let_def)

text \<open>One page of \<^verbatim>\<open>copyout\<close>.\<close>

lemma copyout_page:
  fixes va :: uint64
  assumes u: "uspace s p xs" and me: "myproc s = Some p" and src: "src \<noteq> []"
  defines "n \<equiv> page_run va (length src)"
  shows "(\<exists>s' xs'. copyout (pagetable (procs s p)) va src s = Ret (-1) s' \<and> unseen p s xs s' xs' \<and>
      (\<not> uwritable s p va \<or> length xs' \<le> 1)) \<or>
    (\<exists>s' xs'. copyout (pagetable (procs s p)) va src s =
        copyout (pagetable (procs s' p)) (PGROUNDDOWN va + PGSIZE) (drop n src) s' \<and>
      wrote p s xs va (take n src) s' xs' \<and> uwritable s p va)"
proof -
  let ?pt = "pagetable (procs s p)" and ?va0 = "PGROUNDDOWN va"
  note unfold = copyout_unfold [OF src, of ?pt va s]
  show ?thesis
  proof (cases "?va0 \<ge> MAXVA")
    case True
    have "ulim s p \<le> unat ?va0"
      using True ulim_le [OF u] by (simp add: word_le_nat_alt)
    then have "\<not> uwritable s p ?va0"
      by (simp add: uwritable_def ubyte_def)
    then show ?thesis
      using True unfold unseen_refl [OF u] uwritable_page by fastforce
  next
    case False
    obtain r s1 xs1 where r: "resolve ?pt ?va0 s = Ret r s1" "unseen p s xs s1 xs1"
      "if r = 0 then ubyte s p ?va0 = None \<or> length xs1 \<le> 1
       else unat ?va0 < ulim s p \<and> pte_valid (upte s1 p ?va0) \<and> upte s1 p ?va0 AND PTE_U \<noteq> 0 \<and> r = PTE2PA (upte s1 p ?va0)"
      using resolve_ok [OF u me, of ?va0] by auto
    have u1: "uspace s1 p xs1" "procs s1 = procs s" "ulim s1 p = ulim s p" "uwritable s1 p = uwritable s p"
      using r(2) mem_onlyD(2) mem_only_ulim by (auto simp: unseen_def)
    show ?thesis
    proof (cases "r = 0")
      case True
      then have "\<not> uwritable s p va \<or> length xs1 \<le> 1"
        using r(3) ubyte_page [of s p va] by (auto simp: uwritable_def)
      then show ?thesis
        using True unfold r(1,2) False by auto
    next
      case nz: False
      then have e: "unat va < ulim s p" "pte_valid (upte s1 p va)" "upte s1 p va AND PTE_U \<noteq> 0" "r = PTE2PA (upte s1 p va)"
        using r(3) ulim_PGROUNDDOWN upte_page by metis+
      obtain a where a: "pt_leaf 2 (mem s1) ?pt ?va0 = Some a" "load64 (mem s1) a = upte s1 p va"
        using pt_leaf_mapped [of s1 p ?va0] e(2) u1(2) by (auto simp: upte_page)
      have "a \<noteq> 0"
        using vm_ok_leaf_nz [OF uvm_okD(1) [OF uspaceD(1) [OF u1(1)]]] a(1) u1(2) by metis
      then have w: "walk ?pt ?va0 False s1 = Ret a s1" "load_pte a s1 = Ret (upte s1 p va) s1"
        using walk_find [of ?va0 ?pt s1] a False by (auto simp: load_pte_def)
      have wr: "uwritable s p va \<longleftrightarrow> upte s1 p va AND PTE_W \<noteq> 0"
        using e u1 by (auto simp: uwritable_def ubyte_def simp flip: u1(4))
      let ?s2 = "s1\<lparr>mem := store_bytes (mem s1) (r + (va - ?va0)) (take n src)\<rparr>"
      have "length (take n src) \<le> 4096 - unat va mod 4096"
        by (simp add: n_def page_run_eq)
      note st = store_user [OF u1(1) _ e(2,3) this, of ?s2]
      have "wrote p s1 xs1 va (take n src) ?s2 xs1" "procs ?s2 = procs s"
        using st e u1 by (simp_all add: wrote_def)
      then have s2: "wrote p s xs va (take n src) ?s2 xs1" "procs ?s2 = procs s"
        using unseen_wrote [OF r(2)] by simp_all
      show ?thesis
      proof (cases "upte s1 p va AND PTE_W = 0")
        case True
        then have "copyout ?pt va src s = Ret (-1) s1"
          using unfold r(1) nz w False by simp
        then show ?thesis
          using True wr r(2) by blast
      next
        case w2: False
        then have "copyout ?pt va src s = copyout (pagetable (procs ?s2 p)) (?va0 + PGSIZE) (drop n src) ?s2"
          using unfold r(1) nz w False s2(2) by (simp add: n_def Let_def)
        then show ?thesis
          using w2 wr s2(1) by blast
      qed
    qed
  qed
qed

lemma copyout_Nil: "copyout pt va [] s = Ret 0 s"
  by (subst copyout.simps) simp

lemma same_page_writable: "i < page_run va n \<Longrightarrow> uwritable s p (va + of_nat i) \<longleftrightarrow> uwritable s p va"
  using same_page_run [of i va] uwritable_page [of s p va] uwritable_page [of s p "va + of_nat i"]
  by (simp add: page_run_eq)

lemma wrote_writable: "wrote p s xs va bs s' xs' \<Longrightarrow> uwritable s' p = uwritable s p"
  by (simp add: wrote_def)

definition copies_out :: "nat \<Rightarrow> 'a machine_scheme \<Rightarrow> uint64 list \<Rightarrow> uint64 \<Rightarrow> uint8 list \<Rightarrow> nat \<Rightarrow> int \<Rightarrow> 'a machine_scheme \<Rightarrow> uint64 list \<Rightarrow> bool" where
  "copies_out p s xs va src k r s' xs' \<longleftrightarrow>
     k \<le> length src \<and> wrote p s xs va (take k src) s' xs' \<and> (\<forall>i<k. uwritable s p (va + of_nat i)) \<and>
     (if k = length src then r = 0 else r = -1 \<and> (\<not> uwritable s p (va + of_nat k) \<or> length xs' \<le> 1))"

lemma copies_out_more:
  assumes w: "wrote p s xs va (take n src) s1 xs1" "uwritable s p va" and n: "n = page_run va (length src)" "n \<le> length src"
    and len: "length src < 2 ^ 64" and c: "copies_out p s1 xs1 (va + of_nat n) (drop n src) k r s' xs'"
  shows "copies_out p s xs va src (n + k) r s' xs'"
proof -
  have nl: "length (take n src) = n"
    using n(2) by simp
  have "wrote p s xs va (take n src @ take k (drop n src)) s' xs'"
    using wrote_trans [OF w(1), of "take k (drop n src)" s' xs'] c n(2) len by (auto simp: nl copies_out_def)
  moreover have "uwritable s p (va + of_nat i)" if "i < n + k" for i
  proof (cases "i < n")
    case True
    then show ?thesis
      using same_page_writable [of i va "length src" s p] w(2) n(1) by simp
  next
    case False
    then have "i - n < k"
      using that by simp
    then have "uwritable s1 p (va + of_nat n + of_nat (i - n))"
      using c unfolding copies_out_def by blast
    moreover have "va + of_nat n + of_nat (i - n) = va + of_nat i"
      using False by (simp add: of_nat_diff)
    ultimately show ?thesis
      using wrote_writable [OF w(1)] by simp
  qed
  ultimately show ?thesis
    using c n(2) wrote_writable [OF w(1)] by (auto simp: copies_out_def take_add add.assoc split: if_splits)
qed

lemma copyout_ok:
  assumes "uspace s p xs" "myproc s = Some p" "length src < 2 ^ 64"
  shows "\<exists>r s' xs' k. copyout (pagetable (procs s p)) va src s = Ret r s' \<and> copies_out p s xs va src k r s' xs'"
  using assms
proof (induction "length src" arbitrary: src va s xs rule: less_induct)
  case less
  note u = less.prems(1) and me = less.prems(2)
  let ?n = "page_run va (length src)"
  consider "src = []"
    | s' xs' where "src \<noteq> []" "copyout (pagetable (procs s p)) va src s = Ret (-1) s'" "unseen p s xs s' xs'"
        "\<not> uwritable s p va \<or> length xs' \<le> 1"
    | s' xs' where "src \<noteq> []" "copyout (pagetable (procs s p)) va src s =
        copyout (pagetable (procs s' p)) (PGROUNDDOWN va + PGSIZE) (drop ?n src) s'"
        "wrote p s xs va (take ?n src) s' xs'" "uwritable s p va"
    using copyout_page [OF u me, of src va] by blast
  then show ?case
  proof cases
    case 1
    then show ?thesis
      using wrote_unseen [OF unseen_refl [OF u], of va]
      by (intro exI [of _ 0] exI [of _ s] exI [of _ xs]) (simp add: copyout_Nil copies_out_def)
  next
    case 2
    then show ?thesis
      using wrote_unseen [OF 2(3), of va]
      by (intro exI [of _ "-1"] exI [of _ s'] exI [of _ xs'] exI [of _ 0]) (simp add: copies_out_def)
  next
    case 3
    have n: "0 < ?n" "?n \<le> length src"
      using 3(1) page_run_pos page_run_le by simp_all
    have s': "uspace s' p xs'" "myproc s' = Some p"
      using 3(3) me mem_onlyD(3) [of s s'] by (auto simp: wrote_def)
    have next_page: "copyout (pagetable (procs s' p)) (PGROUNDDOWN va + PGSIZE) (drop ?n src) s' =
        copyout (pagetable (procs s' p)) (va + of_nat ?n) (drop ?n src) s'"
      using page_run_next [of va "length src"] n(2) by (cases "?n = length src") (simp_all add: copyout_Nil)
    have lt: "length (drop ?n src) < length src"
      using n by simp
    obtain r s'' xs'' k where c: "copyout (pagetable (procs s' p)) (va + of_nat ?n) (drop ?n src) s' = Ret r s''"
      "copies_out p s' xs' (va + of_nat ?n) (drop ?n src) k r s'' xs''"
      using less.hyps [OF lt s' less_trans [OF lt less.prems(3)], of "va + of_nat ?n"] by blast
    have "copies_out p s xs va src (?n + k) r s'' xs''"
      by (rule copies_out_more [OF 3(3,4) refl n(2) less.prems(3) c(2)])
    then show ?thesis
      unfolding 3(2) next_page c(1) by blast
  qed
qed

subsection \<open>copyin\<close>

definition copies_in :: "nat \<Rightarrow> 'a machine_scheme \<Rightarrow> uint64 list \<Rightarrow> uint64 \<Rightarrow> nat \<Rightarrow> int \<times> uint8 list \<Rightarrow> 'a machine_scheme \<Rightarrow> uint64 list \<Rightarrow> bool" where
  "copies_in p s xs va n r s' xs' \<longleftrightarrow>
     unseen p s xs s' xs' \<and> length (snd r) \<le> n \<and> (\<forall>i<length (snd r). ubyte s p (va + of_nat i) = Some (snd r ! i)) \<and>
     (if length (snd r) = n then fst r = 0
      else fst r = -1 \<and> (ubyte s p (va + of_nat (length (snd r))) = None \<or> length xs' \<le> 1))"

lemma copyin_unfold:
  "0 < n \<Longrightarrow> copyin pt va n s =
     bnd (resolve pt (PGROUNDDOWN va) s) (\<lambda>pa0 s.
        if pa0 = 0 then Ret (-1, []) s
        else
          let k = page_run va n; bs = load_bytes (mem s) (pa0 + (va - PGROUNDDOWN va)) k
          in bnd (copyin pt (PGROUNDDOWN va + PGSIZE) (n - k) s) (\<lambda>r s. Ret (fst r, bs @ snd r) s))"
  by (subst copyin.simps) (simp add: resolve_def bnd_assoc Let_def)

lemma copyin_0: "copyin pt va 0 s = Ret (0, []) s"
  by (subst copyin.simps) simp

lemma load_user:
  assumes "uspace s p xs" "unat va < ulim s p" "pte_valid (upte s p va)" "upte s p va AND PTE_U \<noteq> 0" "i < page_run va n"
  shows "ubyte s p (va + of_nat i) = Some (mem s (PTE2PA (upte s p va) + (va - PGROUNDDOWN va) + of_nat i))"
proof -
  have p: "PGROUNDDOWN (va + of_nat i) = PGROUNDDOWN va"
    using same_page_run assms(5) by (simp add: page_run_eq)
  then have "upte s p (va + of_nat i) = upte s p va" "unat (va + of_nat i) < ulim s p"
    using upte_page [of s p va] upte_page [of s p "va + of_nat i"] ulim_PGROUNDDOWN assms(2) by metis+
  then show ?thesis
    using assms p by (simp add: ubyte_def algebra_simps)
qed

lemma copyin_page:
  assumes u: "uspace s p xs" and me: "myproc s = Some p" and n: "0 < n"
  shows "(\<exists>s' xs'. copyin (pagetable (procs s p)) va n s = Ret (-1, []) s' \<and> unseen p s xs s' xs' \<and>
      (ubyte s p va = None \<or> length xs' \<le> 1)) \<or>
    (\<exists>s' xs' bs. copyin (pagetable (procs s p)) va n s =
        bnd (copyin (pagetable (procs s' p)) (PGROUNDDOWN va + PGSIZE) (n - page_run va n) s') (\<lambda>r s. Ret (fst r, bs @ snd r) s) \<and>
      unseen p s xs s' xs' \<and> length bs = page_run va n \<and> (\<forall>i<page_run va n. ubyte s p (va + of_nat i) = Some (bs ! i)))"
proof -
  let ?pt = "pagetable (procs s p)" and ?va0 = "PGROUNDDOWN va"
  obtain r s1 xs1 where r: "resolve ?pt ?va0 s = Ret r s1" "unseen p s xs s1 xs1"
    "if r = 0 then ubyte s p ?va0 = None \<or> length xs1 \<le> 1
     else unat ?va0 < ulim s p \<and> pte_valid (upte s1 p ?va0) \<and> upte s1 p ?va0 AND PTE_U \<noteq> 0 \<and> r = PTE2PA (upte s1 p ?va0)"
    using resolve_ok [OF u me, of ?va0] by auto
  have u1: "uspace s1 p xs1" "procs s1 = procs s" "ulim s1 p = ulim s p" "ubyte s1 p = ubyte s p"
    using r(2) mem_onlyD(2) mem_only_ulim by (auto simp: unseen_def)
  show ?thesis
  proof (cases "r = 0")
    case True
    then show ?thesis
      using copyin_unfold [OF n, of ?pt va s] r ubyte_page [of s p va] by auto
  next
    case False
    then have e: "unat va < ulim s1 p" "pte_valid (upte s1 p va)" "upte s1 p va AND PTE_U \<noteq> 0" "r = PTE2PA (upte s1 p va)"
      using r(3) ulim_PGROUNDDOWN upte_page u1(3) by metis+
    let ?bs = "load_bytes (mem s1) (r + (va - ?va0)) (page_run va n)"
    have "\<forall>i<page_run va n. ubyte s p (va + of_nat i) = Some (?bs ! i)"
      using load_user [OF u1(1) e(1-3)] u1(4) e(4) by simp
    moreover have "copyin ?pt va n s =
        bnd (copyin (pagetable (procs s1 p)) (?va0 + PGSIZE) (n - page_run va n) s1) (\<lambda>r s. Ret (fst r, ?bs @ snd r) s)"
      using copyin_unfold [OF n, of ?pt va s] r(1) False u1(2) by (simp add: Let_def)
    ultimately show ?thesis
      using r(2) by (intro disjI2 exI [of _ s1] exI [of _ xs1] exI [of _ ?bs]) simp
  qed
qed

lemma copies_in_more:
  assumes "unseen p s xs s1 xs1" "length bs \<le> n" "\<forall>i<length bs. ubyte s p (va + of_nat i) = Some (bs ! i)"
    and c: "copies_in p s1 xs1 (va + of_nat (length bs)) (n - length bs) r s' xs'"
  shows "copies_in p s xs va n (fst r, bs @ snd r) s' xs'"
proof -
  have b: "ubyte s1 p = ubyte s p"
    using assms(1) by (simp add: unseen_def)
  have "ubyte s p (va + of_nat i) = Some ((bs @ snd r) ! i)" if "i < length (bs @ snd r)" for i
  proof (cases "i < length bs")
    case False
    then have "i - length bs < length (snd r)"
      using that by simp
    then have "ubyte s1 p (va + of_nat (length bs) + of_nat (i - length bs)) = Some (snd r ! (i - length bs))"
      using c unfolding copies_in_def by blast
    moreover have "va + of_nat (length bs) + of_nat (i - length bs) = va + of_nat i"
      using False by (simp add: of_nat_diff)
    ultimately show ?thesis
      using False b by (simp add: nth_append)
  qed (use assms(3) in \<open>simp add: nth_append\<close>)
  then show ?thesis
    using c assms(2) b unseen_trans [OF assms(1)] by (auto simp: copies_in_def add.assoc split: if_splits)
qed

lemma copyin_ok:
  assumes "uspace s p xs" "myproc s = Some p"
  shows "\<exists>r s' xs'. copyin (pagetable (procs s p)) va n s = Ret r s' \<and> copies_in p s xs va n r s' xs'"
  using assms
proof (induction n arbitrary: va s xs rule: less_induct)
  case (less n)
  note u = less.prems(1) and me = less.prems(2)
  let ?n = "page_run va n"
  consider "n = 0"
    | s' xs' where "0 < n" "copyin (pagetable (procs s p)) va n s = Ret (-1, []) s'" "unseen p s xs s' xs'"
        "ubyte s p va = None \<or> length xs' \<le> 1"
    | s' xs' bs where "0 < n" "copyin (pagetable (procs s p)) va n s =
        bnd (copyin (pagetable (procs s' p)) (PGROUNDDOWN va + PGSIZE) (n - ?n) s') (\<lambda>r s. Ret (fst r, bs @ snd r) s)"
        "unseen p s xs s' xs'" "length bs = ?n" "\<forall>i<?n. ubyte s p (va + of_nat i) = Some (bs ! i)"
    using copyin_page [OF u me, of n va] by blast
  then show ?case
  proof cases
    case 1
    then show ?thesis
      using unseen_refl [OF u]
      by (intro exI [of _ "(0, [])"] exI [of _ s] exI [of _ xs]) (simp add: copyin_0 copies_in_def)
  next
    case 2
    then show ?thesis
      by (intro exI [of _ "(-1, [])"] exI [of _ s'] exI [of _ xs']) (simp add: copies_in_def)
  next
    case 3
    have n: "0 < ?n" "?n \<le> n"
      using 3(1) page_run_pos page_run_le by simp_all
    have s': "uspace s' p xs'" "myproc s' = Some p"
      using 3(3) me mem_onlyD(3) [of s s'] by (auto simp: unseen_def)
    have next_page: "copyin (pagetable (procs s' p)) (PGROUNDDOWN va + PGSIZE) (n - ?n) s' =
        copyin (pagetable (procs s' p)) (va + of_nat ?n) (n - ?n) s'"
      using page_run_next [of va n] n(2) by (cases "?n = n") (simp_all add: copyin_0)
    obtain r s'' xs'' where "copyin (pagetable (procs s' p)) (va + of_nat ?n) (n - ?n) s' = Ret r s''"
      "copies_in p s' xs' (va + of_nat ?n) (n - ?n) r s'' xs''"
      using less.IH [OF _ s', of "n - ?n" "va + of_nat ?n"] 3(1) n by auto
    then show ?thesis
      using 3(2,4) next_page copies_in_more [OF 3(3) _ _, of bs n va r s'' xs''] n(2) 3(5) by auto
  qed
qed

subsection \<open>The main theorems\<close>


text \<open>
  C35: \<^verbatim>\<open>copyin\<close> reads what the process sees. It always returns: 0 with the bytes the process sees at
  the address, zeros where a page has not been allocated yet, or -1 after a proper prefix, because
  the process cannot read the next byte or memory has run out. The process sees the same memory
  afterwards.
\<close>

theorem copyin_correct:
  assumes "uspace s p xs" "myproc s = Some p"
  shows "\<exists>r bs s' xs'. copyin (pagetable (procs s p)) va n s = Ret (r, bs) s' \<and> mem_only s s' \<and> uspace s' p xs' \<and>
    ubyte s' p = ubyte s p \<and> length bs \<le> n \<and> (\<forall>i<length bs. ubyte s p (va + of_nat i) = Some (bs ! i)) \<and>
    (if length bs = n then r = 0 else r = -1 \<and> (ubyte s p (va + of_nat (length bs)) = None \<or> length xs' \<le> 1))"
proof -
  obtain r s' xs' where "copyin (pagetable (procs s p)) va n s = Ret r s'" "copies_in p s xs va n r s' xs'"
    using copyin_ok [OF assms] by blast
  then show ?thesis
    unfolding copies_in_def unseen_def by (metis prod.collapse)
qed

text \<open>A process of one page that has not been allocated yet.\<close>

definition lazy_user :: machine where
  "lazy_user = empty_user\<lparr>myproc := Some 0, procs := (procs empty_user)(0 := (procs empty_user 0)\<lparr>pagetable := 0x80022000, sz := 100\<rparr>)\<rparr>"

lemma lazy_user_space: "uspace lazy_user 0 [0x80021000]" "ubyte lazy_user 0 99 = Some 0" "myproc lazy_user = Some 0"
proof -
  have s: "mem lazy_user = mem empty_user" "freelist lazy_user = freelist empty_user" "held lazy_user = held empty_user"
    "kernel_end lazy_user = kernel_end empty_user" "pagetable (procs lazy_user 0) = 0x80022000" "sz (procs lazy_user 0) = 100"
    by (simp_all add: lazy_user_def)
  have lim: "ulim lazy_user 0 = 4096"
    by (simp add: ulim_def s unat_PGROUNDUP)
  have pte: "upte lazy_user 0 va = 0" for va
    by (simp add: upte_def s empty_user_pt)
  have "uvm_ok lazy_user 0x80022000 4096 [0x80021000]"
    using empty_user_pt(3)
    by (simp add: uvm_ok_def vm_ok_def kmem_inv_def umapped_def upage_def [abs_def] phys_page_def s)
  then show "uspace lazy_user 0 [0x80021000]"
    by (simp add: uspace_def lim s pte)
  show "ubyte lazy_user 0 99 = Some 0"
    by (simp add: ubyte_def lim pte)
  show "myproc lazy_user = Some 0"
    by (simp add: lazy_user_def)
qed


theorem copyin_correct_witness:
  "\<exists>r bs s' xs'. copyin (pagetable (procs lazy_user 0)) 99 5 lazy_user = Ret (r, bs) s' \<and> mem_only lazy_user s' \<and>
    uspace s' 0 xs' \<and> ubyte s' 0 = ubyte lazy_user 0 \<and> length bs \<le> 5"
  using copyin_correct [OF lazy_user_space(1,3), of 99 5] by blast

end
