(* ===== verification/Uart.thy ===== *)
theory Uart
  imports FsName Ring
begin

section \<open>The serial port (uart.c)\<close>

text \<open>
  \<^verbatim>\<open>riscv/kernel/uart.c\<close>. The 16550 chip is on the other side of this model: \<open>uregs\<close> is the sequence
  of writes to its registers, \<open>uin\<close> the bytes it has received and that have not been read. The
  transmitter becomes idle by itself, so the loop of \<^verbatim>\<open>uartputc_sync\<close> that waits for it ends; whether
  it is idle when an interrupt arrives is an argument of \<open>uartintr\<close>, in theory \<open>Console\<close>.

  The record also has the state of \<^verbatim>\<open>printf.c\<close>, \<^verbatim>\<open>console.c\<close> and the clock of \<^verbatim>\<open>trap.c\<close>. A routine that
  may have to wait in the middle of a loop gives \<open>Inr k\<close>, the value of its loop variable, when it
  arrives at the call of \<^verbatim>\<open>sleep\<close>, and \<open>Inl r\<close> when it is done.
\<close>

record consst = fsst +
  uregs :: "(nat \<times> uint8) list"
  uin :: "uint8 list"
  tx_busy :: bool
  panicking :: bool
  panicked :: bool
  cons_buf :: "nat \<Rightarrow> uint8"
  cons_r :: uint32
  cons_w :: uint32
  cons_e :: uint32
  ticks :: uint32

definition THR :: nat where [simp]: "THR = 0"
definition IER :: nat where [simp]: "IER = 1"
definition FCR :: nat where [simp]: "FCR = 2"
definition LCR :: nat where [simp]: "LCR = 3"

definition WriteReg :: "nat \<Rightarrow> uint8 \<Rightarrow> 'a consst_scheme \<Rightarrow> 'a consst_scheme" where
  "WriteReg reg v s = s\<lparr>uregs := uregs s @ [(reg, v)]\<rparr>"

definition uartinit :: "'a consst_scheme \<Rightarrow> 'a consst_scheme" where
  "uartinit s =
     (let s = WriteReg IER 0 s;
          s = WriteReg LCR 0x80 s;
          s = WriteReg 0 3 s;
          s = WriteReg 1 0 s;
          s = WriteReg LCR 3 s;
          s = WriteReg FCR 7 s
      in WriteReg IER 3 s)"

fun uartwrite_loop :: "uint8 list \<Rightarrow> nat \<Rightarrow> 'a consst_scheme \<Rightarrow> ('a consst_scheme, unit + nat) outcome" where
  "uartwrite_loop [] i s = Ret (Inl ()) s"
| "uartwrite_loop (c # cs) i s =
     (if tx_busy s then Ret (Inr i) s
      else uartwrite_loop cs (Suc i) ((WriteReg THR c s)\<lparr>tx_busy := True\<rparr>))"

definition uartwrite_from :: "uint8 list \<Rightarrow> nat \<Rightarrow> 'a consst_scheme \<Rightarrow> ('a consst_scheme, unit) outcome" where
  "uartwrite_from buf i s =
     bnd (uartwrite_loop (drop i buf) i s) (\<lambda>r s.
     case r of Inl _ \<Rightarrow> release Lk_tx s | Inr i \<Rightarrow> sleep Chan_tx Lk_tx s)"

definition uartwrite :: "uint8 list \<Rightarrow> 'a consst_scheme \<Rightarrow> ('a consst_scheme, unit) outcome" where
  "uartwrite buf s = bnd (acquire Lk_tx s) (\<lambda>_ s. uartwrite_from buf 0 s)"

definition uartwrite_resume :: "uint8 list \<Rightarrow> nat \<Rightarrow> 'a consst_scheme \<Rightarrow> ('a consst_scheme, unit) outcome" where
  "uartwrite_resume buf i s = bnd (sleep_resume Lk_tx s) (\<lambda>_ s. uartwrite_from buf i s)"

text \<open>After a panic the routine never returns.\<close>

definition uartputc_sync :: "uint8 \<Rightarrow> 'a consst_scheme \<Rightarrow> ('a consst_scheme, unit) outcome" where
  "uartputc_sync c s = (if panicked s then Panic ''panicked'' else Ret () (WriteReg THR c s))"

definition uartgetc :: "'a consst_scheme \<Rightarrow> ('a consst_scheme, int) outcome" where
  "uartgetc s = (case uin s of [] \<Rightarrow> Ret (-1) s | c # cs \<Rightarrow> Ret (uint c) (s\<lparr>uin := cs\<rparr>))"

end
