(* ===== verification/KPrintf.thy ===== *)
theory KPrintf
  imports Uart
begin

section \<open>Formatted output of the kernel (printf.c)\<close>

text \<open>
  \<^verbatim>\<open>riscv/kernel/printf.c\<close>. The arguments after the format are a list: an integer as the 64 bits of
  its register, a string as its bytes before the NUL or a null pointer. Formatting is a function to
  the bytes that are printed, \<open>None\<close> when an argument is missing or of the wrong kind, which C leaves
  undefined.
\<close>

definition chr :: "char \<Rightarrow> uint8" where
  "chr c = of_char c"

definition BACKSPACE :: int where [simp]: "BACKSPACE = 0x100"

definition consputc :: "int \<Rightarrow> 'a consst_scheme \<Rightarrow> ('a consst_scheme, unit) outcome" where
  "consputc c s =
     (if c = BACKSPACE then
        bnd (uartputc_sync 8 s) (\<lambda>_ s.
        bnd (uartputc_sync 32 s) (\<lambda>_ s.
        uartputc_sync 8 s))
      else uartputc_sync (of_int c) s)"

definition lower_digits :: "uint8 list" where
  "lower_digits = map chr ''0123456789abcdef''"

text \<open>The loop fills \<^verbatim>\<open>buf\<close> with the digits, the lowest first.\<close>

function digit_loop :: "uint8 list \<Rightarrow> nat \<Rightarrow> nat \<Rightarrow> uint8 list" where
  "digit_loop digits base x =
     (let d = digits ! (x mod base) in
      if 2 \<le> base \<and> x div base \<noteq> 0 then d # digit_loop digits base (x div base) else [d])"
  by pat_completeness auto
termination
  by (relation "measure (\<lambda>(digits, base, x). x)") (auto intro!: div_less_dividend simp: div_greater_zero_iff)

declare digit_loop.simps [simp del]

definition printint :: "uint64 \<Rightarrow> nat \<Rightarrow> bool \<Rightarrow> uint8 list" where
  "printint xx base sign =
     (let sign = (sign \<and> sint xx < 0);
          x = (if sign then - xx else xx);
          buf = digit_loop lower_digits base (unat x);
          buf = (if sign then buf @ [chr (CHR ''-'')] else buf)
      in rev buf)"

fun printptr_loop :: "nat \<Rightarrow> uint64 \<Rightarrow> uint8 list" where
  "printptr_loop 0 x = []"
| "printptr_loop (Suc i) x = lower_digits ! unat (drop_bit 60 x) # printptr_loop i (push_bit 4 x)"

definition printptr :: "uint64 \<Rightarrow> uint8 list" where
  "printptr x = chr (CHR ''0'') # chr (CHR ''x'') # printptr_loop 16 x"

datatype varg = VInt uint64 | VStr "uint8 list option"

text \<open>\<^verbatim>\<open>va_arg\<close> as \<^verbatim>\<open>int\<close>, as \<^verbatim>\<open>uint32\<close>, as \<^verbatim>\<open>uint64\<close> and as \<^verbatim>\<open>char *\<close>.\<close>

fun va_int :: "varg list \<Rightarrow> (uint64 \<times> varg list) option" where
  "va_int (VInt w # as) = Some (scast (ucast w :: uint32), as)"
| "va_int _ = None"

fun va_uint32 :: "varg list \<Rightarrow> (uint64 \<times> varg list) option" where
  "va_uint32 (VInt w # as) = Some (ucast (ucast w :: uint32), as)"
| "va_uint32 _ = None"

fun va_uint64 :: "varg list \<Rightarrow> (uint64 \<times> varg list) option" where
  "va_uint64 (VInt w # as) = Some (w, as)"
| "va_uint64 _ = None"

fun va_str :: "varg list \<Rightarrow> (uint8 list \<times> varg list) option" where
  "va_str (VStr (Some cs) # as) = Some (cs, as)"
| "va_str (VStr None # as) = Some (map chr ''(null)'', as)"
| "va_str _ = None"

definition conv :: "('a \<Rightarrow> uint8 list) \<Rightarrow> (varg list \<Rightarrow> ('a \<times> varg list) option) \<Rightarrow> varg list \<Rightarrow> (uint8 list \<times> varg list) option" where
  "conv f get as = map_option (\<lambda>(x, as). (f x, as)) (get as)"

text \<open>
  The conversion for the characters after a percent sign: how many of them beyond the first belong
  to it, and what it prints for the next arguments.
\<close>

definition directive :: "uint8 \<Rightarrow> uint8 \<Rightarrow> uint8 \<Rightarrow> nat \<times> (varg list \<Rightarrow> (uint8 list \<times> varg list) option)" where
  "directive c0 c1 c2 =
     (let l = chr (CHR ''l'') in
      if c0 = chr (CHR ''d'') then (0, conv (\<lambda>x. printint x 10 True) va_int)
      else if c0 = l \<and> c1 = chr (CHR ''d'') then (1, conv (\<lambda>x. printint x 10 True) va_uint64)
      else if c0 = l \<and> c1 = l \<and> c2 = chr (CHR ''d'') then (2, conv (\<lambda>x. printint x 10 True) va_uint64)
      else if c0 = chr (CHR ''u'') then (0, conv (\<lambda>x. printint x 10 False) va_uint32)
      else if c0 = l \<and> c1 = chr (CHR ''u'') then (1, conv (\<lambda>x. printint x 10 False) va_uint64)
      else if c0 = l \<and> c1 = l \<and> c2 = chr (CHR ''u'') then (2, conv (\<lambda>x. printint x 10 False) va_uint64)
      else if c0 = chr (CHR ''x'') then (0, conv (\<lambda>x. printint x 16 False) va_uint32)
      else if c0 = l \<and> c1 = chr (CHR ''x'') then (1, conv (\<lambda>x. printint x 16 False) va_uint64)
      else if c0 = l \<and> c1 = l \<and> c2 = chr (CHR ''x'') then (2, conv (\<lambda>x. printint x 16 False) va_uint64)
      else if c0 = chr (CHR ''p'') then (0, conv printptr va_uint64)
      else if c0 = chr (CHR ''c'') then (0, conv (\<lambda>x. [ucast x]) va_uint32)
      else if c0 = chr (CHR ''s'') then (0, conv (\<lambda>x. x) va_str)
      else if c0 = chr (CHR ''%'') then (0, \<lambda>as. Some ([c0], as))
      else (0, \<lambda>as. Some ([chr (CHR ''%''), c0], as)))"

definition byte_at :: "uint8 list \<Rightarrow> nat \<Rightarrow> uint8" where
  "byte_at cs i = (if i < length cs then cs ! i else 0)"

function kformat :: "uint8 list \<Rightarrow> varg list \<Rightarrow> uint8 list option" where
  "kformat fmt as =
     (case fmt of
        [] \<Rightarrow> Some []
      | cx # fmt \<Rightarrow>
          if cx \<noteq> chr (CHR ''%'') then map_option (\<lambda>out. cx # out) (kformat fmt as)
          else if fmt = [] then Some []
          else
            case directive (byte_at fmt 0) (byte_at fmt 1) (byte_at fmt 2) of
              (k, f) \<Rightarrow>
                case f as of
                  None \<Rightarrow> None
                | Some (out, as) \<Rightarrow> map_option (\<lambda>out'. out @ out') (kformat (drop (Suc k) fmt) as))"
  by pat_completeness auto
termination
  by (relation "measure (\<lambda>(fmt, as). length fmt)") auto

declare kformat.simps [simp del]

definition putchars :: "uint8 list \<Rightarrow> 'a consst_scheme \<Rightarrow> ('a consst_scheme, unit) outcome" where
  "putchars cs s = for_each cs (\<lambda>c. consputc (uint c)) s"

definition kprintf :: "string \<Rightarrow> varg list \<Rightarrow> 'a consst_scheme \<Rightarrow> ('a consst_scheme, unit) outcome" where
  "kprintf fmt as s =
     bnd (if \<not> panicking s then acquire Lk_pr s else Ret () s) (\<lambda>_ s.
     case kformat (map chr fmt) as of
       None \<Rightarrow> Panic ''undefined behaviour''
     | Some out \<Rightarrow>
         bnd (putchars out s) (\<lambda>_ s.
         if \<not> panicking s then release Lk_pr s else Ret () s))"

subsection \<open>Numbers print as they read\<close>

definition digit_val :: "uint8 \<Rightarrow> nat" where
  "digit_val c = length (takeWhile (\<lambda>d. d \<noteq> c) lower_digits)"

fun read_digits :: "nat \<Rightarrow> uint8 list \<Rightarrow> nat" where
  "read_digits base [] = 0"
| "read_digits base (c # cs) = digit_val c + base * read_digits base cs"

definition read_int :: "nat \<Rightarrow> uint8 list \<Rightarrow> int" where
  "read_int base cs =
     (case cs of
        [] \<Rightarrow> 0
      | c # ds \<Rightarrow> if c = chr (CHR ''-'') then - int (read_digits base (rev ds)) else int (read_digits base (rev cs)))"

lemma lower_digits_list:
  "lower_digits = [48, 49, 50, 51, 52, 53, 54, 55, 56, 57, 97, 98, 99, 100, 101, 102]"
  by (simp add: lower_digits_def chr_def)

lemma digit_val_nth: "d < 16 \<Longrightarrow> digit_val (lower_digits ! d) = d"
proof -
  have "\<forall>d \<in> set [0..<16]. digit_val (lower_digits ! d) = d"
    unfolding digit_val_def lower_digits_list by (simp add: upt_rec)
  then show "d < 16 \<Longrightarrow> digit_val (lower_digits ! d) = d"
    by auto
qed

lemma digit_ne_minus: "d < 16 \<Longrightarrow> lower_digits ! d \<noteq> chr (CHR ''-'')"
proof -
  have "\<forall>d \<in> set [0..<16]. lower_digits ! d \<noteq> chr (CHR ''-'')"
    unfolding lower_digits_list by (simp add: upt_rec chr_def)
  then show "d < 16 \<Longrightarrow> lower_digits ! d \<noteq> chr (CHR ''-'')"
    by auto
qed

lemma digit_loop_read:
  assumes "2 \<le> base" "base \<le> 16"
  shows "read_digits base (digit_loop lower_digits base x) = x"
  using assms
proof (induction lower_digits base x rule: digit_loop.induct)
  case (1 base x)
  have "x mod base < 16"
    using 1(2,3) by (intro order.strict_trans2 [OF mod_less_divisor]) auto
  then show ?case
    using 1 mod_less [of x base] by (subst digit_loop.simps) (auto simp: Let_def digit_val_nth div_eq_0_iff)
qed

lemma digit_loop_last:
  assumes "2 \<le> base" "base \<le> 16"
  shows "\<exists>d < 16. last (digit_loop lower_digits base x) = lower_digits ! d" "digit_loop lower_digits base x \<noteq> []"
proof -
  show "digit_loop lower_digits base x \<noteq> []"
    by (subst digit_loop.simps) (simp add: Let_def)
  show "\<exists>d < 16. last (digit_loop lower_digits base x) = lower_digits ! d"
    using assms
  proof (induction lower_digits base x rule: digit_loop.induct)
    case (1 base x)
    have "x mod base < 16"
      using 1(2,3) by (intro order.strict_trans2 [OF mod_less_divisor]) auto
    moreover have "digit_loop lower_digits base (x div base) \<noteq> []"
      by (subst digit_loop.simps) (simp add: Let_def)
    ultimately show ?case
      using 1 by (subst digit_loop.simps) (auto simp: Let_def)
  qed
qed

lemma digit_loop_length:
  assumes "2 \<le> base" "x < base ^ Suc k"
  shows "length (digit_loop digits base x) \<le> Suc k"
  using assms(2)
proof (induction k arbitrary: x)
  case 0
  then show ?case
    by (subst digit_loop.simps) (simp add: Let_def)
next
  case (Suc k)
  then have "x div base < base ^ Suc k"
    by (intro less_mult_imp_div_less) (simp add: mult.commute)
  then show ?case
    using Suc.IH [of "x div base"] by (subst digit_loop.simps) (simp add: Let_def)
qed

lemma abs_sint64: "sint (xx :: uint64) < 0 \<Longrightarrow> int (unat (- xx)) = - sint xx"
proof -
  assume neg: "sint xx < 0"
  have "- (2 ^ 63) \<le> sint xx"
    using sint_greater_eq [of xx] by simp
  then have "(- sint xx) mod 2 ^ 64 = - sint xx"
    using neg by (intro mod_pos_pos_trivial) auto
  moreover have "uint (- xx) = (- sint xx) mod 2 ^ 64"
  proof -
    have "uint (word_of_int (- sint xx) :: uint64) = (- sint xx) mod 2 ^ 64"
      by (simp only: uint_word_of_int) simp
    then show ?thesis
      by simp
  qed
  ultimately show ?thesis
    by simp
qed

lemma sint_nonneg64: "0 \<le> sint (xx :: uint64) \<Longrightarrow> sint xx = uint xx"
proof -
  assume "0 \<le> sint xx"
  moreover have "sint xx < 2 ^ 63"
    using sint_lt [of xx] by simp
  ultimately have "sint xx mod 2 ^ 64 = sint xx"
    by (intro mod_pos_pos_trivial) auto
  moreover have "uint (word_of_int (sint xx) :: uint64) = sint xx mod 2 ^ 64"
    by (simp only: uint_word_of_int) simp
  ultimately show ?thesis
    by simp
qed



end
