(* ===== verification/Console.thy ===== *)
theory Console
  imports KPrintf VmFrame
begin

section \<open>The console (console.c)\<close>

text \<open>
  \<^verbatim>\<open>riscv/kernel/console.c\<close>: the line editor of the input interrupt, reading and writing. The input
  ring has three counters: bytes between \<open>cons_r\<close> and \<open>cons_w\<close> belong to finished lines, bytes
  between \<open>cons_w\<close> and \<open>cons_e\<close> to the line being edited.
\<close>

definition INPUT_BUF_SIZE :: nat where [simp]: "INPUT_BUF_SIZE = 128"

abbreviation ctl_D :: uint8 where "ctl_D \<equiv> 4"
abbreviation ctl_H :: uint8 where "ctl_H \<equiv> 8"
abbreviation ctl_P :: uint8 where "ctl_P \<equiv> 16"
abbreviation ctl_U :: uint8 where "ctl_U \<equiv> 21"
abbreviation DEL :: uint8 where "DEL \<equiv> 127"
abbreviation NL :: uint8 where "NL \<equiv> 10"
abbreviation CR :: uint8 where "CR \<equiv> 13"

subsection \<open>Operations\<close>

text \<open>
  The loop of \<^verbatim>\<open>consolewrite\<close> passes on 32 bytes at a time. When the port is busy the outcome is
  \<open>Sleep\<close>, in the middle of \<^verbatim>\<open>uartwrite\<close>.
\<close>

function consolewrite_loop :: "bool \<Rightarrow> uint64 \<Rightarrow> nat \<Rightarrow> nat \<Rightarrow> 'a consst_scheme \<Rightarrow> ('a consst_scheme, int) outcome" where
  "consolewrite_loop user_src src n i s =
     (if i < n then
        let nn = min 32 (n - i) in
        bnd (either_copyin user_src (src + of_nat i) nn s) (\<lambda>r s.
        if fst r = -1 then Ret (int i) s
        else
          bnd (uartwrite (snd r) s) (\<lambda>_ s.
          consolewrite_loop user_src src n (i + nn) s))
      else Ret (int i) s)"
  by pat_completeness auto
termination
  by (relation "measure (\<lambda>(user_src, src, n, i, s). n - i)") auto

declare consolewrite_loop.simps [simp del]

definition consolewrite :: "bool \<Rightarrow> uint64 \<Rightarrow> int \<Rightarrow> 'a consst_scheme \<Rightarrow> ('a consst_scheme, int) outcome" where
  "consolewrite user_src src n s = consolewrite_loop user_src src (nat n) 0 s"

text \<open>
  The loop of \<^verbatim>\<open>consoleread\<close> with \<open>n\<close> bytes still wanted of \<open>target\<close>. \<open>Inr n\<close> is the call of \<^verbatim>\<open>sleep\<close>
  with \<open>n\<close> bytes still wanted; an interrupted reader returns without the final \<^verbatim>\<open>release\<close>, \<open>Inl (Inl v)\<close>.
\<close>

fun consoleread_loop :: "bool \<Rightarrow> uint64 \<Rightarrow> nat \<Rightarrow> nat \<Rightarrow> 'a consst_scheme \<Rightarrow> ('a consst_scheme, (int + int) + nat) outcome" where
  "consoleread_loop user_dst dst target 0 s = Ret (Inl (Inr (int target))) s"
| "consoleread_loop user_dst dst target (Suc n) s =
     (if cons_r s = cons_w s then
        with_myproc (\<lambda>p s.
          bnd (killed p s) (\<lambda>k s.
          if k \<noteq> 0 then bnd (release Lk_cons s) (\<lambda>_ s. Ret (Inl (Inl (-1))) s)
          else Ret (Inr (Suc n)) s)) s
      else
        let c = cons_buf s (slot_of INPUT_BUF_SIZE (cons_r s)); s = s\<lparr>cons_r := cons_r s + 1\<rparr> in
        if c = ctl_D then
          Ret (Inl (Inr (int (target - Suc n)))) (if Suc n < target then s\<lparr>cons_r := cons_r s - 1\<rparr> else s)
        else
          bnd (either_copyout user_dst (dst + of_nat (target - Suc n)) [c] s) (\<lambda>r s.
          if r = -1 then Ret (Inl (Inr (int (target - Suc n)))) s
          else if c = NL then Ret (Inl (Inr (int (target - n)))) s
          else consoleread_loop user_dst dst target n s))"

definition consoleread_from :: "bool \<Rightarrow> uint64 \<Rightarrow> nat \<Rightarrow> nat \<Rightarrow> 'a consst_scheme \<Rightarrow> ('a consst_scheme, int) outcome" where
  "consoleread_from user_dst dst target n s =
     bnd (consoleread_loop user_dst dst target n s) (\<lambda>r s.
     case r of
       Inl (Inl v) \<Rightarrow> Ret v s
     | Inl (Inr v) \<Rightarrow> bnd (release Lk_cons s) (\<lambda>_ s. Ret v s)
     | Inr n \<Rightarrow> sleep Chan_cons_r Lk_cons s)"

definition consoleread :: "bool \<Rightarrow> uint64 \<Rightarrow> int \<Rightarrow> 'a consst_scheme \<Rightarrow> ('a consst_scheme, int) outcome" where
  "consoleread user_dst dst n s =
     bnd (acquire Lk_cons s) (\<lambda>_ s. consoleread_from user_dst dst (nat n) (nat n) s)"

definition consoleread_resume :: "bool \<Rightarrow> uint64 \<Rightarrow> nat \<Rightarrow> nat \<Rightarrow> 'a consst_scheme \<Rightarrow> ('a consst_scheme, int) outcome" where
  "consoleread_resume user_dst dst target n s =
     bnd (sleep_resume Lk_cons s) (\<lambda>_ s. consoleread_from user_dst dst target n s)"

text \<open>The process listing of \<^verbatim>\<open>proc.c\<close>.\<close>

fun state_name :: "procstate \<Rightarrow> string" where
  "state_name UNUSED = ''unused''"
| "state_name USED = ''used''"
| "state_name SLEEPING = ''sleep ''"
| "state_name RUNNABLE = ''runble''"
| "state_name RUNNING = ''run   ''"
| "state_name ZOMBIE = ''zombie''"

definition procdump :: "'a consst_scheme \<Rightarrow> ('a consst_scheme, unit) outcome" where
  "procdump s =
     bnd (kprintf [CHR 0x0A] [] s) (\<lambda>_ s.
     for_each [0..<NPROC] (\<lambda>i s.
       let p = procs s i in
       if pstate p = UNUSED then Ret () s
       else
         bnd (kprintf ''%d %s %s'' [VInt (ucast (pid p)), VStr (Some (map chr (state_name (pstate p)))),
             VStr (Some (cstr (pname p) 16))] s) (\<lambda>_ s.
         kprintf [CHR 0x0A] [] s)) s)"

lemma counter_less: "e \<noteq> w \<Longrightarrow> unat (e - 1 - w) < unat (e - w)" for e w :: uint32
  using ring.unat_pred [of 1 e w "e - 1 - w"] by (simp add: ring_def)

function kill_line :: "'a consst_scheme \<Rightarrow> ('a consst_scheme, unit) outcome" where
  "kill_line s =
     (if cons_e s \<noteq> cons_w s \<and> cons_buf s (slot_of INPUT_BUF_SIZE (cons_e s - 1)) \<noteq> NL
      then bnd (consputc BACKSPACE (s\<lparr>cons_e := cons_e s - 1\<rparr>)) (\<lambda>_ s. kill_line s)
      else Ret () s)"
  by pat_completeness auto

lemma uartputc_frame:
  "uartputc_sync c s = Ret () s' \<Longrightarrow> cons_e s' = cons_e s \<and> cons_w s' = cons_w s \<and> cons_r s' = cons_r s \<and> cons_buf s' = cons_buf s"
  by (auto simp: uartputc_sync_def WriteReg_def split: if_splits)

lemma consputc_frame:
  "consputc c s = Ret () s' \<Longrightarrow> cons_e s' = cons_e s \<and> cons_w s' = cons_w s \<and> cons_r s' = cons_r s \<and> cons_buf s' = cons_buf s"
  by (auto simp: consputc_def ret_iff dest!: uartputc_frame split: if_splits)

termination kill_line
  by (relation "measure (\<lambda>s. unat (cons_e s - cons_w s))") (auto dest!: consputc_frame simp: counter_less)

declare kill_line.simps [simp del]

definition consoleintr_key :: "uint8 \<Rightarrow> 'a consst_scheme \<Rightarrow> ('a consst_scheme, unit) outcome" where
  "consoleintr_key c s =
     (if c = ctl_P then procdump s
      else if c = ctl_U then kill_line s
      else if c = ctl_H \<or> c = DEL then
        if cons_e s \<noteq> cons_w s then consputc BACKSPACE (s\<lparr>cons_e := cons_e s - 1\<rparr>) else Ret () s
      else if c \<noteq> 0 \<and> unat (cons_e s - cons_r s) < INPUT_BUF_SIZE then
        let c = (if c = CR then NL else c) in
        bnd (consputc (uint c) s) (\<lambda>_ s.
        let s = s\<lparr>cons_buf := (cons_buf s)(slot_of INPUT_BUF_SIZE (cons_e s) := c), cons_e := cons_e s + 1\<rparr> in
        if c = NL \<or> c = ctl_D \<or> unat (cons_e s - cons_r s) = INPUT_BUF_SIZE
        then wakeup (Some Chan_cons_r) (s\<lparr>cons_w := cons_e s\<rparr>)
        else Ret () s)
      else Ret () s)"

definition consoleintr :: "uint8 \<Rightarrow> 'a consst_scheme \<Rightarrow> ('a consst_scheme, unit) outcome" where
  "consoleintr c s =
     bnd (acquire Lk_cons s) (\<lambda>_ s.
     bnd (consoleintr_key c s) (\<lambda>_ s.
     release Lk_cons s))"

text \<open>The interrupt handler of \<^verbatim>\<open>uart.c\<close>, with \<open>idle\<close> telling whether the transmitter is idle.\<close>

fun uart_drain :: "uint8 list \<Rightarrow> 'a consst_scheme \<Rightarrow> ('a consst_scheme, unit) outcome" where
  "uart_drain [] s = Ret () (s\<lparr>uin := []\<rparr>)"
| "uart_drain (c # cs) s = bnd (consoleintr c (s\<lparr>uin := cs\<rparr>)) (\<lambda>_ s. uart_drain cs s)"

definition uartintr :: "bool \<Rightarrow> 'a consst_scheme \<Rightarrow> ('a consst_scheme, unit) outcome" where
  "uartintr idle s =
     bnd (acquire Lk_tx s) (\<lambda>_ s.
     bnd (if idle then wakeup (Some Chan_tx) (s\<lparr>tx_busy := False\<rparr>) else Ret () s) (\<lambda>_ s.
     bnd (release Lk_tx s) (\<lambda>_ s.
     uart_drain (uin s) s)))"

subsection \<open>The line editor\<close>

interpretation cons_ring: ring INPUT_BUF_SIZE "TYPE(32)"
  by unfold_locales simp_all

definition committed :: "'a consst_scheme \<Rightarrow> uint8 list" where
  "committed s = ring_list INPUT_BUF_SIZE (cons_buf s) (cons_r s) (cons_w s)"

definition editing :: "'a consst_scheme \<Rightarrow> uint8 list" where
  "editing s = ring_list INPUT_BUF_SIZE (cons_buf s) (cons_w s) (cons_e s)"

definition cons_inv :: "'a consst_scheme \<Rightarrow> bool" where
  "cons_inv s \<longleftrightarrow> length (committed s) + length (editing s) \<le> INPUT_BUF_SIZE \<and> NL \<notin> set (editing s)"

text \<open>
  The specification: finished lines and the line being typed. A line is finished by a newline, by
  an end of file, or when the buffer is full; a return counts as a newline.
\<close>

definition tty :: "uint8 \<Rightarrow> uint8 list \<times> uint8 list \<Rightarrow> uint8 list \<times> uint8 list" where
  "tty c st =
     (let (q, l) = st in
      if c = ctl_P then (q, l)
      else if c = ctl_U then (q, [])
      else if c = ctl_H \<or> c = DEL then (q, butlast l)
      else if c \<noteq> 0 \<and> length q + length l < INPUT_BUF_SIZE then
        let l = l @ [if c = CR then NL else c] in
        if last l = NL \<or> last l = ctl_D \<or> length q + length l = INPUT_BUF_SIZE then (q @ l, []) else (q, l)
      else (q, l))"

lemma cons_len:
  assumes "cons_inv s"
  shows "unat (cons_e s - cons_r s) = length (committed s) + length (editing s)"
    "ring_list INPUT_BUF_SIZE (cons_buf s) (cons_r s) (cons_e s) = committed s @ editing s"
proof -
  have "unat (cons_w s - cons_r s) + unat (cons_e s - cons_w s) < 2 ^ LENGTH(32)"
    using assms by (simp add: cons_inv_def committed_def editing_def)
  from cons_ring.append [OF this]
  show e: "ring_list INPUT_BUF_SIZE (cons_buf s) (cons_r s) (cons_e s) = committed s @ editing s"
    by (simp add: committed_def editing_def)
  show "unat (cons_e s - cons_r s) = length (committed s) + length (editing s)"
    using arg_cong [OF e, of length] by simp
qed

lemma uartputc_ok: "\<not> panicked s \<Longrightarrow> uartputc_sync c s = Ret () (s\<lparr>uregs := uregs s @ [(THR, c)]\<rparr>)"
  by (simp add: uartputc_sync_def WriteReg_def)

lemma consputc_ok: "\<not> panicked s \<Longrightarrow> \<exists>l. consputc c s = Ret () (s\<lparr>uregs := l\<rparr>)"
  by (cases "c = BACKSPACE") (auto simp: consputc_def uartputc_ok intro!: exI)

lemma putchars_ok: "\<not> panicked s \<Longrightarrow> \<exists>l. putchars cs s = Ret () (s\<lparr>uregs := l\<rparr>)"
  unfolding putchars_def
proof (induction cs arbitrary: s)
  case Nil
  then show ?case
    by (auto intro: exI [of _ "uregs s"])
next
  case (Cons c cs)
  obtain l where "consputc (uint c) s = Ret () (s\<lparr>uregs := l\<rparr>)"
    using consputc_ok [OF Cons.prems] by blast
  then show ?case
    using Cons.IH [of "s\<lparr>uregs := l\<rparr>"] Cons.prems by auto
qed

lemma kprintf_ok:
  assumes "\<not> panicked s" "\<not> panicking s" "Lk_pr \<notin> held s" "kformat (map chr fmt) as = Some out"
  shows "\<exists>l. kprintf fmt as s = Ret () (s\<lparr>uregs := l\<rparr>)"
proof -
  obtain l where "putchars out (s\<lparr>held := insert Lk_pr (held s)\<rparr>) = Ret () (s\<lparr>held := insert Lk_pr (held s), uregs := l\<rparr>)"
    using putchars_ok [of "s\<lparr>held := insert Lk_pr (held s)\<rparr>" out] assms(1) by auto
  then have "kprintf fmt as s = Ret () (s\<lparr>held := held s, uregs := l\<rparr>)"
    using assms by (simp add: kprintf_def)
  then show ?thesis
    by (metis held_id)
qed

lemma kformat_listing: "\<exists>out. kformat (map chr ''%d %s %s'') [VInt p, VStr (Some a), VStr (Some b)] = Some out"
  by (simp add: chr_def kformat.simps conv_def directive_def byte_at_def)

lemma kformat_newline: "kformat (map chr [CHR 0x0A]) [] = Some [10]"
  by (simp add: chr_def kformat.simps)

lemma procdump_ok:
  assumes "\<not> panicked s" "\<not> panicking s" "Lk_pr \<notin> held s"
  shows "\<exists>l. procdump s = Ret () (s\<lparr>uregs := l\<rparr>)"
proof -
  let ?I = "\<lambda>s'. \<exists>l. s' = s\<lparr>uregs := l\<rparr>"
  have nl: "ok (kprintf [CHR 0x0A] [] s') (\<lambda>_. ?I)" if I: "?I s'" for s'
    using kprintf_ok [OF _ _ _ kformat_newline, of s'] assms I by (fastforce simp: ok_iff)
  have lp: "ok (for_each [0..<NPROC] (\<lambda>i s.
       let p = procs s i in
       if pstate p = UNUSED then Ret () s
       else
         bnd (kprintf ''%d %s %s'' [VInt (ucast (pid p)), VStr (Some (map chr (state_name (pstate p)))),
             VStr (Some (cstr (pname p) 16))] s) (\<lambda>_ s.
         kprintf [CHR 0x0A] [] s)) s') (\<lambda>_. ?I)" if I': "?I s'" for s'
  proof (rule ok_for_upt [where I = "\<lambda>_. ?I"])
    show "?I s'"
      by (fact I')
    fix i s1
    assume I: "?I s1"
    show "ok (let p = procs s1 i in
       if pstate p = UNUSED then Ret () s1
       else
         bnd (kprintf ''%d %s %s'' [VInt (ucast (pid p)), VStr (Some (map chr (state_name (pstate p)))),
             VStr (Some (cstr (pname p) 16))] s1) (\<lambda>_ s.
         kprintf [CHR 0x0A] [] s)) (\<lambda>_. ?I)"
    proof (cases "pstate (procs s1 i) = UNUSED")
      case True
      then show ?thesis
        using I by simp
    next
      case False
      obtain out where out: "kformat (map chr ''%d %s %s'') [VInt (ucast (pid (procs s1 i))),
          VStr (Some (map chr (state_name (pstate (procs s1 i))))), VStr (Some (cstr (pname (procs s1 i)) 16))] = Some out"
        using kformat_listing by blast
      obtain l where l: "kprintf ''%d %s %s'' [VInt (ucast (pid (procs s1 i))),
          VStr (Some (map chr (state_name (pstate (procs s1 i))))), VStr (Some (cstr (pname (procs s1 i)) 16))] s1 = Ret () (s1\<lparr>uregs := l\<rparr>)"
        using kprintf_ok [OF _ _ _ out, of s1] assms I by auto
      have "?I (s1\<lparr>uregs := l\<rparr>)"
        using I by auto
      then show ?thesis
        using False l nl by (simp add: Let_def)
    qed
  qed
  have "?I s"
    by (rule exI [of _ "uregs s"]) simp
  then have "ok (procdump s) (\<lambda>_. ?I)"
    unfolding procdump_def ok_bnd by (rule ok_mono [OF nl lp])
  then show ?thesis
    by (auto simp: ok_iff)
qed

lemma kill_line_ok:
  assumes "\<not> panicked s" "NL \<notin> set (editing s)"
  shows "\<exists>l. kill_line s = Ret () (s\<lparr>cons_e := cons_w s, uregs := l\<rparr>)"
  using assms
proof (induction "unat (cons_e s - cons_w s)" arbitrary: s rule: less_induct)
  case less
  show ?case
  proof (cases "cons_e s = cons_w s")
    case True
    then show ?thesis
      by (subst kill_line.simps) (auto intro!: exI [of _ "uregs s"])
  next
    case False
    have e: "editing s = editing (s\<lparr>cons_e := cons_e s - 1\<rparr>) @ [cons_buf s (slot_of INPUT_BUF_SIZE (cons_e s - 1))]"
      using cons_ring.unpush [of "cons_w s" "cons_e s" "cons_buf s"] False by (simp add: editing_def del: INPUT_BUF_SIZE_def)
    obtain l where l: "consputc BACKSPACE (s\<lparr>cons_e := cons_e s - 1\<rparr>) = Ret () (s\<lparr>cons_e := cons_e s - 1, uregs := l\<rparr>)"
      using consputc_ok [of "s\<lparr>cons_e := cons_e s - 1\<rparr>" BACKSPACE] less.prems(1) by auto
    let ?s = "s\<lparr>cons_e := cons_e s - 1, uregs := l\<rparr>"
    have "editing ?s = editing (s\<lparr>cons_e := cons_e s - 1\<rparr>)"
      by (simp add: editing_def)
    then have "NL \<notin> set (editing ?s)" "cons_buf s (slot_of INPUT_BUF_SIZE (cons_e s - 1)) \<noteq> NL"
      using less.prems(2) e by auto
    moreover have "unat (cons_e ?s - cons_w ?s) < unat (cons_e s - cons_w s)"
      using counter_less [OF False] by simp
    ultimately have "\<exists>l. kill_line ?s = Ret () (?s\<lparr>cons_e := cons_w ?s, uregs := l\<rparr>)" "kill_line s = kill_line ?s"
      using less.hyps [of ?s] less.prems(1) False l by (simp_all add: kill_line.simps [of s] del: BACKSPACE_def)
    then show ?thesis
      by auto
  qed
qed

lemma cons_push:
  fixes c :: uint8
  assumes "cons_inv s" "length (committed s) + length (editing s) < INPUT_BUF_SIZE"
  defines "buf \<equiv> (cons_buf s)(slot_of INPUT_BUF_SIZE (cons_e s) := c)"
  shows "ring_list INPUT_BUF_SIZE buf (cons_r s) (cons_w s) = committed s"
    "ring_list INPUT_BUF_SIZE buf (cons_w s) (cons_e s + 1) = editing s @ [c]"
    "ring_list INPUT_BUF_SIZE buf (cons_r s) (cons_e s + 1) = committed s @ editing s @ [c]"
proof -
  have re: "unat (cons_e s - cons_r s) < INPUT_BUF_SIZE"
    using cons_len [OF assms(1)] assms(2) by simp
  have we: "unat (cons_e s - cons_w s) < INPUT_BUF_SIZE"
    using assms(2) by (simp add: editing_def)
  show e: "ring_list INPUT_BUF_SIZE buf (cons_w s) (cons_e s + 1) = editing s @ [c]"
    using cons_ring.push [OF we, of "cons_buf s" c] by (simp add: buf_def editing_def)
  show a: "ring_list INPUT_BUF_SIZE buf (cons_r s) (cons_e s + 1) = committed s @ editing s @ [c]"
    using cons_ring.push [OF re, of "cons_buf s" c] cons_len [OF assms(1)] by (simp add: buf_def)
  have "unat (cons_w s - cons_r s) + unat (cons_e s + 1 - cons_w s) < 2 ^ LENGTH(32)"
    using arg_cong [OF e, of length] assms(2) by (simp add: committed_def)
  from cons_ring.append [OF this, of buf] a e
  show "ring_list INPUT_BUF_SIZE buf (cons_r s) (cons_w s) = committed s"
    by simp
qed

lemma woken_any:
  assumes "held s \<subseteq> {Lk_cons}"
  shows "wakeup ch s = Ret () (s\<lparr>procs := woken ch (myproc s) {0..<NPROC} (procs s)\<rparr>)"
  by (rule wakeup_eq) (use assms in \<open>auto simp: proc_locks_free_def\<close>)

definition key_done :: "uint8 \<Rightarrow> 'a consst_scheme \<Rightarrow> 'a consst_scheme \<Rightarrow> bool" where
  "key_done c s s' \<longleftrightarrow> held s' = held s \<and> cons_inv s' \<and>
     (committed s', editing s') = tty c (committed s, editing s) \<and>
     procs s' = (if committed s' = committed s then procs s
                 else woken (Some Chan_cons_r) (myproc s) {0..<NPROC} (procs s))"

lemma key_char:
  assumes "held s = {Lk_cons}" "\<not> panicked s" "cons_inv s" "c \<notin> {ctl_P, ctl_U, ctl_H, DEL}"
  shows "ok (consoleintr_key c s) (\<lambda>_. key_done c s)"
proof (cases "c \<noteq> 0 \<and> length (committed s) + length (editing s) < INPUT_BUF_SIZE")
  case False
  then have "consoleintr_key c s = Ret () s"
    using assms(4) cons_len [OF assms(3)] by (auto simp: consoleintr_key_def simp del: INPUT_BUF_SIZE_def)
  moreover have "tty c (committed s, editing s) = (committed s, editing s)"
    using False assms(4) by (auto simp: tty_def simp del: INPUT_BUF_SIZE_def)
  ultimately show ?thesis
    using assms(3) by (simp add: key_done_def)
next
  case True
  define d where "d = (if c = CR then NL else c)"
  obtain l where l: "consputc (uint d) s = Ret () (s\<lparr>uregs := l\<rparr>)"
    using consputc_ok [OF assms(2)] by blast
  let ?buf = "(cons_buf s)(slot_of INPUT_BUF_SIZE (cons_e s) := d)"
  let ?s = "s\<lparr>uregs := l, cons_buf := ?buf, cons_e := cons_e s + 1\<rparr>"
  let ?fin = "d = NL \<or> d = ctl_D \<or> length (committed s) + length (editing s) + 1 = INPUT_BUF_SIZE"
  note push = cons_push [OF assms(3) conjunct2 [OF True], of d]
  have n: "unat (cons_e s + 1 - cons_r s) = length (committed s) + length (editing s) + 1"
    using arg_cong [OF push(3), of length] by simp
  have n': "unat (cons_e s + 1 - cons_w s) = length (editing s) + 1"
    using arg_cong [OF push(2), of length] by simp
  have key: "consoleintr_key c s =
      (if ?fin then wakeup (Some Chan_cons_r) (?s\<lparr>cons_w := cons_e s + 1\<rparr>) else Ret () ?s)"
    using True assms(4) l n cons_len [OF assms(3)]
    by (simp add: consoleintr_key_def Let_def flip: d_def del: INPUT_BUF_SIZE_def)
  have tty: "tty c (committed s, editing s) =
      (if ?fin then (committed s @ editing s @ [d], []) else (committed s, editing s @ [d]))"
    using True assms(4) by (auto simp: tty_def Let_def simp flip: d_def simp del: INPUT_BUF_SIZE_def)
  show ?thesis
  proof (cases ?fin)
    case fin: True
    have "wakeup (Some Chan_cons_r) (?s\<lparr>cons_w := cons_e s + 1\<rparr>) =
        Ret () (?s\<lparr>cons_w := cons_e s + 1, procs := woken (Some Chan_cons_r) (myproc s) {0..<NPROC} (procs s)\<rparr>)"
      using assms(1) by (subst woken_any) simp_all
    then show ?thesis
      using fin assms(1) True push n unfolding key key_done_def tty
      by (simp add: cons_inv_def committed_def editing_def del: INPUT_BUF_SIZE_def)
  next
    case False
    then show ?thesis
      using assms True push n' unfolding key key_done_def tty
      by (simp add: cons_inv_def committed_def editing_def del: INPUT_BUF_SIZE_def)
  qed
qed

lemma key_control:
  assumes "held s = {Lk_cons}" "\<not> panicked s" "\<not> panicking s" "cons_inv s" "c \<in> {ctl_P, ctl_U, ctl_H, DEL}"
  shows "ok (consoleintr_key c s) (\<lambda>_. key_done c s)"
proof -
  consider "c = ctl_P" | "c = ctl_U" | "c = ctl_H \<or> c = DEL"
    using assms(5) by blast
  then show ?thesis
  proof cases
    case 1
    obtain l where "procdump s = Ret () (s\<lparr>uregs := l\<rparr>)"
      using procdump_ok [OF assms(2,3)] assms(1) by auto
    then show ?thesis
      using 1 assms(4) by (simp add: consoleintr_key_def key_done_def tty_def cons_inv_def committed_def editing_def)
  next
    case 2
    obtain l where "kill_line s = Ret () (s\<lparr>cons_e := cons_w s, uregs := l\<rparr>)"
      using kill_line_ok [OF assms(2)] assms(4) by (auto simp: cons_inv_def)
    then show ?thesis
      using 2 assms(4) by (simp add: consoleintr_key_def key_done_def tty_def cons_inv_def committed_def editing_def)
  next
    case 3
    then have ty: "tty c (committed s, editing s) = (committed s, butlast (editing s))"
      by (auto simp: tty_def)
    show ?thesis
    proof (cases "cons_e s = cons_w s")
      case True
      then have "consoleintr_key c s = Ret () s" "editing s = []"
        using 3 by (auto simp: consoleintr_key_def editing_def)
      then show ?thesis
        using assms(4) unfolding key_done_def ty by simp
    next
      case False
      obtain l where l: "consputc BACKSPACE (s\<lparr>cons_e := cons_e s - 1\<rparr>) = Ret () (s\<lparr>cons_e := cons_e s - 1, uregs := l\<rparr>)"
        using consputc_ok [of "s\<lparr>cons_e := cons_e s - 1\<rparr>" BACKSPACE] assms(2) by auto
      have "editing s = editing (s\<lparr>cons_e := cons_e s - 1\<rparr>) @ [cons_buf s (slot_of INPUT_BUF_SIZE (cons_e s - 1))]"
        using cons_ring.unpush [of "cons_w s" "cons_e s" "cons_buf s"] False by (simp add: editing_def del: INPUT_BUF_SIZE_def)
      then have b: "butlast (editing s) = ring_list INPUT_BUF_SIZE (cons_buf s) (cons_w s) (cons_e s - 1)"
        by (simp add: editing_def del: INPUT_BUF_SIZE_def)
      have "consoleintr_key c s = Ret () (s\<lparr>cons_e := cons_e s - 1, uregs := l\<rparr>)"
        using 3 False l by (auto simp: consoleintr_key_def simp del: BACKSPACE_def)
      moreover have "length (butlast (editing s)) \<le> length (editing s)" "set (butlast (editing s)) \<subseteq> set (editing s)"
        by (auto dest: in_set_butlastD)
      ultimately show ?thesis
        using assms(4) unfolding key_done_def ty b
        by (auto simp: cons_inv_def committed_def editing_def simp del: INPUT_BUF_SIZE_def)
    qed
  qed
qed

text \<open>
  C10: Whatever character arrives, the interrupt handler returns with no lock held, the three
  counters of the input ring stay in order, and the finished lines and the line being typed
  change as the line discipline \<^const>\<open>tty\<close> says. Processes waiting for input are woken exactly
  when a line is finished.
\<close>

theorem consoleintr_refines:
  assumes "held s = {}" "\<not> panicked s" "\<not> panicking s" "cons_inv s"
  shows "\<exists>s'. consoleintr c s = Ret () s' \<and> cons_inv s' \<and> held s' = {} \<and>
    (committed s', editing s') = tty c (committed s, editing s) \<and>
    procs s' = (if committed s' = committed s then procs s
                else woken (Some Chan_cons_r) (myproc s) {0..<NPROC} (procs s))"
proof -
  let ?t = "s\<lparr>held := {Lk_cons}\<rparr>"
  have t: "cons_inv ?t" "committed ?t = committed s" "editing ?t = editing s" "myproc ?t = myproc s"
    using assms(4) by (simp_all add: cons_inv_def committed_def editing_def)
  have "ok (consoleintr_key c ?t) (\<lambda>_. key_done c ?t)"
    using key_char [of ?t c] key_control [of ?t c] assms t by (cases "c \<in> {ctl_P, ctl_U, ctl_H, DEL}") simp_all
  then obtain s' where s': "consoleintr_key c ?t = Ret () s'" "key_done c ?t s'"
    by (auto simp: ok_iff)
  have "consoleintr c s = Ret () (s'\<lparr>held := {}\<rparr>)"
    using s' assms(1) by (simp add: consoleintr_def key_done_def)
  then show ?thesis
    using s'(2) t by (auto simp: key_done_def cons_inv_def committed_def editing_def)
qed

definition boot_cons :: consst where
  "boot_cons = fsst.extend (boot_fs tiny_disk tiny_sb (\<lambda>_. blank_inode))
     (consst.fields [] [] False False False (\<lambda>_. 0) 0 0 0 0)"

lemma boot_cons_sel [simp]:
  "held boot_cons = {}" "\<not> panicked boot_cons" "\<not> panicking boot_cons" "committed boot_cons = []" "editing boot_cons = []"
  using boot_fs_sel(3) [of tiny_disk tiny_sb "\<lambda>_. blank_inode"]
  by (simp_all add: boot_cons_def fsst.defs consst.defs committed_def editing_def)

theorem consoleintr_refines_witness:
  "\<exists>s'. consoleintr 97 boot_cons = Ret () s' \<and> committed s' = [] \<and> editing s' = [97]"
  using consoleintr_refines [of boot_cons 97] by (auto simp: cons_inv_def tty_def)

end
