(* ===== verification/File.thy ===== *)
theory File
  imports Console
begin

section \<open>Open files and pipes (file.c, pipe.c)\<close>

text \<open>
  \<^verbatim>\<open>riscv/kernel/file.c\<close> and \<^verbatim>\<open>riscv/kernel/pipe.c\<close>: the table of open files with its reference
  counts, and pipes. A \<^verbatim>\<open>struct file *\<close> is an index into the table. A pipe is named by the address
  of the page that holds it; its fields are kept in \<open>pipes\<close>, outside \<open>mem\<close>.

  The loop of \<^verbatim>\<open>pipewrite\<close> returns \<open>Inl (Inl v)\<close> for the early \<^verbatim>\<open>return\<close>, \<open>Inl (Inr i)\<close> when it ends
  with \<open>i\<close> bytes written, and \<open>Inr i\<close> at the call of \<^verbatim>\<open>sleep\<close>.
\<close>

subsection \<open>State\<close>

definition PIPESIZE :: nat where [simp]: "PIPESIZE = 512"
definition CONSOLE :: uint16 where [simp]: "CONSOLE = 1"

datatype ftype = FD_NONE | FD_PIPE | FD_INODE | FD_DEVICE

record kfile =
  fd_type :: ftype
  fref :: int
  readable :: bool
  writable :: bool
  fpipe :: uint64
  fip :: "nat option"
  foff :: uint32
  fmajor :: uint16

record pipe =
  pdata :: "nat \<Rightarrow> uint8"
  nread :: uint32
  nwrite :: uint32
  readopen :: bool
  writeopen :: bool

record filest = consst +
  files :: "nat \<Rightarrow> kfile"
  pipes :: "uint64 \<Rightarrow> pipe"

definition upd_file :: "nat \<Rightarrow> (kfile \<Rightarrow> kfile) \<Rightarrow> 'a filest_scheme \<Rightarrow> 'a filest_scheme" where
  "upd_file f g s = s\<lparr>files := (files s)(f := g (files s f))\<rparr>"

definition upd_pipe :: "uint64 \<Rightarrow> (pipe \<Rightarrow> pipe) \<Rightarrow> 'a filest_scheme \<Rightarrow> 'a filest_scheme" where
  "upd_pipe pi g s = s\<lparr>pipes := (pipes s)(pi := g (pipes s pi))\<rparr>"

text \<open>A null pointer that is dereferenced is a page fault in the kernel.\<close>

definition deref :: "'p option \<Rightarrow> ('p \<Rightarrow> 's \<Rightarrow> ('s, 'r) outcome) \<Rightarrow> 's \<Rightarrow> ('s, 'r) outcome" where
  "deref p f s = (case p of None \<Rightarrow> Panic ''kerneltrap'' | Some x \<Rightarrow> f x s)"

lemma deref_simps [simp]: "deref None f s = Panic ''kerneltrap''" "deref (Some x) f s = f x s"
  by (simp_all add: deref_def)

subsection \<open>Pipes\<close>

definition pipeclose :: "uint64 \<Rightarrow> bool \<Rightarrow> 'a filest_scheme \<Rightarrow> ('a filest_scheme, unit) outcome" where
  "pipeclose pi wr s =
     bnd (acquire (Lk_pipe pi) s) (\<lambda>_ s.
     bnd (if wr then wakeup (Some (Chan_nread pi)) (upd_pipe pi (\<lambda>x. x\<lparr>writeopen := False\<rparr>) s)
          else wakeup (Some (Chan_nwrite pi)) (upd_pipe pi (\<lambda>x. x\<lparr>readopen := False\<rparr>) s)) (\<lambda>_ s.
     if \<not> readopen (pipes s pi) \<and> \<not> writeopen (pipes s pi) then
       bnd (release (Lk_pipe pi) s) (\<lambda>_ s. kfree pi s)
     else release (Lk_pipe pi) s))"

function pipewrite_loop :: "uint64 \<Rightarrow> uint64 \<Rightarrow> nat \<Rightarrow> nat \<Rightarrow> 'a filest_scheme \<Rightarrow> ('a filest_scheme, (int + nat) + nat) outcome" where
  "pipewrite_loop pi addr n i s =
     (if i < n then
        with_myproc (\<lambda>pr s.
          bnd (if \<not> readopen (pipes s pi) then Ret True s else bnd (killed pr s) (\<lambda>k s. Ret (k \<noteq> 0) s)) (\<lambda>stop s.
          if stop then bnd (release (Lk_pipe pi) s) (\<lambda>_ s. Ret (Inl (Inl (-1))) s)
          else if nwrite (pipes s pi) = nread (pipes s pi) + of_nat PIPESIZE then
            bnd (wakeup (Some (Chan_nread pi)) s) (\<lambda>_ s. Ret (Inr i) s)
          else
            bnd (copyin (pagetable (procs s pr)) (addr + of_nat i) 1 s) (\<lambda>r s.
            if fst r = -1 then Ret (Inl (Inr i)) s
            else
              pipewrite_loop pi addr n (i + 1)
                (upd_pipe pi (\<lambda>x. x\<lparr>pdata := (pdata x)(slot_of PIPESIZE (nwrite x) := hd (snd r)), nwrite := nwrite x + 1\<rparr>) s)))) s
      else Ret (Inl (Inr i)) s)"
  by pat_completeness auto
termination
  by (relation "measure (\<lambda>(pi, addr, n, i, s). n - i)") auto

declare pipewrite_loop.simps [simp del]

definition pipewrite_from :: "uint64 \<Rightarrow> uint64 \<Rightarrow> nat \<Rightarrow> nat \<Rightarrow> 'a filest_scheme \<Rightarrow> ('a filest_scheme, int) outcome" where
  "pipewrite_from pi addr n i s =
     bnd (pipewrite_loop pi addr n i s) (\<lambda>r s.
     case r of
       Inl (Inl v) \<Rightarrow> Ret v s
     | Inl (Inr i) \<Rightarrow>
         bnd (wakeup (Some (Chan_nread pi)) s) (\<lambda>_ s.
         bnd (release (Lk_pipe pi) s) (\<lambda>_ s. Ret (int i) s))
     | Inr i \<Rightarrow> sleep (Chan_nwrite pi) (Lk_pipe pi) s)"

definition pipewrite :: "uint64 \<Rightarrow> uint64 \<Rightarrow> int \<Rightarrow> 'a filest_scheme \<Rightarrow> ('a filest_scheme, int) outcome" where
  "pipewrite pi addr n s =
     bnd (acquire (Lk_pipe pi) s) (\<lambda>_ s. pipewrite_from pi addr (nat n) 0 s)"

definition pipewrite_resume :: "uint64 \<Rightarrow> uint64 \<Rightarrow> nat \<Rightarrow> nat \<Rightarrow> 'a filest_scheme \<Rightarrow> ('a filest_scheme, int) outcome" where
  "pipewrite_resume pi addr n i s =
     bnd (sleep_resume (Lk_pipe pi) s) (\<lambda>_ s. pipewrite_from pi addr n i s)"

function piperead_loop :: "uint64 \<Rightarrow> uint64 \<Rightarrow> nat \<Rightarrow> nat \<Rightarrow> 'a filest_scheme \<Rightarrow> ('a filest_scheme, nat) outcome" where
  "piperead_loop pi addr n i s =
     (if i < n \<and> nread (pipes s pi) \<noteq> nwrite (pipes s pi) then
        let ch = pdata (pipes s pi) (slot_of PIPESIZE (nread (pipes s pi)));
            s = upd_pipe pi (\<lambda>x. x\<lparr>nread := nread x + 1\<rparr>) s in
        with_myproc (\<lambda>pr s.
          bnd (copyout (pagetable (procs s pr)) (addr + of_nat i) [ch] s) (\<lambda>r s.
          if r = -1 then Ret i s else piperead_loop pi addr n (i + 1) s)) s
      else Ret i s)"
  by pat_completeness auto
termination
  by (relation "measure (\<lambda>(pi, addr, n, i, s). n - i)") auto

declare piperead_loop.simps [simp del]

definition piperead_from :: "uint64 \<Rightarrow> uint64 \<Rightarrow> nat \<Rightarrow> 'a filest_scheme \<Rightarrow> ('a filest_scheme, int) outcome" where
  "piperead_from pi addr n s =
     (if nread (pipes s pi) = nwrite (pipes s pi) \<and> writeopen (pipes s pi) then
        with_myproc (\<lambda>pr s.
          bnd (killed pr s) (\<lambda>k s.
          if k \<noteq> 0 then bnd (release (Lk_pipe pi) s) (\<lambda>_ s. Ret (-1) s)
          else sleep (Chan_nread pi) (Lk_pipe pi) s)) s
      else
        bnd (piperead_loop pi addr n 0 s) (\<lambda>i s.
        bnd (wakeup (Some (Chan_nwrite pi)) s) (\<lambda>_ s.
        bnd (release (Lk_pipe pi) s) (\<lambda>_ s. Ret (int i) s))))"

definition piperead :: "uint64 \<Rightarrow> uint64 \<Rightarrow> int \<Rightarrow> 'a filest_scheme \<Rightarrow> ('a filest_scheme, int) outcome" where
  "piperead pi addr n s =
     bnd (acquire (Lk_pipe pi) s) (\<lambda>_ s. piperead_from pi addr (nat n) s)"

definition piperead_resume :: "uint64 \<Rightarrow> uint64 \<Rightarrow> nat \<Rightarrow> 'a filest_scheme \<Rightarrow> ('a filest_scheme, int) outcome" where
  "piperead_resume pi addr n s =
     bnd (sleep_resume (Lk_pipe pi) s) (\<lambda>_ s. piperead_from pi addr n s)"

subsection \<open>Open files\<close>

definition filealloc :: "'a filest_scheme \<Rightarrow> ('a filest_scheme, nat option) outcome" where
  "filealloc s =
     bnd (acquire Lk_ftable s) (\<lambda>_ s.
     case find (\<lambda>f. fref (files s f) = 0) [0..<NFILE] of
       Some f \<Rightarrow> bnd (release Lk_ftable (upd_file f (\<lambda>x. x\<lparr>fref := 1\<rparr>) s)) (\<lambda>_ s. Ret (Some f) s)
     | None \<Rightarrow> bnd (release Lk_ftable s) (\<lambda>_ s. Ret None s))"

definition filedup :: "nat \<Rightarrow> 'a filest_scheme \<Rightarrow> ('a filest_scheme, nat) outcome" where
  "filedup f s =
     bnd (acquire Lk_ftable s) (\<lambda>_ s.
     if fref (files s f) < 1 then Panic ''filedup''
     else bnd (release Lk_ftable (upd_file f (\<lambda>x. x\<lparr>fref := fref x + 1\<rparr>) s)) (\<lambda>_ s. Ret f s))"

definition fileclose :: "nat \<Rightarrow> 'a filest_scheme \<Rightarrow> ('a filest_scheme, unit) outcome" where
  "fileclose f s =
     bnd (acquire Lk_ftable s) (\<lambda>_ s.
     if fref (files s f) < 1 then Panic ''fileclose''
     else
       let s = upd_file f (\<lambda>x. x\<lparr>fref := fref x - 1\<rparr>) s in
       if fref (files s f) > 0 then release Lk_ftable s
       else
         let ff = files s f; s = upd_file f (\<lambda>x. x\<lparr>fref := 0, fd_type := FD_NONE\<rparr>) s in
         bnd (release Lk_ftable s) (\<lambda>_ s.
         if fd_type ff = FD_PIPE then pipeclose (fpipe ff) (writable ff) s
         else if fd_type ff = FD_INODE \<or> fd_type ff = FD_DEVICE then
           bnd (begin_op s) (\<lambda>_ s.
           bnd (deref (fip ff) iput s) (\<lambda>_ s.
           end_op s))
         else Ret () s))"

definition pipealloc :: "'a filest_scheme \<Rightarrow> ('a filest_scheme, (nat \<times> nat) option) outcome" where
  "pipealloc s =
     bnd (filealloc s) (\<lambda>f0 s.
     case f0 of
       None \<Rightarrow> Ret None s
     | Some f0 \<Rightarrow>
         bnd (filealloc s) (\<lambda>f1 s.
         case f1 of
           None \<Rightarrow> bnd (fileclose f0 s) (\<lambda>_ s. Ret None s)
         | Some f1 \<Rightarrow>
             bnd (kalloc s) (\<lambda>pi s.
             if pi = 0 then bnd (fileclose f0 s) (\<lambda>_ s. bnd (fileclose f1 s) (\<lambda>_ s. Ret None s))
             else
               let s = upd_pipe pi (\<lambda>x. x\<lparr>readopen := True, writeopen := True, nwrite := 0, nread := 0\<rparr>) s;
                   s = upd_file f0 (\<lambda>x. x\<lparr>fd_type := FD_PIPE, readable := True, writable := False, fpipe := pi\<rparr>) s;
                   s = upd_file f1 (\<lambda>x. x\<lparr>fd_type := FD_PIPE, readable := False, writable := True, fpipe := pi\<rparr>) s
               in Ret (Some (f0, f1)) s)))"

text \<open>
  \<^verbatim>\<open>struct stat\<close> has four bytes of padding before its last field, which \<^verbatim>\<open>stati\<close> does not set:
  \<open>pad\<close> is what the stack holds there.
\<close>

definition stat_bytes :: "uint8 list \<Rightarrow> stat \<Rightarrow> uint8 list" where
  "stat_bytes pad st = le_bytes 4 (st_dev st) @ le_bytes 4 (st_ino st) @ le_bytes 2 (st_type st) @
     le_bytes 2 (st_nlink st) @ take 4 (pad @ replicate 4 0) @ le_bytes 8 (st_size st)"

definition filestat :: "uint8 list \<Rightarrow> nat \<Rightarrow> uint64 \<Rightarrow> 'a filest_scheme \<Rightarrow> ('a filest_scheme, int) outcome" where
  "filestat pad f addr s =
     with_myproc (\<lambda>p s.
       if fd_type (files s f) = FD_INODE \<or> fd_type (files s f) = FD_DEVICE then
         bnd (ilock (fip (files s f)) s) (\<lambda>_ s.
         deref (fip (files s f)) (\<lambda>ip s.
           let st = stati ip s in
           bnd (iunlock (Some ip) s) (\<lambda>_ s.
           bnd (copyout (pagetable (procs s p)) addr (stat_bytes pad st) s) (\<lambda>r s.
           Ret (if r < 0 then -1 else 0) s))) s)
       else Ret (-1) s) s"

text \<open>The device switch as \<^verbatim>\<open>consoleinit\<close> fills it: only the console has functions.\<close>

definition devsw_read :: "uint16 \<Rightarrow> (bool \<Rightarrow> uint64 \<Rightarrow> int \<Rightarrow> 'a consst_scheme \<Rightarrow> ('a consst_scheme, int) outcome) option" where
  "devsw_read m = (if m = CONSOLE then Some consoleread else None)"

definition devsw_write :: "uint16 \<Rightarrow> (bool \<Rightarrow> uint64 \<Rightarrow> int \<Rightarrow> 'a consst_scheme \<Rightarrow> ('a consst_scheme, int) outcome) option" where
  "devsw_write m = (if m = CONSOLE then Some consolewrite else None)"

definition fileread :: "nat \<Rightarrow> uint64 \<Rightarrow> int \<Rightarrow> 'a filest_scheme \<Rightarrow> ('a filest_scheme, int) outcome" where
  "fileread f addr n s =
     (if \<not> readable (files s f) then Ret (-1) s
      else
        case fd_type (files s f) of
          FD_PIPE \<Rightarrow> piperead (fpipe (files s f)) addr n s
        | FD_DEVICE \<Rightarrow>
            if sint (fmajor (files s f)) < 0 \<or> sint (fmajor (files s f)) \<ge> int NDEV then Ret (-1) s
            else (case devsw_read (fmajor (files s f)) of None \<Rightarrow> Ret (-1) s | Some rd \<Rightarrow> rd True addr n s)
        | FD_INODE \<Rightarrow>
            bnd (ilock (fip (files s f)) s) (\<lambda>_ s.
            deref (fip (files s f)) (\<lambda>ip s.
              bnd (readi ip (RAddr True addr) (foff (files s f)) (of_int n) s) (\<lambda>r s.
              let s = (if fst r > 0 then upd_file f (\<lambda>x. x\<lparr>foff := foff x + of_int (fst r)\<rparr>) s else s) in
              bnd (iunlock (Some ip) s) (\<lambda>_ s. Ret (fst r) s))) s)
        | FD_NONE \<Rightarrow> Panic ''fileread'')"

definition max_write :: nat where [simp]: "max_write = ((MAXOPBLOCKS - 1 - 1 - 2) div 2) * BSIZE"

function filewrite_loop :: "nat \<Rightarrow> uint64 \<Rightarrow> nat \<Rightarrow> nat \<Rightarrow> 'a filest_scheme \<Rightarrow> ('a filest_scheme, nat) outcome" where
  "filewrite_loop f addr n i s =
     (if i < n then
        let n1 = min (n - i) max_write in
        bnd (begin_op s) (\<lambda>_ s.
        bnd (ilock (fip (files s f)) s) (\<lambda>_ s.
        deref (fip (files s f)) (\<lambda>ip s.
          bnd (writei ip (WAddr True (addr + of_nat i)) (foff (files s f)) (of_nat n1) s) (\<lambda>r s.
          let s = (if r > 0 then upd_file f (\<lambda>x. x\<lparr>foff := foff x + of_int r\<rparr>) s else s) in
          bnd (iunlock (Some ip) s) (\<lambda>_ s.
          bnd (end_op s) (\<lambda>_ s.
          if r \<noteq> int n1 then Ret i s else filewrite_loop f addr n (i + n1) s)))) s))
      else Ret i s)"
  by pat_completeness auto
termination
  by (relation "measure (\<lambda>(f, addr, n, i, s). n - i)") auto

declare filewrite_loop.simps [simp del]

definition filewrite :: "nat \<Rightarrow> uint64 \<Rightarrow> int \<Rightarrow> 'a filest_scheme \<Rightarrow> ('a filest_scheme, int) outcome" where
  "filewrite f addr n s =
     (if \<not> writable (files s f) then Ret (-1) s
      else
        case fd_type (files s f) of
          FD_PIPE \<Rightarrow> pipewrite (fpipe (files s f)) addr n s
        | FD_DEVICE \<Rightarrow>
            if sint (fmajor (files s f)) < 0 \<or> sint (fmajor (files s f)) \<ge> int NDEV then Ret (-1) s
            else (case devsw_write (fmajor (files s f)) of None \<Rightarrow> Ret (-1) s | Some wr \<Rightarrow> wr True addr n s)
        | FD_INODE \<Rightarrow> bnd (filewrite_loop f addr (nat n) 0 s) (\<lambda>i s. Ret (if int i = n then n else -1) s)
        | FD_NONE \<Rightarrow> Panic ''filewrite'')"

end
