(* ===== verification/Proc.thy ===== *)
theory Proc
  imports File
begin

section \<open>Creating and ending processes (proc.c)\<close>

text \<open>
  The part of \<^verbatim>\<open>riscv/kernel/proc.c\<close> that allocates and frees processes: \<^verbatim>\<open>allocproc\<close>, \<^verbatim>\<open>freeproc\<close>,
  the page table of a process, \<^verbatim>\<open>growproc\<close>, \<^verbatim>\<open>kfork\<close>, \<^verbatim>\<open>kexit\<close> and \<^verbatim>\<open>kwait\<close>. The trapframe of a
  process is a page of \<open>mem\<close>, its fields at the offsets of \<^verbatim>\<open>proc.h\<close>. The addresses the linker and
  the assembly files provide are fields of \<open>ksyms\<close>.
\<close>

record ksyms =
  etext_at :: uint64
  trampoline_at :: uint64
  uservec_at :: uint64
  userret_at :: uint64
  kernelvec_at :: uint64
  usertrap_at :: uint64
  forkret_at :: uint64
  main_at :: uint64

definition tf_kernel_satp :: uint64 where [simp]: "tf_kernel_satp = 0"
definition tf_kernel_sp :: uint64 where [simp]: "tf_kernel_sp = 8"
definition tf_kernel_trap :: uint64 where [simp]: "tf_kernel_trap = 16"
definition tf_epc :: uint64 where [simp]: "tf_epc = 24"
definition tf_kernel_hartid :: uint64 where [simp]: "tf_kernel_hartid = 32"
definition tf_sp :: uint64 where [simp]: "tf_sp = 48"
definition tf_arg :: "nat \<Rightarrow> uint64" where "tf_arg n = 112 + 8 * of_nat n"
definition tf_size :: nat where [simp]: "tf_size = 288"

definition load_tf :: "nat \<Rightarrow> uint64 \<Rightarrow> 'a machine_scheme \<Rightarrow> ('a machine_scheme, uint64) outcome" where
  "load_tf p off s =
     (if trapframe (procs s p) = 0 then Panic ''kerneltrap'' else Ret (load64 (mem s) (trapframe (procs s p) + off)) s)"

definition store_tf :: "nat \<Rightarrow> uint64 \<Rightarrow> uint64 \<Rightarrow> 'a machine_scheme \<Rightarrow> ('a machine_scheme, unit) outcome" where
  "store_tf p off v s =
     (if trapframe (procs s p) = 0 then Panic ''kerneltrap''
      else Ret () (s\<lparr>mem := store64 (mem s) (trapframe (procs s p) + off) v\<rparr>))"

subsection \<open>Allocation\<close>

definition proc_pagetable :: "ksyms \<Rightarrow> nat \<Rightarrow> 'a machine_scheme \<Rightarrow> ('a machine_scheme, uint64) outcome" where
  "proc_pagetable ks p s =
     bnd (uvmcreate s) (\<lambda>pt s.
     if pt = 0 then Ret 0 s
     else
       bnd (mappages pt TRAMPOLINE PGSIZE (trampoline_at ks) (PTE_R OR PTE_X) s) (\<lambda>r s.
       if r < 0 then bnd (uvmfree pt 0 s) (\<lambda>_ s. Ret 0 s)
       else
         bnd (mappages pt TRAPFRAME PGSIZE (trapframe (procs s p)) (PTE_R OR PTE_W) s) (\<lambda>r s.
         if r < 0 then
           bnd (uvmunmap pt TRAMPOLINE 1 False s) (\<lambda>_ s.
           bnd (uvmfree pt 0 s) (\<lambda>_ s. Ret 0 s))
         else Ret pt s)))"

definition proc_freepagetable :: "uint64 \<Rightarrow> uint64 \<Rightarrow> 'a machine_scheme \<Rightarrow> ('a machine_scheme, unit) outcome" where
  "proc_freepagetable pt n s =
     bnd (uvmunmap pt TRAMPOLINE 1 False s) (\<lambda>_ s.
     bnd (uvmunmap pt TRAPFRAME 1 False s) (\<lambda>_ s.
     uvmfree pt n s))"

definition freeproc :: "nat \<Rightarrow> 'a machine_scheme \<Rightarrow> ('a machine_scheme, unit) outcome" where
  "freeproc p s =
     bnd (if trapframe (procs s p) \<noteq> 0 then kfree (trapframe (procs s p)) s else Ret () s) (\<lambda>_ s.
     let s = upd_proc p (\<lambda>q. q\<lparr>trapframe := 0\<rparr>) s in
     bnd (if pagetable (procs s p) \<noteq> 0 then proc_freepagetable (pagetable (procs s p)) (sz (procs s p)) s else Ret () s) (\<lambda>_ s.
     Ret () (upd_proc p (\<lambda>q. q\<lparr>pagetable := 0, sz := 0, pid := 0, parent := None, pname := (pname q)(0 := 0),
       pchan := None, pkilled := 0, xstate := 0, pstate := UNUSED\<rparr>) s)))"

text \<open>The scan for an unused slot returns with its lock held.\<close>

fun find_unused :: "nat list \<Rightarrow> 'a ptable_scheme \<Rightarrow> ('a ptable_scheme, nat option) outcome" where
  "find_unused [] s = Ret None s"
| "find_unused (p # ps) s =
     bnd (acquire (Lk_proc p) s) (\<lambda>_ s.
     if pstate (procs s p) = UNUSED then Ret (Some p) s
     else bnd (release (Lk_proc p) s) (\<lambda>_ s. find_unused ps s))"

definition allocproc :: "ksyms \<Rightarrow> 'a machine_scheme \<Rightarrow> ('a machine_scheme, nat option) outcome" where
  "allocproc ks s =
     bnd (find_unused [0..<NPROC] s) (\<lambda>r s.
     case r of
       None \<Rightarrow> Ret None s
     | Some p \<Rightarrow>
         bnd (allocpid s) (\<lambda>n s.
         let s = upd_proc p (\<lambda>q. q\<lparr>pid := n, pstate := USED\<rparr>) s in
         bnd (kalloc s) (\<lambda>tf s.
         let s = upd_proc p (\<lambda>q. q\<lparr>trapframe := tf\<rparr>) s in
         if tf = 0 then
           bnd (freeproc p s) (\<lambda>_ s.
           bnd (release (Lk_proc p) s) (\<lambda>_ s. Ret None s))
         else
           bnd (proc_pagetable ks p s) (\<lambda>pt s.
           let s = upd_proc p (\<lambda>q. q\<lparr>pagetable := pt\<rparr>) s in
           if pt = 0 then
             bnd (freeproc p s) (\<lambda>_ s.
             bnd (release (Lk_proc p) s) (\<lambda>_ s. Ret None s))
           else
             Ret (Some p) (upd_proc p (\<lambda>q. q\<lparr>pcontext := \<lparr>ra = forkret_at ks, sp = kstack q + PGSIZE,
               sregs = replicate 12 0\<rparr>\<rparr>) s)))))"

definition userinit :: "ksyms \<Rightarrow> 'a filest_scheme \<Rightarrow> ('a filest_scheme, unit) outcome" where
  "userinit ks s =
     bnd (allocproc ks s) (\<lambda>r s.
     let s = s\<lparr>initproc := r\<rparr> in
     bnd (namei [SLASH] s) (\<lambda>d s.
     deref r (\<lambda>p s.
       release (Lk_proc p) (upd_proc p (\<lambda>q. q\<lparr>cwd := d, pstate := RUNNABLE\<rparr>) s)) s))"

definition growproc :: "int \<Rightarrow> 'a machine_scheme \<Rightarrow> ('a machine_scheme, int) outcome" where
  "growproc n = with_myproc (\<lambda>p s.
     let z = sz (procs s p); pt = pagetable (procs s p) in
     if n > 0 then
       bnd (uvmalloc pt z (z + of_int n) PTE_W s) (\<lambda>z s.
       if z = 0 then Ret (-1) s else Ret 0 (upd_proc p (\<lambda>q. q\<lparr>sz := z\<rparr>) s))
     else if n < 0 then
       bnd (uvmdealloc pt z (z + of_int n) s) (\<lambda>z s. Ret 0 (upd_proc p (\<lambda>q. q\<lparr>sz := z\<rparr>) s))
     else Ret 0 (upd_proc p (\<lambda>q. q\<lparr>sz := z\<rparr>) s))"

subsection \<open>fork, exit and wait\<close>

definition dup_files :: "nat \<Rightarrow> nat \<Rightarrow> 'a filest_scheme \<Rightarrow> ('a filest_scheme, unit) outcome" where
  "dup_files p np s =
     for_each [0..<NOFILE] (\<lambda>i s.
       case ofile (procs s p) i of
         None \<Rightarrow> Ret () s
       | Some f \<Rightarrow>
           bnd (filedup f s) (\<lambda>f s.
           Ret () (upd_proc np (\<lambda>q. q\<lparr>ofile := (ofile q)(i := Some f)\<rparr>) s))) s"

definition kfork :: "ksyms \<Rightarrow> 'a filest_scheme \<Rightarrow> ('a filest_scheme, int) outcome" where
  "kfork ks = with_myproc (\<lambda>p s.
     bnd (allocproc ks s) (\<lambda>r s.
     case r of
       None \<Rightarrow> Ret (-1) s
     | Some np \<Rightarrow>
         bnd (uvmcopy (pagetable (procs s p)) (pagetable (procs s np)) (sz (procs s p)) s) (\<lambda>r s.
         if r < 0 then
           bnd (freeproc np s) (\<lambda>_ s.
           bnd (release (Lk_proc np) s) (\<lambda>_ s. Ret (-1) s))
         else
           let s = upd_proc np (\<lambda>q. q\<lparr>sz := sz (procs s p)\<rparr>) s;
               s = s\<lparr>mem := store_bytes (mem s) (trapframe (procs s np)) (load_bytes (mem s) (trapframe (procs s p)) tf_size)\<rparr> in
           bnd (store_tf np (tf_arg 0) 0 s) (\<lambda>_ s.
           bnd (dup_files p np s) (\<lambda>_ s.
           bnd (deref (cwd (procs s p)) idup s) (\<lambda>d s.
           let s = upd_proc np (\<lambda>q. q\<lparr>cwd := Some d, pname := safestrcpy (pname q) (pname (procs s p)) 16\<rparr>) s;
               n = pid (procs s np) in
           bnd (release (Lk_proc np) s) (\<lambda>_ s.
           bnd (acquire Lk_wait s) (\<lambda>_ s.
           let s = upd_proc np (\<lambda>q. q\<lparr>parent := Some p\<rparr>) s in
           bnd (release Lk_wait s) (\<lambda>_ s.
           bnd (acquire (Lk_proc np) s) (\<lambda>_ s.
           let s = upd_proc np (\<lambda>q. q\<lparr>pstate := RUNNABLE\<rparr>) s in
           bnd (release (Lk_proc np) s) (\<lambda>_ s.
           Ret (sint n) s)))))))))))"

definition close_files :: "nat \<Rightarrow> 'a filest_scheme \<Rightarrow> ('a filest_scheme, unit) outcome" where
  "close_files p s =
     for_each [0..<NOFILE] (\<lambda>fd s.
       case ofile (procs s p) fd of
         None \<Rightarrow> Ret () s
       | Some f \<Rightarrow>
           bnd (fileclose f s) (\<lambda>_ s.
           Ret () (upd_proc p (\<lambda>q. q\<lparr>ofile := (ofile q)(fd := None)\<rparr>) s))) s"

text \<open>After \<^verbatim>\<open>sched\<close> the thread has left the CPU for good.\<close>

definition kexit :: "int \<Rightarrow> 'a filest_scheme \<Rightarrow> ('a filest_scheme, 'r) outcome" where
  "kexit status = with_myproc (\<lambda>p s.
     if initproc s = Some p then Panic ''init exiting''
     else
       bnd (close_files p s) (\<lambda>_ s.
       bnd (begin_op s) (\<lambda>_ s.
       bnd (deref (cwd (procs s p)) iput s) (\<lambda>_ s.
       bnd (end_op s) (\<lambda>_ s.
       let s = upd_proc p (\<lambda>q. q\<lparr>cwd := None\<rparr>) s in
       bnd (acquire Lk_wait s) (\<lambda>_ s.
       bnd (reparent p s) (\<lambda>_ s.
       bnd (wakeup (map_option Chan_proc (parent (procs s p))) s) (\<lambda>_ s.
       bnd (acquire (Lk_proc p) s) (\<lambda>_ s.
       let s = upd_proc p (\<lambda>q. q\<lparr>xstate := of_int status, pstate := ZOMBIE\<rparr>) s in
       bnd (release Lk_wait s) (\<lambda>_ s.
       bnd (sched s) (\<lambda>_ s. Sleep Chan_exit s)))))))))))"

text \<open>The scan of \<^verbatim>\<open>kwait\<close>: \<open>Inl v\<close> when it returns \<open>v\<close>, \<open>Inr havekids\<close> at the end of the table.\<close>

fun kwait_scan :: "nat \<Rightarrow> uint64 \<Rightarrow> nat list \<Rightarrow> bool \<Rightarrow> 'a machine_scheme \<Rightarrow> ('a machine_scheme, int + bool) outcome" where
  "kwait_scan p addr [] havekids s = Ret (Inr havekids) s"
| "kwait_scan p addr (pp # pps) havekids s =
     (if parent (procs s pp) = Some p then
        bnd (acquire (Lk_proc pp) s) (\<lambda>_ s.
        if pstate (procs s pp) = ZOMBIE then
          let n = pid (procs s pp) in
          bnd (if addr \<noteq> 0 then copyout (pagetable (procs s p)) addr (le_bytes 4 (xstate (procs s pp))) s else Ret 0 s) (\<lambda>r s.
          if r < 0 then
            bnd (release (Lk_proc pp) s) (\<lambda>_ s.
            bnd (release Lk_wait s) (\<lambda>_ s. Ret (Inl (-1)) s))
          else
            bnd (freeproc pp s) (\<lambda>_ s.
            bnd (release (Lk_proc pp) s) (\<lambda>_ s.
            bnd (release Lk_wait s) (\<lambda>_ s. Ret (Inl (sint n)) s))))
        else
          bnd (release (Lk_proc pp) s) (\<lambda>_ s.
          kwait_scan p addr pps True s))
      else kwait_scan p addr pps havekids s)"

definition kwait_from :: "uint64 \<Rightarrow> 'a machine_scheme \<Rightarrow> ('a machine_scheme, int) outcome" where
  "kwait_from addr = with_myproc (\<lambda>p s.
     bnd (kwait_scan p addr [0..<NPROC] False s) (\<lambda>r s.
     case r of
       Inl v \<Rightarrow> Ret v s
     | Inr havekids \<Rightarrow>
         bnd (if \<not> havekids then Ret True s else bnd (killed p s) (\<lambda>k s. Ret (k \<noteq> 0) s)) (\<lambda>stop s.
         if stop then bnd (release Lk_wait s) (\<lambda>_ s. Ret (-1) s)
         else sleep (Chan_proc p) Lk_wait s)))"

definition kwait :: "uint64 \<Rightarrow> 'a machine_scheme \<Rightarrow> ('a machine_scheme, int) outcome" where
  "kwait addr s = bnd (acquire Lk_wait s) (\<lambda>_ s. kwait_from addr s)"

definition kwait_resume :: "uint64 \<Rightarrow> 'a machine_scheme \<Rightarrow> ('a machine_scheme, int) outcome" where
  "kwait_resume addr s = bnd (sleep_resume Lk_wait s) (\<lambda>_ s. kwait_from addr s)"

end
