(* ===== verification/Syscall.thy ===== *)
theory Syscall
  imports Proc
begin

section \<open>System call arguments and the process system calls (syscall.c, sysproc.c)\<close>

text \<open>
  Fetching arguments from the trapframe and from user memory (\<^verbatim>\<open>riscv/kernel/syscall.c\<close>) and the
  system calls of \<^verbatim>\<open>riscv/kernel/sysproc.c\<close>. A kernel buffer that a string is fetched into is the
  string; a failed fetch is \<open>None\<close>. System calls return the value that goes to \<^verbatim>\<open>a0\<close>.
\<close>

subsection \<open>Arguments\<close>

definition fetchaddr :: "uint64 \<Rightarrow> 'a machine_scheme \<Rightarrow> ('a machine_scheme, uint64 option) outcome" where
  "fetchaddr addr = with_myproc (\<lambda>p s.
     if addr \<ge> sz (procs s p) \<or> addr + 8 > sz (procs s p) then Ret None s
     else
       bnd (copyin (pagetable (procs s p)) addr 8 s) (\<lambda>r s.
       Ret (if fst r \<noteq> 0 then None else Some (le_word (snd r))) s))"

definition fetchstr :: "uint64 \<Rightarrow> nat \<Rightarrow> 'a machine_scheme \<Rightarrow> ('a machine_scheme, uint8 list option) outcome" where
  "fetchstr addr mx = with_myproc (\<lambda>p s.
     bnd (copyinstr (pagetable (procs s p)) addr mx s) (\<lambda>r s.
     Ret (if fst r < 0 then None else Some (takeWhile (\<lambda>c. c \<noteq> 0) (snd r))) s))"

definition argraw :: "nat \<Rightarrow> 'a machine_scheme \<Rightarrow> ('a machine_scheme, uint64) outcome" where
  "argraw n = with_myproc (\<lambda>p s. if n \<le> 5 then load_tf p (tf_arg n) s else Panic ''argraw'')"

definition argint :: "nat \<Rightarrow> 'a machine_scheme \<Rightarrow> ('a machine_scheme, uint32) outcome" where
  "argint n s = bnd (argraw n s) (\<lambda>v s. Ret (ucast v) s)"

definition argaddr :: "nat \<Rightarrow> 'a machine_scheme \<Rightarrow> ('a machine_scheme, uint64) outcome" where
  "argaddr n s = argraw n s"

definition argstr :: "nat \<Rightarrow> nat \<Rightarrow> 'a machine_scheme \<Rightarrow> ('a machine_scheme, uint8 list option) outcome" where
  "argstr n mx s = bnd (argaddr n s) (\<lambda>addr s. fetchstr addr mx s)"

subsection \<open>Processes\<close>

definition sys_exit :: "'a filest_scheme \<Rightarrow> ('a filest_scheme, uint64) outcome" where
  "sys_exit s = bnd (argint 0 s) (\<lambda>n s. kexit (sint n) s)"

definition sys_getpid :: "'a filest_scheme \<Rightarrow> ('a filest_scheme, uint64) outcome" where
  "sys_getpid = with_myproc (\<lambda>p s. Ret (scast (pid (procs s p))) s)"

definition sys_fork :: "ksyms \<Rightarrow> 'a filest_scheme \<Rightarrow> ('a filest_scheme, uint64) outcome" where
  "sys_fork ks s = bnd (kfork ks s) (\<lambda>n s. Ret (of_int n) s)"

definition sys_wait :: "'a filest_scheme \<Rightarrow> ('a filest_scheme, uint64) outcome" where
  "sys_wait s = bnd (argaddr 0 s) (\<lambda>p s. bnd (kwait p s) (\<lambda>n s. Ret (of_int n) s))"

definition SBRK_EAGER :: uint32 where [simp]: "SBRK_EAGER = 1"
definition SBRK_LAZY :: uint32 where [simp]: "SBRK_LAZY = 2"

definition sys_sbrk :: "'a filest_scheme \<Rightarrow> ('a filest_scheme, uint64) outcome" where
  "sys_sbrk s =
     bnd (argint 0 s) (\<lambda>n s.
     bnd (argint 1 s) (\<lambda>t s.
     with_myproc (\<lambda>p s.
       let addr = sz (procs s p) in
       if t = SBRK_EAGER \<or> sint n < 0 then
         bnd (growproc (sint n) s) (\<lambda>r s. if r < 0 then Ret (-1) s else Ret addr s)
       else if addr + scast n < addr then Ret (-1) s
       else Ret addr (upd_proc p (\<lambda>q. q\<lparr>sz := sz q + scast n\<rparr>) s)) s))"

text \<open>
  The loop of \<^verbatim>\<open>sys_pause\<close> sleeps once per round: \<open>sys_pause_from\<close> is a round, entered again by
  \<open>sys_pause_resume\<close>.
\<close>

definition sys_pause_from :: "uint32 \<Rightarrow> uint32 \<Rightarrow> 'a filest_scheme \<Rightarrow> ('a filest_scheme, uint64) outcome" where
  "sys_pause_from n ticks0 s =
     (if ticks s - ticks0 < n then
        with_myproc (\<lambda>p s.
          bnd (killed p s) (\<lambda>k s.
          if k \<noteq> 0 then bnd (release Lk_ticks s) (\<lambda>_ s. Ret (-1) s)
          else sleep Chan_ticks Lk_ticks s)) s
      else bnd (release Lk_ticks s) (\<lambda>_ s. Ret 0 s))"

definition sys_pause :: "'a filest_scheme \<Rightarrow> ('a filest_scheme, uint64) outcome" where
  "sys_pause s =
     bnd (argint 0 s) (\<lambda>n s.
     let n = (if sint n < 0 then 0 else n) in
     bnd (acquire Lk_ticks s) (\<lambda>_ s. sys_pause_from n (ticks s) s))"

definition sys_pause_resume :: "uint32 \<Rightarrow> uint32 \<Rightarrow> 'a filest_scheme \<Rightarrow> ('a filest_scheme, uint64) outcome" where
  "sys_pause_resume n ticks0 s = bnd (sleep_resume Lk_ticks s) (\<lambda>_ s. sys_pause_from n ticks0 s)"

definition sys_kill :: "'a filest_scheme \<Rightarrow> ('a filest_scheme, uint64) outcome" where
  "sys_kill s = bnd (argint 0 s) (\<lambda>n s. bnd (kkill n s) (\<lambda>r s. Ret (of_int r) s))"

definition sys_uptime :: "'a filest_scheme \<Rightarrow> ('a filest_scheme, uint64) outcome" where
  "sys_uptime s =
     bnd (acquire Lk_ticks s) (\<lambda>_ s.
     let xticks = ticks s in
     bnd (release Lk_ticks s) (\<lambda>_ s. Ret (ucast xticks) s))"

end
