(* ===== verification/Exec.thy ===== *)
theory Exec
  imports Proc
begin

section \<open>exec (exec.c)\<close>

text \<open>
  \<^verbatim>\<open>riscv/kernel/exec.c\<close>: loading an ELF image into a new address space and switching the process to
  it. The argument vector is the list of its strings; the ELF structures are the bytes read, their
  fields taken at the offsets of \<^verbatim>\<open>elf.h\<close>.
\<close>

definition field :: "nat \<Rightarrow> nat \<Rightarrow> uint8 list \<Rightarrow> 'a::len word" where
  "field off n bs = le_word (take n (drop off bs))"

definition ELF_MAGIC :: uint32 where [simp]: "ELF_MAGIC = 0x464C457F"
definition ELF_PROG_LOAD :: uint32 where [simp]: "ELF_PROG_LOAD = 1"

definition elf_magic :: "uint8 list \<Rightarrow> uint32" where "elf_magic = field 0 4"
definition elf_entry :: "uint8 list \<Rightarrow> uint64" where "elf_entry = field 24 8"
definition elf_phoff :: "uint8 list \<Rightarrow> uint64" where "elf_phoff = field 32 8"
definition elf_phnum :: "uint8 list \<Rightarrow> uint16" where "elf_phnum = field 56 2"

definition ph_type :: "uint8 list \<Rightarrow> uint32" where "ph_type = field 0 4"
definition ph_flags :: "uint8 list \<Rightarrow> uint32" where "ph_flags = field 4 4"
definition ph_off :: "uint8 list \<Rightarrow> uint64" where "ph_off = field 8 8"
definition ph_vaddr :: "uint8 list \<Rightarrow> uint64" where "ph_vaddr = field 16 8"
definition ph_filesz :: "uint8 list \<Rightarrow> uint64" where "ph_filesz = field 32 8"
definition ph_memsz :: "uint8 list \<Rightarrow> uint64" where "ph_memsz = field 40 8"

definition flags2perm :: "uint32 \<Rightarrow> uint64" where
  "flags2perm flags = (if flags AND 1 \<noteq> 0 then PTE_X else 0) OR (if flags AND 2 \<noteq> 0 then PTE_W else 0)"

text \<open>
  The counter of \<^verbatim>\<open>loadseg\<close> has 32 bits. A size within a page of their end makes it wrap to 0, and
  the loop starts over for ever.
\<close>

function loadseg_loop :: "uint64 \<Rightarrow> uint64 \<Rightarrow> nat \<Rightarrow> uint32 \<Rightarrow> nat \<Rightarrow> nat \<Rightarrow> 'a fsst_scheme \<Rightarrow> ('a fsst_scheme, int) outcome" where
  "loadseg_loop pt va ip offset n i s =
     (if i \<ge> 2 ^ 32 then Panic ''does not return''
      else if i < n then
        bnd (walkaddr pt (va + of_nat i) s) (\<lambda>pa s.
        if pa = 0 then Panic ''loadseg: address should exist''
        else
          let m = (if n - i < 4096 then n - i else 4096) in
          bnd (readi ip (RAddr False pa) (offset + of_nat i) (of_nat m) s) (\<lambda>r s.
          if fst r \<noteq> int m then Ret (-1) s else loadseg_loop pt va ip offset n (i + 4096) s))
      else Ret 0 s)"
  by pat_completeness auto
termination
  by (relation "measure (\<lambda>(pt, va, ip, offset, n, i, s). n - i)") auto

declare loadseg_loop.simps [simp del]

definition loadseg :: "uint64 \<Rightarrow> uint64 \<Rightarrow> nat \<Rightarrow> uint32 \<Rightarrow> uint32 \<Rightarrow> 'a fsst_scheme \<Rightarrow> ('a fsst_scheme, int) outcome" where
  "loadseg pt va ip offset n s = loadseg_loop pt va ip offset (unat n) 0 s"

text \<open>The loop over the program headers, with the size of the image so far; \<open>False\<close> is \<^verbatim>\<open>goto bad\<close>.\<close>

fun kexec_load :: "uint64 \<Rightarrow> nat \<Rightarrow> nat \<Rightarrow> uint32 \<Rightarrow> uint64 \<Rightarrow> 'a fsst_scheme \<Rightarrow> ('a fsst_scheme, bool \<times> uint64) outcome" where
  "kexec_load pt ip 0 off z s = Ret (True, z) s"
| "kexec_load pt ip (Suc k) off z s =
     bnd (readi ip RLocal off 56 s) (\<lambda>r s.
     let ph = snd r in
     if fst r \<noteq> 56 then Ret (False, z) s
     else if ph_type ph \<noteq> ELF_PROG_LOAD then kexec_load pt ip k (off + 56) z s
     else if ph_memsz ph < ph_filesz ph then Ret (False, z) s
     else if ph_vaddr ph + ph_memsz ph < ph_vaddr ph then Ret (False, z) s
     else if ph_vaddr ph mod PGSIZE \<noteq> 0 then Ret (False, z) s
     else
       bnd (uvmalloc pt z (ph_vaddr ph + ph_memsz ph) (flags2perm (ph_flags ph)) s) (\<lambda>z1 s.
       if z1 = 0 then Ret (False, z) s
       else
         bnd (loadseg pt (ph_vaddr ph) ip (ucast (ph_off ph)) (ucast (ph_filesz ph)) s) (\<lambda>r s.
         if r < 0 then Ret (False, z1) s else kexec_load pt ip k (off + 56) z1 s)))"

definition align_sp :: "uint64 \<Rightarrow> uint64" where
  "align_sp x = x - x mod 16"

text \<open>Copying the argument strings to the new stack: the new stack pointer and their addresses.\<close>

fun push_args :: "uint64 \<Rightarrow> uint64 \<Rightarrow> uint64 \<Rightarrow> uint8 list list \<Rightarrow> uint64 list \<Rightarrow> 'a machine_scheme \<Rightarrow>
    ('a machine_scheme, (uint64 \<times> uint64 list) option) outcome" where
  "push_args pt stackbase spt [] ustack s = Ret (Some (spt, ustack)) s"
| "push_args pt stackbase spt (a # as) ustack s =
     (if length ustack \<ge> MAXARG then Ret None s
      else
        let spt = align_sp (spt - of_nat (length a + 1)) in
        if spt < stackbase then Ret None s
        else
          bnd (copyout pt spt (a @ [0]) s) (\<lambda>r s.
          if r < 0 then Ret None s else push_args pt stackbase spt as (ustack @ [spt]) s))"

text \<open>The strings and then the array of pointers to them; \<^verbatim>\<open>ustack\<close> has room for \<open>MAXARG\<close> entries.\<close>

definition push_argv :: "uint64 \<Rightarrow> uint64 \<Rightarrow> uint64 \<Rightarrow> uint8 list list \<Rightarrow> 'a machine_scheme \<Rightarrow>
    ('a machine_scheme, (uint64 \<times> nat) option) outcome" where
  "push_argv pt stackbase spt argv s =
     bnd (push_args pt stackbase spt argv [] s) (\<lambda>r s.
     case r of
       None \<Rightarrow> Ret None s
     | Some (spt, ustack) \<Rightarrow>
         if length ustack \<ge> MAXARG then Panic ''out of bounds''
         else
           let argc = length ustack; spt = align_sp (spt - of_nat ((argc + 1) * 8)) in
           if spt < stackbase then Ret None s
           else
             bnd (copyout pt spt (concat (map (le_bytes 8) (ustack @ [0]))) s) (\<lambda>r s.
             if r < 0 then Ret None s else Ret (Some (spt, argc)) s))"

definition last_element :: "uint8 list \<Rightarrow> uint8 list" where
  "last_element path = rev (takeWhile (\<lambda>c. c \<noteq> SLASH) (rev path))"

text \<open>The part of \<^verbatim>\<open>kexec\<close> that runs with the executable open: the page table and the image size.\<close>

definition kexec_image :: "ksyms \<Rightarrow> nat \<Rightarrow> nat \<Rightarrow> 'a fsst_scheme \<Rightarrow> ('a fsst_scheme, uint64 \<times> uint64 \<times> (uint8 list) option) outcome" where
  "kexec_image ks p ip s =
     bnd (readi ip RLocal 0 64 s) (\<lambda>r s.
     let elf = snd r in
     if fst r \<noteq> 64 then Ret (0, 0, None) s
     else if elf_magic elf \<noteq> ELF_MAGIC then Ret (0, 0, None) s
     else
       bnd (proc_pagetable ks p s) (\<lambda>pt s.
       if pt = 0 then Ret (0, 0, None) s
       else
         bnd (kexec_load pt ip (unat (elf_phnum elf)) (ucast (elf_phoff elf)) 0 s) (\<lambda>r s.
         Ret (pt, snd r, if fst r then Some elf else None) s)))"

text \<open>The user stack and the switch to the new image; \<open>None\<close> is \<^verbatim>\<open>goto bad\<close>, with the size so far.\<close>

definition kexec_commit :: "nat \<Rightarrow> uint64 \<Rightarrow> uint64 \<Rightarrow> uint8 list \<Rightarrow> uint8 list \<Rightarrow> uint8 list list \<Rightarrow> 'a machine_scheme \<Rightarrow>
    ('a machine_scheme, uint64 \<times> int option) outcome" where
  "kexec_commit p pt z elf path argv s =
     (let oldsz = sz (procs s p); z = PGROUNDUP z; stack = (of_nat USERSTACK + 1) * PGSIZE in
      bnd (uvmalloc pt z (z + stack) PTE_W s) (\<lambda>z1 s.
      if z1 = 0 then Ret (z, None) s
      else
        bnd (uvmclear pt (z1 - stack) s) (\<lambda>_ s.
        bnd (push_argv pt (z1 - of_nat USERSTACK * PGSIZE) z1 argv s) (\<lambda>r s.
        case r of
          None \<Rightarrow> Ret (z1, None) s
        | Some (spt, argc) \<Rightarrow>
            bnd (store_tf p (tf_arg 1) spt s) (\<lambda>_ s.
            let old = pagetable (procs s p);
                s = upd_proc p (\<lambda>q. q\<lparr>pname := safestrcpy (pname q) (cbytes (last_element path)) 16,
                  pagetable := pt, sz := z1\<rparr>) s in
            bnd (store_tf p tf_epc (elf_entry elf) s) (\<lambda>_ s.
            bnd (store_tf p tf_sp spt s) (\<lambda>_ s.
            bnd (proc_freepagetable old oldsz s) (\<lambda>_ s.
            Ret (z1, Some (int argc)) s))))))))"

definition kexec :: "ksyms \<Rightarrow> uint8 list \<Rightarrow> uint8 list list \<Rightarrow> 'a fsst_scheme \<Rightarrow> ('a fsst_scheme, int) outcome" where
  "kexec ks path argv = with_myproc (\<lambda>p s.
     bnd (begin_op s) (\<lambda>_ s.
     bnd (namei path s) (\<lambda>ip s.
     case ip of
       None \<Rightarrow> bnd (end_op s) (\<lambda>_ s. Ret (-1) s)
     | Some ip \<Rightarrow>
         bnd (ilock (Some ip) s) (\<lambda>_ s.
         bnd (kexec_image ks p ip s) (\<lambda>r s.
         case r of
           (pt, z, None) \<Rightarrow>
             bnd (if pt \<noteq> 0 then proc_freepagetable pt z s else Ret () s) (\<lambda>_ s.
             bnd (iunlockput ip s) (\<lambda>_ s.
             bnd (end_op s) (\<lambda>_ s. Ret (-1) s)))
         | (pt, z, Some elf) \<Rightarrow>
             bnd (iunlockput ip s) (\<lambda>_ s.
             bnd (end_op s) (\<lambda>_ s.
             bnd (kexec_commit p pt z elf path argv s) (\<lambda>r s.
             case snd r of
               Some argc \<Rightarrow> Ret argc s
             | None \<Rightarrow> bnd (proc_freepagetable pt (fst r) s) (\<lambda>_ s. Ret (-1) s)))))))))"

end
