(* ===== verification/Sysfile.thy ===== *)
theory Sysfile
  imports Syscall Exec
begin

section \<open>The file system calls (sysfile.c)\<close>

text \<open>
  \<^verbatim>\<open>riscv/kernel/sysfile.c\<close>: argument checking around \<^verbatim>\<open>file.c\<close>, \<^verbatim>\<open>fs.c\<close> and \<^verbatim>\<open>exec.c\<close>. \<open>junk\<close> is the
  content of the uninitialised \<^verbatim>\<open>struct dirent\<close> of \<^verbatim>\<open>dirlink\<close>, \<open>pad\<close> that of the padding of
  \<^verbatim>\<open>struct stat\<close>.
\<close>

subsection \<open>File descriptors\<close>

definition argfd :: "nat \<Rightarrow> 'a filest_scheme \<Rightarrow> ('a filest_scheme, (nat \<times> nat) option) outcome" where
  "argfd n s =
     bnd (argint n s) (\<lambda>fd s.
     with_myproc (\<lambda>p s.
       if sint fd < 0 \<or> sint fd \<ge> int NOFILE then Ret None s
       else Ret (map_option (\<lambda>f. (unat fd, f)) (ofile (procs s p) (unat fd))) s) s)"

definition fdalloc :: "nat \<Rightarrow> 'a filest_scheme \<Rightarrow> ('a filest_scheme, nat option) outcome" where
  "fdalloc f = with_myproc (\<lambda>p s.
     case find (\<lambda>fd. ofile (procs s p) fd = None) [0..<NOFILE] of
       None \<Rightarrow> Ret None s
     | Some fd \<Rightarrow> Ret (Some fd) (upd_proc p (\<lambda>q. q\<lparr>ofile := (ofile q)(fd := Some f)\<rparr>) s))"

definition clear_fd :: "nat \<Rightarrow> 'a filest_scheme \<Rightarrow> ('a filest_scheme, unit) outcome" where
  "clear_fd fd = with_myproc (\<lambda>p s. Ret () (upd_proc p (\<lambda>q. q\<lparr>ofile := (ofile q)(fd := None)\<rparr>) s))"

definition sys_dup :: "'a filest_scheme \<Rightarrow> ('a filest_scheme, uint64) outcome" where
  "sys_dup s =
     bnd (argfd 0 s) (\<lambda>r s.
     case r of
       None \<Rightarrow> Ret (-1) s
     | Some (_, f) \<Rightarrow>
         bnd (fdalloc f s) (\<lambda>r s.
         case r of
           None \<Rightarrow> Ret (-1) s
         | Some fd \<Rightarrow> bnd (filedup f s) (\<lambda>_ s. Ret (of_nat fd) s)))"

definition sys_read :: "'a filest_scheme \<Rightarrow> ('a filest_scheme, uint64) outcome" where
  "sys_read s =
     bnd (argaddr 1 s) (\<lambda>p s.
     bnd (argint 2 s) (\<lambda>n s.
     bnd (argfd 0 s) (\<lambda>r s.
     case r of
       None \<Rightarrow> Ret (-1) s
     | Some (_, f) \<Rightarrow> bnd (fileread f p (sint n) s) (\<lambda>v s. Ret (of_int v) s))))"

definition sys_write :: "'a filest_scheme \<Rightarrow> ('a filest_scheme, uint64) outcome" where
  "sys_write s =
     bnd (argaddr 1 s) (\<lambda>p s.
     bnd (argint 2 s) (\<lambda>n s.
     bnd (argfd 0 s) (\<lambda>r s.
     case r of
       None \<Rightarrow> Ret (-1) s
     | Some (_, f) \<Rightarrow> bnd (filewrite f p (sint n) s) (\<lambda>v s. Ret (of_int v) s))))"

definition sys_close :: "'a filest_scheme \<Rightarrow> ('a filest_scheme, uint64) outcome" where
  "sys_close s =
     bnd (argfd 0 s) (\<lambda>r s.
     case r of
       None \<Rightarrow> Ret (-1) s
     | Some (fd, f) \<Rightarrow>
         bnd (clear_fd fd s) (\<lambda>_ s.
         bnd (fileclose f s) (\<lambda>_ s. Ret 0 s)))"

definition sys_fstat :: "uint8 list \<Rightarrow> 'a filest_scheme \<Rightarrow> ('a filest_scheme, uint64) outcome" where
  "sys_fstat pad s =
     bnd (argaddr 1 s) (\<lambda>st s.
     bnd (argfd 0 s) (\<lambda>r s.
     case r of
       None \<Rightarrow> Ret (-1) s
     | Some (_, f) \<Rightarrow> bnd (filestat pad f st s) (\<lambda>v s. Ret (of_int v) s)))"

subsection \<open>Names\<close>

text \<open>\<^verbatim>\<open>end_op(); return -1;\<close> after releasing an inode, a tail shared by many calls.\<close>

definition fail_op :: "'a filest_scheme \<Rightarrow> ('a filest_scheme, uint64) outcome" where
  "fail_op s = bnd (end_op s) (\<lambda>_ s. Ret (-1) s)"

definition add_link :: "nat \<Rightarrow> uint16 \<Rightarrow> 'a fsst_scheme \<Rightarrow> ('a fsst_scheme, unit) outcome" where
  "add_link ip d s = iupdate ip (upd_inode ip (\<lambda>x. x\<lparr>inlink := inlink x + d\<rparr>) s)"

definition sys_link_bad :: "nat \<Rightarrow> 'a filest_scheme \<Rightarrow> ('a filest_scheme, uint64) outcome" where
  "sys_link_bad ip s =
     bnd (ilock (Some ip) s) (\<lambda>_ s.
     bnd (add_link ip (-1) s) (\<lambda>_ s.
     bnd (iunlockput ip s) (\<lambda>_ s.
     fail_op s)))"

definition sys_link :: "uint8 list \<Rightarrow> 'a filest_scheme \<Rightarrow> ('a filest_scheme, uint64) outcome" where
  "sys_link junk s =
     bnd (argstr 0 MAXPATH s) (\<lambda>old s.
     case old of
       None \<Rightarrow> Ret (-1) s
     | Some old \<Rightarrow>
         bnd (argstr 1 MAXPATH s) (\<lambda>new s.
         case new of
           None \<Rightarrow> Ret (-1) s
         | Some new \<Rightarrow>
             bnd (begin_op s) (\<lambda>_ s.
             bnd (namei old s) (\<lambda>ip s.
             case ip of
               None \<Rightarrow> fail_op s
             | Some ip \<Rightarrow>
                 bnd (ilock (Some ip) s) (\<lambda>_ s.
                 if itype (inodes s ip) = T_DIR then bnd (iunlockput ip s) (\<lambda>_ s. fail_op s)
                 else
                   bnd (add_link ip 1 s) (\<lambda>_ s.
                   bnd (iunlock (Some ip) s) (\<lambda>_ s.
                   bnd (nameiparent new s) (\<lambda>r s.
                   case r of
                     (None, name) \<Rightarrow> sys_link_bad ip s
                   | (Some dp, name) \<Rightarrow>
                       bnd (ilock (Some dp) s) (\<lambda>_ s.
                       bnd (if idev (inodes s dp) \<noteq> idev (inodes s ip) then Ret (-1) s
                            else dirlink junk dp name (inum (inodes s ip)) s) (\<lambda>v s.
                       if v < 0 then bnd (iunlockput dp s) (\<lambda>_ s. sys_link_bad ip s)
                       else
                         bnd (iunlockput dp s) (\<lambda>_ s.
                         bnd (iput ip s) (\<lambda>_ s.
                         bnd (end_op s) (\<lambda>_ s. Ret 0 s)))))))))))))"

definition isdirempty :: "nat \<Rightarrow> 'a fsst_scheme \<Rightarrow> ('a fsst_scheme, bool) outcome" where
  "isdirempty dp s =
     bnd (for_return [2..<(unat (isize (inodes s dp)) + 15) div 16] (\<lambda>k s.
       bnd (readi dp RLocal (of_nat (16 * k)) 16 s) (\<lambda>r s.
       if fst r \<noteq> 16 then Panic ''isdirempty: readi''
       else if de_inum (snd r) \<noteq> 0 then Ret (Some False) s
       else Ret None s)) s) (\<lambda>r s.
     Ret (case r of None \<Rightarrow> True | Some b \<Rightarrow> b) s)"

definition dot :: "uint8 list" where "dot = [46]"
definition dotdot :: "uint8 list" where "dotdot = [46, 46]"

definition sys_unlink :: "'a filest_scheme \<Rightarrow> ('a filest_scheme, uint64) outcome" where
  "sys_unlink s =
     bnd (argstr 0 MAXPATH s) (\<lambda>path s.
     case path of
       None \<Rightarrow> Ret (-1) s
     | Some path \<Rightarrow>
         bnd (begin_op s) (\<lambda>_ s.
         bnd (nameiparent path s) (\<lambda>r s.
         case r of
           (None, name) \<Rightarrow> fail_op s
         | (Some dp, name) \<Rightarrow>
             bnd (ilock (Some dp) s) (\<lambda>_ s.
             if namecmp (cbytes name) (cbytes dot) = 0 \<or> namecmp (cbytes name) (cbytes dotdot) = 0 then
               bnd (iunlockput dp s) (\<lambda>_ s. fail_op s)
             else
               bnd (dirlookup dp name s) (\<lambda>r s.
               case r of
                 None \<Rightarrow> bnd (iunlockput dp s) (\<lambda>_ s. fail_op s)
               | Some (ip, off) \<Rightarrow>
                   bnd (ilock (Some ip) s) (\<lambda>_ s.
                   if sint (inlink (inodes s ip)) < 1 then Panic ''unlink: nlink < 1''
                   else
                     bnd (if itype (inodes s ip) = T_DIR then isdirempty ip s else Ret True s) (\<lambda>e s.
                     if \<not> e then
                       bnd (iunlockput ip s) (\<lambda>_ s.
                       bnd (iunlockput dp s) (\<lambda>_ s. fail_op s))
                     else
                       bnd (writei dp (WLocal (replicate 16 0)) (of_nat off) 16 s) (\<lambda>w s.
                       if w \<noteq> 16 then Panic ''unlink: writei''
                       else
                         bnd (if itype (inodes s ip) = T_DIR then add_link dp (-1) s else Ret () s) (\<lambda>_ s.
                         bnd (iunlockput dp s) (\<lambda>_ s.
                         bnd (add_link ip (-1) s) (\<lambda>_ s.
                         bnd (iunlockput ip s) (\<lambda>_ s.
                         bnd (end_op s) (\<lambda>_ s. Ret 0 s)))))))))))))"

text \<open>The part of \<^verbatim>\<open>create\<close> that makes and links the new inode; \<^verbatim>\<open>goto fail\<close> undoes it.\<close>

definition create_fail :: "nat \<Rightarrow> nat \<Rightarrow> 'a fsst_scheme \<Rightarrow> ('a fsst_scheme, nat option) outcome" where
  "create_fail dp ip s =
     bnd (iupdate ip (upd_inode ip (\<lambda>x. x\<lparr>inlink := 0\<rparr>) s)) (\<lambda>_ s.
     bnd (iunlockput ip s) (\<lambda>_ s.
     bnd (iunlockput dp s) (\<lambda>_ s. Ret None s)))"

definition create_new :: "uint8 list \<Rightarrow> nat \<Rightarrow> nat \<Rightarrow> uint8 list \<Rightarrow> uint16 \<Rightarrow> uint16 \<Rightarrow> uint16 \<Rightarrow> 'a fsst_scheme \<Rightarrow>
    ('a fsst_scheme, nat option) outcome" where
  "create_new junk dp ip name type major minor s =
     bnd (ilock (Some ip) s) (\<lambda>_ s.
     bnd (iupdate ip (upd_inode ip (\<lambda>x. x\<lparr>imajor := major, iminor := minor, inlink := 1\<rparr>) s)) (\<lambda>_ s.
     bnd (if type = T_DIR then
            bnd (dirlink junk ip dot (inum (inodes s ip)) s) (\<lambda>r s.
            if r < 0 then Ret r s else dirlink junk ip dotdot (inum (inodes s dp)) s)
          else Ret 0 s) (\<lambda>r s.
     if r < 0 then create_fail dp ip s
     else
       bnd (dirlink junk dp name (inum (inodes s ip)) s) (\<lambda>r s.
       if r < 0 then create_fail dp ip s
       else
         bnd (if type = T_DIR then add_link dp 1 s else Ret () s) (\<lambda>_ s.
         bnd (iunlockput dp s) (\<lambda>_ s. Ret (Some ip) s))))))"

definition create :: "uint8 list \<Rightarrow> uint8 list \<Rightarrow> uint16 \<Rightarrow> uint16 \<Rightarrow> uint16 \<Rightarrow> 'a fsst_scheme \<Rightarrow>
    ('a fsst_scheme, nat option) outcome" where
  "create junk path type major minor s =
     bnd (nameiparent path s) (\<lambda>r s.
     case r of
       (None, name) \<Rightarrow> Ret None s
     | (Some dp, name) \<Rightarrow>
         bnd (ilock (Some dp) s) (\<lambda>_ s.
         bnd (dirlookup dp name s) (\<lambda>r s.
         case r of
           Some (ip, _) \<Rightarrow>
             bnd (iunlockput dp s) (\<lambda>_ s.
             bnd (ilock (Some ip) s) (\<lambda>_ s.
             if type = T_FILE \<and> (itype (inodes s ip) = T_FILE \<or> itype (inodes s ip) = T_DEVICE) then Ret (Some ip) s
             else bnd (iunlockput ip s) (\<lambda>_ s. Ret None s)))
         | None \<Rightarrow>
             bnd (ialloc (idev (inodes s dp)) type s) (\<lambda>r s.
             case r of
               None \<Rightarrow> bnd (iunlockput dp s) (\<lambda>_ s. Ret None s)
             | Some ip \<Rightarrow> create_new junk dp ip name type major minor s))))"

definition O_RDONLY :: uint32 where [simp]: "O_RDONLY = 0"
definition O_WRONLY :: uint32 where [simp]: "O_WRONLY = 1"
definition O_RDWR :: uint32 where [simp]: "O_RDWR = 2"
definition O_CREATE :: uint32 where [simp]: "O_CREATE = 0x200"
definition O_TRUNC :: uint32 where [simp]: "O_TRUNC = 0x400"

text \<open>The inode \<^verbatim>\<open>sys_open\<close> works on, locked.\<close>

definition open_inode :: "uint8 list \<Rightarrow> uint8 list \<Rightarrow> uint32 \<Rightarrow> 'a filest_scheme \<Rightarrow> ('a filest_scheme, nat option) outcome" where
  "open_inode junk path omode s =
     (if omode AND O_CREATE \<noteq> 0 then create junk path T_FILE 0 0 s
      else
        bnd (namei path s) (\<lambda>r s.
        case r of
          None \<Rightarrow> Ret None s
        | Some ip \<Rightarrow>
            bnd (ilock (Some ip) s) (\<lambda>_ s.
            if itype (inodes s ip) = T_DIR \<and> omode \<noteq> O_RDONLY then bnd (iunlockput ip s) (\<lambda>_ s. Ret None s)
            else Ret (Some ip) s)))"

definition open_file :: "nat \<Rightarrow> nat \<Rightarrow> uint32 \<Rightarrow> 'a filest_scheme \<Rightarrow> 'a filest_scheme" where
  "open_file f ip omode s =
     (let s = (if itype (inodes s ip) = T_DEVICE
               then upd_file f (\<lambda>x. x\<lparr>fd_type := FD_DEVICE, fmajor := imajor (inodes s ip)\<rparr>) s
               else upd_file f (\<lambda>x. x\<lparr>fd_type := FD_INODE, foff := 0\<rparr>) s)
      in upd_file f (\<lambda>x. x\<lparr>fip := Some ip, readable := (omode AND O_WRONLY = 0),
           writable := (omode AND O_WRONLY \<noteq> 0 \<or> omode AND O_RDWR \<noteq> 0)\<rparr>) s)"

definition sys_open :: "uint8 list \<Rightarrow> 'a filest_scheme \<Rightarrow> ('a filest_scheme, uint64) outcome" where
  "sys_open junk s =
     bnd (argint 1 s) (\<lambda>omode s.
     bnd (argstr 0 MAXPATH s) (\<lambda>path s.
     case path of
       None \<Rightarrow> Ret (-1) s
     | Some path \<Rightarrow>
         bnd (begin_op s) (\<lambda>_ s.
         bnd (open_inode junk path omode s) (\<lambda>r s.
         case r of
           None \<Rightarrow> fail_op s
         | Some ip \<Rightarrow>
             if itype (inodes s ip) = T_DEVICE \<and> (sint (imajor (inodes s ip)) < 0 \<or> sint (imajor (inodes s ip)) \<ge> int NDEV)
             then bnd (iunlockput ip s) (\<lambda>_ s. fail_op s)
             else
               bnd (filealloc s) (\<lambda>f s.
               case f of
                 None \<Rightarrow> bnd (iunlockput ip s) (\<lambda>_ s. fail_op s)
               | Some f \<Rightarrow>
                   bnd (fdalloc f s) (\<lambda>fd s.
                   case fd of
                     None \<Rightarrow>
                       bnd (fileclose f s) (\<lambda>_ s.
                       bnd (iunlockput ip s) (\<lambda>_ s. fail_op s))
                   | Some fd \<Rightarrow>
                       let s = open_file f ip omode s in
                       bnd (if omode AND O_TRUNC \<noteq> 0 \<and> itype (inodes s ip) = T_FILE then itrunc ip s else Ret () s) (\<lambda>_ s.
                       bnd (iunlock (Some ip) s) (\<lambda>_ s.
                       bnd (end_op s) (\<lambda>_ s. Ret (of_nat fd) s)))))))))"

definition sys_mkdir :: "uint8 list \<Rightarrow> 'a filest_scheme \<Rightarrow> ('a filest_scheme, uint64) outcome" where
  "sys_mkdir junk s =
     bnd (begin_op s) (\<lambda>_ s.
     bnd (argstr 0 MAXPATH s) (\<lambda>path s.
     bnd (case path of None \<Rightarrow> Ret None s | Some path \<Rightarrow> create junk path T_DIR 0 0 s) (\<lambda>r s.
     case r of
       None \<Rightarrow> fail_op s
     | Some ip \<Rightarrow>
         bnd (iunlockput ip s) (\<lambda>_ s.
         bnd (end_op s) (\<lambda>_ s. Ret 0 s)))))"

definition sys_mknod :: "uint8 list \<Rightarrow> 'a filest_scheme \<Rightarrow> ('a filest_scheme, uint64) outcome" where
  "sys_mknod junk s =
     bnd (begin_op s) (\<lambda>_ s.
     bnd (argint 1 s) (\<lambda>major s.
     bnd (argint 2 s) (\<lambda>minor s.
     bnd (argstr 0 MAXPATH s) (\<lambda>path s.
     bnd (case path of None \<Rightarrow> Ret None s | Some path \<Rightarrow> create junk path T_DEVICE (ucast major) (ucast minor) s) (\<lambda>r s.
     case r of
       None \<Rightarrow> fail_op s
     | Some ip \<Rightarrow>
         bnd (iunlockput ip s) (\<lambda>_ s.
         bnd (end_op s) (\<lambda>_ s. Ret 0 s)))))))"

definition sys_chdir :: "'a filest_scheme \<Rightarrow> ('a filest_scheme, uint64) outcome" where
  "sys_chdir = with_myproc (\<lambda>p s.
     bnd (begin_op s) (\<lambda>_ s.
     bnd (argstr 0 MAXPATH s) (\<lambda>path s.
     bnd (case path of None \<Rightarrow> Ret None s | Some path \<Rightarrow> namei path s) (\<lambda>r s.
     case r of
       None \<Rightarrow> fail_op s
     | Some ip \<Rightarrow>
         bnd (ilock (Some ip) s) (\<lambda>_ s.
         if itype (inodes s ip) \<noteq> T_DIR then bnd (iunlockput ip s) (\<lambda>_ s. fail_op s)
         else
           bnd (iunlock (Some ip) s) (\<lambda>_ s.
           bnd (deref (cwd (procs s p)) iput s) (\<lambda>_ s.
           bnd (end_op s) (\<lambda>_ s.
           Ret 0 (upd_proc p (\<lambda>q. q\<lparr>cwd := Some ip\<rparr>) s)))))))))"

subsection \<open>exec and pipe\<close>

text \<open>
  Fetching the argument strings into pages: the pages allocated so far and, unless something
  failed, the strings.
\<close>

fun fetch_argv :: "uint64 \<Rightarrow> nat list \<Rightarrow> uint64 list \<Rightarrow> uint8 list list \<Rightarrow> 'a machine_scheme \<Rightarrow>
    ('a machine_scheme, uint64 list \<times> (uint8 list list) option) outcome" where
  "fetch_argv uargv [] pgs as s = Ret (pgs, None) s"
| "fetch_argv uargv (i # is) pgs as s =
     bnd (fetchaddr (uargv + 8 * of_nat i) s) (\<lambda>u s.
     case u of
       None \<Rightarrow> Ret (pgs, None) s
     | Some uarg \<Rightarrow>
         if uarg = 0 then Ret (pgs, Some as) s
         else
           bnd (kalloc s) (\<lambda>pg s.
           if pg = 0 then Ret (pgs, None) s
           else
             bnd (fetchstr uarg 4096 s) (\<lambda>a s.
             case a of
               None \<Rightarrow> Ret (pgs @ [pg], None) s
             | Some a \<Rightarrow> fetch_argv uargv is (pgs @ [pg]) (as @ [a]) (s\<lparr>mem := store_bytes (mem s) pg (a @ [0])\<rparr>))))"

definition sys_exec :: "ksyms \<Rightarrow> 'a filest_scheme \<Rightarrow> ('a filest_scheme, uint64) outcome" where
  "sys_exec ks s =
     bnd (argaddr 1 s) (\<lambda>uargv s.
     bnd (argstr 0 MAXPATH s) (\<lambda>path s.
     case path of
       None \<Rightarrow> Ret (-1) s
     | Some path \<Rightarrow>
         bnd (fetch_argv uargv [0..<MAXARG] [] [] s) (\<lambda>r s.
         bnd (case snd r of None \<Rightarrow> Ret (-1) s | Some argv \<Rightarrow> kexec ks path argv s) (\<lambda>ret s.
         bnd (for_each (fst r) kfree s) (\<lambda>_ s.
         Ret (of_int ret) s)))))"

definition close_both :: "nat \<Rightarrow> nat \<Rightarrow> 'a filest_scheme \<Rightarrow> ('a filest_scheme, uint64) outcome" where
  "close_both rfl wfl s =
     bnd (fileclose rfl s) (\<lambda>_ s.
     bnd (fileclose wfl s) (\<lambda>_ s. Ret (-1) s))"

definition sys_pipe :: "'a filest_scheme \<Rightarrow> ('a filest_scheme, uint64) outcome" where
  "sys_pipe = with_myproc (\<lambda>p s.
     bnd (argaddr 0 s) (\<lambda>fdarray s.
     bnd (pipealloc s) (\<lambda>r s.
     case r of
       None \<Rightarrow> Ret (-1) s
     | Some (rfl, wfl) \<Rightarrow>
         bnd (fdalloc rfl s) (\<lambda>r0 s.
         case r0 of
           None \<Rightarrow> close_both rfl wfl s
         | Some fd0 \<Rightarrow>
             bnd (fdalloc wfl s) (\<lambda>r1 s.
             case r1 of
               None \<Rightarrow> bnd (clear_fd fd0 s) (\<lambda>_ s. close_both rfl wfl s)
             | Some fd1 \<Rightarrow>
                 bnd (copyout (pagetable (procs s p)) fdarray (le_bytes 4 (of_nat fd0 :: uint32)) s) (\<lambda>v s.
                 bnd (if v < 0 then Ret v s
                      else copyout (pagetable (procs s p)) (fdarray + 4) (le_bytes 4 (of_nat fd1 :: uint32)) s) (\<lambda>v s.
                 if v < 0 then
                   bnd (clear_fd fd0 s) (\<lambda>_ s.
                   bnd (clear_fd fd1 s) (\<lambda>_ s. close_both rfl wfl s))
                 else Ret 0 s)))))))"

end
