(* ===== verification/Virtio.thy ===== *)
theory Virtio
  imports File
begin

section \<open>The disk driver (virtio_disk.c)\<close>

text \<open>
  \<^verbatim>\<open>riscv/kernel/virtio_disk.c\<close>: the descriptors and rings shared with the device, submitting a
  request, the completion interrupt. A descriptor points to one of the driver's structures; the
  model names them (\<open>Req i\<close> for \<^verbatim>\<open>disk.ops[i]\<close>, \<open>Data b\<close> for the data of buffer \<open>b\<close>, \<open>Status i\<close> for
  \<^verbatim>\<open>disk.info[i].status\<close>). Register writes are recorded in order.

  The device is not part of the sources: \<open>used_idx_dev\<close> and \<open>used_ring\<close> are the part of the shared
  memory that it writes.
\<close>

subsection \<open>State\<close>

definition NUM :: nat where [simp]: "NUM = 8"
definition VRING_DESC_F_NEXT :: uint16 where [simp]: "VRING_DESC_F_NEXT = 1"
definition VRING_DESC_F_WRITE :: uint16 where [simp]: "VRING_DESC_F_WRITE = 2"
definition VIRTIO_BLK_T_IN :: uint32 where [simp]: "VIRTIO_BLK_T_IN = 0"
definition VIRTIO_BLK_T_OUT :: uint32 where [simp]: "VIRTIO_BLK_T_OUT = 1"

datatype dma = Null | Req nat | Data nat | Status nat

record virtq_desc =
  vd_addr :: dma
  vd_len :: uint32
  vd_flags :: uint16
  vd_next :: uint16

record virtio_blk_req =
  rq_type :: uint32
  rq_reserved :: uint32
  rq_sector :: uint64

record vinfo =
  vi_buf :: "nat option"
  vi_status :: uint8

record vdiskst = filest +
  desc :: "nat \<Rightarrow> virtq_desc"
  avail_idx :: uint16
  avail_ring :: "nat \<Rightarrow> uint16"
  used_idx_dev :: uint16
  used_ring :: "nat \<Rightarrow> uint32"
  dfree :: "nat \<Rightarrow> bool"
  used_idx :: uint16
  info :: "nat \<Rightarrow> vinfo"
  ops :: "nat \<Rightarrow> virtio_blk_req"
  bdisk :: "nat \<Rightarrow> bool"
  mmio :: "(nat \<times> uint32) list"

definition upd_desc :: "nat \<Rightarrow> (virtq_desc \<Rightarrow> virtq_desc) \<Rightarrow> 'a vdiskst_scheme \<Rightarrow> 'a vdiskst_scheme" where
  "upd_desc i f s = s\<lparr>desc := (desc s)(i := f (desc s i))\<rparr>"

definition upd_info :: "nat \<Rightarrow> (vinfo \<Rightarrow> vinfo) \<Rightarrow> 'a vdiskst_scheme \<Rightarrow> 'a vdiskst_scheme" where
  "upd_info i f s = s\<lparr>info := (info s)(i := f (info s i))\<rparr>"

definition wr_mmio :: "nat \<Rightarrow> uint32 \<Rightarrow> 'a vdiskst_scheme \<Rightarrow> 'a vdiskst_scheme" where
  "wr_mmio r v s = s\<lparr>mmio := mmio s @ [(r, v)]\<rparr>"

subsection \<open>Descriptors\<close>

definition alloc_desc :: "'a vdiskst_scheme \<Rightarrow> nat option \<times> 'a vdiskst_scheme" where
  "alloc_desc s =
     (case find (dfree s) [0..<NUM] of
        None \<Rightarrow> (None, s)
      | Some i \<Rightarrow> (Some i, s\<lparr>dfree := (dfree s)(i := False)\<rparr>))"

definition null_desc :: virtq_desc where
  "null_desc = \<lparr>vd_addr = Null, vd_len = 0, vd_flags = 0, vd_next = 0\<rparr>"

definition free_desc :: "nat \<Rightarrow> 'a vdiskst_scheme \<Rightarrow> ('a vdiskst_scheme, unit) outcome" where
  "free_desc i s =
     (if i \<ge> NUM then Panic ''free_desc 1''
      else if dfree s i then Panic ''free_desc 2''
      else
        let s = upd_desc i (\<lambda>_. null_desc) s; s = s\<lparr>dfree := (dfree s)(i := True)\<rparr>
        in wakeup (Some Chan_disk_free) s)"

lemma free_desc_frame:
  assumes "free_desc i s = Ret () s'"
  shows "i < NUM" "\<not> dfree s i" "dfree s' = (dfree s)(i := True)" "desc s' = (desc s)(i := null_desc)"
  using assms by (auto simp: free_desc_def upd_desc_def Let_def dest!: wakeup_procs split: if_splits)

lemma free_desc_measure:
  assumes "free_desc i s = Ret () s'"
  shows "card {j. j < NUM \<and> \<not> dfree s' j} < card {j. j < NUM \<and> \<not> dfree s j}"
  by (rule psubset_card_mono) (use free_desc_frame [OF assms] in \<open>auto split: if_splits\<close>)

text \<open>Every round of \<^verbatim>\<open>free_chain\<close> frees a descriptor that was in use.\<close>

function free_chain :: "nat \<Rightarrow> 'a vdiskst_scheme \<Rightarrow> ('a vdiskst_scheme, unit) outcome" where
  "free_chain i s =
     (let flag = vd_flags (desc s i); nxt = vd_next (desc s i) in
      bnd (free_desc i s) (\<lambda>_ s.
      if flag AND VRING_DESC_F_NEXT \<noteq> 0 then free_chain (unat nxt) s else Ret () s))"
  by pat_completeness auto
termination
  by (relation "measure (\<lambda>(i, s). card {j. j < NUM \<and> \<not> dfree s j})") (auto dest: free_desc_measure simp del: NUM_def)

declare free_chain.simps [simp del]

text \<open>When one of the three is missing, those already taken are freed again.\<close>

definition alloc3_desc :: "'a vdiskst_scheme \<Rightarrow> ('a vdiskst_scheme, (nat \<times> nat \<times> nat) option) outcome" where
  "alloc3_desc s =
     (case alloc_desc s of
        (None, s) \<Rightarrow> Ret None s
      | (Some i0, s) \<Rightarrow>
          (case alloc_desc s of
             (None, s) \<Rightarrow> bnd (free_desc i0 s) (\<lambda>_ s. Ret None s)
           | (Some i1, s) \<Rightarrow>
               (case alloc_desc s of
                  (None, s) \<Rightarrow> bnd (free_desc i0 s) (\<lambda>_ s. bnd (free_desc i1 s) (\<lambda>_ s. Ret None s))
                | (Some i2, s) \<Rightarrow> Ret (Some (i0, i1, i2)) s)))"

subsection \<open>Requests\<close>

definition sector :: "uint32 \<Rightarrow> uint64" where
  "sector blockno = ucast (blockno * of_nat (BSIZE div 512))"

text \<open>Filling in the three descriptors and handing the first one to the device.\<close>

definition format_request :: "nat \<Rightarrow> bool \<Rightarrow> nat \<times> nat \<times> nat \<Rightarrow> 'a vdiskst_scheme \<Rightarrow> 'a vdiskst_scheme" where
  "format_request b write idx s =
     (case idx of (i0, i1, i2) \<Rightarrow>
      let s = s\<lparr>ops := (ops s)(i0 := \<lparr>rq_type = (if write then VIRTIO_BLK_T_OUT else VIRTIO_BLK_T_IN),
                rq_reserved = 0, rq_sector = sector (bblockno (bufs s b))\<rparr>)\<rparr>;
          s = upd_desc i0 (\<lambda>_. \<lparr>vd_addr = Req i0, vd_len = 16, vd_flags = VRING_DESC_F_NEXT, vd_next = of_nat i1\<rparr>) s;
          s = upd_desc i1 (\<lambda>_. \<lparr>vd_addr = Data b, vd_len = of_nat BSIZE,
                vd_flags = (if write then 0 else VRING_DESC_F_WRITE) OR VRING_DESC_F_NEXT, vd_next = of_nat i2\<rparr>) s;
          s = upd_info i0 (\<lambda>x. x\<lparr>vi_status := 0xFF\<rparr>) s;
          s = upd_desc i2 (\<lambda>_. \<lparr>vd_addr = Status i0, vd_len = 1, vd_flags = VRING_DESC_F_WRITE, vd_next = 0\<rparr>) s;
          s = s\<lparr>bdisk := (bdisk s)(b := True)\<rparr>
      in upd_info i0 (\<lambda>x. x\<lparr>vi_buf := Some b\<rparr>) s)"

definition submit_request :: "nat \<Rightarrow> 'a vdiskst_scheme \<Rightarrow> 'a vdiskst_scheme" where
  "submit_request i0 s =
     (let s = s\<lparr>avail_ring := (avail_ring s)(unat (avail_idx s) mod NUM := of_nat i0)\<rparr>;
          s = s\<lparr>avail_idx := avail_idx s + 1\<rparr>
      in wr_mmio 0x050 0 s)"

text \<open>
  \<open>rw_from\<close> is a round of the loop that waits for descriptors; after submitting, \<^verbatim>\<open>b->disk\<close> is 1 and
  the caller sleeps. \<open>rw_wait\<close> is what it does each time it wakes up.
\<close>

definition rw_from :: "nat \<Rightarrow> bool \<Rightarrow> 'a vdiskst_scheme \<Rightarrow> ('a vdiskst_scheme, nat) outcome" where
  "rw_from b write s =
     bnd (alloc3_desc s) (\<lambda>r s.
     case r of
       None \<Rightarrow> sleep Chan_disk_free Lk_vdisk s
     | Some (i0, i1, i2) \<Rightarrow> Ret i0 (submit_request i0 (format_request b write (i0, i1, i2) s)))"

definition virtio_disk_rw :: "nat \<Rightarrow> bool \<Rightarrow> 'a vdiskst_scheme \<Rightarrow> ('a vdiskst_scheme, unit) outcome" where
  "virtio_disk_rw b write s =
     bnd (acquire Lk_vdisk s) (\<lambda>_ s.
     bnd (rw_from b write s) (\<lambda>_ s. sleep (Chan_disk_buf b) Lk_vdisk s))"

definition virtio_disk_rw_retry :: "nat \<Rightarrow> bool \<Rightarrow> 'a vdiskst_scheme \<Rightarrow> ('a vdiskst_scheme, unit) outcome" where
  "virtio_disk_rw_retry b write s =
     bnd (sleep_resume Lk_vdisk s) (\<lambda>_ s.
     bnd (rw_from b write s) (\<lambda>_ s. sleep (Chan_disk_buf b) Lk_vdisk s))"

definition virtio_disk_rw_wait :: "nat \<Rightarrow> nat \<Rightarrow> 'a vdiskst_scheme \<Rightarrow> ('a vdiskst_scheme, unit) outcome" where
  "virtio_disk_rw_wait b i0 s =
     bnd (sleep_resume Lk_vdisk s) (\<lambda>_ s.
     if bdisk s b then sleep (Chan_disk_buf b) Lk_vdisk s
     else
       bnd (free_chain i0 (upd_info i0 (\<lambda>x. x\<lparr>vi_buf := None\<rparr>) s)) (\<lambda>_ s.
       release Lk_vdisk s))"

subsection \<open>The completion interrupt\<close>

definition complete_one :: "'a vdiskst_scheme \<Rightarrow> ('a vdiskst_scheme, unit) outcome" where
  "complete_one s =
     (let i = unat (used_ring s (unat (used_idx s) mod NUM)) in
      if i \<ge> NUM then Panic ''out of bounds''
      else if vi_status (info s i) \<noteq> 0 then Panic ''virtio_disk_intr status''
      else deref (vi_buf (info s i)) (\<lambda>b s. wakeup (Some (Chan_disk_buf b)) (s\<lparr>bdisk := (bdisk s)(b := False)\<rparr>)) s)"

lemma complete_one_frame:
  "complete_one s = Ret () s' \<Longrightarrow> used_idx s' = used_idx s \<and> used_idx_dev s' = used_idx_dev s"
  by (auto simp: complete_one_def deref_def Let_def dest!: wakeup_procs split: if_splits option.splits)

lemma used_less: "u \<noteq> d \<Longrightarrow> unat (d - (u + 1)) < unat (d - u)" for u d :: uint16
proof -
  assume "u \<noteq> d"
  then have "d - u \<noteq> 0"
    by simp
  then have "unat (d - u - 1) < unat (d - u)"
    by (metis measure_unat)
  then show ?thesis
    by (simp add: algebra_simps)
qed

function intr_loop :: "'a vdiskst_scheme \<Rightarrow> ('a vdiskst_scheme, unit) outcome" where
  "intr_loop s =
     (if used_idx s \<noteq> used_idx_dev s then
        bnd (complete_one s) (\<lambda>_ s. intr_loop (s\<lparr>used_idx := used_idx s + 1\<rparr>))
      else Ret () s)"
  by pat_completeness auto
termination
  by (relation "measure (\<lambda>s. unat (used_idx_dev s - used_idx s))") (auto dest!: complete_one_frame simp: used_less)

declare intr_loop.simps [simp del]

definition virtio_disk_intr :: "uint32 \<Rightarrow> 'a vdiskst_scheme \<Rightarrow> ('a vdiskst_scheme, unit) outcome" where
  "virtio_disk_intr intr_status s =
     bnd (acquire Lk_vdisk s) (\<lambda>_ s.
     let s = wr_mmio 0x064 (intr_status AND 3) s in
     bnd (intr_loop s) (\<lambda>_ s.
     release Lk_vdisk s))"

subsection \<open>Initialisation\<close>

definition feature_mask :: uint32 where
  "feature_mask = NOT (push_bit 5 1 OR push_bit 7 1 OR push_bit 11 1 OR push_bit 12 1 OR push_bit 27 1 OR
     push_bit 29 1 OR push_bit 28 1)"

text \<open>\<open>rd r\<close> is what reading register \<open>r\<close> gives.\<close>

definition virtio_disk_init :: "(nat \<Rightarrow> uint32) \<Rightarrow> 'a vdiskst_scheme \<Rightarrow> ('a vdiskst_scheme, unit) outcome" where
  "virtio_disk_init rd s =
     (if rd 0x000 \<noteq> 0x74726976 \<or> rd 0x004 \<noteq> 2 \<or> rd 0x008 \<noteq> 2 \<or> rd 0x00c \<noteq> 0x554d4551
      then Panic ''could not find virtio disk''
      else
        let s = wr_mmio 0x070 0 s; s = wr_mmio 0x070 1 s; s = wr_mmio 0x070 3 s;
            s = wr_mmio 0x020 (rd 0x010 AND feature_mask) s;
            s = wr_mmio 0x070 11 s;
            status = rd 0x070 in
        if status AND 8 = 0 then Panic ''virtio disk FEATURES_OK unset''
        else
          let s = wr_mmio 0x030 0 s in
          if rd 0x044 \<noteq> 0 then Panic ''virtio disk should not be ready''
          else if rd 0x034 = 0 then Panic ''virtio disk has no queue 0''
          else if unat (rd 0x034) < NUM then Panic ''virtio disk max queue too short''
          else
            bnd (kalloc s) (\<lambda>d s.
            bnd (kalloc s) (\<lambda>a s.
            bnd (kalloc s) (\<lambda>u s.
            if d = 0 \<or> a = 0 \<or> u = 0 then Panic ''virtio disk kalloc''
            else
              let s = s\<lparr>mem := memset (memset (memset (mem s) d 0 4096) a 0 4096) u 0 4096,
                        desc := (\<lambda>_. null_desc), avail_idx := 0, avail_ring := (\<lambda>_. 0),
                        used_idx_dev := 0, used_ring := (\<lambda>_. 0)\<rparr>;
                  s = wr_mmio 0x038 (of_nat NUM) s;
                  s = wr_mmio 0x080 (ucast d) s; s = wr_mmio 0x084 (ucast (drop_bit 32 d)) s;
                  s = wr_mmio 0x090 (ucast a) s; s = wr_mmio 0x094 (ucast (drop_bit 32 a)) s;
                  s = wr_mmio 0x0a0 (ucast u) s; s = wr_mmio 0x0a4 (ucast (drop_bit 32 u)) s;
                  s = wr_mmio 0x044 1 s;
                  s = s\<lparr>dfree := (\<lambda>i. i < NUM \<or> dfree s i)\<rparr>
              in Ret () (wr_mmio 0x070 (status OR 4) s)))))"

end
