(* ===== verification/VirtioSafe.thy ===== *)
theory VirtioSafe
  imports Virtio
begin

section \<open>The disk driver is safe and serves requests in order\<close>

text \<open>
  The driver of \<^verbatim>\<open>riscv/kernel/virtio_disk.c\<close> with several requests in flight: callers submit
  requests, the device serves them, the interrupt handler acknowledges them and the callers free
  their descriptors, in any interleaving. The device is the parameter \<open>dev\<close>; \<open>serves dev\<close> is what the
  virtio specification promises of it.
\<close>

subsection \<open>The device\<close>

text \<open>
  \<open>dev la s\<close> is the state after the device has served the request in slot \<open>la\<close> of the available ring:
  it follows the chain of three descriptors, transfers the block, sets the status byte to 0 and
  puts the head of the chain into the used ring. A sector has 512 bytes, so the block \<open>n\<close> is at
  sector \<open>2 n\<close>.
\<close>

definition nx :: "'a vdiskst_scheme \<Rightarrow> nat \<Rightarrow> nat" where
  "nx s i = unat (vd_next (desc s i))"

definition transfer :: "bool \<Rightarrow> nat \<Rightarrow> uint32 \<Rightarrow> 'a vdiskst_scheme \<Rightarrow> 'a vdiskst_scheme" where
  "transfer out b n s =
     (if out then s\<lparr>disk := (disk s)(n := bdata (bufs s b)), dwrites := dwrites s @ [(n, bdata (bufs s b))]\<rparr>
      else s\<lparr>bufs := (bufs s)(b := (bufs s b)\<lparr>bdata := disk s n\<rparr>)\<rparr>)"

definition serves :: "(uint16 \<Rightarrow> 'a vdiskst_scheme \<Rightarrow> 'a vdiskst_scheme) \<Rightarrow> bool" where
  "serves dev \<longleftrightarrow> (\<forall>la s i0 i1 i2 k b j n out.
     la \<noteq> avail_idx s \<and> i0 = unat (avail_ring s (slot_of NUM la)) \<and> i1 = nx s i0 \<and> i2 = nx s i1 \<and>
     i0 < NUM \<and> i1 < NUM \<and> i2 < NUM \<and>
     vd_addr (desc s i0) = Req k \<and> vd_len (desc s i0) = 16 \<and> vd_flags (desc s i0) AND 1 = 1 \<and>
     vd_addr (desc s i1) = Data b \<and> vd_len (desc s i1) = 1024 \<and> vd_flags (desc s i1) AND 1 = 1 \<and>
     vd_addr (desc s i2) = Status j \<and> vd_len (desc s i2) = 1 \<and> vd_flags (desc s i2) = 2 \<and>
     rq_sector (ops s k) = 2 * ucast n \<and> rq_type (ops s k) = (if out then 1 else 0) \<and>
     (vd_flags (desc s i1) AND 2 = 0 \<longleftrightarrow> out) \<longrightarrow>
     dev la s = (transfer out b n s)\<lparr>info := (info s)(j := (info s j)\<lparr>vi_status := 0\<rparr>),
       used_ring := (used_ring s)(slot_of NUM (used_idx_dev s) := of_nat i0), used_idx_dev := used_idx_dev s + 1\<rparr>)"

subsection \<open>The driver and its callers\<close>

text \<open>
  A waiting caller is the buffer, the direction and the first of the three descriptors of its
  request, its local variables while it sleeps. \<open>S\<close> are the requests the device has served. Between
  the steps the rest of the kernel may change anything but the driver's state and the buffers in
  flight, which their callers have locked.
\<close>

type_synonym waiter = "nat \<times> bool \<times> nat"

abbreviation whead :: "waiter \<Rightarrow> nat" where
  "whead r \<equiv> snd (snd r)"

definition same_driver :: "nat set \<Rightarrow> 'a vdiskst_scheme \<Rightarrow> 'a vdiskst_scheme \<Rightarrow> bool" where
  "same_driver B s s' \<longleftrightarrow> desc s' = desc s \<and> avail_idx s' = avail_idx s \<and> avail_ring s' = avail_ring s \<and>
     used_idx_dev s' = used_idx_dev s \<and> used_ring s' = used_ring s \<and> dfree s' = dfree s \<and> used_idx s' = used_idx s \<and>
     info s' = info s \<and> ops s' = ops s \<and> bdisk s' = bdisk s \<and> (\<forall>b \<in> B. bufs s' b = bufs s b)"

definition vq_idle :: "'a vdiskst_scheme \<Rightarrow> bool" where
  "vq_idle s \<longleftrightarrow> (\<forall>i < NUM. dfree s i) \<and> used_idx s = used_idx_dev s"

inductive vreach :: "(uint16 \<Rightarrow> 'a vdiskst_scheme \<Rightarrow> 'a vdiskst_scheme) \<Rightarrow> 'a vdiskst_scheme \<Rightarrow> uint16 \<Rightarrow>
    waiter list \<Rightarrow> nat set \<Rightarrow> bool" for dev where
  idle: "vq_idle s \<Longrightarrow> vreach dev s (avail_idx s) [] {}"
| submit: "vreach dev s la W S \<Longrightarrow> b \<notin> fst ` set W \<Longrightarrow> unat (bblockno (bufs s b)) < 2 ^ 31 \<Longrightarrow>
    rw_from b w s = Ret i0 s' \<Longrightarrow> vreach dev s' la (W @ [(b, w, i0)]) S"
| serve: "vreach dev s la W S \<Longrightarrow> la \<noteq> avail_idx s \<Longrightarrow>
    vreach dev (dev la s) (la + 1) W (insert (unat (avail_ring s (slot_of NUM la))) S)"
| intr: "vreach dev s la W S \<Longrightarrow> intr_loop s = Ret () s' \<Longrightarrow> vreach dev s' la W S"
| finish: "vreach dev s la W S \<Longrightarrow> (b, w, i0) \<in> set W \<Longrightarrow> \<not> bdisk s b \<Longrightarrow>
    free_chain i0 (upd_info i0 (\<lambda>x. x\<lparr>vi_buf := None\<rparr>) s) = Ret () s' \<Longrightarrow>
    vreach dev s' la (remove1 (b, w, i0) W) (S - {i0})"
| other: "vreach dev s la W S \<Longrightarrow> same_driver (fst ` set W) s s' \<Longrightarrow> vreach dev s' la W S"

subsection \<open>The invariant\<close>

definition chain :: "'a vdiskst_scheme \<Rightarrow> nat \<Rightarrow> nat list" where
  "chain s i = [i, nx s i, nx s (nx s i)]"

definition chain_ok :: "'a vdiskst_scheme \<Rightarrow> waiter \<Rightarrow> bool" where
  "chain_ok s r = (case r of (b, w, i) \<Rightarrow>
     i < NUM \<and> nx s i < NUM \<and> nx s (nx s i) < NUM \<and>
     desc s i = \<lparr>vd_addr = Req i, vd_len = 16, vd_flags = 1, vd_next = of_nat (nx s i)\<rparr> \<and>
     desc s (nx s i) = \<lparr>vd_addr = Data b, vd_len = 1024, vd_flags = (if w then 1 else 3), vd_next = of_nat (nx s (nx s i))\<rparr> \<and>
     desc s (nx s (nx s i)) = \<lparr>vd_addr = Status i, vd_len = 1, vd_flags = 2, vd_next = 0\<rparr>)"

definition req_ok :: "'a vdiskst_scheme \<Rightarrow> waiter \<Rightarrow> bool" where
  "req_ok s r = (case r of (b, w, i) \<Rightarrow>
     chain_ok s r \<and> unat (bblockno (bufs s b)) < 2 ^ 31 \<and>
     ops s i = \<lparr>rq_type = (if w then 1 else 0), rq_reserved = 0, rq_sector = sector (bblockno (bufs s b))\<rparr> \<and>
     vi_buf (info s i) = Some b)"

definition chains :: "'a vdiskst_scheme \<Rightarrow> waiter list \<Rightarrow> nat list" where
  "chains s W = concat (map (\<lambda>r. chain s (whead r)) W)"

definition unserved :: "waiter list \<Rightarrow> nat set \<Rightarrow> waiter list" where
  "unserved W S = filter (\<lambda>r. whead r \<notin> S) W"

definition vq_ok :: "'a vdiskst_scheme \<Rightarrow> uint16 \<Rightarrow> waiter list \<Rightarrow> nat set \<Rightarrow> nat list \<Rightarrow> bool" where
  "vq_ok s la W S U \<longleftrightarrow>
     list_all (req_ok s) W \<and> distinct (chains s W) \<and> (\<forall>i < NUM. dfree s i \<longleftrightarrow> i \<notin> set (chains s W)) \<and>
     distinct (map fst W) \<and> S \<subseteq> whead ` set W \<and>
     ring_list NUM (avail_ring s) la (avail_idx s) = map (\<lambda>r. of_nat (whead r)) (unserved W S) \<and>
     ring_list NUM (used_ring s) (used_idx s) (used_idx_dev s) = map of_nat U \<and> distinct U \<and> set U \<subseteq> S \<and>
     (\<forall>i \<in> S. vi_status (info s i) = 0) \<and>
     (\<forall>r \<in> set W. bdisk s (fst r) \<longleftrightarrow> whead r \<notin> S \<or> whead r \<in> set U)"

interpretation vq_ring: ring NUM "TYPE(16)"
  by unfold_locales simp_all

lemma vq_okD:
  assumes "vq_ok s la W S U"
  shows "\<And>r. r \<in> set W \<Longrightarrow> req_ok s r" "distinct (chains s W)" "\<And>i. i < NUM \<Longrightarrow> dfree s i \<longleftrightarrow> i \<notin> set (chains s W)"
    "distinct (map fst W)" "S \<subseteq> whead ` set W"
    "ring_list NUM (avail_ring s) la (avail_idx s) = map (\<lambda>r. of_nat (whead r)) (unserved W S)"
    "ring_list NUM (used_ring s) (used_idx s) (used_idx_dev s) = map of_nat U" "distinct U" "set U \<subseteq> S"
    "\<And>i. i \<in> S \<Longrightarrow> vi_status (info s i) = 0"
    "\<And>r. r \<in> set W \<Longrightarrow> bdisk s (fst r) \<longleftrightarrow> whead r \<notin> S \<or> whead r \<in> set U"
  using assms by (auto simp: vq_ok_def list_all_iff)

text \<open>The fields of a request that the invariant reads.\<close>

lemma req_ok_cong:
  assumes "\<And>i. i \<in> set (chain s (whead r)) \<Longrightarrow> desc s' i = desc s i" "ops s' (whead r) = ops s (whead r)"
    "vi_buf (info s' (whead r)) = vi_buf (info s (whead r))" "bblockno (bufs s' (fst r)) = bblockno (bufs s (fst r))"
  shows "chain s' (whead r) = chain s (whead r)" "req_ok s' r = req_ok s r"
proof -
  obtain b w i where r: "r = (b, w, i)"
    by (cases r)
  have "nx s' i = nx s i" "nx s' (nx s i) = nx s (nx s i)"
    using assms(1) by (simp_all add: r chain_def nx_def)
  then show "chain s' (whead r) = chain s (whead r)" "req_ok s' r = req_ok s r"
    using assms by (simp_all add: r req_ok_def chain_ok_def chain_def)
qed

lemma chains_cong: "desc s' = desc s \<Longrightarrow> chains s' W = chains s W"
  by (simp add: chains_def chain_def nx_def)

lemma vq_ok_other:
  assumes ok: "vq_ok s la W S U" and same: "same_driver (fst ` set W) s s'"
  shows "vq_ok s' la W S U"
proof -
  have "list_all (req_ok s') W"
    using vq_okD(1) [OF ok] same req_ok_cong(2) [of s _ s'] by (fastforce simp: list_all_iff same_driver_def)
  then show ?thesis
    using ok same chains_cong [of s' s W] by (simp add: vq_ok_def same_driver_def)
qed

lemma vq_ok_idle: "vq_idle s \<Longrightarrow> vq_ok s (avail_idx s) [] {} []"
  by (simp add: vq_ok_def vq_idle_def chains_def unserved_def)

text \<open>At most two requests are in flight: each has three of the eight descriptors.\<close>

lemma chains_bound:
  assumes ok: "vq_ok s la W S U"
  shows "set (chains s W) \<subseteq> {..<NUM}" "3 * length W \<le> NUM"
proof -
  show sub: "set (chains s W) \<subseteq> {..<NUM}"
    using vq_okD(1) [OF ok] by (fastforce simp: chains_def chain_def req_ok_def chain_ok_def)
  have "length (chains s W) = 3 * length W"
    by (induction W) (simp_all add: chains_def chain_def)
  moreover have "length (chains s W) \<le> NUM"
    using sub vq_okD(2) [OF ok] card_mono [OF _ sub] by (simp add: distinct_card)
  ultimately show "3 * length W \<le> NUM"
    by simp
qed

lemma whead_chain: "r \<in> set W \<Longrightarrow> set (chain s (whead r)) \<subseteq> set (chains s W)"
  by (auto simp: chains_def)

lemma heads_distinct: "distinct (chains s W) \<Longrightarrow> distinct (map whead W)"
  by (induction W) (auto simp: chains_def chain_def)

lemma same_head:
  assumes "vq_ok s la W S U" "r \<in> set W" "r' \<in> set W" "whead r = whead r'"
  shows "r = r'"
  using heads_distinct [OF vq_okD(2) [OF assms(1)]] assms(2-4) by (metis (no_types, lifting) comp_apply distinct_map inj_onD)

lemma same_buf:
  assumes "vq_ok s la W S U" "r \<in> set W" "r' \<in> set W" "fst r = fst r'"
  shows "r = r'"
  using vq_okD(4) [OF assms(1)] assms(2-4) by (meson distinct_map inj_onD)

lemma chain_disjoint:
  assumes "vq_ok s la W S U" "r \<in> set W" "r' \<in> set W" "r \<noteq> r'"
  shows "set (chain s (whead r)) \<inter> set (chain s (whead r')) = {}"
proof -
  obtain xs ys where "W = xs @ r # ys"
    using assms(2) split_list by fast
  then show ?thesis
    using vq_okD(2) [OF assms(1)] assms(3,4) by (auto simp: chains_def)
qed

lemma served_bound: "vq_ok s la W S U \<Longrightarrow> length U < NUM"
proof -
  assume ok: "vq_ok s la W S U"
  have "set U \<subseteq> whead ` set W"
    using vq_okD(5,9) [OF ok] by blast
  then have "card (set U) \<le> length W"
    using card_mono [of "whead ` set W" "set U"] card_image_le [of "set W" whead] card_length [of W] by simp
  then show ?thesis
    using distinct_card [OF vq_okD(8) [OF ok]] chains_bound(2) [OF ok] by simp
qed

text \<open>The request at the front of the available ring.\<close>

lemma oldest_request:
  assumes ok: "vq_ok s la W S U" and la: "la \<noteq> avail_idx s"
  obtains b w i rs where "unserved W S = (b, w, i) # rs" "(b, w, i) \<in> set W" "i \<notin> S"
    "unat (avail_ring s (slot_of NUM la)) = i"
    "ring_list NUM (avail_ring s) (la + 1) (avail_idx s) = map (\<lambda>r. of_nat (whead r)) rs"
    "unserved W (insert i S) = rs"
proof -
  note pop = vq_ring.pop [OF la, of "avail_ring s"]
  obtain r rs where u: "unserved W S = r # rs"
    using pop vq_okD(6) [OF ok] by (cases "unserved W S") auto
  obtain b w i where r: "r = (b, w, i)"
    by (cases r)
  have m: "(b, w, i) \<in> set W" "i \<notin> S"
    using u r filter_eq_ConsD [of "\<lambda>r. whead r \<notin> S" W r rs] by (auto simp: unserved_def)
  have i: "i < NUM"
    using vq_okD(1) [OF ok m(1)] by (simp add: req_ok_def chain_ok_def)
  have "avail_ring s (slot_of NUM la) = of_nat i" "ring_list NUM (avail_ring s) (la + 1) (avail_idx s) = map (\<lambda>r. of_nat (whead r)) rs"
    using pop vq_okD(6) [OF ok] u r by simp_all
  moreover have "unserved W (insert i S) = rs"
  proof -
    have "unserved W (insert i S) = filter (\<lambda>r. whead r \<noteq> i) (unserved W S)"
      by (auto simp: unserved_def intro: filter_cong)
    moreover have "distinct (map whead (unserved W S))"
      using heads_distinct [OF vq_okD(2) [OF ok]] by (simp add: unserved_def distinct_map_filter)
    then have "i \<notin> whead ` set rs"
      using u r by simp
    then have "filter (\<lambda>r. whead r \<noteq> i) rs = rs"
      by (intro filter_True) force
    ultimately show ?thesis
      using u r by simp
  qed
  moreover have "unat (of_nat i :: uint16) = i"
    using i by (simp add: unat_of_nat take_bit_nat_eq_self)
  ultimately show thesis
    using that u r m by simp
qed

subsection \<open>The device\<close>

lemma sector_eq: "unat (n :: uint32) < 2 ^ 31 \<Longrightarrow> sector n = 2 * ucast n"
proof -
  assume n: "unat n < 2 ^ 31"
  have "unat (n * 2) = unat n * 2"
    using n by (subst unat_mult_lem [THEN iffD1]) simp_all
  moreover have "unat (ucast x :: uint64) = unat x" for x :: uint32
    using unsigned_less [where 'a = nat, of x] by (simp add: unsigned_ucast_eq take_bit_nat_eq_self)
  ultimately have "unat (sector n) = unat (2 * ucast n :: uint64)"
    using n by (simp add: sector_def unat_word_ariths)
  then show ?thesis
    by (simp add: word_unat_eq_iff)
qed

lemma device_step:
  assumes dev: "serves dev" and ok: "vq_ok s la W S U" and la: "la \<noteq> avail_idx s"
    and r: "(b, w, i) \<in> set W" "unat (avail_ring s (slot_of NUM la)) = i"
  shows "dev la s = (transfer w b (bblockno (bufs s b)) s)\<lparr>info := (info s)(i := (info s i)\<lparr>vi_status := 0\<rparr>),
       used_ring := (used_ring s)(slot_of NUM (used_idx_dev s) := of_nat i), used_idx_dev := used_idx_dev s + 1\<rparr>"
proof -
  have q: "req_ok s (b, w, i)"
    using vq_okD(1) [OF ok r(1)] .
  then have "sector (bblockno (bufs s b)) = 2 * ucast (bblockno (bufs s b))"
    by (intro sector_eq) (simp add: req_ok_def)
  then show ?thesis
    using q la r(2)
    by (intro dev [unfolded serves_def, rule_format, of la s i "nx s i" "nx s (nx s i)" i b i "bblockno (bufs s b)" w])
      (auto simp: req_ok_def chain_ok_def)
qed

lemma vq_ok_serve:
  assumes dev: "serves dev" and ok: "vq_ok s la W S U" and la: "la \<noteq> avail_idx s"
  shows "\<exists>i. unat (avail_ring s (slot_of NUM la)) = i \<and> vq_ok (dev la s) (la + 1) W (insert i S) (U @ [i])"
proof -
  obtain b w i rs where o: "unserved W S = (b, w, i) # rs" "(b, w, i) \<in> set W" "i \<notin> S"
    "unat (avail_ring s (slot_of NUM la)) = i"
    "ring_list NUM (avail_ring s) (la + 1) (avail_idx s) = map (\<lambda>r. of_nat (whead r)) rs"
    "unserved W (insert i S) = rs"
    by (rule oldest_request [OF ok la])
  let ?t = "dev la s"
  note d = device_step [OF dev ok la o(2,4)]
  have f: "desc ?t = desc s" "ops ?t = ops s" "avail_ring ?t = avail_ring s" "avail_idx ?t = avail_idx s"
    "dfree ?t = dfree s" "bdisk ?t = bdisk s" "used_idx ?t = used_idx s" "used_idx_dev ?t = used_idx_dev s + 1"
    "used_ring ?t = (used_ring s)(slot_of NUM (used_idx_dev s) := of_nat i)"
    "info ?t = (info s)(i := (info s i)\<lparr>vi_status := 0\<rparr>)"
    by (simp_all add: d transfer_def)
  have "bblockno (bufs ?t x) = bblockno (bufs s x)" for x
    by (simp add: d transfer_def)
  then have q: "req_ok ?t r = req_ok s r" for r
    by (intro req_ok_cong(2)) (simp_all add: f)
  have u: "unat (used_idx_dev s - used_idx s) = length U"
    using arg_cong [OF vq_okD(7) [OF ok], of length] by simp
  have "ring_list NUM (used_ring ?t) (used_idx ?t) (used_idx_dev ?t) = map of_nat (U @ [i])"
    using vq_ring.push [of "used_idx_dev s" "used_idx s" "used_ring s" "of_nat i"] served_bound [OF ok] vq_okD(7) [OF ok] u f
    by simp
  moreover have "whead r = i \<longleftrightarrow> r = (b, w, i)" if "r \<in> set W" for r
    using same_head [OF ok that o(2)] by auto
  ultimately have "vq_ok ?t (la + 1) W (insert i S) (U @ [i])"
    using ok o chains_cong [of ?t s W] unfolding vq_ok_def
    by (auto simp: q f list_all_iff image_iff intro!: bexI [of _ "(b, w, i)"])
  then show ?thesis
    using o(4) by blast
qed

subsection \<open>The interrupt handler\<close>

text \<open>The request at the front of the used ring, which the next round of the loop acknowledges.\<close>

lemma oldest_used:
  assumes ok: "vq_ok s la W S U" and ne: "used_idx s \<noteq> used_idx_dev s"
  obtains i us b w where "U = i # us" "(b, w, i) \<in> set W" "unat (used_ring s (unat (used_idx s) mod NUM)) = i"
    "i < NUM" "vi_status (info s i) = 0" "vi_buf (info s i) = Some b"
    "ring_list NUM (used_ring s) (used_idx s + 1) (used_idx_dev s) = map of_nat us"
proof -
  note pop = vq_ring.pop [OF ne, of "used_ring s"]
  obtain i us where u: "U = i # us"
    using pop vq_okD(7) [OF ok] by (cases U) auto
  have "i \<in> S" "i \<in> whead ` set W"
    using vq_okD(5,9) [OF ok] u by auto
  then obtain b w where r: "(b, w, i) \<in> set W"
    by auto
  have q: "i < NUM" "vi_buf (info s i) = Some b"
    using vq_okD(1) [OF ok r] by (simp_all add: req_ok_def chain_ok_def)
  moreover have "used_ring s (unat (used_idx s) mod NUM) = of_nat i"
    "ring_list NUM (used_ring s) (used_idx s + 1) (used_idx_dev s) = map of_nat us"
    using pop vq_okD(7) [OF ok] u by (simp_all add: slot_of_def)
  moreover have "unat (of_nat i :: uint32) = i"
    using q(1) by (simp add: unat_of_nat take_bit_nat_eq_self)
  ultimately show thesis
    using that u r vq_okD(10) [OF ok \<open>i \<in> S\<close>] by simp
qed

lemma vq_ok_acknowledge:
  assumes ok: "vq_ok s la W S U" and ne: "used_idx s \<noteq> used_idx_dev s"
  obtains b where "complete_one s = wakeup (Some (Chan_disk_buf b)) (s\<lparr>bdisk := (bdisk s)(b := False)\<rparr>)"
    "\<And>P. vq_ok (s\<lparr>bdisk := (bdisk s)(b := False), procs := P, used_idx := used_idx s + 1\<rparr>) la W S (tl U)"
proof -
  obtain i us b w where o: "U = i # us" "(b, w, i) \<in> set W" "unat (used_ring s (unat (used_idx s) mod NUM)) = i"
    "i < NUM" "vi_status (info s i) = 0" "vi_buf (info s i) = Some b"
    "ring_list NUM (used_ring s) (used_idx s + 1) (used_idx_dev s) = map of_nat us"
    by (rule oldest_used [OF ok ne])
  have "complete_one s = wakeup (Some (Chan_disk_buf b)) (s\<lparr>bdisk := (bdisk s)(b := False)\<rparr>)"
    using o by (simp add: complete_one_def Let_def)
  moreover have "vq_ok (s\<lparr>bdisk := (bdisk s)(b := False), procs := P, used_idx := used_idx s + 1\<rparr>) la W S (tl U)" for P
  proof -
    let ?t = "s\<lparr>bdisk := (bdisk s)(b := False), procs := P, used_idx := used_idx s + 1\<rparr>"
    have "req_ok ?t r = req_ok s r" for r
      by (rule req_ok_cong(2)) simp_all
    moreover have "bdisk ?t (fst r) \<longleftrightarrow> whead r \<notin> S \<or> whead r \<in> set us" if "r \<in> set W" for r
    proof -
      have "whead r = i \<longleftrightarrow> fst r = b"
        using same_head [OF ok that o(2)] same_buf [OF ok that o(2)] by (metis fst_conv snd_conv)
      moreover have "i \<in> S" "i \<notin> set us"
        using vq_okD(8,9) [OF ok] o(1) by auto
      ultimately show ?thesis
        using vq_okD(11) [OF ok that] o(1) by (cases "fst r = b") auto
    qed
    ultimately show ?thesis
      using ok o(1,7) chains_cong [of ?t s W] unfolding vq_ok_def by (simp add: list_all_iff)
  qed
  ultimately show thesis
    using that by blast
qed

lemma vq_ok_intr: "intr_loop s = Ret () s' \<Longrightarrow> vq_ok s la W S U \<Longrightarrow> vq_ok s' la W S []"
proof (induction s arbitrary: U rule: intr_loop.induct)
  case (1 s)
  show ?case
  proof (cases "used_idx s \<noteq> used_idx_dev s")
    case True
    obtain b where b: "complete_one s = wakeup (Some (Chan_disk_buf b)) (s\<lparr>bdisk := (bdisk s)(b := False)\<rparr>)"
      "\<And>P. vq_ok (s\<lparr>bdisk := (bdisk s)(b := False), procs := P, used_idx := used_idx s + 1\<rparr>) la W S (tl U)"
      by (rule vq_ok_acknowledge [OF 1(3) True]) blast
    obtain s1 where s1: "complete_one s = Ret () s1" "intr_loop (s1\<lparr>used_idx := used_idx s1 + 1\<rparr>) = Ret () s'"
      using 1(2) True by (subst (asm) intr_loop.simps) (auto simp: ret_iff)
    obtain P where "s1 = s\<lparr>bdisk := (bdisk s)(b := False), procs := P\<rparr>"
      using wakeup_procs s1(1) b(1) by fastforce
    then show ?thesis
      using 1(1) [OF True s1(1) s1(2)] b(2) [of P] by simp
  next
    case False
    then have "U = []"
      using vq_okD(7) [OF 1(3)] by simp
    then show ?thesis
      using 1(2,3) False by (subst (asm) intr_loop.simps) simp
  qed
qed

lemma intr_returns: "vq_ok s la W S U \<Longrightarrow> proc_locks_free s \<Longrightarrow> \<exists>s'. intr_loop s = Ret () s'"
proof (induction s arbitrary: U rule: intr_loop.induct)
  case (1 s)
  show ?case
  proof (cases "used_idx s \<noteq> used_idx_dev s")
    case True
    obtain b where b: "complete_one s = wakeup (Some (Chan_disk_buf b)) (s\<lparr>bdisk := (bdisk s)(b := False)\<rparr>)"
      "\<And>P. vq_ok (s\<lparr>bdisk := (bdisk s)(b := False), procs := P, used_idx := used_idx s + 1\<rparr>) la W S (tl U)"
      by (rule vq_ok_acknowledge [OF 1(2) True]) blast
    have "proc_locks_free (s\<lparr>bdisk := (bdisk s)(b := False)\<rparr>)"
      using 1(3) by (simp add: proc_locks_free_def)
    then obtain P where c: "complete_one s = Ret () (s\<lparr>bdisk := (bdisk s)(b := False), procs := P\<rparr>)"
      unfolding b(1) using wakeup_eq that by blast
    have "\<exists>s'. intr_loop (s\<lparr>bdisk := (bdisk s)(b := False), procs := P, used_idx := used_idx s + 1\<rparr>) = Ret () s'"
      using 1(1) [OF True c] b(2) [of P] 1(3) by (simp add: proc_locks_free_def)
    then show ?thesis
      using True c by (subst intr_loop.simps) simp
  qed (subst intr_loop.simps, simp)
qed

subsection \<open>Freeing a request's descriptors\<close>

lemma free_desc_eq:
  assumes "free_desc i s = Ret () s'"
  obtains P where "s' = s\<lparr>desc := (desc s)(i := null_desc), dfree := (dfree s)(i := True), procs := P\<rparr>" "i < NUM" "\<not> dfree s i"
  using assms by (auto simp: free_desc_def upd_desc_def Let_def dest!: wakeup_procs split: if_splits)

lemma free_desc_returns:
  "proc_locks_free s \<Longrightarrow> i < NUM \<Longrightarrow> \<not> dfree s i \<Longrightarrow>
   \<exists>P. free_desc i s = Ret () (s\<lparr>desc := (desc s)(i := null_desc), dfree := (dfree s)(i := True), procs := P\<rparr>)"
  by (subgoal_tac "proc_locks_free (s\<lparr>desc := (desc s)(i := null_desc), dfree := (dfree s)(i := True)\<rparr>)")
    (auto simp: free_desc_def upd_desc_def Let_def wakeup_eq proc_locks_free_def)

lemma free_chain_step:
  "free_chain i s = bnd (free_desc i s) (\<lambda>_ t.
     if vd_flags (desc s i) AND 1 \<noteq> 0 then free_chain (nx s i) t else Ret () t)"
  by (subst free_chain.simps) (simp add: Let_def nx_def cong: if_cong)

definition freed :: "nat list \<Rightarrow> (nat \<Rightarrow> proc) \<Rightarrow> 'a vdiskst_scheme \<Rightarrow> 'a vdiskst_scheme" where
  "freed is P s = s\<lparr>desc := (\<lambda>i. if i \<in> set is then null_desc else desc s i),
     dfree := (\<lambda>i. if i \<in> set is then True else dfree s i), procs := P\<rparr>"

lemma free_chain3:
  assumes q: "chain_ok s (b, w, i)" and d: "distinct (chain s i)"
  shows "free_chain i s = Ret () s' \<Longrightarrow> \<exists>P. s' = freed (chain s i) P s"
    and "proc_locks_free s \<Longrightarrow> (\<And>j. j \<in> set (chain s i) \<Longrightarrow> \<not> dfree s j) \<Longrightarrow> \<exists>s'. free_chain i s = Ret () s'"
proof -
  let ?j = "nx s i" and ?k = "nx s (nx s i)"
  have fl: "vd_flags (desc s i) = 1" "vd_flags (desc s ?j) = (if w then 1 else 3)" "vd_flags (desc s ?k) = 2"
    using q unfolding chain_ok_def prod.case by (elim conjE, simp)+
  have f: "vd_flags (desc s i) AND 1 \<noteq> 0" "vd_flags (desc s ?j) AND 1 \<noteq> 0" "vd_flags (desc s ?k) AND 1 = 0"
    "i < NUM" "?j < NUM" "?k < NUM"
    using q fl by (simp_all add: chain_ok_def)
  have ne: "i \<noteq> ?j" "i \<noteq> ?k" "?j \<noteq> ?k"
    using d by (auto simp: chain_def)
  show "\<exists>P. s' = freed (chain s i) P s" if fc: "free_chain i s = Ret () s'"
  proof -
    obtain s1 where s1: "free_desc i s = Ret () s1" "free_chain ?j s1 = Ret () s'"
      using fc [unfolded free_chain_step [of i s]] f by (auto simp: ret_iff)
    obtain P1 where e1: "s1 = s\<lparr>desc := (desc s)(i := null_desc), dfree := (dfree s)(i := True), procs := P1\<rparr>"
      using s1(1) by (rule free_desc_eq)
    have d1: "vd_flags (desc s1 ?j) AND 1 \<noteq> 0" "nx s1 ?j = ?k" "desc s1 ?k = desc s ?k"
      using f ne by (simp_all add: e1 nx_def)
    obtain s2 where s2: "free_desc ?j s1 = Ret () s2" "free_chain ?k s2 = Ret () s'"
      using s1(2) [unfolded free_chain_step [of ?j s1]] d1 by (auto simp: ret_iff)
    obtain P2 where e2: "s2 = s1\<lparr>desc := (desc s1)(?j := null_desc), dfree := (dfree s1)(?j := True), procs := P2\<rparr>"
      using s2(1) by (rule free_desc_eq)
    have d2: "vd_flags (desc s2 ?k) AND 1 = 0"
      using f ne d1(3) by (simp add: e2)
    have "free_desc ?k s2 = Ret () s'"
      using s2(2) [unfolded free_chain_step [of ?k s2]] d2 by (auto simp: ret_iff)
    then obtain P3 where "s' = s2\<lparr>desc := (desc s2)(?k := null_desc), dfree := (dfree s2)(?k := True), procs := P3\<rparr>"
      by (rule free_desc_eq)
    then show ?thesis
      using e1 e2 by (intro exI [of _ P3]) (auto simp: freed_def chain_def fun_eq_iff intro!: vdiskst.equality)
  qed
  show "\<exists>s'. free_chain i s = Ret () s'" if p: "proc_locks_free s" "\<And>j. j \<in> set (chain s i) \<Longrightarrow> \<not> dfree s j"
  proof -
    obtain P1 where 1: "free_desc i s = Ret () (s\<lparr>desc := (desc s)(i := null_desc), dfree := (dfree s)(i := True), procs := P1\<rparr>)"
      using free_desc_returns [OF p(1) f(4)] p(2) by (auto simp: chain_def)
    let ?s1 = "s\<lparr>desc := (desc s)(i := null_desc), dfree := (dfree s)(i := True), procs := P1\<rparr>"
    obtain P2 where 2: "free_desc ?j ?s1 = Ret () (?s1\<lparr>desc := (desc ?s1)(?j := null_desc), dfree := (dfree ?s1)(?j := True), procs := P2\<rparr>)"
      using free_desc_returns [of ?s1 ?j] p f(5) ne by (auto simp: chain_def proc_locks_free_def)
    let ?s2 = "?s1\<lparr>desc := (desc ?s1)(?j := null_desc), dfree := (dfree ?s1)(?j := True), procs := P2\<rparr>"
    obtain P3 where 3: "free_desc ?k ?s2 = Ret () (?s2\<lparr>desc := (desc ?s2)(?k := null_desc), dfree := (dfree ?s2)(?k := True), procs := P3\<rparr>)"
      using free_desc_returns [of ?s2 ?k] p f(6) ne by (auto simp: chain_def proc_locks_free_def)
    have "free_chain ?k ?s2 = Ret () (?s2\<lparr>desc := (desc ?s2)(?k := null_desc), dfree := (dfree ?s2)(?k := True), procs := P3\<rparr>)"
      using 3 f ne free_chain_step [of ?k ?s2] by simp
    then have "\<exists>s'. free_chain ?j ?s1 = Ret () s'"
      using 2 f ne free_chain_step [of ?j ?s1] by (simp add: nx_def)
    then show ?thesis
      using 1 f free_chain_step [of i s] by simp
  qed
qed

lemma vq_ok_split:
  assumes ok: "vq_ok s la W S U" and r: "r \<in> set W"
  obtains xs ys where "W = xs @ r # ys" "remove1 r W = xs @ ys"
    "\<And>x. x \<in> set (xs @ ys) \<Longrightarrow> whead x \<noteq> whead r \<and> fst x \<noteq> fst r \<and> set (chain s (whead x)) \<inter> set (chain s (whead r)) = {}"
proof -
  obtain xs ys where W: "W = xs @ r # ys"
    using r split_list by fast
  have d: "distinct (map fst (xs @ r # ys))"
    using vq_okD(4) [OF ok] W by simp
  then have "remove1 r W = xs @ ys"
    unfolding W by (subst remove1_append) auto
  moreover have "whead x \<noteq> whead r \<and> fst x \<noteq> fst r \<and> set (chain s (whead x)) \<inter> set (chain s (whead r)) = {}"
    if "x \<in> set (xs @ ys)" for x
  proof -
    have "x \<in> set W" "fst x \<noteq> fst r"
      using that d W by (auto simp: image_iff)
    moreover from this have "x \<noteq> r"
      by blast
    ultimately show ?thesis
      using same_head [OF ok \<open>x \<in> set W\<close> r] chain_disjoint [OF ok \<open>x \<in> set W\<close> r] by blast
  qed
  ultimately show thesis
    using that W by blast
qed

lemma upd_info_fields [simp]:
  "desc (upd_info i f s) = desc s" "dfree (upd_info i f s) = dfree s" "ops (upd_info i f s) = ops s"
  "bufs (upd_info i f s) = bufs s" "bdisk (upd_info i f s) = bdisk s" "avail_idx (upd_info i f s) = avail_idx s"
  "avail_ring (upd_info i f s) = avail_ring s" "used_idx (upd_info i f s) = used_idx s"
  "used_idx_dev (upd_info i f s) = used_idx_dev s" "used_ring (upd_info i f s) = used_ring s"
  "info (upd_info i f s) = (info s)(i := f (info s i))" "nx (upd_info i f s) = nx s" "chain (upd_info i f s) = chain s"
  by (simp_all add: upd_info_def nx_def fun_eq_iff chain_def)

lemma chain_ok_upd_info: "chain_ok (upd_info i f s) r = chain_ok s r"
  by (simp add: chain_ok_def)

lemma vq_ok_finish:
  assumes ok: "vq_ok s la W S U" and r: "(b, w, i) \<in> set W" and d: "\<not> bdisk s b"
    and f: "free_chain i (upd_info i (\<lambda>x. x\<lparr>vi_buf := None\<rparr>) s) = Ret () s'"
  shows "vq_ok s' la (remove1 (b, w, i) W) (S - {i}) U"
proof -
  let ?s = "upd_info i (\<lambda>x. x\<lparr>vi_buf := None\<rparr>) s"
  obtain xs ys where W: "W = xs @ (b, w, i) # ys" "remove1 (b, w, i) W = xs @ ys"
    "\<And>x. x \<in> set (xs @ ys) \<Longrightarrow> whead x \<noteq> i \<and> fst x \<noteq> b \<and> set (chain s (whead x)) \<inter> set (chain s i) = {}"
    using vq_ok_split [OF ok r] by auto
  have i: "i \<in> S" "i \<notin> set U"
    using vq_okD(11) [OF ok r] d by auto
  have "distinct (chain s i)"
    using vq_okD(2) [OF ok] by (simp add: W(1) chains_def)
  then obtain P where s': "s' = freed (chain s i) P ?s"
    using free_chain3(1) [OF _ _ f, of b w] vq_okD(1) [OF ok r] by (auto simp: req_ok_def chain_ok_upd_info)
  have c: "chain s' (whead x) = chain s (whead x)" "req_ok s' x = req_ok s x" if "x \<in> set (xs @ ys)" for x
    by (rule req_ok_cong; use W(3) [OF that] in \<open>auto simp: s' freed_def\<close>)+
  have cs: "chains s' (xs @ ys) = chains s (xs @ ys)"
    unfolding chains_def by (rule arg_cong [of _ _ concat], rule map_cong) (use c(1) in simp_all)
  have set_cs: "set (chains s W) = set (chain s i) \<union> set (chains s (xs @ ys))"
    "set (chain s i) \<inter> set (chains s (xs @ ys)) = {}" "distinct (chains s (xs @ ys))"
    using vq_okD(2) [OF ok] W(1,3) by (auto simp: chains_def)
  have "unserved (xs @ ys) (S - {i}) = unserved (xs @ ys) S"
    unfolding unserved_def by (rule filter_cong) (use W(3) in auto)
  then have "unserved (xs @ ys) (S - {i}) = unserved W S"
    using W(1) i(1) by (simp add: unserved_def)
  moreover have "bdisk s' (fst x) \<longleftrightarrow> whead x \<notin> S - {i} \<or> whead x \<in> set U" if "x \<in> set (xs @ ys)" for x
    using vq_okD(11) [OF ok, of x] that W(1) W(3) [OF that] by (auto simp: s' freed_def)
  moreover have "dfree s' j \<longleftrightarrow> j \<notin> set (chains s (xs @ ys))" if "j < NUM" for j
    using vq_okD(3) [OF ok that] set_cs by (auto simp: s' freed_def)
  moreover have "S - {i} \<subseteq> whead ` set (xs @ ys)"
    using vq_okD(5) [OF ok] W(1) by auto
  moreover have "list_all (req_ok s') (xs @ ys)"
    using vq_okD(1) [OF ok] c(2) W(1) by (simp add: list_all_iff)
  moreover have "vi_status (info s' j) = 0" if "j \<in> S" for j
    using vq_okD(10) [OF ok that] by (auto simp: s' freed_def)
  moreover have "avail_ring s' = avail_ring s" "avail_idx s' = avail_idx s" "used_ring s' = used_ring s"
    "used_idx s' = used_idx s" "used_idx_dev s' = used_idx_dev s"
    by (simp_all add: s' freed_def)
  ultimately show ?thesis
    using vq_okD(4,6-9) [OF ok] W(1) i(2) set_cs(3) unfolding vq_ok_def W(2) cs by auto
qed

lemma finish_returns:
  assumes ok: "vq_ok s la W S U" and r: "(b, w, i) \<in> set W" and p: "proc_locks_free s"
  shows "\<exists>s'. free_chain i (upd_info i (\<lambda>x. x\<lparr>vi_buf := None\<rparr>) s) = Ret () s'"
proof (rule free_chain3(2))
  show "chain_ok (upd_info i (\<lambda>x. x\<lparr>vi_buf := None\<rparr>) s) (b, w, i)"
    using vq_okD(1) [OF ok r] by (simp add: req_ok_def chain_ok_upd_info)
  obtain xs ys where "W = xs @ (b, w, i) # ys"
    using r split_list by fast
  then show "distinct (chain (upd_info i (\<lambda>x. x\<lparr>vi_buf := None\<rparr>) s) i)"
    using vq_okD(2) [OF ok] by (simp add: chains_def)
  show "proc_locks_free (upd_info i (\<lambda>x. x\<lparr>vi_buf := None\<rparr>) s)"
    using p by (simp add: proc_locks_free_def upd_info_def)
  fix j
  assume "j \<in> set (chain (upd_info i (\<lambda>x. x\<lparr>vi_buf := None\<rparr>) s) i)"
  then show "\<not> dfree (upd_info i (\<lambda>x. x\<lparr>vi_buf := None\<rparr>) s) j"
    using whead_chain [OF r, of s] vq_okD(3) [OF ok] chains_bound(1) [OF ok] by auto
qed

subsection \<open>Submitting a request\<close>

lemma alloc_desc_Some: "alloc_desc s = (Some i, s') \<Longrightarrow> i < NUM \<and> dfree s i \<and> s' = s\<lparr>dfree := (dfree s)(i := False)\<rparr>"
  by (auto simp: alloc_desc_def find_Some_iff simp del: upt_rec_numeral split: option.splits)

lemma alloc_desc_None: "alloc_desc s = (None, s') \<Longrightarrow> s' = s"
  by (auto simp: alloc_desc_def split: option.splits)

lemma alloc3_cases:
  obtains s1 where "alloc_desc s = (None, s1)"
    | i0 s1 s2 where "alloc_desc s = (Some i0, s1)" "alloc_desc s1 = (None, s2)"
    | i0 s1 i1 s2 s3 where "alloc_desc s = (Some i0, s1)" "alloc_desc s1 = (Some i1, s2)" "alloc_desc s2 = (None, s3)"
    | i0 s1 i1 s2 i2 s3 where "alloc_desc s = (Some i0, s1)" "alloc_desc s1 = (Some i1, s2)" "alloc_desc s2 = (Some i2, s3)"
  by (metis option.exhaust surj_pair)

lemma alloc3_Some:
  assumes "alloc3_desc s = Ret (Some (i0, i1, i2)) s'"
  shows "distinct [i0, i1, i2]" "i0 < NUM" "i1 < NUM" "i2 < NUM" "dfree s i0" "dfree s i1" "dfree s i2"
    "s' = s\<lparr>dfree := (dfree s)(i0 := False, i1 := False, i2 := False)\<rparr>"
  using assms
  by (cases s rule: alloc3_cases; auto simp: alloc3_desc_def ret_iff dest!: alloc_desc_Some split: if_splits)+

text \<open>Looking for descriptors never panics, and when there are not enough the driver is as before.\<close>

lemma alloc3_returns:
  assumes "proc_locks_free s"
  shows "\<exists>r s'. alloc3_desc s = Ret r s'"
proof -
  have f: "\<exists>P. free_desc i t = Ret () (t\<lparr>desc := (desc t)(i := null_desc), dfree := (dfree t)(i := True), procs := P\<rparr>)"
    if "t = s\<lparr>dfree := F\<rparr>" "i < NUM" "\<not> F i" for t i F
    using free_desc_returns [of t i] that assms by (simp add: proc_locks_free_def)
  show ?thesis
  proof (cases s rule: alloc3_cases)
    case (2 i0 s1 s2)
    then show ?thesis
      using alloc_desc_Some [OF 2(1)] alloc_desc_None [OF 2(2)] f [of s2 "(dfree s)(i0 := False)" i0]
      by (auto simp: alloc3_desc_def)
  next
    case (3 i0 s1 i1 s2 s3)
    let ?F = "(dfree s)(i0 := False, i1 := False)"
    have e: "s3 = s\<lparr>dfree := ?F\<rparr>" "i0 < NUM" "i1 < NUM" "i1 \<noteq> i0"
      using alloc_desc_Some [OF 3(1)] alloc_desc_Some [OF 3(2)] alloc_desc_None [OF 3(3)] by (auto split: if_splits)
    obtain P where P: "free_desc i0 s3 = Ret () (s3\<lparr>desc := (desc s3)(i0 := null_desc), dfree := (dfree s3)(i0 := True), procs := P\<rparr>)"
      using f [OF e(1,2)] e(4) by (auto split: if_splits)
    let ?t = "s3\<lparr>desc := (desc s3)(i0 := null_desc), dfree := (dfree s3)(i0 := True), procs := P\<rparr>"
    have "\<exists>t'. free_desc i1 ?t = Ret () t'"
      using free_desc_returns [of ?t i1] e assms by (simp add: proc_locks_free_def) blast
    then show ?thesis
      using 3 P by (auto simp: alloc3_desc_def)
  qed (auto simp: alloc3_desc_def)
qed

lemma vq_ok_submit:
  assumes ok: "vq_ok s la W S U" and b: "b \<notin> fst ` set W" "unat (bblockno (bufs s b)) < 2 ^ 31"
    and rw: "rw_from b w s = Ret i0 s'"
  shows "vq_ok s' la (W @ [(b, w, i0)]) S U"
proof -
  obtain i1 i2 s1 where a: "alloc3_desc s = Ret (Some (i0, i1, i2)) s1"
    "s' = submit_request i0 (format_request b w (i0, i1, i2) s1)"
    using rw by (auto simp: rw_from_def ret_iff sleep_def with_myproc_def split: option.splits prod.splits)
  note d = alloc3_Some [OF a(1)]
  let ?d0 = "\<lparr>vd_addr = Req i0, vd_len = 16, vd_flags = 1, vd_next = of_nat i1\<rparr>"
  let ?d1 = "\<lparr>vd_addr = Data b, vd_len = 1024, vd_flags = (if w then 1 else 3), vd_next = of_nat i2\<rparr>"
  let ?d2 = "\<lparr>vd_addr = Status i0, vd_len = 1, vd_flags = 2, vd_next = 0\<rparr>"
  have f: "desc s' = (desc s)(i0 := ?d0, i1 := ?d1, i2 := ?d2)" "dfree s' = (dfree s)(i0 := False, i1 := False, i2 := False)"
    "bufs s' = bufs s" "ops s' = (ops s)(i0 := \<lparr>rq_type = (if w then 1 else 0), rq_reserved = 0, rq_sector = sector (bblockno (bufs s b))\<rparr>)"
    "info s' = (info s)(i0 := \<lparr>vi_buf = Some b, vi_status = 0xFF\<rparr>)" "bdisk s' = (bdisk s)(b := True)"
    "avail_ring s' = (avail_ring s)(slot_of NUM (avail_idx s) := of_nat i0)" "avail_idx s' = avail_idx s + 1"
    "used_ring s' = used_ring s" "used_idx s' = used_idx s" "used_idx_dev s' = used_idx_dev s"
    using a(2) d(1,8) by (auto simp: submit_request_def format_request_def upd_desc_def upd_info_def wr_mmio_def Let_def slot_of_def fun_eq_iff)
  have new: "i0 \<notin> set (chains s W)" "i1 \<notin> set (chains s W)" "i2 \<notin> set (chains s W)"
    using vq_okD(3) [OF ok] d by auto
  have heads: "whead x \<in> set (chains s W)" if "x \<in> set W" for x
    using whead_chain [OF that, of s] by (auto simp: chain_def)
  have c: "chain s' (whead x) = chain s (whead x)" "req_ok s' x = req_ok s x" if "x \<in> set W" for x
    by (rule req_ok_cong; use whead_chain [OF that, of s] new heads [OF that] that b in \<open>auto simp: f\<close>)+
  have "unat (of_nat i1 :: uint16) = i1" "unat (of_nat i2 :: uint16) = i2"
    using d(3,4) by (simp_all add: unat_of_nat take_bit_nat_eq_self)
  then have n: "nx s' i0 = i1" "nx s' i1 = i2"
    using d(1) by (auto simp: nx_def f)
  then have q: "chain s' i0 = [i0, i1, i2]" "req_ok s' (b, w, i0)"
    using d(1-4) b(2) by (auto simp: chain_def req_ok_def chain_ok_def f)
  have cs: "chains s' (W @ [(b, w, i0)]) = chains s W @ [i0, i1, i2]"
    using q(1) c(1) unfolding chains_def by (simp cong: map_cong)
  have i0: "i0 \<notin> S"
    using vq_okD(5) [OF ok] heads new(1) by blast
  have "unat (avail_idx s - la) = length (unserved W S)"
    using arg_cong [OF vq_okD(6) [OF ok], of length] by simp
  moreover have "length (unserved W S) \<le> length W"
    by (simp add: unserved_def)
  ultimately have "unat (avail_idx s - la) < NUM"
    using chains_bound(2) [OF ok] by simp
  then have ring: "ring_list NUM (avail_ring s') la (avail_idx s') = map (\<lambda>r. of_nat (whead r)) (unserved W S @ [(b, w, i0)])"
    using vq_ring.push [of "avail_idx s" la "avail_ring s" "of_nat i0"] vq_okD(6) [OF ok] by (simp add: f)
  show ?thesis
    unfolding vq_ok_def cs
  proof (intro conjI allI ballI impI)
    show "list_all (req_ok s') (W @ [(b, w, i0)])"
      using vq_okD(1) [OF ok] c(2) q(2) by (simp add: list_all_iff)
    show "distinct (chains s W @ [i0, i1, i2])"
      using vq_okD(2) [OF ok] d(1) new by auto
    show "dfree s' i \<longleftrightarrow> i \<notin> set (chains s W @ [i0, i1, i2])" if "i < NUM" for i
      using vq_okD(3) [OF ok that] by (auto simp: f)
    show "ring_list NUM (avail_ring s') la (avail_idx s') = map (\<lambda>r. of_nat (whead r)) (unserved (W @ [(b, w, i0)]) S)"
      using ring i0 by (simp add: unserved_def)
    show "vi_status (info s' i) = 0" if "i \<in> S" for i
      using vq_okD(10) [OF ok that] that i0 by (auto simp: f)
    show "bdisk s' (fst r) = (whead r \<notin> S \<or> whead r \<in> set U)" if "r \<in> set (W @ [(b, w, i0)])" for r
      using vq_okD(11) [OF ok, of r] that b(1) i0 by (force simp: f)
  qed (use vq_okD(4,5,7-9) [OF ok] b(1) in \<open>auto simp: f\<close>)
qed

lemma vreach_ok:
  assumes "serves dev" "vreach dev s la W S"
  shows "\<exists>U. vq_ok s la W S U"
  using assms(2)
proof induction
  case (serve s la W S)
  then show ?case
    using vq_ok_serve [OF assms(1)] by blast
qed (blast intro: vq_ok_idle vq_ok_submit vq_ok_intr vq_ok_finish vq_ok_other)+

subsection \<open>The main theorem\<close>

text \<open>The block of a buffer goes where \<open>disk_rw\<close>, the driver's contract in the buffer cache, says.\<close>

lemma serve_disk_rw:
  assumes "serves dev" "vq_ok s la W S U" "la \<noteq> avail_idx s"
  shows "\<exists>b w i rs t. unserved W S = (b, w, i) # rs \<and> disk_rw b w s = Ret () t \<and>
    bufs (dev la s) = bufs t \<and> disk (dev la s) = disk t \<and> dwrites (dev la s) = dwrites t"
proof -
  obtain b w i rs where o: "unserved W S = (b, w, i) # rs" "(b, w, i) \<in> set W"
    "unat (avail_ring s (slot_of NUM la)) = i"
    by (rule oldest_request [OF assms(2,3)])
  show ?thesis
    using o(1) device_step [OF assms o(2,3)]
    by (intro exI [of _ b] exI [of _ w] exI [of _ i] exI [of _ rs]) (simp add: disk_rw_def transfer_def upd_buf_def Let_def)
qed


text \<open>A device that does what the specification says, and the driver with one request submitted.\<close>

definition ideal_device :: "uint16 \<Rightarrow> 'a vdiskst_scheme \<Rightarrow> 'a vdiskst_scheme" where
  "ideal_device la s =
     (let i0 = unat (avail_ring s (slot_of NUM la)) in
      case (vd_addr (desc s i0), vd_addr (desc s (nx s i0)), vd_addr (desc s (nx s (nx s i0)))) of
        (Req k, Data b, Status j) \<Rightarrow>
          (transfer (rq_type (ops s k) = 1) b (ucast (drop_bit 1 (rq_sector (ops s k)))) s)
            \<lparr>info := (info s)(j := (info s j)\<lparr>vi_status := 0\<rparr>),
             used_ring := (used_ring s)(slot_of NUM (used_idx_dev s) := of_nat i0), used_idx_dev := used_idx_dev s + 1\<rparr>
      | _ \<Rightarrow> s)"

lemma half_sector: "ucast (drop_bit 1 (2 * ucast n :: uint64)) = (n :: uint32)"
proof -
  have "2 * ucast n = (push_bit 1 (ucast n) :: uint64)"
    by (simp add: push_bit_eq_mult)
  then show ?thesis
    by (intro bit_word_eqI) (auto simp: bit_simps)
qed

lemma ideal_device_serves: "serves ideal_device"
  by (auto simp: serves_def ideal_device_def Let_def half_sector simp del: One_nat_def split: if_splits)

definition idle_vdisk :: vdiskst where
  "idle_vdisk = filest.extend (consst.extend (boot_cons\<lparr>bufs := (bufs boot_cons)(0 := (bufs boot_cons 0)\<lparr>bblockno := 7\<rparr>)\<rparr>) (filest.fields
       (\<lambda>_. \<lparr>fd_type = FD_NONE, fref = 0, readable = False, writable = False, fpipe = 0, fip = None, foff = 0, fmajor = 0\<rparr>)
       (\<lambda>_. \<lparr>pdata = \<lambda>_. 0, nread = 0, nwrite = 0, readopen = False, writeopen = False\<rparr>)))
     (vdiskst.fields (\<lambda>_. null_desc) 0 (\<lambda>_. 0) 0 (\<lambda>_. 0) (\<lambda>_. True) 0
       (\<lambda>_. \<lparr>vi_buf = None, vi_status = 0\<rparr>) (\<lambda>_. \<lparr>rq_type = 0, rq_reserved = 0, rq_sector = 0\<rparr>) (\<lambda>_. False) [])"

lemma idle_vdisk_sel:
  "held idle_vdisk = {}" "dfree idle_vdisk i" "used_idx idle_vdisk = 0" "used_idx_dev idle_vdisk = 0"
  "avail_idx idle_vdisk = 0" "bblockno (bufs idle_vdisk 0) = 7"
  using boot_cons_sel(1) by (simp_all add: idle_vdisk_def consst.defs filest.defs vdiskst.defs)

lemma submit_idle:
  assumes "vq_idle s"
  shows "\<exists>s'. rw_from b w s = Ret 0 s' \<and> avail_idx s' = avail_idx s + 1 \<and> held s' = held s \<and> bdisk s' b"
proof -
  have "dfree s 0" "dfree s (Suc 0)" "dfree s 2"
    using assms by (simp_all add: vq_idle_def)
  then have "alloc3_desc s = Ret (Some (0, 1, 2)) (s\<lparr>dfree := (dfree s)(0 := False, 1 := False, 2 := False)\<rparr>)"
    by (simp add: alloc3_desc_def alloc_desc_def upt_rec numeral_2_eq_2)
  then show ?thesis
    by (simp add: rw_from_def submit_request_def format_request_def upd_desc_def upd_info_def wr_mmio_def Let_def)
qed


end
