(* ===== verification/PipeQueue.thy ===== *)
theory PipeQueue
  imports File UserMem
begin

section \<open>Pipes are queues of bytes\<close>

text \<open>
  What \<^verbatim>\<open>pipewrite\<close> and \<^verbatim>\<open>piperead\<close> of \<^verbatim>\<open>riscv/kernel/pipe.c\<close> do to the queue in the pipe's ring
  buffer and to the memory the calling process sees, on every branch: all bytes copied, the pipe
  full or empty, the other end closed, the process killed, an address it cannot use.
\<close>

interpretation pipe_ring: ring PIPESIZE "TYPE(32)"
  by unfold_locales simp_all

definition pipe_queue :: "'a filest_scheme \<Rightarrow> uint64 \<Rightarrow> uint8 list" where
  "pipe_queue s pi = ring_list PIPESIZE (pdata (pipes s pi)) (nread (pipes s pi)) (nwrite (pipes s pi))"

definition pipe_inv :: "'a filest_scheme \<Rightarrow> uint64 \<Rightarrow> bool" where
  "pipe_inv s pi \<longleftrightarrow> length (pipe_queue s pi) \<le> PIPESIZE"

subsection \<open>The calling process\<close>

lemma uspace_cong:
  assumes "uspace s p xs" "mem s' = mem s" "freelist s' = freelist s" "kernel_end s' = kernel_end s" "Lk_kmem \<notin> held s'"
    "pagetable (procs s' p) = pagetable (procs s p)" "sz (procs s' p) = sz (procs s p)"
  shows "uspace s' p xs" "ubyte s' p = ubyte s p" "uwritable s' p = uwritable s p"
proof -
  have e: "ulim s' p = ulim s p" "upte s' p = upte s p"
    using assms(2,6,7) by (simp_all add: ulim_def upte_def [abs_def])
  have "uvm_ok s' (pagetable (procs s p)) (ulim s p) xs"
    using uspaceD(1) [OF assms(1)] assms(2-5)
    by (simp add: uvm_ok_def vm_ok_def kmem_inv_def umapped_def upage_def [abs_def] phys_page_def)
  then show "uspace s' p xs"
    using assms(1,6,7) by (simp add: uspace_def e)
  show "ubyte s' p = ubyte s p"
    using e assms(2) by (simp add: ubyte_def fun_eq_iff)
  then show "uwritable s' p = uwritable s p"
    using e by (simp add: uwritable_def fun_eq_iff)
qed

text \<open>In the middle of an operation: the process runs, and the pipe's lock is the only one held.\<close>

definition in_pipe :: "nat \<Rightarrow> uint64 \<Rightarrow> 'a filest_scheme \<Rightarrow> bool" where
  "in_pipe p pi s \<longleftrightarrow> (\<exists>xs. uspace s p xs) \<and> myproc s = Some p \<and> held s = {Lk_pipe pi} \<and> pipe_inv s pi"

text \<open>What the two operations never change.\<close>

definition pipe_frame :: "nat \<Rightarrow> uint64 \<Rightarrow> 'a filest_scheme \<Rightarrow> 'a filest_scheme \<Rightarrow> bool" where
  "pipe_frame p pi s s' \<longleftrightarrow> (\<forall>q. q \<noteq> pi \<longrightarrow> pipes s' q = pipes s q) \<and>
     readopen (pipes s' pi) = readopen (pipes s pi) \<and> writeopen (pipes s' pi) = writeopen (pipes s pi) \<and>
     files s' = files s \<and> pkilled (procs s' p) = pkilled (procs s p)"

lemma pipe_frame_refl [simp]: "pipe_frame p pi s s"
  by (simp add: pipe_frame_def)

lemma pipe_frame_trans: "pipe_frame p pi s s1 \<Longrightarrow> pipe_frame p pi s1 s2 \<Longrightarrow> pipe_frame p pi s s2"
  by (simp add: pipe_frame_def)

lemma mem_only_pipes:
  assumes "mem_only s s'"
  shows "pipes s' = pipes s" "files s' = files s"
  using assms by (auto simp: mem_only_def)

lemma in_pipe_killed: "in_pipe p pi s \<Longrightarrow> killed p s = Ret (pkilled (procs s p)) s"
  by (simp add: in_pipe_def killed_def Let_def held_id)

lemma in_pipe_free: "in_pipe p pi s \<Longrightarrow> proc_locks_free s"
  by (simp add: in_pipe_def proc_locks_free_def)

lemma in_pipe_mem:
  assumes "in_pipe p pi s" "mem_only s s'" "uspace s' p xs"
  shows "in_pipe p pi s'" "pipe_frame p pi s s'" "pipe_queue s' pi = pipe_queue s pi"
  using assms mem_only_pipes [OF assms(2)] mem_onlyD [OF assms(2)]
  by (auto simp: in_pipe_def pipe_frame_def pipe_inv_def pipe_queue_def)

lemma in_pipe_procs:
  assumes "in_pipe p pi s" "pagetable (P p) = pagetable (procs s p)" "sz (P p) = sz (procs s p)"
  shows "in_pipe p pi (s\<lparr>procs := P\<rparr>)" "ubyte (s\<lparr>procs := P\<rparr>) p = ubyte s p"
    "uspace (s\<lparr>procs := P\<rparr>) p ys = uspace s p ys" "uwritable (s\<lparr>procs := P\<rparr>) p = uwritable s p"
proof -
  obtain xs where u: "uspace s p xs" "held s = {Lk_pipe pi}"
    using assms(1) by (auto simp: in_pipe_def)
  note c = uspace_cong [OF u(1), of "s\<lparr>procs := P\<rparr>"]
  show "ubyte (s\<lparr>procs := P\<rparr>) p = ubyte s p"
    using c(2) u(2) assms(2,3) by simp
  show "uwritable (s\<lparr>procs := P\<rparr>) p = uwritable s p"
    using c(3) u(2) assms(2,3) by simp
  show "uspace (s\<lparr>procs := P\<rparr>) p ys = uspace s p ys"
    using uspace_cong(1) [of s p ys "s\<lparr>procs := P\<rparr>"] uspace_cong(1) [of "s\<lparr>procs := P\<rparr>" p ys s] u(2) assms(2,3) by auto
  show "in_pipe p pi (s\<lparr>procs := P\<rparr>)"
    using c(1) u(2) assms by (auto simp: in_pipe_def pipe_inv_def pipe_queue_def)
qed

lemma in_pipe_upd:
  assumes "in_pipe p pi s" "pipe_inv (upd_pipe pi f s) pi"
  shows "in_pipe p pi (upd_pipe pi f s)" "ubyte (upd_pipe pi f s) p = ubyte s p"
proof -
  obtain xs where u: "uspace s p xs" "held s = {Lk_pipe pi}"
    using assms(1) by (auto simp: in_pipe_def)
  note c = uspace_cong [OF u(1), of "upd_pipe pi f s"]
  show "ubyte (upd_pipe pi f s) p = ubyte s p"
    using c(2) u(2) by (simp add: upd_pipe_def)
  show "in_pipe p pi (upd_pipe pi f s)"
    using c(1) u(2) assms by (auto simp: in_pipe_def upd_pipe_def)
qed

subsection \<open>Writing\<close>

definition seen :: "'a machine_scheme \<Rightarrow> nat \<Rightarrow> uint64 \<Rightarrow> nat \<Rightarrow> nat \<Rightarrow> uint8 option list" where
  "seen s p addr i j = map (\<lambda>k. ubyte s p (addr + of_nat k)) [i..<j]"

text \<open>One byte from the process.\<close>

lemma copyin_byte:
  assumes "in_pipe p pi s"
  obtains b s' where "copyin (pagetable (procs s p)) a 1 s = Ret (0, [b]) s'" "ubyte s p a = Some b"
      "in_pipe p pi s'" "pipe_frame p pi s s'" "pipe_queue s' pi = pipe_queue s pi" "ubyte s' p = ubyte s p" "pipes s' = pipes s"
    | s' xs' where "copyin (pagetable (procs s p)) a 1 s = Ret (-1, []) s'" "ubyte s p a = None \<or> length xs' \<le> 1"
      "in_pipe p pi s'" "pipe_frame p pi s s'" "pipe_queue s' pi = pipe_queue s pi" "ubyte s' p = ubyte s p" "uspace s' p xs'"
proof -
  obtain xs where u: "uspace s p xs" "myproc s = Some p"
    using assms by (auto simp: in_pipe_def)
  obtain r s' xs' where c: "copyin (pagetable (procs s p)) a 1 s = Ret r s'" "copies_in p s xs a 1 r s' xs'"
    using copyin_ok [OF u] by blast
  have m: "mem_only s s'" "uspace s' p xs'" "ubyte s' p = ubyte s p"
    using c(2) by (simp_all add: copies_in_def unseen_def)
  note f = in_pipe_mem [OF assms m(1,2)]
  consider "length (snd r) = 1" | "snd r = []"
    using c(2) by (cases "snd r") (auto simp: copies_in_def)
  then show thesis
  proof cases
    case 1
    then obtain b where "r = (0, [b])"
      using c(2) by (cases r) (auto simp: copies_in_def length_Suc_conv)
    then show thesis
      using that(1) [of b s'] c f m mem_only_pipes [OF m(1)] by (auto simp: copies_in_def)
  next
    case 2
    then have "r = (-1, [])"
      using c(2) by (cases r) (auto simp: copies_in_def)
    then show thesis
      using that(2) [of s' xs'] c f m by (auto simp: copies_in_def)
  qed
qed

text \<open>A byte at the end of the queue.\<close>

definition put_byte :: "uint64 \<Rightarrow> uint8 \<Rightarrow> 'a filest_scheme \<Rightarrow> 'a filest_scheme" where
  "put_byte pi b = upd_pipe pi (\<lambda>x. x\<lparr>pdata := (pdata x)(slot_of PIPESIZE (nwrite x) := b), nwrite := nwrite x + 1\<rparr>)"

lemma queue_full: "pipe_inv s pi \<Longrightarrow> nwrite (pipes s pi) = nread (pipes s pi) + of_nat PIPESIZE \<longleftrightarrow> length (pipe_queue s pi) = PIPESIZE"
proof -
  have "nwrite (pipes s pi) = nread (pipes s pi) + of_nat PIPESIZE \<longleftrightarrow> nwrite (pipes s pi) - nread (pipes s pi) = 512"
    by (auto simp: algebra_simps)
  also have "\<dots> \<longleftrightarrow> unat (nwrite (pipes s pi) - nread (pipes s pi)) = 512"
    by (simp add: word_unat_eq_iff)
  finally show ?thesis
    by (simp add: pipe_queue_def)
qed

lemma put_byte:
  assumes "in_pipe p pi s" "length (pipe_queue s pi) < PIPESIZE"
  shows "pipe_queue (put_byte pi b s) pi = pipe_queue s pi @ [b]" "in_pipe p pi (put_byte pi b s)"
    "ubyte (put_byte pi b s) p = ubyte s p" "pipe_frame p pi s (put_byte pi b s)"
proof -
  let ?x = "pipes s pi"
  have "unat (nwrite ?x - nread ?x) < PIPESIZE"
    using assms(2) by (simp add: pipe_queue_def)
  from pipe_ring.push [OF this, of "pdata ?x" b]
  show q: "pipe_queue (put_byte pi b s) pi = pipe_queue s pi @ [b]"
    by (simp add: pipe_queue_def put_byte_def upd_pipe_def)
  have "pipe_inv (put_byte pi b s) pi"
    using assms(2) by (simp add: pipe_inv_def q)
  then show "in_pipe p pi (put_byte pi b s)" "ubyte (put_byte pi b s) p = ubyte s p"
    using in_pipe_upd [OF assms(1)] by (simp_all add: put_byte_def)
  show "pipe_frame p pi s (put_byte pi b s)"
    by (simp add: pipe_frame_def put_byte_def upd_pipe_def)
qed

text \<open>The byte cannot be read, or there was no memory for the page.\<close>

definition no_byte :: "nat \<Rightarrow> uint64 \<Rightarrow> 'a machine_scheme \<Rightarrow> bool" where
  "no_byte p va s \<longleftrightarrow> ubyte s p va = None \<or> (\<exists>xs. uspace s p xs \<and> length xs \<le> 1)"

text \<open>The byte cannot be written, or there was no memory for the page.\<close>

definition no_room :: "nat \<Rightarrow> uint64 \<Rightarrow> 'a machine_scheme \<Rightarrow> bool" where
  "no_room p va s \<longleftrightarrow> \<not> uwritable s p va \<or> (\<exists>xs. uspace s p xs \<and> length xs \<le> 1)"

text \<open>No process but the running one sleeps on the channel.\<close>

definition awake :: "chan \<Rightarrow> 'a ptable_scheme \<Rightarrow> bool" where
  "awake ch s \<longleftrightarrow> (\<forall>q<NPROC. myproc s \<noteq> Some q \<longrightarrow> \<not> (pstate (procs s q) = SLEEPING \<and> pchan (procs s q) = Some ch))"

lemma pipe_wakeup:
  assumes "in_pipe p pi s"
  obtains s' where "wakeup (Some ch) s = Ret () s'" "in_pipe p pi s'" "pipe_frame p pi s s'" "ubyte s' p = ubyte s p"
    "pipe_queue s' pi = pipe_queue s pi" "awake ch s'" "no_byte p va s' = no_byte p va s" "no_room p va s' = no_room p va s"
proof -
  let ?P = "woken (Some ch) (myproc s) {0..<NPROC} (procs s)"
  have p: "?P p = procs s p"
    using assms by (simp add: in_pipe_def woken_def)
  have "awake ch (s\<lparr>procs := ?P\<rparr>)"
    by (auto simp: awake_def woken_def)
  moreover have "no_byte p va (s\<lparr>procs := ?P\<rparr>) = no_byte p va s" "no_room p va (s\<lparr>procs := ?P\<rparr>) = no_room p va s"
    using in_pipe_procs(2-4) [OF assms, of ?P] p by (simp_all add: no_byte_def no_room_def del: NPROC_def)
  ultimately show thesis
    using that [OF wakeup_eq [OF in_pipe_free [OF assms]]] in_pipe_procs [OF assms, of ?P] p
    by (simp add: pipe_frame_def pipe_queue_def del: NPROC_def)
qed

text \<open>The bytes from \<open>i\<close> up to \<open>j\<close> of the process have gone into the pipe.\<close>

definition sent :: "nat \<Rightarrow> uint64 \<Rightarrow> uint64 \<Rightarrow> nat \<Rightarrow> nat \<Rightarrow> 'a filest_scheme \<Rightarrow> 'a filest_scheme \<Rightarrow> bool" where
  "sent p pi addr i j s s' \<longleftrightarrow> i \<le> j \<and> in_pipe p pi s' \<and> pipe_frame p pi s s' \<and> ubyte s' p = ubyte s p \<and>
     map Some (pipe_queue s' pi) = map Some (pipe_queue s pi) @ seen s p addr i j"

lemma seen_step: "i < j \<Longrightarrow> seen s p addr i j = ubyte s p (addr + of_nat i) # seen s p addr (Suc i) j"
  by (simp add: seen_def upt_conv_Cons)

lemma sent_refl: "in_pipe p pi s \<Longrightarrow> sent p pi addr i i s s"
  by (simp add: sent_def seen_def)

lemma sent_then:
  assumes "sent p pi addr i j s s1" "in_pipe p pi s2" "pipe_frame p pi s1 s2" "ubyte s2 p = ubyte s1 p"
    "pipe_queue s2 pi = pipe_queue s1 pi"
  shows "sent p pi addr i j s s2"
  using assms by (auto simp: sent_def intro: pipe_frame_trans)

lemma sent_byte:
  assumes "in_pipe p pi s" "length (pipe_queue s pi) < PIPESIZE" "ubyte s p (addr + of_nat i) = Some b"
    and s1: "in_pipe p pi s1" "pipe_frame p pi s s1" "pipe_queue s1 pi = pipe_queue s pi" "ubyte s1 p = ubyte s p"
    and r: "sent p pi addr (Suc i) j (put_byte pi b s1) s'"
  shows "sent p pi addr i j s s'"
proof -
  have q: "length (pipe_queue s1 pi) < PIPESIZE"
    using assms(2) s1(3) by simp
  note b = put_byte [OF s1(1) q, of b]
  have "seen (put_byte pi b s1) p addr (Suc i) j = seen s p addr (Suc i) j"
    by (simp add: seen_def b(3) s1(4))
  then show ?thesis
    using r assms(3) b s1 seen_step [of i j s p addr]
    by (auto simp: sent_def intro: pipe_frame_trans)
qed

lemma pipewrite_loop_step:
  assumes "in_pipe p pi s" "i < n"
  shows "pipewrite_loop pi addr n i s =
    (if \<not> readopen (pipes s pi) \<or> pkilled (procs s p) \<noteq> 0 then Ret (Inl (Inl (-1))) (s\<lparr>held := {}\<rparr>)
     else if length (pipe_queue s pi) = PIPESIZE then bnd (wakeup (Some (Chan_nread pi)) s) (\<lambda>_ s. Ret (Inr i) s)
     else bnd (copyin (pagetable (procs s p)) (addr + of_nat i) 1 s) (\<lambda>r s.
       if fst r = -1 then Ret (Inl (Inr i)) s else pipewrite_loop pi addr n (Suc i) (put_byte pi (hd (snd r)) s)))"
proof -
  have m: "myproc s = Some p" "held s = {Lk_pipe pi}" "pipe_inv s pi"
    using assms(1) by (simp_all add: in_pipe_def)
  show ?thesis
    using assms(2) queue_full [OF m(3)]
    by (subst pipewrite_loop.simps) (simp add: with_myproc_def m in_pipe_killed [OF assms(1)] put_byte_def cong: if_cong)
qed

lemma pipewrite_loop_ok:
  assumes "in_pipe p pi s" "i \<le> n"
  obtains j s' where "sent p pi addr i j s s'" "j \<le> n" "pipewrite_loop pi addr n i s = Ret (Inl (Inr j)) s'"
      "j = n \<or> no_byte p (addr + of_nat j) s'"
    | "i < n" "\<not> readopen (pipes s pi) \<or> pkilled (procs s p) \<noteq> 0"
      "pipewrite_loop pi addr n i s = Ret (Inl (Inl (-1))) (s\<lparr>held := {}\<rparr>)"
    | j s' where "sent p pi addr i j s s'" "j < n" "length (pipe_queue s' pi) = PIPESIZE" "awake (Chan_nread pi) s'"
      "pipewrite_loop pi addr n i s = Ret (Inr j) s'"
  using assms
proof (induction "n - i" arbitrary: i s thesis)
  case 0
  then have "pipewrite_loop pi addr n i s = Ret (Inl (Inr i)) s" "i = n"
    by (simp_all add: pipewrite_loop.simps)
  then show ?case
    using "0.prems"(1) [OF sent_refl [OF "0.prems"(4)]] by simp
next
  case (Suc m)
  note ip = Suc.prems(4)
  have i: "i < n" "m = n - Suc i"
    using Suc.hyps(2) by arith+
  note st = pipewrite_loop_step [OF ip i(1), of addr]
  consider (stop) "\<not> readopen (pipes s pi) \<or> pkilled (procs s p) \<noteq> 0"
    | (full) "readopen (pipes s pi)" "pkilled (procs s p) = 0" "length (pipe_queue s pi) = PIPESIZE"
    | (copy) "readopen (pipes s pi)" "pkilled (procs s p) = 0" "length (pipe_queue s pi) < PIPESIZE"
    using ip unfolding in_pipe_def pipe_inv_def by fastforce
  then show ?case
  proof cases
    case stop
    then show ?thesis
      using Suc.prems(2) i(1) st by simp
  next
    case full
    obtain s' where w: "wakeup (Some (Chan_nread pi)) s = Ret () s'" "in_pipe p pi s'" "pipe_frame p pi s s'"
      "ubyte s' p = ubyte s p" "pipe_queue s' pi = pipe_queue s pi" "awake (Chan_nread pi) s'"
      using ip by (rule pipe_wakeup)
    show ?thesis
      using Suc.prems(3) [OF sent_then [OF sent_refl [OF ip] w(2-5)] i(1)] full st w by simp
  next
    case copy
    show ?thesis
      using ip
    proof (cases rule: copyin_byte [where a = "addr + of_nat i"])
      case (1 b s1)
      have q1: "length (pipe_queue s1 pi) < PIPESIZE"
        using copy(3) 1 by simp
      note b = put_byte [OF 1(3) q1, of b]
      have l: "pipewrite_loop pi addr n i s = pipewrite_loop pi addr n (Suc i) (put_byte pi b s1)"
        using st copy 1(1) by simp
      have fr: "readopen (pipes (put_byte pi b s1) pi) = readopen (pipes s pi)"
        "pkilled (procs (put_byte pi b s1) p) = pkilled (procs s p)"
        using pipe_frame_trans [OF 1(4) b(4)] by (simp_all add: pipe_frame_def)
      note sb = sent_byte [OF ip copy(3) 1(2) 1(3-6)]
      have le: "Suc i \<le> n"
        using i(1) by simp
      show ?thesis
      proof (rule Suc.hyps(1) [OF i(2) _ _ _ b(2) le])
        fix j s'
        assume "sent p pi addr (Suc i) j (put_byte pi b s1) s'" "j \<le> n"
          "pipewrite_loop pi addr n (Suc i) (put_byte pi b s1) = Ret (Inl (Inr j)) s'" "j = n \<or> no_byte p (addr + of_nat j) s'"
        then show thesis
          using Suc.prems(1) [OF sb] l by simp
      next
        assume "\<not> readopen (pipes (put_byte pi b s1) pi) \<or> pkilled (procs (put_byte pi b s1) p) \<noteq> 0"
        then show thesis
          using fr copy by simp
      next
        fix j s'
        assume "sent p pi addr (Suc i) j (put_byte pi b s1) s'" "j < n" "length (pipe_queue s' pi) = PIPESIZE"
          "awake (Chan_nread pi) s'" "pipewrite_loop pi addr n (Suc i) (put_byte pi b s1) = Ret (Inr j) s'"
        then show thesis
          using Suc.prems(3) [OF sb] l by simp
      qed
    next
      case (2 s1 xs1)
      then show ?thesis
        using Suc.prems(1) [OF sent_then [OF sent_refl [OF ip] 2(3,4,6,5)]] st copy i(1)
        by (auto simp: no_byte_def)
    qed
  qed
qed

text \<open>At the end of a call: the process runs or sleeps, and no lock is held.\<close>

definition after_pipe :: "nat \<Rightarrow> uint64 \<Rightarrow> 'a filest_scheme \<Rightarrow> 'a filest_scheme \<Rightarrow> bool" where
  "after_pipe p pi s s' \<longleftrightarrow> (\<exists>xs. uspace s' p xs) \<and> myproc s' = Some p \<and> held s' = {} \<and> pipe_inv s' pi \<and> pipe_frame p pi s s'"

lemma after_release:
  assumes "in_pipe p pi s'" "pipe_frame p pi s s'"
  shows "release (Lk_pipe pi) s' = Ret () (s'\<lparr>held := {}\<rparr>)" "after_pipe p pi s (s'\<lparr>held := {}\<rparr>)"
    "ubyte (s'\<lparr>held := {}\<rparr>) p = ubyte s' p" "pipe_queue (s'\<lparr>held := {}\<rparr>) pi = pipe_queue s' pi"
    "no_byte p va (s'\<lparr>held := {}\<rparr>) = no_byte p va s'" "no_room p va (s'\<lparr>held := {}\<rparr>) = no_room p va s'" "awake ch (s'\<lparr>held := {}\<rparr>) = awake ch s'"
proof -
  obtain xs where u: "uspace s' p xs" "held s' = {Lk_pipe pi}"
    using assms(1) by (auto simp: in_pipe_def)
  let ?t = "s'\<lparr>held := {}\<rparr>"
  show "release (Lk_pipe pi) s' = Ret () ?t"
    using u(2) by simp
  have c: "uspace ?t p ys \<longleftrightarrow> uspace s' p ys" for ys
    using uspace_cong(1) [of s' p ys ?t] uspace_cong(1) [of ?t p ys s'] u(2) by auto
  show b: "ubyte ?t p = ubyte s' p"
    using uspace_cong(2) [OF u(1), of ?t] by simp
  show "no_byte p va ?t = no_byte p va s'"
    by (simp add: no_byte_def b c)
  show "no_room p va ?t = no_room p va s'"
    using uspace_cong(3) [OF u(1), of ?t] by (simp add: no_room_def c)
  show "after_pipe p pi s ?t"
    using assms c u(1) by (auto simp: after_pipe_def in_pipe_def pipe_frame_def pipe_inv_def pipe_queue_def)
qed (simp_all add: pipe_queue_def awake_def)

lemma after_sleep:
  assumes "in_pipe p pi s'" "pipe_frame p pi s s'"
  obtains t where "sleep ch (Lk_pipe pi) s' = Sleep ch t" "after_pipe p pi s t" "ubyte t p = ubyte s' p"
    "pipe_queue t pi = pipe_queue s' pi" "awake c t = awake c s'" "pstate (procs t p) = SLEEPING" "pchan (procs t p) = Some ch"
proof -
  let ?P = "(procs s')(p := (procs s' p)\<lparr>pchan := Some ch, pstate := SLEEPING\<rparr>)"
  have m: "myproc s' = Some p" "held s' = {Lk_pipe pi}"
    using assms(1) by (simp_all add: in_pipe_def)
  have "s'\<lparr>held := {}, procs := ?P\<rparr> = s'\<lparr>procs := ?P, held := {}\<rparr>"
    by (rule ptable.equality) simp_all
  moreover have "Lk_pipe pi \<in> held s'" "Lk_proc p \<notin> held s'"
    using m(2) by simp_all
  ultimately have e: "sleep ch (Lk_pipe pi) s' = Sleep ch ((s'\<lparr>procs := ?P\<rparr>)\<lparr>held := {}\<rparr>)"
    by (subst sleep_eq [OF m(1)]) (simp_all add: m(2))
  have f: "pipe_frame p pi s (s'\<lparr>procs := ?P\<rparr>)"
    using assms(2) by (simp add: pipe_frame_def)
  have i: "in_pipe p pi (s'\<lparr>procs := ?P\<rparr>)" "ubyte (s'\<lparr>procs := ?P\<rparr>) p = ubyte s' p"
    using in_pipe_procs [OF assms(1), of ?P] by simp_all
  have w: "awake c (s'\<lparr>procs := ?P\<rparr>) = awake c s'"
    using m(1) by (auto simp: awake_def)
  show thesis
    using that [OF e] after_release [OF i(1) f] i(2) w by (simp add: pipe_queue_def)
qed

lemma pipewrite_from_ok:
  assumes ip: "in_pipe p pi s" and "i \<le> n"
  shows "\<exists>j s'. j \<le> n \<and> after_pipe p pi s s' \<and> ubyte s' p = ubyte s p \<and>
    map Some (pipe_queue s' pi) = map Some (pipe_queue s pi) @ seen s p addr i j \<and>
    (pipewrite_from pi addr n i s = Ret (int j) s' \<and> (j = n \<or> no_byte p (addr + of_nat j) s') \<and> awake (Chan_nread pi) s' \<or>
     pipewrite_from pi addr n i s = Ret (-1) s' \<and> j = i \<and> i < n \<and> (\<not> readopen (pipes s pi) \<or> pkilled (procs s p) \<noteq> 0) \<or>
     pipewrite_from pi addr n i s = Sleep (Chan_nwrite pi) s' \<and> j < n \<and> length (pipe_queue s' pi) = PIPESIZE \<and> awake (Chan_nread pi) s')"
  using assms
proof (cases rule: pipewrite_loop_ok [where addr = addr])
  case (1 j s1)
  have s1: "in_pipe p pi s1" "pipe_frame p pi s s1"
    using 1(1) by (simp_all add: sent_def)
  obtain s2 where w: "wakeup (Some (Chan_nread pi)) s1 = Ret () s2" "in_pipe p pi s2" "pipe_frame p pi s1 s2"
      "ubyte s2 p = ubyte s1 p" "pipe_queue s2 pi = pipe_queue s1 pi" "awake (Chan_nread pi) s2"
      "no_byte p (addr + of_nat j) s2 = no_byte p (addr + of_nat j) s1"
    using s1(1) by (rule pipe_wakeup)
  note r = after_release [OF w(2) pipe_frame_trans [OF s1(2) w(3)]]
  show ?thesis
    by (intro exI [of _ j] exI [of _ "s2\<lparr>held := {}\<rparr>"])
      (use 1 r w in \<open>simp add: pipewrite_from_def sent_def\<close>)
next
  case 2
  note r = after_release [OF ip pipe_frame_refl]
  show ?thesis
    by (intro exI [of _ i] exI [of _ "s\<lparr>held := {}\<rparr>"])
      (use 2 r in \<open>simp add: pipewrite_from_def seen_def\<close>)
next
  case (3 j s1)
  have s1: "in_pipe p pi s1" "pipe_frame p pi s s1"
    using 3(1) by (simp_all add: sent_def)
  obtain t where "sleep (Chan_nwrite pi) (Lk_pipe pi) s1 = (Sleep (Chan_nwrite pi) t :: ('a filest_scheme, int) outcome)"
      "after_pipe p pi s t" "ubyte t p = ubyte s1 p" "pipe_queue t pi = pipe_queue s1 pi"
      "awake (Chan_nread pi) t = awake (Chan_nread pi) s1"
    using s1 by (rule after_sleep)
  then show ?thesis
    by (intro exI [of _ j] exI [of _ t]) (use 3 in \<open>simp add: pipewrite_from_def sent_def\<close>)
qed

subsection \<open>Reading\<close>

definition take_byte :: "uint64 \<Rightarrow> 'a filest_scheme \<Rightarrow> 'a filest_scheme" where
  "take_byte pi = upd_pipe pi (\<lambda>x. x\<lparr>nread := nread x + 1\<rparr>)"

lemma queue_empty: "nread (pipes s pi) = nwrite (pipes s pi) \<longleftrightarrow> pipe_queue s pi = []"
  using pipe_ring.pop [of "nread (pipes s pi)" "nwrite (pipes s pi)" "pdata (pipes s pi)"]
  by (cases "nread (pipes s pi) = nwrite (pipes s pi)") (auto simp: pipe_queue_def ring_list_def)

lemma take_byte:
  assumes "in_pipe p pi s" "pipe_queue s pi \<noteq> []"
  shows "pipe_queue s pi = pdata (pipes s pi) (slot_of PIPESIZE (nread (pipes s pi))) # pipe_queue (take_byte pi s) pi"
    "in_pipe p pi (take_byte pi s)" "ubyte (take_byte pi s) p = ubyte s p" "pipe_frame p pi s (take_byte pi s)"
proof -
  have "nread (pipes s pi) \<noteq> nwrite (pipes s pi)"
    using assms(2) queue_empty by blast
  from pipe_ring.pop [OF this, of "pdata (pipes s pi)"]
  show q: "pipe_queue s pi = pdata (pipes s pi) (slot_of PIPESIZE (nread (pipes s pi))) # pipe_queue (take_byte pi s) pi"
    by (simp add: pipe_queue_def take_byte_def upd_pipe_def)
  have "pipe_inv (take_byte pi s) pi"
    using assms(1) by (simp add: in_pipe_def pipe_inv_def q)
  then show "in_pipe p pi (take_byte pi s)" "ubyte (take_byte pi s) p = ubyte s p"
    using in_pipe_upd [OF assms(1)] by (simp_all add: take_byte_def)
  show "pipe_frame p pi s (take_byte pi s)"
    by (simp add: pipe_frame_def take_byte_def upd_pipe_def)
qed

lemma copyout_byte:
  assumes "in_pipe p pi s"
  obtains s' where "copyout (pagetable (procs s p)) a [b] s = Ret 0 s'" "ubyte s' p = uwrite (ubyte s p) a [b]"
      "in_pipe p pi s'" "pipe_frame p pi s s'" "pipe_queue s' pi = pipe_queue s pi"
    | s' where "copyout (pagetable (procs s p)) a [b] s = Ret (-1) s'" "ubyte s' p = ubyte s p"
      "in_pipe p pi s'" "pipe_frame p pi s s'" "pipe_queue s' pi = pipe_queue s pi" "no_room p a s'"
proof -
  obtain xs where u: "uspace s p xs" "myproc s = Some p"
    using assms by (auto simp: in_pipe_def)
  obtain r s' xs' k where c: "copyout (pagetable (procs s p)) a [b] s = Ret r s'" "copies_out p s xs a [b] k r s' xs'"
    using copyout_ok [OF u, of "[b]" a] by auto
  have m: "mem_only s s'" "uspace s' p xs'" "ubyte s' p = uwrite (ubyte s p) a (take k [b])" "uwritable s' p = uwritable s p"
    using c(2) by (simp_all add: copies_out_def wrote_def)
  note f = in_pipe_mem [OF assms m(1,2)]
  have "k \<le> 1"
    using c(2) by (simp add: copies_out_def)
  then consider "k = 1" "r = 0" | "k = 0" "r = -1" "\<not> uwritable s p a \<or> length xs' \<le> 1"
    using c(2) by (cases k) (auto simp: copies_out_def)
  then show thesis
  proof cases
    case 1
    then show thesis
      using that(1) [of s'] c f m by simp
  next
    case 2
    then have "no_room p a s'"
      using m by (auto simp: no_room_def)
    then show thesis
      using that(2) [of s'] 2 c f m by simp
  qed
qed

text \<open>The process has received the bytes \<open>bs\<close>; a byte whose copy failed is gone.\<close>

definition received :: "nat \<Rightarrow> uint64 \<Rightarrow> uint64 \<Rightarrow> nat \<Rightarrow> uint8 list \<Rightarrow> 'a filest_scheme \<Rightarrow> 'a filest_scheme \<Rightarrow> bool" where
  "received p pi addr n bs s s' \<longleftrightarrow> length bs \<le> n \<and> ubyte s' p = uwrite (ubyte s p) addr bs \<and>
     (pipe_queue s pi = bs @ pipe_queue s' pi \<and> (length bs = n \<or> pipe_queue s' pi = []) \<or>
      length bs < n \<and> no_room p (addr + of_nat (length bs)) s' \<and> (\<exists>b. pipe_queue s pi = bs @ b # pipe_queue s' pi))"

lemma received_byte:
  assumes "received p pi (addr + 1) n bs s1 s'" "ubyte s1 p = uwrite (ubyte s p) addr [b]"
    "pipe_queue s pi = b # pipe_queue s1 pi" "pipe_inv s pi"
  shows "received p pi addr (Suc n) (b # bs) s s'"
proof -
  have "length bs < 512"
    using assms by (auto simp: received_def pipe_inv_def)
  then have "uwrite (uwrite (ubyte s p) addr [b]) (addr + 1) bs = uwrite (ubyte s p) addr (b # bs)"
    using uwrite_append [of "[b]" bs "ubyte s p" addr] by simp
  then show ?thesis
    using assms by (auto simp: received_def algebra_simps)
qed

lemma piperead_loop_step:
  assumes "in_pipe p pi s" "i < n" "pipe_queue s pi = b # q"
  shows "piperead_loop pi addr n i s =
    bnd (copyout (pagetable (procs (take_byte pi s) p)) (addr + of_nat i) [b] (take_byte pi s)) (\<lambda>r s.
      if r = -1 then Ret i s else piperead_loop pi addr n (Suc i) s)"
proof -
  have "nread (pipes s pi) \<noteq> nwrite (pipes s pi)"
    using assms(3) queue_empty [of s pi] by simp
  moreover have "myproc (take_byte pi s) = Some p" "pdata (pipes s pi) (slot_of PIPESIZE (nread (pipes s pi))) = b"
    using assms take_byte [OF assms(1)] by (auto simp: in_pipe_def)
  ultimately show ?thesis
    using assms(2) by (subst piperead_loop.simps) (simp add: with_myproc_def take_byte_def Let_def cong: if_cong)
qed

lemma piperead_loop_ok:
  assumes "in_pipe p pi s" "i \<le> n"
  shows "\<exists>bs s'. piperead_loop pi addr n i s = Ret (i + length bs) s' \<and> in_pipe p pi s' \<and> pipe_frame p pi s s' \<and>
    received p pi (addr + of_nat i) (n - i) bs s s'"
  using assms
proof (induction "n - i" arbitrary: i s)
  case 0
  then show ?case
    by (intro exI [of _ "[]"] exI [of _ s]) (simp add: piperead_loop.simps received_def)
next
  case (Suc m)
  note ip = Suc.prems(1)
  have i: "i < n" "m = n - Suc i" "n - i = Suc m" "Suc i \<le> n"
    using Suc.hyps(2) by arith+
  show ?case
  proof (cases "pipe_queue s pi")
    case Nil
    then show ?thesis
      by (intro exI [of _ "[]"] exI [of _ s]) (use ip queue_empty [of s pi] in \<open>simp add: piperead_loop.simps received_def\<close>)
  next
    case (Cons b q)
    note st = piperead_loop_step [OF ip i(1) Cons, of addr]
    have ne: "pipe_queue s pi \<noteq> []"
      using Cons by simp
    note tb = take_byte [OF ip ne]
    have q: "pipe_queue (take_byte pi s) pi = q"
      using tb(1) Cons by simp
    show ?thesis
      using tb(2)
    proof (cases rule: copyout_byte [where a = "addr + of_nat i" and b = b])
      case (1 s1)
      obtain bs s' where r: "piperead_loop pi addr n (Suc i) s1 = Ret (Suc i + length bs) s'" "in_pipe p pi s'"
          "pipe_frame p pi s1 s'" "received p pi (addr + of_nat (Suc i)) (n - Suc i) bs s1 s'"
        using Suc.hyps(1) [OF i(2) 1(3) i(4)] by blast
      have "received p pi (addr + of_nat i) (n - i) (b # bs) s s'"
        unfolding i(3) by (rule received_byte [where ?s1.0 = s1])
          (use r(4) 1 q tb(3) Cons ip in \<open>simp_all add: i(2) add_ac in_pipe_def\<close>)
      then show ?thesis
        by (intro exI [of _ "b # bs"] exI [of _ s'])
          (use st 1 r pipe_frame_trans [OF tb(4) pipe_frame_trans [OF 1(4) r(3)]] in simp)
    next
      case (2 s1)
      have "received p pi (addr + of_nat i) (n - i) [] s s1"
        using 2 tb(3) q Cons i(3) by (simp add: received_def)
      then show ?thesis
        by (intro exI [of _ "[]"] exI [of _ s1])
          (use st 2 pipe_frame_trans [OF tb(4) 2(4)] in simp)
    qed
  qed
qed

lemma piperead_from_ok:
  assumes ip: "in_pipe p pi s"
  shows "\<exists>bs s'. after_pipe p pi s s' \<and>
    (piperead_from pi addr n s = Ret (int (length bs)) s' \<and> (pipe_queue s pi \<noteq> [] \<or> \<not> writeopen (pipes s pi)) \<and>
       received p pi addr n bs s s' \<and> awake (Chan_nwrite pi) s' \<or>
     pipe_queue s pi = [] \<and> pipe_queue s' pi = [] \<and> ubyte s' p = ubyte s p \<and> writeopen (pipes s pi) \<and>
       piperead_from pi addr n s = (if pkilled (procs s p) \<noteq> 0 then Ret (-1) s' else Sleep (Chan_nread pi) s'))"
proof (cases "pipe_queue s pi = [] \<and> writeopen (pipes s pi)")
  case True
  have m: "myproc s = Some p"
    using ip by (simp add: in_pipe_def)
  note rel = after_release [OF ip pipe_frame_refl]
  obtain t where t: "sleep (Chan_nread pi) (Lk_pipe pi) s = (Sleep (Chan_nread pi) t :: ('a filest_scheme, int) outcome)"
      "after_pipe p pi s t" "ubyte t p = ubyte s p" "pipe_queue t pi = pipe_queue s pi"
    using ip pipe_frame_refl by (rule after_sleep)
  have "piperead_from pi addr n s = (if pkilled (procs s p) \<noteq> 0 then Ret (-1) (s\<lparr>held := {}\<rparr>) else Sleep (Chan_nread pi) t)"
    using True t(1) rel(1) by (simp add: piperead_from_def queue_empty with_myproc_def m in_pipe_killed [OF ip])
  then show ?thesis
    by (intro exI [of _ "[]"] exI [of _ "if pkilled (procs s p) \<noteq> 0 then s\<lparr>held := {}\<rparr> else t"])
      (use True t rel(2-4) in simp)
next
  case False
  obtain bs s1 where l: "piperead_loop pi addr n 0 s = Ret (length bs) s1" "in_pipe p pi s1" "pipe_frame p pi s s1"
      "received p pi addr n bs s s1"
    using piperead_loop_ok [OF ip, of 0 n addr] by auto
  obtain s2 where w: "wakeup (Some (Chan_nwrite pi)) s1 = Ret () s2" "in_pipe p pi s2" "pipe_frame p pi s1 s2"
      "ubyte s2 p = ubyte s1 p" "pipe_queue s2 pi = pipe_queue s1 pi" "awake (Chan_nwrite pi) s2"
      "no_room p (addr + of_nat (length bs)) s2 = no_room p (addr + of_nat (length bs)) s1"
    using l(2) by (rule pipe_wakeup)
  note rel = after_release [OF w(2) pipe_frame_trans [OF l(3) w(3)]]
  have "received p pi addr n bs s (s2\<lparr>held := {}\<rparr>)"
    using l(4) w rel by (simp add: received_def)
  then show ?thesis
    by (intro exI [of _ bs] exI [of _ "s2\<lparr>held := {}\<rparr>"])
      (use False l w rel in \<open>auto simp: piperead_from_def queue_empty\<close>)
qed

subsection \<open>The system calls' view\<close>

lemma in_pipe_acquire:
  assumes "uspace s p xs" "myproc s = Some p" "held s = {}" "pipe_inv s pi"
  obtains s1 where "acquire (Lk_pipe pi) s = Ret () s1" "in_pipe p pi s1" "pipe_frame p pi s s1" "ubyte s1 p = ubyte s p"
    "pipe_queue s1 pi = pipe_queue s pi" "pipes s1 = pipes s" "procs s1 = procs s"
proof -
  let ?s = "s\<lparr>held := {Lk_pipe pi}\<rparr>"
  have "acquire (Lk_pipe pi) s = Ret () ?s"
    using assms(3) by simp
  moreover have "uspace ?s p xs" "ubyte ?s p = ubyte s p"
    using uspace_cong(1,2) [OF assms(1), of ?s] by simp_all
  ultimately show thesis
    using that [of ?s] assms by (auto simp: in_pipe_def pipe_frame_def pipe_inv_def pipe_queue_def)
qed

lemma after_pipe_frame: "after_pipe p pi s1 s' \<Longrightarrow> pipe_frame p pi s s1 \<Longrightarrow> after_pipe p pi s s'"
  by (auto simp: after_pipe_def intro: pipe_frame_trans)

lemma seen_cong: "ubyte s' p = ubyte s p \<Longrightarrow> seen s' p addr i j = seen s p addr i j"
  by (simp add: seen_def)


text \<open>
  C36: \<^verbatim>\<open>piperead\<close> takes bytes from the front of the queue and stores them, in order, at \<open>addr\<close> in the process's
  memory, changing nothing else that the process sees; it returns how many. It stops at \<open>n\<close>, when the queue is
  empty, or when a byte cannot be stored, and that byte is lost. With an empty queue and the writing end
  open it sleeps, or returns -1 if the process is killed. Whenever it returns a count, no writer is left asleep.
\<close>

theorem piperead_correct:
  assumes "uspace s p xs" "myproc s = Some p" "held s = {}" "pipe_inv s pi"
  shows "\<exists>bs s'. after_pipe p pi s s' \<and>
    (piperead pi addr n s = Ret (int (length bs)) s' \<and> (pipe_queue s pi \<noteq> [] \<or> \<not> writeopen (pipes s pi)) \<and>
       received p pi addr (nat n) bs s s' \<and> awake (Chan_nwrite pi) s' \<or>
     pipe_queue s pi = [] \<and> pipe_queue s' pi = [] \<and> ubyte s' p = ubyte s p \<and> writeopen (pipes s pi) \<and>
       piperead pi addr n s = (if pkilled (procs s p) \<noteq> 0 then Ret (-1) s' else Sleep (Chan_nread pi) s'))"
proof -
  obtain s1 where a: "acquire (Lk_pipe pi) s = Ret () s1" "in_pipe p pi s1" "pipe_frame p pi s s1" "ubyte s1 p = ubyte s p"
    "pipe_queue s1 pi = pipe_queue s pi" "pipes s1 = pipes s" "procs s1 = procs s"
    using assms by (rule in_pipe_acquire)
  have e: "piperead pi addr n s = piperead_from pi addr (nat n) s1"
    using a(1) by (simp add: piperead_def)
  have r: "received p pi addr m bs s1 s' = received p pi addr m bs s s'" for m bs s'
    using a(4,5) by (simp add: received_def)
  show ?thesis
    using piperead_from_ok [OF a(2), of addr "nat n"] after_pipe_frame [OF _ a(3)]
    unfolding e r a(4-7) by blast
qed

text \<open>A pipe whose counters are about to wrap, with one byte in it, and a process with one page.\<close>

definition pipe_user :: filest where
  "pipe_user = consst.extend (boot_cons\<lparr>myproc := Some 0, procs := procs lazy_user, mem := mem lazy_user,
       freelist := freelist lazy_user, kernel_end := kernel_end lazy_user\<rparr>)
     (filest.fields (\<lambda>_. \<lparr>fd_type = FD_NONE, fref = 0, readable = False, writable = False, fpipe = 0, fip = None, foff = 0, fmajor = 0\<rparr>)
       (\<lambda>_. \<lparr>pdata = (\<lambda>_. 33), nread = - 1, nwrite = 0, readopen = True, writeopen = True\<rparr>))"

lemma pipe_user: "uspace pipe_user 0 [0x80021000]" "myproc pipe_user = Some 0" "held pipe_user = {}" "pipe_inv pipe_user 7"
  "pipe_queue pipe_user 7 = [33]"
proof -
  show m: "myproc pipe_user = Some 0" and h: "held pipe_user = {}"
    by (simp_all add: pipe_user_def consst.defs filest.defs)
  show "uspace pipe_user 0 [0x80021000]"
    by (rule uspace_cong(1) [OF lazy_user_space(1)]) (simp_all add: h, simp_all add: pipe_user_def consst.defs filest.defs)
  show "pipe_queue pipe_user 7 = [33]"
    by (simp add: pipe_queue_def pipe_user_def consst.defs filest.defs ring_list_def)
  then show "pipe_inv pipe_user 7"
    by (simp add: pipe_inv_def)
qed


theorem piperead_correct_witness:
  "\<exists>bs s'. piperead 7 99 5 pipe_user = Ret (int (length bs)) s' \<and> received 0 7 99 (nat 5) bs pipe_user s' \<and> awake (Chan_nwrite 7) s'"
  using piperead_correct [OF pipe_user(1-4), of 99 5] by (auto simp: pipe_user(5))

end
