(* ===== verification/Trap.thy ===== *)
theory Trap
  imports Sysfile Virtio
begin

section \<open>System call dispatch, traps and booting (syscall.c, trap.c, plic.c, start.c, main.c)\<close>

text \<open>
  The ways into and out of the kernel: \<^verbatim>\<open>syscall\<close>, the handlers of \<^verbatim>\<open>riscv/kernel/trap.c\<close>, the
  interrupt controller, and booting. Control and status registers are a record. What a register of
  a device gives when it is read is part of \<open>inputs\<close>.

  A timer interrupt makes the thread give up the CPU inside the handler: \<open>usertrap\<close> and
  \<open>kerneltrap\<close> then end with \<open>None\<close>, and the \<open>_resume\<close> functions are what they do when the scheduler
  comes back.
\<close>

subsection \<open>State\<close>

record csrs =
  c_stvec :: uint64
  c_sstatus :: uint64
  c_sepc :: uint64
  c_scause :: uint64
  c_stval :: uint64
  c_satp :: uint64
  c_stimecmp :: uint64
  c_tp :: uint64
  c_mstatus :: uint64
  c_mepc :: uint64
  c_medeleg :: uint64
  c_mideleg :: uint64
  c_sie :: uint64
  c_pmpaddr0 :: uint64
  c_pmpcfg0 :: uint64
  c_mie :: uint64
  c_menvcfg :: uint64
  c_mcounteren :: uint64

record kernst = vdiskst +
  csr :: csrs
  forkret_first :: bool
  plic :: "uint64 \<Rightarrow> uint32"
  kernel_pagetable :: uint64
  started :: bool

record inputs =
  in_time :: uint64
  in_irq :: uint32
  in_tx_idle :: bool
  in_vstatus :: uint32

definition SSTATUS_SPP :: uint64 where [simp]: "SSTATUS_SPP = push_bit 8 1"
definition SSTATUS_SPIE :: uint64 where [simp]: "SSTATUS_SPIE = push_bit 5 1"
definition SSTATUS_SIE :: uint64 where [simp]: "SSTATUS_SIE = push_bit 1 1"
definition MAKE_SATP :: "uint64 \<Rightarrow> uint64" where "MAKE_SATP pt = push_bit 60 8 OR drop_bit 12 pt"
definition UART0_IRQ :: uint32 where [simp]: "UART0_IRQ = 10"
definition VIRTIO0_IRQ :: uint32 where [simp]: "VIRTIO0_IRQ = 1"

definition upd_csr :: "(csrs \<Rightarrow> csrs) \<Rightarrow> 'a kernst_scheme \<Rightarrow> 'a kernst_scheme" where
  "upd_csr f s = s\<lparr>csr := f (csr s)\<rparr>"

definition intr_on :: "'a kernst_scheme \<Rightarrow> 'a kernst_scheme" where
  "intr_on = upd_csr (\<lambda>c. c\<lparr>c_sstatus := c_sstatus c OR SSTATUS_SIE\<rparr>)"

definition intr_off :: "'a kernst_scheme \<Rightarrow> 'a kernst_scheme" where
  "intr_off = upd_csr (\<lambda>c. c\<lparr>c_sstatus := c_sstatus c AND NOT SSTATUS_SIE\<rparr>)"

definition intr_get :: "'a kernst_scheme \<Rightarrow> bool" where
  "intr_get s \<longleftrightarrow> c_sstatus (csr s) AND SSTATUS_SIE \<noteq> 0"

definition nl :: string where "nl = [CHR 0x0A]"

subsection \<open>The interrupt controller\<close>

definition PLIC_SENABLE :: "uint64 \<Rightarrow> uint64" where "PLIC_SENABLE hart = PLIC + 0x2080 + hart * 0x100"
definition PLIC_SPRIORITY :: "uint64 \<Rightarrow> uint64" where "PLIC_SPRIORITY hart = PLIC + 0x201000 + hart * 0x2000"
definition PLIC_SCLAIM :: "uint64 \<Rightarrow> uint64" where "PLIC_SCLAIM hart = PLIC + 0x201004 + hart * 0x2000"

definition plicinit :: "'a kernst_scheme \<Rightarrow> 'a kernst_scheme" where
  "plicinit s = s\<lparr>plic := (plic s)(PLIC + ucast UART0_IRQ * 4 := 1, PLIC + ucast VIRTIO0_IRQ * 4 := 1)\<rparr>"

definition plicinithart :: "'a kernst_scheme \<Rightarrow> 'a kernst_scheme" where
  "plicinithart s =
     (let hart = c_tp (csr s) in
      s\<lparr>plic := (plic s)(PLIC_SENABLE hart := push_bit 10 1 OR push_bit 1 1, PLIC_SPRIORITY hart := 0)\<rparr>)"

definition plic_claim :: "inputs \<Rightarrow> uint32" where
  "plic_claim inp = in_irq inp"

definition plic_complete :: "uint32 \<Rightarrow> 'a kernst_scheme \<Rightarrow> 'a kernst_scheme" where
  "plic_complete irq s = s\<lparr>plic := (plic s)(PLIC_SCLAIM (c_tp (csr s)) := irq)\<rparr>"

subsection \<open>System calls\<close>

definition syscalls :: "ksyms \<Rightarrow> uint8 list \<Rightarrow> uint8 list \<Rightarrow> ('a filest_scheme \<Rightarrow> ('a filest_scheme, uint64) outcome) option list" where
  "syscalls ks junk pad =
     [None, Some (sys_fork ks), Some sys_exit, Some sys_wait, Some sys_pipe, Some sys_read, Some sys_kill,
      Some (sys_exec ks), Some (sys_fstat pad), Some sys_chdir, Some sys_dup, Some sys_getpid, Some sys_sbrk,
      Some sys_pause, Some sys_uptime, Some (sys_open junk), Some sys_write, Some (sys_mknod junk), Some sys_unlink,
      Some (sys_link junk), Some (sys_mkdir junk), Some sys_close]"

definition syscall :: "ksyms \<Rightarrow> uint8 list \<Rightarrow> uint8 list \<Rightarrow> 'a filest_scheme \<Rightarrow> ('a filest_scheme, unit) outcome" where
  "syscall ks junk pad = with_myproc (\<lambda>p s.
     bnd (load_tf p (tf_arg 7) s) (\<lambda>a7 s.
     let num = sint (ucast a7 :: uint32);
         f = (if num > 0 \<and> num < 22 then (syscalls ks junk pad ! nat num) else None) in
     case f of
       Some f \<Rightarrow> bnd (f s) (\<lambda>v s. store_tf p (tf_arg 0) v s)
     | None \<Rightarrow>
         bnd (kprintf (''%d %s: unknown sys call %d'' @ nl)
               [VInt (ucast (pid (procs s p))), VStr (Some (cstr (pname (procs s p)) 16)), VInt (of_int num)] s) (\<lambda>_ s.
         store_tf p (tf_arg 0) (-1) s)))"

subsection \<open>Interrupts\<close>

definition clockintr :: "inputs \<Rightarrow> 'a kernst_scheme \<Rightarrow> ('a kernst_scheme, unit) outcome" where
  "clockintr inp s =
     bnd (if c_tp (csr s) = 0 then
            bnd (acquire Lk_ticks s) (\<lambda>_ s.
            bnd (wakeup (Some Chan_ticks) (s\<lparr>ticks := ticks s + 1\<rparr>)) (\<lambda>_ s.
            release Lk_ticks s))
          else Ret () s) (\<lambda>_ s.
     Ret () (upd_csr (\<lambda>c. c\<lparr>c_stimecmp := in_time inp + 1000000\<rparr>) s))"

definition devintr :: "inputs \<Rightarrow> 'a kernst_scheme \<Rightarrow> ('a kernst_scheme, nat) outcome" where
  "devintr inp s =
     (if c_scause (csr s) = 0x8000000000000009 then
        let irq = plic_claim inp in
        bnd (if irq = UART0_IRQ then uartintr (in_tx_idle inp) s
             else if irq = VIRTIO0_IRQ then virtio_disk_intr (in_vstatus inp) s
             else if irq \<noteq> 0 then kprintf (''unexpected interrupt irq=%d'' @ nl) [VInt (ucast irq)] s
             else Ret () s) (\<lambda>_ s.
        Ret 1 (if irq \<noteq> 0 then plic_complete irq s else s))
      else if c_scause (csr s) = 0x8000000000000005 then bnd (clockintr inp s) (\<lambda>_ s. Ret 2 s)
      else Ret 0 s)"

subsection \<open>Traps from user space\<close>

definition prepare_return :: "ksyms \<Rightarrow> 'a kernst_scheme \<Rightarrow> ('a kernst_scheme, unit) outcome" where
  "prepare_return ks = with_myproc (\<lambda>p s.
     let s = intr_off s;
         s = upd_csr (\<lambda>c. c\<lparr>c_stvec := TRAMPOLINE + (uservec_at ks - trampoline_at ks)\<rparr>) s in
     bnd (store_tf p tf_kernel_satp (c_satp (csr s)) s) (\<lambda>_ s.
     bnd (store_tf p tf_kernel_sp (kstack (procs s p) + PGSIZE) s) (\<lambda>_ s.
     bnd (store_tf p tf_kernel_trap (usertrap_at ks) s) (\<lambda>_ s.
     bnd (store_tf p tf_kernel_hartid (c_tp (csr s)) s) (\<lambda>_ s.
     let s = upd_csr (\<lambda>c. c\<lparr>c_sstatus := (c_sstatus c AND NOT SSTATUS_SPP) OR SSTATUS_SPIE\<rparr>) s in
     bnd (load_tf p tf_epc s) (\<lambda>epc s.
     Ret () (upd_csr (\<lambda>c. c\<lparr>c_sepc := epc\<rparr>) s)))))))"

definition kill_if_killed :: "nat \<Rightarrow> 'a filest_scheme \<Rightarrow> ('a filest_scheme, unit) outcome" where
  "kill_if_killed p s = bnd (killed p s) (\<lambda>k s. if k \<noteq> 0 then kexit (-1) s else Ret () s)"

text \<open>The cases of \<^verbatim>\<open>usertrap\<close>; the result is \<^verbatim>\<open>which_dev\<close>.\<close>

definition usertrap_cause :: "ksyms \<Rightarrow> uint8 list \<Rightarrow> uint8 list \<Rightarrow> inputs \<Rightarrow> nat \<Rightarrow> 'a kernst_scheme \<Rightarrow> ('a kernst_scheme, nat) outcome" where
  "usertrap_cause ks junk pad inp p s =
     (if c_scause (csr s) = 8 then
        bnd (kill_if_killed p s) (\<lambda>_ s.
        bnd (load_tf p tf_epc s) (\<lambda>epc s.
        bnd (store_tf p tf_epc (epc + 4) s) (\<lambda>_ s.
        bnd (syscall ks junk pad (intr_on s)) (\<lambda>_ s. Ret 0 s))))
      else
        bnd (devintr inp s) (\<lambda>d s.
        if d \<noteq> 0 then Ret d s
        else
          bnd (if c_scause (csr s) = 15 \<or> c_scause (csr s) = 13
               then vmfault (pagetable (procs s p)) (c_stval (csr s)) (c_scause (csr s) = 13) s
               else Ret 0 s) (\<lambda>pa s.
          if pa \<noteq> 0 then Ret 0 s
          else
            bnd (kprintf (''usertrap(): unexpected scause 0x%lx pid=%d'' @ nl)
                  [VInt (c_scause (csr s)), VInt (ucast (pid (procs s p)))] s) (\<lambda>_ s.
            bnd (kprintf (''            sepc=0x%lx stval=0x%lx'' @ nl) [VInt (c_sepc (csr s)), VInt (c_stval (csr s))] s) (\<lambda>_ s.
            bnd (setkilled p s) (\<lambda>_ s. Ret 0 s))))))"

definition usertrap_return :: "ksyms \<Rightarrow> 'a kernst_scheme \<Rightarrow> ('a kernst_scheme, uint64) outcome" where
  "usertrap_return ks s =
     bnd (prepare_return ks s) (\<lambda>_ s.
     with_myproc (\<lambda>p s. Ret (MAKE_SATP (pagetable (procs s p))) s) s)"

definition usertrap :: "ksyms \<Rightarrow> uint8 list \<Rightarrow> uint8 list \<Rightarrow> inputs \<Rightarrow> 'a kernst_scheme \<Rightarrow> ('a kernst_scheme, uint64 option) outcome" where
  "usertrap ks junk pad inp s =
     (if c_sstatus (csr s) AND SSTATUS_SPP \<noteq> 0 then Panic ''usertrap: not from user mode''
      else
        let s = upd_csr (\<lambda>c. c\<lparr>c_stvec := kernelvec_at ks\<rparr>) s in
        with_myproc (\<lambda>p s.
          bnd (store_tf p tf_epc (c_sepc (csr s)) s) (\<lambda>_ s.
          bnd (usertrap_cause ks junk pad inp p s) (\<lambda>which_dev s.
          bnd (kill_if_killed p s) (\<lambda>_ s.
          if which_dev = 2 then bnd (yield s) (\<lambda>_ s. Ret None s)
          else bnd (usertrap_return ks s) (\<lambda>v s. Ret (Some v) s))))) s)"

definition yield_resume :: "'a ptable_scheme \<Rightarrow> ('a ptable_scheme, unit) outcome" where
  "yield_resume = with_myproc (\<lambda>p s. release (Lk_proc p) s)"

definition usertrap_resume :: "ksyms \<Rightarrow> 'a kernst_scheme \<Rightarrow> ('a kernst_scheme, uint64) outcome" where
  "usertrap_resume ks s = bnd (yield_resume s) (\<lambda>_ s. usertrap_return ks s)"

text \<open>The first thing a new process does.\<close>

definition init_path :: "uint8 list" where "init_path = map chr ''/init''"

definition forkret :: "ksyms \<Rightarrow> 'a kernst_scheme \<Rightarrow> ('a kernst_scheme, uint64) outcome" where
  "forkret ks = with_myproc (\<lambda>p s.
     bnd (release (Lk_proc p) s) (\<lambda>_ s.
     bnd (if forkret_first s then
            bnd (fsinit ROOTDEV s) (\<lambda>_ s.
            bnd (kexec ks init_path [init_path] (s\<lparr>forkret_first := False\<rparr>)) (\<lambda>r s.
            bnd (store_tf p (tf_arg 0) (of_int r) s) (\<lambda>_ s.
            if (of_int r :: uint64) = -1 then Panic ''exec'' else Ret () s)))
          else Ret () s) (\<lambda>_ s.
     usertrap_return ks s)))"

subsection \<open>Traps from the kernel\<close>

definition kerneltrap :: "inputs \<Rightarrow> 'a kernst_scheme \<Rightarrow> ('a kernst_scheme, unit option) outcome" where
  "kerneltrap inp s =
     (let sepc = c_sepc (csr s); sstatus = c_sstatus (csr s); scause = c_scause (csr s) in
      if sstatus AND SSTATUS_SPP = 0 then Panic ''kerneltrap: not from supervisor mode''
      else if intr_get s then Panic ''kerneltrap: interrupts enabled''
      else
        bnd (devintr inp s) (\<lambda>which_dev s.
        if which_dev = 0 then Panic ''kerneltrap''
        else if which_dev = 2 \<and> myproc s \<noteq> None then bnd (yield s) (\<lambda>_ s. Ret None s)
        else Ret (Some ()) (upd_csr (\<lambda>c. c\<lparr>c_sepc := sepc, c_sstatus := sstatus\<rparr>) s)))"

definition kerneltrap_resume :: "uint64 \<Rightarrow> uint64 \<Rightarrow> 'a kernst_scheme \<Rightarrow> ('a kernst_scheme, unit) outcome" where
  "kerneltrap_resume sepc sstatus s =
     bnd (yield_resume s) (\<lambda>_ s.
     Ret () (upd_csr (\<lambda>c. c\<lparr>c_sepc := sepc, c_sstatus := sstatus\<rparr>) s))"

subsection \<open>Booting\<close>

definition timerinit :: "uint64 \<Rightarrow> csrs \<Rightarrow> csrs" where
  "timerinit time c =
     c\<lparr>c_mie := c_mie c OR push_bit 5 1, c_menvcfg := c_menvcfg c OR push_bit 63 1,
       c_mcounteren := c_mcounteren c OR 2, c_stimecmp := time + 1000000\<rparr>"

definition start :: "ksyms \<Rightarrow> uint64 \<Rightarrow> uint64 \<Rightarrow> csrs \<Rightarrow> csrs" where
  "start ks hartid time c =
     (let c = c\<lparr>c_mstatus := (c_mstatus c AND NOT (push_bit 11 3)) OR push_bit 11 1, c_mepc := main_at ks, c_satp := 0,
                c_medeleg := 0xffff, c_mideleg := 0xffff, c_sie := c_sie c OR push_bit 9 1 OR push_bit 5 1,
                c_pmpaddr0 := 0x3fffffffffffff, c_pmpcfg0 := 0xf\<rparr>;
          c = timerinit time c
      in c\<lparr>c_tp := hartid\<rparr>)"

definition kvminithart :: "'a kernst_scheme \<Rightarrow> 'a kernst_scheme" where
  "kvminithart s = upd_csr (\<lambda>c. c\<lparr>c_satp := MAKE_SATP (kernel_pagetable s)\<rparr>) s"

definition trapinithart :: "ksyms \<Rightarrow> 'a kernst_scheme \<Rightarrow> 'a kernst_scheme" where
  "trapinithart ks = upd_csr (\<lambda>c. c\<lparr>c_stvec := kernelvec_at ks\<rparr>)"

definition main_hart0 :: "ksyms \<Rightarrow> (nat \<Rightarrow> uint32) \<Rightarrow> 'a kernst_scheme \<Rightarrow> ('a kernst_scheme, unit) outcome" where
  "main_hart0 ks rd s =
     bnd (kprintf nl [] (uartinit s)) (\<lambda>_ s.
     bnd (kprintf (''xv6 kernel is booting'' @ nl) [] s) (\<lambda>_ s.
     bnd (kprintf nl [] s) (\<lambda>_ s.
     bnd (kinit s) (\<lambda>_ s.
     bnd (kvmmake (etext_at ks) (trampoline_at ks) s) (\<lambda>pt s.
     let s = kvminithart (s\<lparr>kernel_pagetable := pt\<rparr>);
         s = trapinithart ks (procinit s);
         s = plicinithart (plicinit s);
         s = iinit (binit s) in
     bnd (virtio_disk_init rd s) (\<lambda>_ s.
     bnd (userinit ks s) (\<lambda>_ s.
     Ret () (s\<lparr>started := True\<rparr>))))))))"

text \<open>The other harts wait for the flag: \<open>False\<close> when it is not set yet.\<close>

definition main_hart :: "ksyms \<Rightarrow> 'a kernst_scheme \<Rightarrow> ('a kernst_scheme, bool) outcome" where
  "main_hart ks s =
     (if \<not> started s then Ret False s
      else
        bnd (kprintf (''hart %d starting'' @ nl) [VInt (c_tp (csr s))] s) (\<lambda>_ s.
        Ret True (plicinithart (trapinithart ks (kvminithart s)))))"

end
