(* ===== verification/Fair.thy ===== *)
theory Fair
  imports Trap PipeQueue
begin

section \<open>Progress of the scheduler, and the limit that lazy growth misses\<close>

text \<open>
  Two facts about whole paths through the kernel. The scheduler gives every runnable process the
  CPU in each pass over the table (\<^verbatim>\<open>scheduler\<close> of \<^verbatim>\<open>riscv/kernel/proc.c\<close>). Growing a process lazily
  (\<^verbatim>\<open>sys_sbrk\<close> of \<^verbatim>\<open>riscv/kernel/sysproc.c\<close>) has no upper limit, so that a page fault
  (\<^verbatim>\<open>vmfault\<close> of \<^verbatim>\<open>riscv/kernel/vm.c\<close>) above \<^verbatim>\<open>MAXVA\<close> stops the kernel.
\<close>

subsection \<open>The scheduler\<close>

text \<open>
  What a kernel thread does between the two context switches, as the scheduler relies on it: it comes back holding
  its own lock and nothing else, and does not take another process out of the run queue without running it.
  \<open>had_cpu\<close> is the set of processes that have had the CPU, read off the part of the state that the
  scheduler does not touch.
\<close>

locale kthread =
  fixes run :: "nat \<Rightarrow> 'a ptable_scheme \<Rightarrow> ('a ptable_scheme, unit) outcome" and had_cpu :: "'a \<Rightarrow> nat set"
  assumes comes_back: "i < NPROC \<Longrightarrow> myproc s = Some i \<Longrightarrow> held s = {Lk_proc i} \<Longrightarrow> pstate (procs s i) = RUNNING \<Longrightarrow>
    \<exists>s'. run i s = Ret () s' \<and> held s' = {Lk_proc i} \<and> had_cpu (ptable.more s') \<supseteq> insert i (had_cpu (ptable.more s)) \<and>
      (\<forall>j<NPROC. j \<noteq> i \<longrightarrow> pstate (procs s j) = RUNNABLE \<longrightarrow> pstate (procs s' j) = RUNNABLE \<or> j \<in> had_cpu (ptable.more s'))"
begin

lemma scan_runs_all:
  assumes "held s = {}" "distinct is" "set is \<subseteq> {0..<NPROC}"
  shows "\<exists>f s'. scheduler_scan run is found s = Ret f s' \<and> held s' = {} \<and> had_cpu (ptable.more s) \<subseteq> had_cpu (ptable.more s') \<and>
    (found \<longrightarrow> f) \<and> (\<forall>j\<in>set is. pstate (procs s j) = RUNNABLE \<longrightarrow> f \<and> j \<in> had_cpu (ptable.more s'))"
  using assms
proof (induction "is" arbitrary: s found)
  case Nil
  then show ?case
    by simp
next
  case (Cons i "is")
  have i: "i < NPROC" "i \<notin> set is" "distinct is" "set is \<subseteq> {0..<NPROC}"
    using Cons.prems by auto
  show ?case
  proof (cases "pstate (procs s i) = RUNNABLE")
    case False
    have "scheduler_scan run (i # is) found s = scheduler_scan run is found s"
      using False Cons.prems(1) by (simp add: held_id)
    then show ?thesis
      using Cons.IH [OF Cons.prems(1) i(3,4), of found] False by simp
  next
    case True
    let ?s1 = "(upd_proc i (\<lambda>q. q\<lparr>pstate := RUNNING\<rparr>) (s\<lparr>held := {Lk_proc i}\<rparr>))\<lparr>myproc := Some i\<rparr>"
    obtain s2 where s2: "run i ?s1 = Ret () s2" "held s2 = {Lk_proc i}" "had_cpu (ptable.more s2) \<supseteq> insert i (had_cpu (ptable.more s))"
      "\<forall>j<NPROC. j \<noteq> i \<longrightarrow> pstate (procs s j) = RUNNABLE \<longrightarrow> pstate (procs s2 j) = RUNNABLE \<or> j \<in> had_cpu (ptable.more s2)"
      using comes_back [OF i(1), of ?s1] by (auto simp: upd_proc_def)
    let ?s3 = "s2\<lparr>myproc := None, held := {}\<rparr>"
    obtain f s' where r: "scheduler_scan run is True ?s3 = Ret f s'" "held s' = {}" "had_cpu (ptable.more s2) \<subseteq> had_cpu (ptable.more s')"
      "f" "\<forall>j\<in>set is. pstate (procs s2 j) = RUNNABLE \<longrightarrow> j \<in> had_cpu (ptable.more s')"
      using Cons.IH [of ?s3 True] i(3,4) by auto
    have e: "scheduler_scan run (i # is) found s = Ret f s'"
      using r(1) s2(1,2) True Cons.prems(1) by simp
    have "j \<in> had_cpu (ptable.more s')" if "j \<in> set is" "pstate (procs s j) = RUNNABLE" for j
    proof -
      have "j < NPROC" "j \<noteq> i"
        using that(1) i(2,4) by auto
      then show ?thesis
        using s2(4) r(3,5) that by blast
    qed
    then have "\<forall>j\<in>set (i # is). pstate (procs s j) = RUNNABLE \<longrightarrow> f \<and> j \<in> had_cpu (ptable.more s')"
      using r(3,4) s2(3) by auto
    then show ?thesis
      using r(2-4) s2(3) by (intro exI [of _ f] exI [of _ s'] conjI e) auto
  qed
qed

lemma pass_runs_all:
  assumes "held s = {}"
  shows "\<exists>f s'. scheduler_pass run s = Ret f s' \<and> held s' = {} \<and> had_cpu (ptable.more s) \<subseteq> had_cpu (ptable.more s') \<and>
    (\<forall>j<NPROC. pstate (procs s j) = RUNNABLE \<longrightarrow> f \<and> j \<in> had_cpu (ptable.more s'))"
  using scan_runs_all [OF assms, of "[0..<NPROC]" False] unfolding scheduler_pass_def by auto

end

text \<open>
  A thread that takes the CPU and gives it up again at once: it comes back from its last \<^verbatim>\<open>yield\<close>, notes that it ran
  and calls \<^verbatim>\<open>yield\<close>. The switch to the scheduler hands over the process lock.
\<close>

definition yielder :: "nat \<Rightarrow> nat set ptable_scheme \<Rightarrow> (nat set ptable_scheme, unit) outcome" where
  "yielder i s =
     bnd (yield_resume s) (\<lambda>_ s.
     bnd (yield (ptable.more_update (insert i) s)) (\<lambda>_ s.
     Ret () (s\<lparr>held := {Lk_proc i}\<rparr>)))"

lemma yielder_eq:
  assumes "myproc s = Some i" "held s = {Lk_proc i}"
  shows "yielder i s = Ret () ((upd_proc i (\<lambda>q. q\<lparr>pstate := RUNNABLE\<rparr>) (ptable.more_update (insert i) s))\<lparr>held := {Lk_proc i}\<rparr>)"
  using assms by (simp add: yielder_def yield_resume_def yield_def sched_def with_myproc_def upd_proc_def)

interpretation yielding: kthread yielder id
  by unfold_locales (auto simp: yielder_eq upd_proc_def)


text \<open>Two runnable processes, the second at the end of the table.\<close>

definition two_runnable :: "nat set ptable_scheme" where
  "two_runnable = ptable.extend (two_procs\<lparr>held := {}, procs := (procs two_procs)(3 := (procs two_procs 3)\<lparr>pstate := RUNNABLE\<rparr>,
      63 := (procs two_procs 63)\<lparr>pstate := RUNNABLE\<rparr>)\<rparr>) {}"


subsection \<open>Lazy growth has no limit\<close>

lemma walk_too_high: "MAXVA \<le> va \<Longrightarrow> walk pt va alloc s = Panic ''walk''"
  by (simp add: walk_def)

lemma sbrk_lazy:
  assumes "myproc s = Some p" "argint 0 s = Ret n s" "argint 1 s = Ret SBRK_LAZY s" "0 \<le> sint n"
    "sz (procs s p) \<le> sz (procs s p) + scast n"
  shows "sys_sbrk s = Ret (sz (procs s p)) (upd_proc p (\<lambda>q. q\<lparr>sz := sz q + scast n\<rparr>) s)"
proof -
  have "\<not> sz (procs s p) + scast n < sz (procs s p)" "\<not> sint n < 0"
    using assms(4,5) by (simp_all only: not_less)
  then show ?thesis
    using assms(1-3) by (simp add: sys_sbrk_def with_myproc_def Let_def)
qed

lemma high_page: "MAXVA \<le> va \<Longrightarrow> MAXVA \<le> PGROUNDDOWN va"
proof -
  assume "MAXVA \<le> va"
  then have "0x4000000000 \<le> unat va"
    by (simp add: word_le_nat_alt)
  then have "0x4000000000 div 4096 * 4096 \<le> unat va div 4096 * 4096"
    by (intro mult_le_mono1 div_le_mono)
  then show ?thesis
    by (simp add: word_le_nat_alt unat_PGROUNDDOWN)
qed

lemma vmfault_too_high:
  assumes "myproc s = Some p" "MAXVA \<le> va" "va < sz (procs s p)"
  shows "vmfault pt va rd s = Panic ''walk''"
proof -
  have "\<not> sz (procs s p) \<le> va"
    using assms(3) by (simp only: not_le)
  then show ?thesis
    using assms(1) by (simp add: vmfault_def with_myproc_def Let_def ismapped_def walk_too_high [OF high_page [OF assms(2)]])
qed

text \<open>
  C38: Lazy growth has no upper limit: \<^verbatim>\<open>sys_sbrk\<close> in lazy mode refuses a size only when the 64-bit sum
  wraps around, so a process can make its size larger than \<^verbatim>\<open>MAXVA\<close>. From then on a page fault of that process, or a
  system call that is given an address there, at any address from \<^verbatim>\<open>MAXVA\<close> up to the size stops the kernel:
  \<^verbatim>\<open>vmfault\<close> calls \<^verbatim>\<open>walk\<close>, which panics.
\<close>

theorem lazy_growth_panics:
  assumes "myproc s = Some p" "argint 0 s = Ret n s" "argint 1 s = Ret SBRK_LAZY s" "0 \<le> sint n"
    "sz (procs s p) \<le> sz (procs s p) + scast n"
  shows "\<exists>s'. sys_sbrk s = Ret (sz (procs s p)) s' \<and> sz (procs s' p) = sz (procs s p) + scast n \<and>
    (\<forall>va rd. MAXVA \<le> va \<and> va < sz (procs s p) + scast n \<longrightarrow> vmfault (pagetable (procs s' p)) va rd s' = Panic ''walk'')"
proof -
  let ?s = "upd_proc p (\<lambda>q. q\<lparr>sz := sz q + scast n\<rparr>) s"
  have "myproc ?s = Some p" "sz (procs ?s p) = sz (procs s p) + scast n"
    using assms(1) by (simp_all add: upd_proc_def)
  then show ?thesis
    using vmfault_too_high [of ?s p] by (intro exI [of _ ?s] conjI sbrk_lazy [OF assms]) auto
qed

text \<open>A process one page below the limit that asks for two more.\<close>

definition greedy :: filest where
  "greedy = pipe_user\<lparr>procs := (procs pipe_user)(0 := (procs pipe_user 0)\<lparr>sz := MAXVA - PGSIZE, trapframe := 0x80030000\<rparr>),
     mem := store64 (store64 (mem pipe_user) 0x80030070 0x2000) 0x80030078 2\<rparr>"

lemma greedy_args: "argint 0 greedy = Ret 0x2000 greedy" "argint 1 greedy = Ret SBRK_LAZY greedy" "myproc greedy = Some 0"
  "sz (procs greedy 0) = 0x3FFFFFF000"
proof -
  show m: "myproc greedy = Some 0"
    by (simp add: greedy_def pipe_user(2))
  have d: "run_at 0x80030070 8 \<inter> run_at (0x80030078 :: uint64) 8 = {}"
  proof -
    have "\<not> unat (y + 8) < 8" if "unat y < 8" for y :: uint64
      using that by (simp add: unat_word_ariths)
    from this [of "x - 0x80030078" for x] show ?thesis
      by (auto simp: run_at_def)
  qed
  show "argint 0 greedy = Ret 0x2000 greedy"
    by (simp add: argint_def argraw_def with_myproc_def m load_tf_def tf_arg_def) (simp add: greedy_def mem_simps d)
  show "argint 1 greedy = Ret SBRK_LAZY greedy"
    by (simp add: argint_def argraw_def with_myproc_def m load_tf_def tf_arg_def) (simp add: greedy_def mem_simps)
  show "sz (procs greedy 0) = 0x3FFFFFF000"
    by (simp add: greedy_def)
qed

theorem lazy_growth_panics_witness:
  "\<exists>s'. sys_sbrk greedy = Ret (sz (procs greedy 0)) s' \<and> vmfault (pagetable (procs s' 0)) 0x4000000008 True s' = Panic ''walk''"
proof -
  have "(0 :: int) \<le> sint (0x2000 :: uint32)" "sz (procs greedy 0) \<le> sz (procs greedy 0) + scast (0x2000 :: uint32)"
    by (simp_all add: greedy_args(4))
  from lazy_growth_panics [OF greedy_args(3,1,2) this] show ?thesis
    by (auto simp: greedy_args(4))
qed

end
