(* ===== verification/Grep.thy ===== *)
theory Grep
  imports Prelude
begin

section \<open>grep (user/grep.c)\<close>

text \<open>
  \<^verbatim>\<open>riscv/user/grep.c\<close>: the regular expression matcher of Kernighan and Pike and the loop that cuts
  the input into lines. A C string is the list of its characters before the NUL; reading past the
  end gives the NUL. What \<^verbatim>\<open>read\<close> delivers is a list of chunks, the parts that arrive at a time.
\<close>

subsection \<open>The matcher\<close>

abbreviation c_star :: uint8 where "c_star \<equiv> 42"
abbreviation c_dot :: uint8 where "c_dot \<equiv> 46"
abbreviation c_dollar :: uint8 where "c_dollar \<equiv> 36"
abbreviation c_caret :: uint8 where "c_caret \<equiv> 94"
abbreviation newline :: uint8 where "newline \<equiv> 10"

text \<open>The loop of \<^verbatim>\<open>matchstar\<close> is a recursion on the text, the call of \<^verbatim>\<open>matchhere\<close> one on the pattern.\<close>

function matchhere :: "uint8 list \<Rightarrow> uint8 list \<Rightarrow> bool"
  and matchstar :: "uint8 \<Rightarrow> uint8 list \<Rightarrow> uint8 list \<Rightarrow> bool" where
  "matchhere re str =
     (case re of
        [] \<Rightarrow> True
      | c # re1 \<Rightarrow>
          if re1 \<noteq> [] \<and> hd re1 = c_star then matchstar c (tl re1) str
          else if c = c_dollar \<and> re1 = [] then str = []
          else if str \<noteq> [] \<and> (c = c_dot \<or> c = hd str) then matchhere re1 (tl str)
          else False)"
| "matchstar c re str =
     (if matchhere re str then True
      else
        case str of
          [] \<Rightarrow> False
        | t # str \<Rightarrow> if t = c \<or> c = c_dot then matchstar c re str else False)"
  by pat_completeness auto
termination
  by (relation "measures [\<lambda>x. case x of Inl (re, str) \<Rightarrow> length re | Inr (c, re, str) \<Rightarrow> length re + 1,
      \<lambda>x. case x of Inl (re, str) \<Rightarrow> length str | Inr (c, re, str) \<Rightarrow> length str]") (auto simp: neq_Nil_conv)

declare matchhere.simps [simp del] matchstar.simps [simp del]

fun match_from :: "uint8 list \<Rightarrow> uint8 list \<Rightarrow> bool" where
  "match_from re str =
     (if matchhere re str then True
      else case str of [] \<Rightarrow> False | _ # str \<Rightarrow> match_from re str)"

declare match_from.simps [simp del]

definition match :: "uint8 list \<Rightarrow> uint8 list \<Rightarrow> bool" where
  "match re str = (if re \<noteq> [] \<and> hd re = c_caret then matchhere (tl re) str else match_from re str)"

subsection \<open>Lines\<close>

text \<open>
  The inner loop: the lines of the buffer that are complete, each written out when it matches. The
  result is the printed and the rest of the buffer, the beginning of the next line. \<^verbatim>\<open>strchr\<close> stops
  at a NUL: a buffer that contains one before the next newline has no further line.
\<close>

function grep_lines :: "uint8 list \<Rightarrow> uint8 list \<Rightarrow> uint8 list \<times> uint8 list" where
  "grep_lines pattern p =
     (let line = takeWhile (\<lambda>b. b \<noteq> newline) p in
      if length line < length p \<and> 0 \<notin> set line then
        let (out, rest) = grep_lines pattern (drop (Suc (length line)) p)
        in (if match pattern line then line @ newline # out else out, rest)
      else ([], p))"
  by pat_completeness auto
termination
  by (relation "measure (\<lambda>(pattern, p). length p)") auto

declare grep_lines.simps [simp del]

definition BUFSIZE :: nat where [simp]: "BUFSIZE = 1024"

text \<open>What \<^verbatim>\<open>read\<close> returns when at most \<open>k\<close> bytes are asked for, and what is left.\<close>

fun read_chunk :: "nat \<Rightarrow> uint8 list list \<Rightarrow> uint8 list \<times> uint8 list list" where
  "read_chunk k [] = ([], [])"
| "read_chunk k (c # cs) = (if length c \<le> k then (c, cs) else (take k c, drop k c # cs))"

lemma read_chunk_size: "(got, cs') = read_chunk k cs \<Longrightarrow> got \<noteq> [] \<Longrightarrow> length (concat cs') < length (concat cs)"
  by (cases cs) (auto split: if_splits)

function grep_loop :: "uint8 list \<Rightarrow> uint8 list \<Rightarrow> uint8 list list \<Rightarrow> uint8 list" where
  "grep_loop pattern buf input =
     (case read_chunk (BUFSIZE - length buf - 1) input of
        (got, input') \<Rightarrow>
          if got = [] then []
          else
            let (out, rest) = grep_lines pattern (buf @ got)
            in out @ grep_loop pattern rest input')"
  by pat_completeness auto
termination
  by (relation "measure (\<lambda>(pattern, buf, input). length (concat input))")
    (auto dest: read_chunk_size simp del: length_concat)

declare grep_loop.simps [simp del]

definition grep :: "uint8 list \<Rightarrow> uint8 list list \<Rightarrow> uint8 list" where
  "grep pattern input = grep_loop pattern [] input"

subsection \<open>What a pattern means\<close>

text \<open>
  The reference: a pattern is a sequence of items, each a single character or a starred one, and
  may be anchored at either end. Its language is given by concatenation.
\<close>

datatype item = One uint8 | Star uint8

definition atom :: "uint8 \<Rightarrow> uint8 \<Rightarrow> bool" where
  "atom c t \<longleftrightarrow> c = c_dot \<or> c = t"

fun items :: "uint8 list \<Rightarrow> item list \<times> bool" where
  "items [] = ([], False)"
| "items [c] = (if c = c_dollar then ([], True) else ([One c], False))"
| "items (c # d # re) =
     (if d = c_star then (Star c # fst (items re), snd (items re))
      else (One c # fst (items (d # re)), snd (items (d # re))))"

fun item_lang :: "item \<Rightarrow> uint8 list set" where
  "item_lang (One c) = {[t] | t. atom c t}"
| "item_lang (Star c) = {w. \<forall>t \<in> set w. atom c t}"

fun items_lang :: "item list \<Rightarrow> uint8 list set" where
  "items_lang [] = {[]}"
| "items_lang (x # xs) = {u @ v | u v. u \<in> item_lang x \<and> v \<in> items_lang xs}"

definition here :: "uint8 list \<Rightarrow> uint8 list \<Rightarrow> bool" where
  "here re str \<longleftrightarrow> (\<exists>u v. str = u @ v \<and> u \<in> items_lang (fst (items re)) \<and> (snd (items re) \<longrightarrow> v = []))"

definition matches :: "uint8 list \<Rightarrow> uint8 list \<Rightarrow> bool" where
  "matches re str \<longleftrightarrow>
     (if re \<noteq> [] \<and> hd re = c_caret then here (tl re) str else (\<exists>pre post. str = pre @ post \<and> here re post))"

lemma here_Nil: "here [] str"
  by (simp add: here_def)

lemma here_dollar: "here [c_dollar] str \<longleftrightarrow> str = []"
  by (auto simp: here_def)

lemma hereI: "str = u @ v \<Longrightarrow> u \<in> items_lang (fst (items re)) \<Longrightarrow> (snd (items re) \<Longrightarrow> v = []) \<Longrightarrow> here re str"
  by (auto simp: here_def)

lemma hereE:
  assumes "here re str"
  obtains u v where "str = u @ v" "u \<in> items_lang (fst (items re))" "snd (items re) \<Longrightarrow> v = []"
  using assms by (auto simp: here_def)

lemma here_cons:
  assumes "items re' = (x # fst (items re), snd (items re))"
  shows "here re' str \<longleftrightarrow> (\<exists>u v. str = u @ v \<and> u \<in> item_lang x \<and> here re v)"
proof
  assume "here re' str"
  then obtain u v where uv: "str = u @ v" "u \<in> items_lang (x # fst (items re))" "snd (items re) \<Longrightarrow> v = []"
    using assms by (auto simp: here_def)
  then obtain a b where ab: "u = a @ b" "a \<in> item_lang x" "b \<in> items_lang (fst (items re))"
    by auto
  have "here re (b @ v)"
    using ab uv by (auto intro: hereI)
  then show "\<exists>u v. str = u @ v \<and> u \<in> item_lang x \<and> here re v"
    using uv(1) ab by auto
next
  assume "\<exists>u v. str = u @ v \<and> u \<in> item_lang x \<and> here re v"
  then obtain u b v where "str = (u @ b) @ v" "u \<in> item_lang x" "b \<in> items_lang (fst (items re))"
      "snd (items re) \<Longrightarrow> v = []"
    by (auto elim!: hereE)
  moreover from this have "u @ b \<in> items_lang (fst (items re'))"
    using assms by auto
  ultimately show "here re' str"
    using assms by (intro hereI [of str "u @ b" v re']) simp_all
qed

lemma here_star: "here (c # c_star # re) str \<longleftrightarrow> (\<exists>u v. str = u @ v \<and> (\<forall>t \<in> set u. atom c t) \<and> here re v)"
  by (simp add: here_cons [of _ "Star c" re])

lemma here_one:
  assumes "re = [] \<or> hd re \<noteq> c_star" "\<not> (c = c_dollar \<and> re = [])"
  shows "here (c # re) str \<longleftrightarrow> (\<exists>t v. str = t # v \<and> atom c t \<and> here re v)"
proof -
  have "items (c # re) = (One c # fst (items re), snd (items re))"
    using assms by (cases re) auto
  then have "here (c # re) str \<longleftrightarrow> (\<exists>u v. str = u @ v \<and> (\<exists>t. u = [t] \<and> atom c t) \<and> here re v)"
    by (simp add: here_cons [of _ "One c" re])
  then show ?thesis
    by (metis append_Cons append_Nil)
qed

lemma star_unfold:
  "(\<exists>u v. str = u @ v \<and> (\<forall>t \<in> set u. atom c t) \<and> P v) \<longleftrightarrow>
   P str \<or> (\<exists>t rest. str = t # rest \<and> atom c t \<and> (\<exists>u v. rest = u @ v \<and> (\<forall>t \<in> set u. atom c t) \<and> P v))"
  (is "?L \<longleftrightarrow> ?R")
proof
  assume ?L
  then obtain u v where uv: "str = u @ v" "\<forall>t \<in> set u. atom c t" "P v"
    by blast
  then show ?R
    by (cases u) auto
next
  assume ?R
  then show ?L
  proof
    assume "P str"
    then show ?L
      by (intro exI [of _ "[]"] exI [of _ str]) simp
  next
    assume "\<exists>t rest. str = t # rest \<and> atom c t \<and> (\<exists>u v. rest = u @ v \<and> (\<forall>t \<in> set u. atom c t) \<and> P v)"
    then obtain t u v where "str = (t # u) @ v" "\<forall>t \<in> set (t # u). atom c t" "P v"
      by auto
    then show ?L
      by blast
  qed
qed

lemma matchhere_here:
  "matchhere re str = here re str"
  "matchstar c re str = (\<exists>u v. str = u @ v \<and> (\<forall>t \<in> set u. atom c t) \<and> here re v)"
proof (induction re str and c re str rule: matchhere_matchstar.induct)
  case (1 re str)
  show ?case
  proof (cases re)
    case Nil
    then show ?thesis
      by (simp add: matchhere.simps here_Nil)
  next
    case (Cons c re1)
    consider "re1 \<noteq> []" "hd re1 = c_star" | "re1 = [] \<or> hd re1 \<noteq> c_star" "c = c_dollar" "re1 = []"
      | "re1 = [] \<or> hd re1 \<noteq> c_star" "\<not> (c = c_dollar \<and> re1 = [])"
      by blast
    then show ?thesis
    proof cases
      case 1
      then obtain re2 where re1: "re1 = c_star # re2"
        by (cases re1) auto
      show ?thesis
        using "1.IH"(1) [OF Cons] 1 by (simp add: matchhere.simps [of "c # c_star # re2"] Cons re1 here_star)
    next
      case 2
      then show ?thesis
        by (simp add: matchhere.simps Cons here_dollar)
    next
      case 3
      have "matchhere re str \<longleftrightarrow> str \<noteq> [] \<and> atom c (hd str) \<and> matchhere re1 (tl str)"
        using 3 by (auto simp: matchhere.simps [of "c # re1"] Cons atom_def)
      also have "\<dots> \<longleftrightarrow> str \<noteq> [] \<and> atom c (hd str) \<and> here re1 (tl str)"
        using "1.IH"(2) [OF Cons] 3 by (auto simp: atom_def)
      also have "\<dots> \<longleftrightarrow> here re str"
        using here_one [OF 3, of str] unfolding Cons by (cases str) auto
      finally show ?thesis .
    qed
  qed
next
  case (2 c re str)
  show ?case
  proof (subst star_unfold, cases "matchhere re str")
    case True
    then show "matchstar c re str \<longleftrightarrow> here re str \<or>
        (\<exists>t rest. str = t # rest \<and> atom c t \<and> (\<exists>u v. rest = u @ v \<and> (\<forall>t \<in> set u. atom c t) \<and> here re v))"
      using "2.IH"(1) by (simp add: matchstar.simps)
  next
    case False
    then show "matchstar c re str \<longleftrightarrow> here re str \<or>
        (\<exists>t rest. str = t # rest \<and> atom c t \<and> (\<exists>u v. rest = u @ v \<and> (\<forall>t \<in> set u. atom c t) \<and> here re v))"
    proof (cases str)
      case Nil
      then show ?thesis
        using False "2.IH"(1) by (simp add: matchstar.simps)
    next
      case (Cons t rest)
      have step: "matchstar c re str \<longleftrightarrow> atom c t \<and> matchstar c re rest"
        using False Cons by (auto simp: matchstar.simps [of c re "t # rest"] atom_def)
      have "atom c t \<Longrightarrow> matchstar c re rest = (\<exists>u v. rest = u @ v \<and> (\<forall>t \<in> set u. atom c t) \<and> here re v)"
        using "2.IH"(2) [OF False Cons] by (auto simp: atom_def)
      then show ?thesis
        using False "2.IH"(1) Cons unfolding step by blast
    qed
  qed
qed

lemma match_from_here: "match_from re str \<longleftrightarrow> (\<exists>pre post. str = pre @ post \<and> here re post)"
proof (induction str)
  case Nil
  then show ?case
    by (simp add: match_from.simps matchhere_here)
next
  case (Cons t str)
  have "(\<exists>pre post. t # str = pre @ post \<and> here re post) \<longleftrightarrow>
      here re (t # str) \<or> (\<exists>pre post. str = pre @ post \<and> here re post)"
    by (metis append_Cons append_Nil append_eq_Cons_conv)
  then show ?case
    using Cons by (simp add: match_from.simps [of re "t # str"] matchhere_here)
qed

lemma match_matches: "match re str = matches re str"
  by (simp add: match_def matches_def matchhere_here match_from_here)

subsection \<open>Chunks and lines\<close>

text \<open>The complete lines of a text that follows \<open>cur\<close>, and the unfinished one at its end.\<close>

fun lines_of :: "uint8 list \<Rightarrow> uint8 list \<Rightarrow> uint8 list list" where
  "lines_of cur [] = []"
| "lines_of cur (c # cs) = (if c = newline then cur # lines_of [] cs else lines_of (cur @ [c]) cs)"

fun tail_of :: "uint8 list \<Rightarrow> uint8 list \<Rightarrow> uint8 list" where
  "tail_of cur [] = cur"
| "tail_of cur (c # cs) = (if c = newline then tail_of [] cs else tail_of (cur @ [c]) cs)"

definition printed :: "uint8 list \<Rightarrow> uint8 list list \<Rightarrow> uint8 list" where
  "printed pattern ls = concat (map (\<lambda>l. l @ [newline]) (filter (match pattern) ls))"

lemma lines_append: "lines_of cur (xs @ ys) = lines_of cur xs @ lines_of (tail_of cur xs) ys"
  by (induction xs arbitrary: cur) auto

lemma tail_append: "tail_of cur (xs @ ys) = tail_of (tail_of cur xs) ys"
  by (induction xs arbitrary: cur) auto

lemma lines_no_newline:
  "newline \<notin> set xs \<Longrightarrow> lines_of cur (xs @ ys) = lines_of (cur @ xs) ys"
  "newline \<notin> set xs \<Longrightarrow> tail_of cur (xs @ ys) = tail_of (cur @ xs) ys"
  by (induction xs arbitrary: cur) auto

lemma newline_tail: "newline \<notin> set cur \<Longrightarrow> newline \<notin> set (tail_of cur xs)"
  by (induction xs arbitrary: cur) auto

lemma zero_tail: "0 \<notin> set cur \<Longrightarrow> 0 \<notin> set xs \<Longrightarrow> 0 \<notin> set (tail_of cur xs)"
  by (induction xs arbitrary: cur) auto

lemma tail_prefix:
  "\<forall>l \<in> set (lines_of cur (xs @ ys)) \<union> {tail_of cur (xs @ ys)}. length l \<le> n \<Longrightarrow> length (tail_of cur xs) \<le> n"
proof -
  have "\<exists>l \<in> set (lines_of cur ys) \<union> {tail_of cur ys}. length cur \<le> length l" for cur ys
  proof (induction ys arbitrary: cur)
    case (Cons y ys)
    obtain l where "l \<in> set (lines_of (cur @ [y]) ys) \<union> {tail_of (cur @ [y]) ys}" "length (cur @ [y]) \<le> length l"
      using Cons by blast
    then show ?case
      by (cases "y = newline") (auto intro!: bexI [of _ l])
  qed simp
  from this [of "tail_of cur xs" ys] show ?thesis
    if "\<forall>l \<in> set (lines_of cur (xs @ ys)) \<union> {tail_of cur (xs @ ys)}. length l \<le> n"
    using that by (auto simp: lines_append tail_append intro: order.trans)
qed

lemma grep_lines_eq:
  assumes "0 \<notin> set p"
  shows "grep_lines pattern p = (printed pattern (lines_of [] p), tail_of [] p)"
  using assms
proof (induction pattern p rule: grep_lines.induct)
  case (1 pattern p)
  let ?l = "takeWhile (\<lambda>b. b \<noteq> newline) p"
  have nl: "newline \<notin> set ?l"
    by (auto dest: set_takeWhileD)
  show ?case
  proof (cases "length ?l < length p")
    case True
    define q where "q = drop (Suc (length ?l)) p"
    have "p = ?l @ newline # q"
      using nth_length_takeWhile [OF True] Cons_nth_drop_Suc [OF True] takeWhile_eq_take [of "\<lambda>b. b \<noteq> newline" p]
      by (metis append_take_drop_id q_def)
    then have eqs: "lines_of [] p = ?l # lines_of [] q" "tail_of [] p = tail_of [] q"
      using lines_no_newline [OF nl, of "[]" "newline # q"] by (metis append_Nil lines_of.simps(2) tail_of.simps(2))+
    have z: "0 \<notin> set ?l" "0 \<notin> set q"
      using 1(2) by (auto simp: q_def dest: set_takeWhileD in_set_dropD)
    have "grep_lines pattern q = (printed pattern (lines_of [] q), tail_of [] q)"
      unfolding q_def by (rule 1(1)) (use True z in \<open>auto simp: q_def\<close>)
    then show ?thesis
      using True z by (subst grep_lines.simps) (simp add: eqs printed_def flip: q_def)
  next
    case False
    then have "?l = p"
      using length_takeWhile_le [of "\<lambda>b. b \<noteq> newline" p] by (metis nat_less_le takeWhile_eq_take take_all_iff order_refl)
    then show ?thesis
      using nl lines_no_newline [of p "[]" "[]"] unfolding grep_lines.simps [of pattern p] Let_def
      by (simp only:) (simp add: printed_def)
  qed
qed

lemma read_chunk_concat: "read_chunk k cs = (got, cs') \<Longrightarrow> concat cs = got @ concat cs'"
  by (cases cs) (auto split: if_splits)

lemma read_chunk_ne:
  "read_chunk k cs = (got, cs') \<Longrightarrow> [] \<notin> set cs \<Longrightarrow> 0 < k \<Longrightarrow> [] \<notin> set cs' \<and> (got = [] \<longrightarrow> cs = [])"
  by (cases cs) (auto split: if_splits)

lemma printed_append: "printed pattern (xs @ ys) = printed pattern xs @ printed pattern ys"
  by (simp add: printed_def)

lemma grep_loop_eq:
  assumes "newline \<notin> set buf" "0 \<notin> set buf" "0 \<notin> set (concat input)" "[] \<notin> set input"
    and "\<forall>l \<in> set (lines_of buf (concat input)) \<union> {tail_of buf (concat input)}. length l < BUFSIZE - 1"
  shows "grep_loop pattern buf input = printed pattern (lines_of buf (concat input))"
  using assms
proof (induction pattern buf input rule: grep_loop.induct)
  case (1 pattern buf input)
  obtain got input' where r: "read_chunk (BUFSIZE - length buf - 1) input = (got, input')"
    by fastforce
  note c = read_chunk_concat [OF r]
  have b: "length buf \<le> BUFSIZE - 2"
    by (rule tail_prefix [of buf "[]" "concat input", simplified]) (use 1(6) in force)
  then have ne: "[] \<notin> set input'" "got = [] \<longrightarrow> input = []"
    using read_chunk_ne [OF r 1(5)] by auto
  show ?case
  proof (cases "got = []")
    case True
    then show ?thesis
      using r ne by (subst grep_loop.simps) (simp add: printed_def)
  next
    case False
    let ?rest = "tail_of [] (buf @ got)"
    have l: "lines_of [] (buf @ xs) = lines_of buf xs" "tail_of [] (buf @ xs) = tail_of buf xs" for xs
      using lines_no_newline [OF 1(2), of "[]" xs] by simp_all
    have g: "grep_lines pattern (buf @ got) = (printed pattern (lines_of buf got), tail_of buf got)"
      using grep_lines_eq [of "buf @ got" pattern] 1(3,4) c by (simp add: l)
    have "grep_loop pattern (tail_of buf got) input' = printed pattern (lines_of (tail_of buf got) (concat input'))"
    proof (rule 1(1) [OF r [symmetric] False g [symmetric]])
      show "newline \<notin> set (tail_of buf got)"
        by (rule newline_tail [OF 1(2)])
      show "0 \<notin> set (tail_of buf got)" "0 \<notin> set (concat input')"
        using 1(3,4) c zero_tail [of buf got] by auto
      show "\<forall>l \<in> set (lines_of (tail_of buf got) (concat input')) \<union> {tail_of (tail_of buf got) (concat input')}. length l < BUFSIZE - 1"
        using 1(6) c by (auto simp: lines_append tail_append)
    qed (use ne in simp_all)
    then show ?thesis
      using r False g c by (subst grep_loop.simps) (simp add: lines_append printed_append)
  qed
qed

text \<open>
  C32: however the input arrives, \<^verbatim>\<open>grep\<close> prints exactly its newline-terminated lines that the
  pattern describes, in order: read as a sequence of single and starred characters, it describes
  some part of the line, at the beginning after \<^verbatim>\<open>^\<close> and up to the end before \<^verbatim>\<open>$\<close>. This
  holds as long as every line fits the buffer and there is no NUL in the input. A last line without a
  newline is never printed.
\<close>

theorem grep_correct:
  assumes "[] \<notin> set input" "0 \<notin> set (concat input)"
    and "\<forall>l \<in> set (lines_of [] (concat input)) \<union> {tail_of [] (concat input)}. length l < BUFSIZE - 1"
  shows "grep pattern input =
    concat (map (\<lambda>l. l @ [newline]) (filter (matches pattern) (lines_of [] (concat input))))"
  using grep_loop_eq [of "[]" input pattern] assms
  by (simp add: grep_def printed_def match_matches [abs_def])

theorem grep_correct_witness:
  "grep [97] [[97, 98], [10, 98, 10, 99], [97, 10, 97]] = [97, 98, 10, 99, 97, 10]"
proof -
  have "grep [97] [[97, 98], [10, 98, 10, 99], [97, 10, 97]] =
      concat (map (\<lambda>l. l @ [newline]) (filter (matches [97]) (lines_of [] (concat [[97, 98], [10, 98, 10, 99], [97, 10, 97]]))))"
    by (rule grep_correct) auto
  then show ?thesis
    by (simp add: match_def match_from.simps matchhere.simps flip: match_matches)
qed

end
