(* ===== verification/ShParse.thy ===== *)
theory ShParse
  imports Sh
begin

section \<open>The shell's parser is right\<close>

text \<open>
  What the parser of \<^verbatim>\<open>riscv/user/sh.c\<close> gives: it always returns, every argument string of the
  command is a word of the line once \<^verbatim>\<open>nulterminate\<close> has run, and every command has a line that is
  parsed to it.
\<close>

subsection \<open>Words\<close>

primrec cmd_words :: "cmd \<Rightarrow> (ptr \<times> ptr) list" where
  "cmd_words (Exec as) = as"
| "cmd_words (Redir c q eq mode fd) = cmd_words c @ [(q, eq)]"
| "cmd_words (Pipe l r) = cmd_words l @ cmd_words r"
| "cmd_words (List l r) = cmd_words l @ cmd_words r"
| "cmd_words (Back c) = cmd_words c"

text \<open>The characters from the start to the end pointer, and that they are a maximal word of the line.\<close>

definition word_of :: "ptr \<times> ptr \<Rightarrow> uint8 list" where
  "word_of x = take (length (fst x) - length (snd x)) (fst x)"

definition word_in :: "ptr \<Rightarrow> ptr \<times> ptr \<Rightarrow> bool" where
  "word_in s x \<longleftrightarrow> suffix (fst x) s \<and> (\<exists>w. w \<noteq> [] \<and> fst x = w @ snd x \<and> list_all wordc w) \<and>
     (snd x = [] \<or> \<not> wordc (hd (snd x)))"

lemma word_in_mono: "word_in s' x \<Longrightarrow> suffix s' s \<Longrightarrow> word_in s x"
  unfolding word_in_def by (meson suffix_order.trans)

lemma suffix_skip: "suffix (skip s) s"
  by (rule suffix_dropWhile)

lemma gettoken_suffix: "gettoken s = (t, q, eq, s') \<Longrightarrow> suffix s' s"
proof -
  assume g: "gettoken s = (t, q, eq, s')"
  show "suffix s' s"
  proof (cases "skip s")
    case Nil
    then show ?thesis
      using g suffix_skip [of s] by (simp add: gettoken_def Let_def del: dropWhile_eq_Nil_conv)
  next
    case (Cons c r)
    have "suffix eq (skip s)"
      using g Cons suffix_dropWhile [of wordc "c # r"]
      by (cases r) (auto simp: gettoken_def Let_def suffix_Cons simp del: suffix_dropWhile split: if_splits)
    moreover have "\<not> ws c"
      using hd_dropWhile [of ws s] Cons by simp
    then have "s' = skip eq"
      using g Cons by (auto simp: gettoken_def Let_def split: if_splits)
    ultimately show ?thesis
      using suffix_skip [of eq] suffix_skip [of s] suffix_order.trans by blast
  qed
qed

lemma gettoken_word:
  assumes "gettoken s = (c_a, q, eq, s')" "0 \<notin> set s"
  shows "word_in s (q, eq)"
proof -
  obtain c r where q: "skip s = c # r" "\<not> ws c"
    using assms(1) hd_dropWhile [of ws s]
    by (cases "skip s") (auto simp: gettoken_def Let_def simp del: dropWhile_eq_Nil_conv)
  have c: "wordc c" "q = c # r" "eq = dropWhile wordc (c # r)"
    using assms(1) q by (auto simp: gettoken_def Let_def wordc_def symbols_def split: if_splits)
  have w: "q = takeWhile wordc q @ eq" "takeWhile wordc q \<noteq> []" "list_all wordc (takeWhile wordc q)"
    using c by (auto simp: list_all_iff dest: set_takeWhileD)
  have "eq = [] \<or> \<not> wordc (hd eq)"
    using hd_dropWhile [of wordc q] c by (metis)
  moreover have "suffix q s"
    using suffix_skip [of s] q c(2) by simp
  ultimately show ?thesis
    using w unfolding word_in_def fst_conv snd_conv by blast
qed

lemma suffix_zero: "suffix s' s \<Longrightarrow> 0 \<notin> set s \<Longrightarrow> 0 \<notin> set s'"
  using set_mono_suffix by blast

lemma suffix_after: "suffix (after s) s"
  using gettoken_suffix by (cases "gettoken s") (auto simp: after_def)

text \<open>What the parts of the parser add to the words they are given.\<close>

definition adds :: "ptr \<Rightarrow> (ptr \<times> ptr) set \<Rightarrow> cmd \<times> ptr \<Rightarrow> bool" where
  "adds s W r \<longleftrightarrow> suffix (snd r) s \<and> (\<forall>x\<in>set (cmd_words (fst r)). x \<in> W \<or> word_in s x)"

lemma adds_mono: "adds s' W' r \<Longrightarrow> suffix s' s \<Longrightarrow> (\<And>x. x \<in> W' \<Longrightarrow> x \<in> W \<or> word_in s x) \<Longrightarrow> adds s W r"
  unfolding adds_def by (meson suffix_order.trans word_in_mono)

lemma parseredirs_adds: "parseredirs c s = Inr r \<Longrightarrow> 0 \<notin> set s \<Longrightarrow> adds s (set (cmd_words c)) r"
proof (induction c s rule: parseredirs_induct)
  case (stop c s)
  then show ?case
    by (auto simp: parseredirs_stop adds_def suffix_skip simp del: peek_simps)
next
  case (bad c s tok u v s1 t q eq s2)
  then show ?case
    by (simp add: parseredirs_step del: peek_simps)
next
  case (step c s tok u v s1 q eq s2)
  have s: "suffix s1 s" "suffix s2 s1"
    using step.hyps gettoken_suffix by blast+
  then have z: "0 \<notin> set s1" "0 \<notin> set s2"
    using step.prems(2) suffix_zero by blast+
  have w: "word_in s (q, eq)"
    using gettoken_word [OF step.hyps(3) z(1)] s(1) word_in_mono by blast
  show ?case
    by (rule adds_mono [OF step.IH])
      (use step.hyps step.prems s z w in \<open>auto simp: parseredirs_step simp del: peek_simps\<close>)
qed

lemma add_arg_words: "x \<in> set (cmd_words (add_arg a c)) \<Longrightarrow> x = a \<or> x \<in> set (cmd_words c)"
  by (induction a c rule: add_arg.induct) auto

lemma parseargs_adds: "parseargs k c s = Inr r \<Longrightarrow> 0 \<notin> set s \<Longrightarrow> adds s (set (cmd_words c)) r"
proof (induction "length s" arbitrary: k c s rule: less_induct)
  case less
  obtain tok q eq s1 where g: "gettoken s = (tok, q, eq, s1)"
    by (metis prod_cases4)
  have s: "suffix s1 s" "0 \<notin> set s1"
    using gettoken_suffix [OF g] less.prems(2) suffix_zero by blast+
  consider "fst (peek s [c_bar, c_rpar, c_amp, c_semi])" "r = (c, skip s)"
    | "tok = 0" "r = (c, s1)"
    | c2 s2 where "tok = c_a" "parseredirs (add_arg (q, eq) c) s1 = Inr (c2, s2)" "parseargs (k + 1) c2 s2 = Inr r"
    using less.prems(1) g unfolding parseargs.simps [of k c s]
    by (auto simp del: peek_simps split: if_splits sum.splits)
  then show ?case
  proof cases
    case 3
    have l: "length s2 < length s"
      using arg_shorter [OF g [symmetric] _ 3(2)] 3(1) by simp
    have a: "adds s1 (set (cmd_words (add_arg (q, eq) c))) (c2, s2)"
      using parseredirs_adds [OF 3(2) s(2)] .
    have w: "word_in s (q, eq)"
      using gettoken_word [of s q eq s1] g 3(1) less.prems(2) by simp
    have "0 \<notin> set s2"
      using a s(2) suffix_zero by (auto simp: adds_def)
    then have "adds s2 (set (cmd_words c2)) r"
      using less.hyps [OF l 3(3)] by simp
    then show ?thesis
      by (rule adds_mono)
        (use a w s(1) in \<open>auto simp: adds_def dest: add_arg_words intro: word_in_mono suffix_order.trans\<close>)
  qed (use s in \<open>auto simp: adds_def suffix_skip\<close>)
qed

lemma parsebacks_adds: "parsebacks c s = r \<Longrightarrow> adds s (set (cmd_words c)) r"
proof (induction c s arbitrary: r rule: parsebacks.induct)
  case (1 c s)
  show ?case
  proof (cases "fst (peek s [c_amp])")
    case True
    then have "parsebacks (Back c) (after s) = r"
      using 1(2) parsebacks.simps [of c s] by simp
    then show ?thesis
      using adds_mono [OF 1(1) [OF True] suffix_after] by auto
  next
    case False
    then show ?thesis
      using 1(2) parsebacks.simps [of c s] by (auto simp: adds_def suffix_skip simp del: peek_simps)
  qed
qed

subsection \<open>The functions that call each other\<close>

lemma andthen_Some: "andthen r f = Some (Inr x) \<longleftrightarrow> (\<exists>c s. r = Some (Inr (c, s)) \<and> f c s = Some (Inr x))"
  by (auto simp: andthen_def split: option.splits sum.splits)

lemma andthen_Inr [simp]: "andthen (Some (Inr (c, s))) f = f c s"
  by (simp add: andthen_def)

lemma andthen_None: "andthen r f = None \<longleftrightarrow> r = None \<or> (\<exists>c s. r = Some (Inr (c, s)) \<and> f c s = None)"
  by (auto simp: andthen_def split: option.splits sum.splits)

lemma adds_pair:
  assumes "adds s {} (c, s1)" "adds s1 {} (r, s2)" "set (cmd_words d) \<subseteq> set (cmd_words c) \<union> set (cmd_words r)"
  shows "adds s {} (d, s2)"
proof -
  have "suffix s1 s" "suffix s2 s"
    using assms(1,2) suffix_order.trans unfolding adds_def by auto
  then show ?thesis
    using assms unfolding adds_def by (auto dest: word_in_mono subsetD)
qed

lemma adds_after: "adds (after s) W r \<Longrightarrow> adds s W r"
  by (erule adds_mono) (auto intro: suffix_after)

lemma adds_zero: "adds s W (c, s') \<Longrightarrow> 0 \<notin> set s \<Longrightarrow> 0 \<notin> set s'"
  using suffix_zero unfolding adds_def by auto

lemma zero_after: "0 \<notin> set s \<Longrightarrow> 0 \<notin> set (after s)"
  using suffix_zero suffix_after by blast

lemma adds_into: "adds s {} (c, s1) \<Longrightarrow> adds s1 (set (cmd_words c)) r \<Longrightarrow> adds s {} r"
  by (rule adds_mono) (auto simp: adds_def)

lemma adds_skip: "adds s W (c, s') \<Longrightarrow> adds s W (c, skip s')"
  unfolding adds_def using suffix_skip suffix_order.trans by auto

lemma parse_adds:
  "parseline n s = Some (Inr r) \<Longrightarrow> 0 \<notin> set s \<Longrightarrow> adds s {} r"
  "parsepipe n s = Some (Inr r) \<Longrightarrow> 0 \<notin> set s \<Longrightarrow> adds s {} r"
  "parseexec n s = Some (Inr r) \<Longrightarrow> 0 \<notin> set s \<Longrightarrow> adds s {} r"
  "parseblock n s = Some (Inr r) \<Longrightarrow> 0 \<notin> set s \<Longrightarrow> adds s {} r"
proof (induction n s and n s and n s and n s arbitrary: r and r and r and r
    rule: parseline_parsepipe_parseexec_parseblock.induct)
  case (2 n s)
  obtain c s1 where p1: "parsepipe n s = Some (Inr (c, s1))"
    using 2(3) by (auto simp: andthen_Some)
  obtain d s2 where p2: "parsebacks c s1 = (d, s2)"
    by (cases "parsebacks c s1")
  have p: "parsepipe n s = Some (Inr (c, s1))" "parsebacks c s1 = (d, s2)"
    "(if fst (peek s2 [c_semi]) then andthen (parseline n (after s2)) (\<lambda>r s. Some (Inr (List d r, s)))
           else Some (Inr (d, skip s2))) = Some (Inr r)"
    using 2(3) p1 p2 by (simp_all add: andthen_Some del: peek_simps)
  have a: "adds s {} (d, s2)"
    using adds_into [OF 2(1) [OF p(1) 2(4)] parsebacks_adds [OF p(2)]] .
  show ?case
  proof (cases "fst (peek s2 [c_semi])")
    case True
    then obtain e s3 where e: "parseline n (after s2) = Some (Inr (e, s3))" "r = (List d e, s3)"
      using p(3) by (auto simp: andthen_Some simp del: peek_simps)
    have "adds (after s2) {} (e, s3)"
      using 2(2) [OF p(2) [symmetric] True e(1)] zero_after adds_zero [OF a 2(4)] by auto
    then show ?thesis
      using adds_pair [OF a adds_after] e(2) by auto
  qed (use p(3) adds_skip [OF a] in \<open>auto simp del: peek_simps\<close>)
next
  case (4 n s)
  obtain c s1 where p: "parseexec n s = Some (Inr (c, s1))"
    "(if fst (peek s1 [c_bar]) then andthen (parsepipe n (after s1)) (\<lambda>r s. Some (Inr (Pipe c r, s)))
       else Some (Inr (c, skip s1))) = Some (Inr r)"
    using 4(3) by (auto simp: andthen_Some simp del: peek_simps)
  have a: "adds s {} (c, s1)"
    using 4(1) [OF p(1) 4(4)] .
  show ?case
  proof (cases "fst (peek s1 [c_bar])")
    case True
    then obtain e s3 where e: "parsepipe n (after s1) = Some (Inr (e, s3))" "r = (Pipe c e, s3)"
      using p(2) by (auto simp: andthen_Some simp del: peek_simps)
    have "adds (after s1) {} (e, s3)"
      using 4(2) [OF True e(1)] zero_after adds_zero [OF a 4(4)] by auto
    then show ?thesis
      using adds_pair [OF a adds_after] e(2) by auto
  qed (use p(2) adds_skip [OF a] in \<open>auto simp del: peek_simps\<close>)
next
  case (6 n s)
  show ?case
  proof (cases "fst (peek s [c_lpar])")
    case True
    then show ?thesis
      using 6 by (simp del: peek_simps)
  next
    case False
    then obtain c s1 where p: "parseredirs (Exec []) s = Inr (c, s1)" "parseargs 0 c s1 = Inr r"
      using 6(2) by (auto simp del: peek_simps split: sum.splits)
    have a: "adds s {} (c, s1)"
      using parseredirs_adds [OF p(1) 6(3)] by simp
    then show ?thesis
      using adds_into parseargs_adds [OF p(2)] adds_zero 6(3) by blast
  qed
next
  case (8 n s)
  then obtain c s1 where p: "fst (peek s [c_lpar])" "parseline n (after s) = Some (Inr (c, s1))"
    "parseredirs c (after s1) = Inr r"
    by (auto simp: andthen_Some simp del: peek_simps split: if_splits)
  have a: "adds (after s) {} (c, s1)"
    using 8(1) [OF _ p(2)] p(1) zero_after [OF 8(3)] by simp
  have "adds (after s1) (set (cmd_words c)) r"
    using parseredirs_adds [OF p(3)] adds_zero [OF a] zero_after 8(3) by simp
  then show ?case
    using adds_into [OF a] adds_after by blast
qed simp_all

subsection \<open>The parser returns\<close>

lemma parseargs_le: "parseargs k c s = Inr (c', s') \<Longrightarrow> length s' \<le> length s"
proof (induction "length s" arbitrary: k c s rule: less_induct)
  case less
  obtain tok q eq s1 where g: "gettoken s = (tok, q, eq, s1)"
    by (metis prod_cases4)
  consider "s' = skip s" | "s' = s1"
    | c2 s2 where "tok = c_a" "parseredirs (add_arg (q, eq) c) s1 = Inr (c2, s2)" "parseargs (k + 1) c2 s2 = Inr (c', s')"
    using less.prems g unfolding parseargs.simps [of k c s]
    by (auto simp del: peek_simps split: if_splits sum.splits)
  then show ?case
  proof cases
    case 3
    have "length s2 < length s"
      using arg_shorter [OF g [symmetric] _ 3(2)] 3(1) by simp
    then show ?thesis
      using less.hyps [OF _ 3(3)] by simp
  qed (use length_skip [of s] gettoken_le [OF g] in auto)
qed

lemma parsebacks_le: "parsebacks c s = (c', s') \<Longrightarrow> length s' \<le> length s"
  using parsebacks_adds suffix_length_le by (fastforce simp: adds_def)

lemma after_le: "length (after s) \<le> length s"
  using suffix_after suffix_length_le by blast

lemma peek_after: "fst (peek s toks) \<Longrightarrow> length (after s) < length s"
  using after_shorter [of s] by simp

lemma parse_le:
  "parseline n s = Some (Inr (c, s')) \<Longrightarrow> length s' \<le> length s"
  "parsepipe n s = Some (Inr (c, s')) \<Longrightarrow> length s' \<le> length s"
  "parseexec n s = Some (Inr (c, s')) \<Longrightarrow> length s' \<le> length s"
  "parseblock n s = Some (Inr (c, s')) \<Longrightarrow> length s' \<le> length s"
proof (induction n s and n s and n s and n s arbitrary: c s' and c s' and c s' and c s'
    rule: parseline_parsepipe_parseexec_parseblock.induct)
  case (2 n s)
  obtain c1 s1 where p1: "parsepipe n s = Some (Inr (c1, s1))"
    using 2(3) by (auto simp: andthen_Some)
  obtain d s2 where p2: "parsebacks c1 s1 = (d, s2)"
    by (cases "parsebacks c1 s1")
  have "length s2 \<le> length s"
    using 2(1) [OF p1] parsebacks_le [OF p2] by simp
  moreover have "length s' \<le> length s2"
    using 2(2) [OF p2 [symmetric]] 2(3) p1 p2 length_skip [of s2] after_le [of s2]
    by (fastforce simp: andthen_Some simp del: peek_simps split: if_splits)
  ultimately show ?case
    by simp
next
  case (4 n s)
  obtain c1 s1 where p1: "parseexec n s = Some (Inr (c1, s1))"
    using 4(3) by (auto simp: andthen_Some)
  have "length s' \<le> length s1"
    using 4(2) 4(3) p1 length_skip [of s1] after_le [of s1]
    by (fastforce simp: andthen_Some simp del: peek_simps split: if_splits)
  then show ?case
    using 4(1) [OF p1] by simp
next
  case (6 n s)
  then show ?case
    using parseargs_le parseredirs_le
    by (fastforce simp del: peek_simps split: if_splits sum.splits dest: order.trans)
next
  case (8 n s)
  then obtain c1 s1 where p: "fst (peek s [c_lpar])" "parseline n (after s) = Some (Inr (c1, s1))"
    "parseredirs c1 (after s1) = Inr (c, s')"
    by (auto simp: andthen_Some simp del: peek_simps split: if_splits)
  then show ?case
    using 8(1) [OF _ p(2)] parseredirs_le [OF p(3)] after_le [of s] after_le [of s1] by simp
qed simp_all

text \<open>The fuel that is enough: each call of a line or a block has read a character since the last.\<close>

lemma parse_returns:
  "4 * length s + 4 \<le> n \<Longrightarrow> parseline n s \<noteq> None"
  "4 * length s + 3 \<le> n \<Longrightarrow> parsepipe n s \<noteq> None"
  "4 * length s + 2 \<le> n \<Longrightarrow> parseexec n s \<noteq> None"
  "4 * length s + 1 \<le> n \<Longrightarrow> parseblock n s \<noteq> None"
proof (induction n s and n s and n s and n s rule: parseline_parsepipe_parseexec_parseblock.induct)
  case (2 n s)
  have "parseline n (after s2) \<noteq> None"
    if p: "parsepipe n s = Some (Inr (c, s1))" "parsebacks c s1 = (d, s2)" "fst (peek s2 [c_semi])" for c s1 d s2
    using 2(2) [OF p(2) [symmetric] p(3)] peek_after [OF p(3)] parse_le(2) [OF p(1)] parsebacks_le [OF p(2)] 2(3)
    by simp
  then show ?case
    using 2(1,3) by (auto simp: andthen_None simp del: peek_simps not_None_eq split: prod.splits if_splits)
next
  case (4 n s)
  have "parsepipe n (after s1) \<noteq> None"
    if p: "parseexec n s = Some (Inr (c, s1))" "fst (peek s1 [c_bar])" for c s1
    using 4(2) [OF p(2)] peek_after [OF p(2)] parse_le(3) [OF p(1)] 4(3) by simp
  then show ?case
    using 4(1,3) by (auto simp: andthen_None simp del: peek_simps not_None_eq split: if_splits)
next
  case (6 n s)
  then show ?case
    by (auto simp del: peek_simps split: sum.splits)
next
  case (8 n s)
  have "parseline n (after s) \<noteq> None" if "fst (peek s [c_lpar])"
    using 8 that peek_after [OF that] by simp
  then show ?case
    by (auto simp: andthen_None simp del: peek_simps not_None_eq)
qed simp_all

text \<open>
  C33: the shell's parser returns on every line: it gives a command or the message it stops with,
  and the recursion is never deeper than four calls for each character of the line.
\<close>

theorem parsecmd_returns: "\<exists>r. parsecmd line = Some r"
proof -
  obtain r where "parseline (4 * length line + 4) line = Some r"
    using parse_returns(1) [of line "4 * length line + 4"] by auto
  then show ?thesis
    by (auto simp: parsecmd_def split: sum.splits)
qed

subsection \<open>Argument strings\<close>

text \<open>\<^verbatim>\<open>nulterminate\<close> writes a NUL at the end of every word, and nowhere else.\<close>

lemma fold_zero:
  "length (fold (\<lambda>i b. b[i := 0]) ps buf) = length buf"
  "j < length buf \<Longrightarrow> fold (\<lambda>i b. b[i := 0]) ps buf ! j = (if j \<in> set ps then 0 else buf ! j)"
  by (induction ps arbitrary: buf) (auto simp: nth_list_update)

lemma nulterminate_fold:
  "nulterminate n c buf = fold (\<lambda>i b. b[i := 0]) (map (\<lambda>x. n - length (snd x)) (cmd_words c)) buf"
  by (induction c arbitrary: buf) (simp_all add: poke_def [abs_def] fold_map comp_def)

lemma nulterminate_nth:
  "i < length buf \<Longrightarrow> nulterminate n c buf ! i =
     (if \<exists>x\<in>set (cmd_words c). i = n - length (snd x) then 0 else buf ! i)"
  by (auto simp: nulterminate_fold fold_zero(2))

lemma length_nulterminate: "length (nulterminate n c buf) = length buf"
  by (simp add: nulterminate_fold fold_zero(1))

lemma takeWhile_upto:
  assumes "k < length xs" "\<And>i. i < k \<Longrightarrow> P (xs ! i)" "\<not> P (xs ! k)"
  shows "takeWhile P xs = take k xs"
  using assms takeWhile_eq_take_P_nth [of k xs P] by auto

text \<open>No word ends inside another one.\<close>

lemma word_end_outside:
  assumes "word_in s (q, eq)" "word_in s (q', eq')" "length eq < i" "i \<le> length q"
  shows "length eq' \<noteq> i"
proof
  assume i: "length eq' = i"
  obtain u where u: "s = u @ q"
    using assms(1) by (auto simp: word_in_def suffix_def)
  obtain w where w: "q = w @ eq" "list_all wordc w"
    using assms(1) by (auto simp: word_in_def)
  have "suffix eq' s"
    using assms(2) by (auto simp: word_in_def intro: suffix_order.trans suffixI)
  then have "eq' = drop (length s - i) s"
    using i by (metis append_eq_conv_conj suffix_def length_append add_diff_cancel_right')
  then have "hd eq' = w ! (length q - i)" "eq' \<noteq> []"
    using u w assms(3,4) by (auto simp: hd_drop_conv_nth nth_append)
  moreover have "wordc (w ! (length q - i))"
    using w assms(3,4) by (auto simp: list_all_length)
  ultimately show False
    using assms(2) by (simp add: word_in_def)
qed

lemma str_at_word:
  assumes w: "x \<in> set (cmd_words c)" "\<forall>x\<in>set (cmd_words c). word_in s x" and z: "0 \<notin> set s"
  shows "str_at (length s) (nulterminate (length s) c (s @ [0])) (fst x) = word_of x"
proof -
  obtain q eq where x: "x = (q, eq)" by (cases x)
  have wx: "word_in s (q, eq)"
    using w x by blast
  obtain u v where u: "s = u @ v @ eq" "q = v @ eq"
    using wx by (auto simp: word_in_def suffix_def)
  let ?b = "nulterminate (length s) c (s @ [0])"
  have in_word: "?b ! (length u + i) = v ! i" "v ! i \<noteq> 0" if i: "i < length v" for i
  proof -
    have "length u + i \<noteq> length s - length (snd y)" if y: "y \<in> set (cmd_words c)" for y
    proof -
      have wy: "word_in s (fst y, snd y)"
        using w(2) y by simp
      then have "length (snd y) \<le> length s"
        by (auto simp: word_in_def suffix_def)
      moreover have "length (snd y) \<noteq> length v + length eq - i"
        using word_end_outside [OF wx wy, of "length q - i"] i u by simp
      moreover have "length s = length u + length v + length eq"
        using u by simp
      ultimately show ?thesis
        using i by linarith
    qed
    then show "?b ! (length u + i) = v ! i"
      using i u by (auto simp: nulterminate_nth nth_append)
    show "v ! i \<noteq> 0"
      using z i u nth_mem by fastforce
  qed
  have at_end: "?b ! (length u + length v) = 0"
    using w(1) x u by (auto simp: nulterminate_nth intro!: bexI [of _ x])
  have "takeWhile (\<lambda>c. c \<noteq> 0) (drop (length u) ?b) = take (length v) (drop (length u) ?b)"
    by (rule takeWhile_upto) (use in_word at_end u in \<open>auto simp: length_nulterminate\<close>)
  also have "\<dots> = v"
    using in_word(1) u by (auto intro!: nth_equalityI simp: length_nulterminate)
  finally show ?thesis
    using x u by (simp add: str_at_def word_of_def)
qed

lemma parsecmd_words:
  assumes "parsecmd line = Some (Inr c)" "0 \<notin> set line"
  shows "\<forall>x\<in>set (cmd_words c). word_in line x"
proof -
  obtain s where "parseline (4 * length line + 4) line = Some (Inr (c, s))"
    using assms(1) by (auto simp: parsecmd_def split: option.splits sum.splits if_splits)
  then show ?thesis
    using parse_adds(1) assms(2) by (fastforce simp: adds_def)
qed

lemma runcmd_cong: "\<forall>x\<in>set (cmd_words c). f (fst x) = g (fst x) \<Longrightarrow> runcmd f c = runcmd g c"
  by (induction c) auto

text \<open>
  C34: after \<^verbatim>\<open>parsecmd\<close> every argument and every file name of the command is a proper C string: the
  NUL that \<^verbatim>\<open>nulterminate\<close> writes ends it exactly at the end of its word of the line, and none is
  empty or has a blank or a symbol in it.
\<close>

theorem parsecmd_strings:
  assumes "parsecmd line = Some (Inr c)" "0 \<notin> set line" "(q, eq) \<in> set (cmd_words c)"
  shows "\<exists>u w. line = u @ w @ eq \<and> q = w @ eq \<and> w \<noteq> [] \<and> list_all wordc w \<and>
    str_at (length line) (nulterminate (length line) c (line @ [0])) q = w"
proof -
  have "word_in line (q, eq)"
    using parsecmd_words [OF assms(1,2)] assms(3) by blast
  then obtain u w where "line = u @ w @ eq" "q = w @ eq" "w \<noteq> []" "list_all wordc w"
    by (auto simp: word_in_def suffix_def)
  then show ?thesis
    using str_at_word [OF assms(3) parsecmd_words [OF assms(1,2)] assms(2)] by (auto simp: word_of_def)
qed

subsection \<open>Writing a command\<close>

datatype script =
    SExec "uint8 list list"
  | SRedir script uint8 "uint8 list"
  | SPipe script script
  | SList script script
  | SBack script

definition paren :: "bool \<Rightarrow> uint8 list \<Rightarrow> uint8 list" where
  "paren b s = (if b then [c_lpar] @ s @ [c_rpar] else s)"

definition redir_op :: "uint8 \<Rightarrow> uint8 list" where
  "redir_op tok = (if tok = c_plus then [c_gt, c_gt] else [tok])"

definition words_text :: "uint8 list list \<Rightarrow> uint8 list" where
  "words_text vs = concat (map (\<lambda>w. w @ [c_space]) vs)"

text \<open>The number is the level of the grammar: a line, a list of background commands, a pipeline, a command.\<close>

primrec script_text :: "script \<Rightarrow> nat \<Rightarrow> uint8 list" where
  "script_text (SExec vs) lv = words_text vs"
| "script_text (SRedir a tok w) lv = script_text a 3 @ redir_op tok @ w @ [c_space]"
| "script_text (SPipe l r) lv = paren (lv > 2) (script_text l 3 @ [c_bar] @ script_text r 2)"
| "script_text (SList l r) lv = paren (lv > 0) (script_text l 1 @ [c_semi] @ script_text r 0)"
| "script_text (SBack a) lv = paren (lv > 1) (script_text a 1 @ [c_amp])"

definition word_ok :: "uint8 list \<Rightarrow> bool" where
  "word_ok w \<longleftrightarrow> w \<noteq> [] \<and> list_all wordc w"

primrec script_ok :: "script \<Rightarrow> bool" where
  "script_ok (SExec vs) \<longleftrightarrow> length vs < MAXARGS \<and> list_all word_ok vs"
| "script_ok (SRedir a tok w) \<longleftrightarrow> script_ok a \<and> tok \<in> {c_lt, c_gt, c_plus} \<and> word_ok w"
| "script_ok (SPipe l r) \<longleftrightarrow> script_ok l \<and> script_ok r"
| "script_ok (SList l r) \<longleftrightarrow> script_ok l \<and> script_ok r"
| "script_ok (SBack a) \<longleftrightarrow> script_ok a"

text \<open>No argument has a NUL in it, as no C string has.\<close>

primrec script_clean :: "script \<Rightarrow> bool" where
  "script_clean (SExec vs) \<longleftrightarrow> list_all (\<lambda>w. 0 \<notin> set w) vs"
| "script_clean (SRedir a tok w) \<longleftrightarrow> script_clean a \<and> 0 \<notin> set w"
| "script_clean (SPipe l r) \<longleftrightarrow> script_clean l \<and> script_clean r"
| "script_clean (SList l r) \<longleftrightarrow> script_clean l \<and> script_clean r"
| "script_clean (SBack a) \<longleftrightarrow> script_clean a"

fun means :: "(ptr \<times> ptr \<Rightarrow> uint8 list) \<Rightarrow> cmd \<Rightarrow> script \<Rightarrow> bool" where
  "means f (Exec as) (SExec vs) \<longleftrightarrow> map f as = vs"
| "means f (Redir c q eq mode fd) (SRedir a tok w) \<longleftrightarrow> means f c a \<and> f (q, eq) = w \<and> redir_mode tok = (mode, fd)"
| "means f (Pipe l r) (SPipe a b) \<longleftrightarrow> means f l a \<and> means f r b"
| "means f (List l r) (SList a b) \<longleftrightarrow> means f l a \<and> means f r b"
| "means f (Back c) (SBack a) \<longleftrightarrow> means f c a"
| "means f _ _ \<longleftrightarrow> False"

lemma means_cong: "means f c a \<Longrightarrow> \<forall>x\<in>set (cmd_words c). f x = g x \<Longrightarrow> means g c a"
  by (induction f c a rule: means.induct) auto

subsection \<open>Tokens of a written command\<close>

lemma wordc_not_ws: "wordc c \<Longrightarrow> \<not> ws c"
  by (simp add: wordc_def)

lemma not_ws_symbols [simp]: "\<not> ws 60" "\<not> ws 62" "\<not> ws 124" "\<not> ws 38" "\<not> ws 59" "\<not> ws 40" "\<not> ws 41"
  by (simp_all add: ws_def whitespace_def)

lemma ws_space [simp]: "ws 32" "\<not> wordc 32"
  by (simp_all add: ws_def wordc_def whitespace_def)

lemma skip_word: "word_ok w \<Longrightarrow> skip (w @ t) = w @ t"
  by (cases w) (auto simp: word_ok_def wordc_def)

lemma gettoken_of_word: "word_ok w \<Longrightarrow> gettoken (w @ 32 # t) = (c_a, w @ 32 # t, 32 # t, skip t)"
proof -
  assume w: "word_ok w"
  then obtain c v where c: "w = c # v" "wordc c" "list_all wordc w"
    by (cases w) (auto simp: word_ok_def)
  have "dropWhile wordc (w @ 32 # t) = 32 # t"
    using c(3) by (simp add: list_all_iff)
  then show ?thesis
    using c skip_word [OF w, of "32 # t"] by (auto simp: gettoken_def Let_def wordc_def symbols_def)
qed

lemma gettoken_op:
  assumes "tok \<in> {c_lt, c_gt, c_plus}" "word_ok w"
  shows "\<exists>u v. gettoken (redir_op tok @ w @ t) = (tok, u, v, w @ t)"
  using assms skip_word [OF assms(2), of t] 
  by (cases w) (auto simp: gettoken_def Let_def redir_op_def word_ok_def wordc_def symbols_def)

lemma gettoken_skip: "gettoken (skip s) = gettoken s"
  by (simp add: gettoken_def)

lemma peek_skip: "peek (skip s) toks = peek s toks"
  by (simp add: peek_def)

lemma after_symbol [simp]: "c \<in> {c_bar, c_lpar, c_rpar, c_semi, c_amp} \<Longrightarrow> after (c # t) = skip t"
  by (auto simp: after_def gettoken_def)

lemma after_skip: "after (skip s) = after s"
  by (simp add: after_def gettoken_skip)

lemma parseredirs_skip: "parseredirs c (skip s) = parseredirs c s"
  unfolding parseredirs.simps [of c "skip s"] parseredirs.simps [of c s] peek_skip gettoken_skip by simp

lemma parsebacks_skip: "parsebacks c (skip s) = parsebacks c s"
  unfolding parsebacks.simps [of c "skip s"] parsebacks.simps [of c s] peek_skip after_skip by simp

lemma parse_skip:
  "parseline n (skip s) = parseline n s"
  "parsepipe n (skip s) = parsepipe n s"
  "parseexec n (skip s) = parseexec n s"
  "parseblock n (skip s) = parseblock n s"
proof (induction n s and n s and n s and n s rule: parseline_parsepipe_parseexec_parseblock.induct)
  case (6 n s)
  then show ?case
    unfolding parseexec.simps peek_skip parseredirs_skip by simp
next
  case (8 n s)
  then show ?case
    unfolding parseblock.simps peek_skip after_skip by simp
qed simp_all

definition ends_in :: "uint8 list \<Rightarrow> ptr \<Rightarrow> bool" where
  "ends_in toks t \<longleftrightarrow> skip t = [] \<or> hd (skip t) \<in> set toks"

lemma ends_not_peek: "ends_in toks t \<Longrightarrow> set toks \<inter> set toks' = {} \<Longrightarrow> \<not> fst (peek t toks')"
  by (auto simp: ends_in_def)

lemma ends_mono: "ends_in toks t \<Longrightarrow> set toks \<subseteq> set toks' \<Longrightarrow> ends_in toks' t"
  by (auto simp: ends_in_def)

abbreviation "end_line \<equiv> [c_rpar]"
abbreviation "end_back \<equiv> [c_rpar, c_semi, c_amp]"
abbreviation "end_exec \<equiv> [c_rpar, c_semi, c_amp, c_bar]"
abbreviation "end_args \<equiv> [c_rpar, c_semi, c_amp, c_bar, c_lt, c_gt]"

subsection \<open>Parsing a written command\<close>

lemma parseredirs_skipped: "parseredirs c s = Inr (c', s') \<Longrightarrow> skip s' = s'"
  by (induction c s rule: parseredirs_induct) (auto simp: parseredirs_stop parseredirs_step simp del: peek_simps)

lemma parseargs_stop:
  assumes "ends_in end_exec s"
  shows "parseargs k c s = Inr (c, skip s)"
proof (cases "skip s")
  case Nil
  then have "gettoken s = (0, [], [], [])" "\<not> fst (peek s [c_bar, c_rpar, c_amp, c_semi])"
    by (simp_all add: gettoken_def del: dropWhile_eq_Nil_conv)
  then show ?thesis
    using Nil unfolding parseargs.simps [of k c s] by (simp del: peek_simps dropWhile_eq_Nil_conv)
next
  case (Cons x r)
  then have "fst (peek s [c_bar, c_rpar, c_amp, c_semi])"
    using assms by (auto simp: ends_in_def)
  then show ?thesis
    unfolding parseargs.simps [of k c s] by (simp del: peek_simps)
qed

text \<open>The part of \<^verbatim>\<open>parseexec\<close> from a call of \<^verbatim>\<open>parseredirs\<close> on.\<close>

definition parserest :: "nat \<Rightarrow> cmd \<Rightarrow> ptr \<Rightarrow> string + cmd \<times> ptr" where
  "parserest k c s = (case parseredirs c s of Inl e \<Rightarrow> Inl e | Inr (c, s) \<Rightarrow> parseargs k c s)"

lemma parserest_word:
  assumes "word_ok w" "k + 1 < MAXARGS"
  shows "parserest k (Exec as) (w @ 32 # t) = parserest (k + 1) (Exec (as @ [(w @ 32 # t, 32 # t)])) t"
proof -
  have s: "skip (w @ 32 # t) = w @ 32 # t" "w \<noteq> []" "wordc (hd w)"
    using skip_word [OF assms(1)] assms(1) by (auto simp: word_ok_def list_all_iff)
  then have p: "\<not> fst (peek (w @ 32 # t) [c_bar, c_rpar, c_amp, c_semi])" "\<not> fst (peek (w @ 32 # t) [c_lt, c_gt])"
    by (auto simp: wordc_def symbols_def)
  have "parserest k (Exec as) (w @ 32 # t) = parseargs k (Exec as) (w @ 32 # t)"
    by (simp only: parserest_def parseredirs_stop [OF p(2)] s(1) sum.case prod.case)
  also have "\<dots> = parserest (k + 1) (Exec (as @ [(w @ 32 # t, 32 # t)])) t"
    using p(1) gettoken_of_word [OF assms(1), of t] assms(2) unfolding parseargs.simps [of k "Exec as"]
    by (simp add: parserest_def parseredirs_skip del: peek_simps split: sum.split)
  finally show ?thesis .
qed

lemma parserest_words:
  "list_all word_ok vs \<Longrightarrow> k + length vs < MAXARGS \<Longrightarrow>
   \<exists>as'. map word_of as' = vs \<and>
     (\<forall>c s. parseredirs (Exec (as @ as')) t = Inr (c, s) \<and> ends_in end_exec s \<longrightarrow>
        parserest k (Exec as) (words_text vs @ t) = Inr (c, s))"
proof (induction vs arbitrary: k as)
  case Nil
  then show ?case
    using parseargs_stop parseredirs_skipped by (fastforce simp: words_text_def parserest_def)
next
  case (Cons w vs)
  let ?t = "words_text vs @ t"
  let ?a = "(w @ 32 # ?t, 32 # ?t)"
  have w: "word_ok w"
    using Cons.prems by simp
  have r: "parserest k (Exec as) (w @ 32 # ?t) = parserest (k + 1) (Exec (as @ [?a])) ?t"
    using parserest_word [OF w, of k as ?t] Cons.prems(2) by simp
  obtain as' where as': "map word_of as' = vs"
    "\<forall>c s. parseredirs (Exec ((as @ [?a]) @ as')) t = Inr (c, s) \<and> ends_in end_exec s \<longrightarrow>
        parserest (k + 1) (Exec (as @ [?a])) ?t = Inr (c, s)"
    using Cons.IH [of "k + 1" "as @ [?a]"] Cons.prems by auto
  have "words_text (w # vs) @ t = w @ 32 # ?t" "map word_of (?a # as') = w # vs"
    using as'(1) by (simp_all add: words_text_def word_of_def)
  then show ?case
    using as'(2) r by (intro exI [of _ "?a # as'"]) simp
qed

lemma parseexec_rest: "\<not> fst (peek s [c_lpar]) \<Longrightarrow> parseexec (Suc n) s = Some (parserest 0 (Exec []) s)"
  by (auto simp: parserest_def simp del: peek_simps split: sum.splits)

text \<open>What a written command is parsed to at each level.\<close>

definition exec_level :: "script \<Rightarrow> bool" where
  "exec_level a \<longleftrightarrow> (\<forall>n t. ends_in end_args t \<longrightarrow> parseexec n (script_text a 3 @ t) \<noteq> None \<longrightarrow>
     (\<exists>c. means word_of c a \<and> (\<forall>c' s. parseredirs c t = Inr (c', s) \<and> ends_in end_exec s \<longrightarrow>
        parseexec n (script_text a 3 @ t) = Some (Inr (c', s)))))"

definition pipe_level :: "script \<Rightarrow> bool" where
  "pipe_level a \<longleftrightarrow> (\<forall>n t. ends_in end_back t \<longrightarrow> parsepipe n (script_text a 2 @ t) \<noteq> None \<longrightarrow>
     (\<exists>c. means word_of c a \<and> parsepipe n (script_text a 2 @ t) = Some (Inr (c, skip t))))"

definition back_level :: "script \<Rightarrow> bool" where
  "back_level a \<longleftrightarrow> (\<forall>n t. ends_in end_back t \<longrightarrow> parsepipe n (script_text a 1 @ t) \<noteq> None \<longrightarrow>
     (\<exists>c c' s. means word_of c' a \<and> parsepipe n (script_text a 1 @ t) = Some (Inr (c, s)) \<and>
        parsebacks c s = parsebacks c' t))"

definition line_level :: "script \<Rightarrow> bool" where
  "line_level a \<longleftrightarrow> (\<forall>n t. ends_in end_line t \<longrightarrow> parseline n (script_text a 0 @ t) \<noteq> None \<longrightarrow>
     (\<exists>c. means word_of c a \<and> parseline n (script_text a 0 @ t) = Some (Inr (c, skip t))))"

lemma exec_levelD:
  assumes "exec_level a" "ends_in end_exec t" "parseexec n (script_text a 3 @ t) \<noteq> None"
  shows "\<exists>c. means word_of c a \<and> parseexec n (script_text a 3 @ t) = Some (Inr (c, skip t))"
proof -
  have "ends_in end_args t" "\<not> fst (peek t [c_lt, c_gt])"
    using assms(2) by (auto elim: ends_mono simp: ends_not_peek simp del: peek_simps)
  moreover have "ends_in end_exec (skip t)"
    using assms(2) by (simp add: ends_in_def)
  ultimately show ?thesis
    using assms(1,3) parseredirs_stop unfolding exec_level_def by blast
qed

lemma pipe_from_exec: "exec_level a \<Longrightarrow> script_text a 2 = script_text a 3 \<Longrightarrow> pipe_level a"
  unfolding pipe_level_def
proof (intro allI impI)
  fix n t
  assume a: "exec_level a" "script_text a 2 = script_text a 3" "ends_in end_back t"
    "parsepipe n (script_text a 2 @ t) \<noteq> None"
  then obtain m where n: "n = Suc m" "parseexec m (script_text a 3 @ t) \<noteq> None"
    by (cases n) (auto simp: andthen_None simp del: not_None_eq)
  have e: "ends_in end_exec t" "\<not> fst (peek (skip t) [c_bar])"
    using a(3) by (auto elim: ends_mono simp: peek_skip ends_not_peek simp del: peek_simps)
  then show "\<exists>c. means word_of c a \<and> parsepipe n (script_text a 2 @ t) = Some (Inr (c, skip t))"
    using exec_levelD [OF a(1) e(1) n(2)] a(2) n(1) by (auto simp del: peek_simps)
qed

lemma back_from_pipe: "pipe_level a \<Longrightarrow> script_text a 1 = script_text a 2 \<Longrightarrow> back_level a"
  unfolding back_level_def pipe_level_def using parsebacks_skip by metis

lemma parsebacks_stop: "\<not> fst (peek s [c_amp]) \<Longrightarrow> parsebacks c s = (c, skip s)"
  unfolding parsebacks.simps [of c s] by (simp del: peek_simps)

lemma line_from_back: "back_level a \<Longrightarrow> script_text a 0 = script_text a 1 \<Longrightarrow> line_level a"
  unfolding line_level_def
proof (intro allI impI)
  fix n t
  assume a: "back_level a" "script_text a 0 = script_text a 1" "ends_in end_line t"
    "parseline n (script_text a 0 @ t) \<noteq> None"
  then obtain m where n: "n = Suc m" "parsepipe m (script_text a 1 @ t) \<noteq> None"
    by (cases n) (auto simp: andthen_None simp del: not_None_eq)
  have e: "ends_in end_back t" "\<not> fst (peek t [c_amp])" "\<not> fst (peek (skip t) [c_semi])"
    using a(3) by (auto elim: ends_mono simp: peek_skip ends_not_peek simp del: peek_simps)
  obtain c c' s where c: "means word_of c' a" "parsepipe m (script_text a 1 @ t) = Some (Inr (c, s))"
    "parsebacks c s = parsebacks c' t"
    using a(1) e(1) n(2) unfolding back_level_def by blast
  then show "\<exists>c. means word_of c a \<and> parseline n (script_text a 0 @ t) = Some (Inr (c, skip t))"
    using e parsebacks_stop [OF e(2), of c'] n(1) a(2) by (auto simp del: peek_simps)
qed

lemma exec_from_line:
  assumes "line_level a" "script_text a 3 = paren True (script_text a 0)"
  shows "exec_level a"
  unfolding exec_level_def
proof (intro allI impI)
  fix n t
  let ?s = "script_text a 0 @ c_rpar # t"
  assume n: "parseexec n (script_text a 3 @ t) \<noteq> None"
  have s: "script_text a 3 @ t = c_lpar # ?s"
    using assms(2) by (simp add: paren_def)
  obtain m where m: "parseexec n (script_text a 3 @ t) = parseblock (Suc m) (c_lpar # ?s)"
    using n s by (cases n; cases "n - 1") auto
  then have "parseline m ?s \<noteq> None"
    using n by (auto simp: andthen_None parse_skip simp del: not_None_eq)
  moreover have "ends_in end_line (c_rpar # t)" "skip (c_rpar # t) = c_rpar # t"
    by (simp_all add: ends_in_def)
  ultimately obtain c where c: "means word_of c a" "parseline m ?s = Some (Inr (c, c_rpar # t))"
    using assms(1) unfolding line_level_def by metis
  then have "parseexec n (script_text a 3 @ t) = Some (parseredirs c t)"
    using m by (simp add: andthen_def parse_skip parseredirs_skip)
  then show "\<exists>c. means word_of c a \<and> (\<forall>c' s. parseredirs c t = Inr (c', s) \<and> ends_in end_exec s \<longrightarrow>
      parseexec n (script_text a 3 @ t) = Some (Inr (c', s)))"
    using c(1) by auto
qed

lemma exec_of_words:
  assumes "script_ok (SExec vs)"
  shows "exec_level (SExec vs)"
  unfolding exec_level_def
proof (intro allI impI)
  fix n t
  assume t: "ends_in end_args t" and n: "parseexec n (script_text (SExec vs) 3 @ t) \<noteq> None"
  obtain m where m: "n = Suc m"
    using n by (cases n) auto
  have "\<not> fst (peek (words_text vs @ t) [c_lpar])"
  proof (cases vs)
    case Nil
    then show ?thesis
      using ends_not_peek [OF t, of "[c_lpar]"] by (simp add: words_text_def del: peek_simps)
  next
    case (Cons w us)
    then have "word_ok w" "wordc (hd w)"
      using assms by (auto simp: word_ok_def list_all_iff)
    then show ?thesis
      using Cons skip_word [of w "32 # words_text us @ t"] by (auto simp: words_text_def word_ok_def wordc_def symbols_def)
  qed
  then have "parseexec n (script_text (SExec vs) 3 @ t) = Some (parserest 0 (Exec []) (words_text vs @ t))"
    unfolding m script_text.simps by (rule parseexec_rest)
  moreover obtain as where "map word_of as = vs" "\<forall>c s. parseredirs (Exec as) t = Inr (c, s) \<and> ends_in end_exec s \<longrightarrow>
        parserest 0 (Exec []) (words_text vs @ t) = Inr (c, s)"
    using parserest_words [of vs 0 "[]" t] assms by auto
  ultimately show "\<exists>c. means word_of c (SExec vs) \<and> (\<forall>c' s. parseredirs c t = Inr (c', s) \<and> ends_in end_exec s \<longrightarrow>
      parseexec n (script_text (SExec vs) 3 @ t) = Some (Inr (c', s)))"
    by (intro exI [of _ "Exec as"]) simp
qed

lemma parseredirs_op:
  assumes "tok \<in> {c_lt, c_gt, c_plus}" "word_ok w"
  shows "parseredirs c (redir_op tok @ w @ 32 # t) =
    parseredirs (Redir c (w @ 32 # t) (32 # t) (fst (redir_mode tok)) (snd (redir_mode tok))) t"
proof -
  obtain u v where g: "gettoken (redir_op tok @ w @ 32 # t) = (tok, u, v, w @ 32 # t)"
    using gettoken_op [OF assms] by blast
  have "fst (peek (redir_op tok @ w @ 32 # t) [c_lt, c_gt])"
    using assms(1) by (auto simp: redir_op_def)
  from parseredirs_step [OF this g gettoken_of_word [OF assms(2)]] show ?thesis
    by (simp add: parseredirs_skip)
qed

lemma exec_of_redir:
  assumes a: "exec_level a" and ok: "tok \<in> {c_lt, c_gt, c_plus}" "word_ok w"
  shows "exec_level (SRedir a tok w)"
  unfolding exec_level_def
proof (intro allI impI)
  fix n t
  let ?t = "redir_op tok @ w @ 32 # t"
  assume n: "parseexec n (script_text (SRedir a tok w) 3 @ t) \<noteq> None"
  have s: "script_text (SRedir a tok w) 3 @ t = script_text a 3 @ ?t"
    by simp
  have "ends_in end_args ?t"
    using ok(1) by (auto simp: ends_in_def redir_op_def)
  then obtain c where c: "means word_of c a" "\<forall>c' s. parseredirs c ?t = Inr (c', s) \<and> ends_in end_exec s \<longrightarrow>
      parseexec n (script_text a 3 @ ?t) = Some (Inr (c', s))"
    using a n unfolding exec_level_def s by blast
  let ?c = "Redir c (w @ 32 # t) (32 # t) (fst (redir_mode tok)) (snd (redir_mode tok))"
  have "means word_of ?c (SRedir a tok w)"
    using c(1) by (simp add: word_of_def)
  then show "\<exists>c. means word_of c (SRedir a tok w) \<and> (\<forall>c' s. parseredirs c t = Inr (c', s) \<and> ends_in end_exec s \<longrightarrow>
      parseexec n (script_text (SRedir a tok w) 3 @ t) = Some (Inr (c', s)))"
    using c(2) s parseredirs_op [OF ok, of c t] by metis
qed

lemma ends_cons: "\<not> ws c \<Longrightarrow> c \<in> set toks \<Longrightarrow> ends_in toks (c # t)"
  by (simp add: ends_in_def)

lemma pipe_of_pipe:
  assumes "exec_level l" "pipe_level r"
  shows "pipe_level (SPipe l r)"
  unfolding pipe_level_def
proof (intro allI impI)
  fix n t
  let ?t = "script_text r 2 @ t"
  assume t: "ends_in end_back t" and n: "parsepipe n (script_text (SPipe l r) 2 @ t) \<noteq> None"
  have s: "script_text (SPipe l r) 2 @ t = script_text l 3 @ c_bar # ?t"
    by (simp add: paren_def)
  obtain m where m: "n = Suc m" "parseexec m (script_text l 3 @ c_bar # ?t) \<noteq> None"
    using n s by (cases n) (auto simp: andthen_None simp del: not_None_eq)
  obtain c where c: "means word_of c l" "parseexec m (script_text l 3 @ c_bar # ?t) = Some (Inr (c, c_bar # ?t))"
    using exec_levelD [OF assms(1) _ m(2)] by (auto simp: ends_cons)
  then have p: "parsepipe n (script_text (SPipe l r) 2 @ t) =
      andthen (parsepipe m ?t) (\<lambda>r s. Some (Inr (Pipe c r, s)))"
    using s m(1) by (simp add: parse_skip)
  then have "parsepipe m ?t \<noteq> None"
    using n unfolding p by (metis andthen_None)
  then obtain d where "means word_of d r" "parsepipe m ?t = Some (Inr (d, skip t))"
    using assms(2) t unfolding pipe_level_def by blast
  then show "\<exists>c. means word_of c (SPipe l r) \<and> parsepipe n (script_text (SPipe l r) 2 @ t) = Some (Inr (c, skip t))"
    using p c(1) by (intro exI [of _ "Pipe c d"]) simp
qed

lemma back_of_back:
  assumes "back_level a"
  shows "back_level (SBack a)"
  unfolding back_level_def
proof (intro allI impI)
  fix n t
  assume n: "parsepipe n (script_text (SBack a) 1 @ t) \<noteq> None"
  have e: "ends_in end_back (c_amp # t)"
    by (simp add: ends_cons)
  have s: "script_text (SBack a) 1 @ t = script_text a 1 @ c_amp # t"
    by (simp add: paren_def)
  obtain c c' s where c: "means word_of c' a" "parsepipe n (script_text a 1 @ c_amp # t) = Some (Inr (c, s))"
    "parsebacks c s = parsebacks c' (c_amp # t)"
    using assms n e unfolding back_level_def s by blast
  moreover have "parsebacks c' (c_amp # t) = parsebacks (Back c') t"
    using parsebacks.simps [of c' "c_amp # t"] by (simp add: parsebacks_skip)
  ultimately show "\<exists>c c' s. means word_of c' (SBack a) \<and> parsepipe n (script_text (SBack a) 1 @ t) = Some (Inr (c, s)) \<and>
        parsebacks c s = parsebacks c' t"
    using s by (intro exI [of _ c] exI [of _ "Back c'"] exI [of _ s]) simp
qed

lemma line_of_list:
  assumes "back_level l" "line_level r"
  shows "line_level (SList l r)"
  unfolding line_level_def
proof (intro allI impI)
  fix n t
  let ?t = "script_text r 0 @ t"
  assume t: "ends_in end_line t" and n: "parseline n (script_text (SList l r) 0 @ t) \<noteq> None"
  have e: "ends_in end_back (c_semi # ?t)"
    by (simp add: ends_cons)
  have s: "script_text (SList l r) 0 @ t = script_text l 1 @ c_semi # ?t"
    by (simp add: paren_def)
  obtain m where m: "n = Suc m" "parsepipe m (script_text l 1 @ c_semi # ?t) \<noteq> None"
    using n s by (cases n) (auto simp: andthen_None simp del: not_None_eq)
  obtain c c' s' where c: "means word_of c' l" "parsepipe m (script_text l 1 @ c_semi # ?t) = Some (Inr (c, s'))"
    "parsebacks c s' = parsebacks c' (c_semi # ?t)"
    using assms(1) m(2) e unfolding back_level_def by blast
  have "parsebacks c' (c_semi # ?t) = (c', c_semi # ?t)"
    using parsebacks_stop [of "c_semi # ?t"] by simp
  then have p: "parseline n (script_text (SList l r) 0 @ t) =
      andthen (parseline m ?t) (\<lambda>r s. Some (Inr (List c' r, s)))"
    using s m(1) c by (simp add: parse_skip)
  then have "parseline m ?t \<noteq> None"
    using n unfolding p by (metis andthen_None)
  then obtain d where "means word_of d r" "parseline m ?t = Some (Inr (d, skip t))"
    using assms(2) t unfolding line_level_def by blast
  then show "\<exists>c. means word_of c (SList l r) \<and> parseline n (script_text (SList l r) 0 @ t) = Some (Inr (c, skip t))"
    using p c(1) by (intro exI [of _ "List c' d"]) simp
qed

lemma levels: "script_ok a \<Longrightarrow> exec_level a \<and> pipe_level a \<and> back_level a \<and> line_level a"
proof (induction a)
  case (SExec vs)
  then show ?case
    using exec_of_words pipe_from_exec back_from_pipe line_from_back by simp
next
  case (SRedir a tok w)
  then show ?case
    using exec_of_redir pipe_from_exec back_from_pipe line_from_back by simp
next
  case (SPipe l r)
  then have "pipe_level (SPipe l r)"
    using pipe_of_pipe by simp
  then show ?case
    using exec_from_line back_from_pipe line_from_back by (simp add: paren_def)
next
  case (SList l r)
  then have "line_level (SList l r)"
    using line_of_list by simp
  then show ?case
    using exec_from_line pipe_from_exec back_from_pipe by (simp add: paren_def)
next
  case (SBack a)
  then have "back_level (SBack a)"
    using back_of_back by simp
  then show ?case
    using exec_from_line pipe_from_exec line_from_back by (simp add: paren_def)
qed

lemma script_text_nonzero:
  assumes "script_ok a" "script_clean a"
  shows "0 \<notin> set (script_text a lv)"
  using assms
  by (induction a arbitrary: lv) (auto simp: words_text_def paren_def redir_op_def list_all_iff)

lemma parsecmd_text:
  assumes "script_ok a"
  shows "\<exists>c. parsecmd (script_text a 0) = Some (Inr c) \<and> means word_of c a"
proof -
  let ?s = "script_text a 0"
  have "parseline (4 * length ?s + 4) (?s @ []) \<noteq> None"
    unfolding append_Nil2 by (rule parse_returns) simp
  moreover have "ends_in end_line []"
    by (simp add: ends_in_def)
  ultimately obtain c where "means word_of c a" "parseline (4 * length ?s + 4) (?s @ []) = Some (Inr (c, skip []))"
    using levels [OF assms] unfolding line_level_def by blast
  then show ?thesis
    unfolding append_Nil2 by (simp add: parsecmd_def)
qed

text \<open>
  C13: writing a command and parsing it gives the command back. For every command with arguments,
  redirections, pipes, sequences and background parts there is a line that \<^verbatim>\<open>parsecmd\<close> accepts, and
  the command it builds has the same structure, the same redirections and, once \<^verbatim>\<open>nulterminate\<close> has
  run, the same argument strings.
\<close>

theorem parse_print:
  assumes "script_ok a" "script_clean a"
  shows "\<exists>c. parsecmd (script_text a 0) = Some (Inr c) \<and>
    means (\<lambda>x. str_at (length (script_text a 0))
      (nulterminate (length (script_text a 0)) c (script_text a 0 @ [0])) (fst x)) c a"
proof -
  obtain c where c: "parsecmd (script_text a 0) = Some (Inr c)" "means word_of c a"
    using parsecmd_text [OF assms(1)] by blast
  have z: "0 \<notin> set (script_text a 0)"
    using script_text_nonzero [OF assms] .
  show ?thesis
    using c means_cong [OF c(2)] str_at_word [OF _ parsecmd_words [OF c(1) z] z] by auto
qed

text \<open>\<^verbatim>\<open>( ls & ; cat < f ) | wc >> g\<close>\<close>

definition example_script :: script where
  "example_script =
     SPipe (SList (SBack (SExec [[108, 115]])) (SRedir (SExec [[99, 97, 116]]) c_lt [102]))
       (SRedir (SExec [[119, 99]]) c_plus [103])"

theorem parse_print_witness:
  "script_ok example_script \<and> script_clean example_script \<and>
   (\<exists>c. parsecmd (script_text example_script 0) = Some (Inr c) \<and>
    means (\<lambda>x. str_at (length (script_text example_script 0))
      (nulterminate (length (script_text example_script 0)) c (script_text example_script 0 @ [0])) (fst x)) c example_script)"
proof -
  have "script_ok example_script" "script_clean example_script"
    by (simp_all add: example_script_def word_ok_def wordc_def ws_def whitespace_def symbols_def)
  then show ?thesis
    using parse_print [of example_script] by blast
qed

theorem parsecmd_strings_witness:
  "\<exists>u w. [99, 100, 32, 120] = u @ w @ ([]::uint8 list) \<and> [120] = w @ [] \<and> w \<noteq> [] \<and> list_all wordc w \<and>
    str_at 4 (nulterminate 4 (Exec [([99, 100, 32, 120], [32, 120]), ([120], [])]) [99, 100, 32, 120, 0]) [120] = w"
proof -
  have "parsecmd [99, 100, 32, 120] = Some (Inr (Exec [([99, 100, 32, 120], [32, 120]), ([120], [])]))"
    by code_simp
  moreover have "length [99, 100, 32, 120 :: uint8] = 4"
    by simp
  ultimately show ?thesis
    using parsecmd_strings [of "[99, 100, 32, 120]" "Exec [([99, 100, 32, 120], [32, 120]), ([120], [])]" "[120]" "[]"]
    by (simp only:) simp
qed

end
