(* ===== verification/Umalloc.thy ===== *)
theory Umalloc
  imports Prelude
begin

section \<open>The user-level allocator (user/umalloc.c)\<close>

text \<open>
  \<^verbatim>\<open>riscv/user/umalloc.c\<close>: the allocator of Kernighan and Ritchie, with its circular list of free blocks
  threaded through the process's memory. The state is the memory of the process, the static variables
  and the end of the process's memory; the header \<^verbatim>\<open>base\<close> is a fixed address. The system call stub \<^verbatim>\<open>sbrk\<close> is
  a parameter, of which the allocator relies on \<open>sbrk_ok\<close>. A loop that would not end is \<open>None\<close>.
\<close>

record useg =
  umem :: memory
  base_hdr :: uint64
  freep :: uint64
  ubrk :: uint64

subsection \<open>Headers\<close>

text \<open>\<^verbatim>\<open>union header\<close>: the pointer at offset 0, the size at offset 8, 16 bytes in all.\<close>

definition hptr :: "'a useg_scheme \<Rightarrow> uint64 \<Rightarrow> uint64" where
  "hptr s p = load64 (umem s) p"

definition hsize :: "'a useg_scheme \<Rightarrow> uint64 \<Rightarrow> uint32" where
  "hsize s p = le_word (load_bytes (umem s) (p + 8) 4)"

definition set_hptr :: "uint64 \<Rightarrow> uint64 \<Rightarrow> 'a useg_scheme \<Rightarrow> 'a useg_scheme" where
  "set_hptr p v s = s\<lparr>umem := store64 (umem s) p v\<rparr>"

definition set_hsize :: "uint64 \<Rightarrow> uint32 \<Rightarrow> 'a useg_scheme \<Rightarrow> 'a useg_scheme" where
  "set_hsize p v s = s\<lparr>umem := store_bytes (umem s) (p + 8) (le_bytes 4 v)\<rparr>"

text \<open>Pointer arithmetic on headers.\<close>

definition hplus :: "uint64 \<Rightarrow> uint32 \<Rightarrow> uint64" where
  "hplus p n = p + 16 * ucast n"

subsection \<open>The operations\<close>

partial_function (option) free_scan :: "'a useg_scheme \<Rightarrow> uint64 \<Rightarrow> uint64 \<Rightarrow> uint64 option" where
  "free_scan s bp p =
     (if bp > p \<and> bp < hptr s p then Some p
      else if p \<ge> hptr s p \<and> (bp > p \<or> bp < hptr s p) then Some p
      else free_scan s bp (hptr s p))"

definition ufree :: "uint64 \<Rightarrow> 'a useg_scheme \<Rightarrow> 'a useg_scheme option" where
  "ufree ap s =
     (let bp = ap - 16 in
      case free_scan s bp (freep s) of
        None \<Rightarrow> None
      | Some p \<Rightarrow>
          let s = (if hplus bp (hsize s bp) = hptr s p then
                     let s = set_hsize bp (hsize s bp + hsize s (hptr s p)) s in
                     set_hptr bp (hptr s (hptr s p)) s
                   else set_hptr bp (hptr s p) s);
              s = (if hplus p (hsize s p) = bp then
                     let s = set_hsize p (hsize s p + hsize s bp) s in
                     set_hptr p (hptr s bp) s
                   else set_hptr p bp s)
          in Some (s\<lparr>freep := p\<rparr>))"

type_synonym 'a sbrk_call = "int \<Rightarrow> 'a useg_scheme \<Rightarrow> uint64 \<times> 'a useg_scheme"

definition morecore :: "'a sbrk_call \<Rightarrow> uint32 \<Rightarrow> 'a useg_scheme \<Rightarrow> (uint64 \<times> 'a useg_scheme) option" where
  "morecore sbrk nu s =
     (let nu = (if nu < 4096 then 4096 else nu);
          (p, s) = sbrk (sint (ucast (ucast nu * 16 :: uint64) :: uint32)) s in
      if p = -1 then Some (0, s)
      else
        let hp = p; s = set_hsize hp nu s in
        case ufree (hp + 16) s of None \<Rightarrow> None | Some s \<Rightarrow> Some (freep s, s))"

text \<open>The block found: its tail, or all of it when the size is right.\<close>

definition carve :: "uint32 \<Rightarrow> uint64 \<Rightarrow> uint64 \<Rightarrow> 'a useg_scheme \<Rightarrow> uint64 \<times> 'a useg_scheme" where
  "carve nunits prevp p s =
     (if hsize s p = nunits then (p + 16, (set_hptr prevp (hptr s p) s)\<lparr>freep := prevp\<rparr>)
      else
        let s = set_hsize p (hsize s p - nunits) s;
            p = hplus p (hsize s p);
            s = set_hsize p nunits s
        in (p + 16, s\<lparr>freep := prevp\<rparr>))"

partial_function (option) malloc_loop :: "'a sbrk_call \<Rightarrow> uint32 \<Rightarrow> uint64 \<Rightarrow> uint64 \<Rightarrow> 'a useg_scheme \<Rightarrow> (uint64 \<times> 'a useg_scheme) option" where
  "malloc_loop sbrk nunits prevp p s =
     (if hsize s p \<ge> nunits then Some (carve nunits prevp p s)
      else if p = freep s then
        case morecore sbrk nunits s of
          None \<Rightarrow> None
        | Some (p, s) \<Rightarrow> if p = 0 then Some (0, s) else malloc_loop sbrk nunits p (hptr s p) s
      else malloc_loop sbrk nunits p (hptr s p) s)"

definition malloc :: "'a sbrk_call \<Rightarrow> uint32 \<Rightarrow> 'a useg_scheme \<Rightarrow> (uint64 \<times> 'a useg_scheme) option" where
  "malloc sbrk nbytes s =
     (let nunits = ucast ((ucast nbytes + 16 - 1) div 16 + 1 :: uint64);
          s = (if freep s = 0 then set_hsize (base_hdr s) 0 ((set_hptr (base_hdr s) (base_hdr s) s)\<lparr>freep := base_hdr s\<rparr>) else s);
          prevp = freep s
      in malloc_loop sbrk nunits prevp (hptr s prevp) s)"

subsection \<open>Reading and writing headers\<close>

lemma useg_sel [simp]:
  "base_hdr (set_hptr p v s) = base_hdr s" "freep (set_hptr p v s) = freep s" "ubrk (set_hptr p v s) = ubrk s"
  "base_hdr (set_hsize p w s) = base_hdr s" "freep (set_hsize p w s) = freep s" "ubrk (set_hsize p w s) = ubrk s"
  "hptr (s\<lparr>freep := q\<rparr>) a = hptr s a" "hsize (s\<lparr>freep := q\<rparr>) a = hsize s a"
  by (simp_all add: set_hptr_def set_hsize_def hptr_def hsize_def)

lemma run_at_nat: "a + n \<le> 2 ^ 64 \<Longrightarrow> x \<in> run_at (of_nat a) n \<longleftrightarrow> a \<le> unat x \<and> unat x < a + n"
proof -
  assume a: "a + n \<le> 2 ^ 64"
  show ?thesis
  proof
    assume "x \<in> run_at (of_nat a) n"
    then obtain i where "i < n" "x = of_nat (a + i)"
      by (auto elim: run_atE)
    then show "a \<le> unat x \<and> unat x < a + n"
      using a unat_of_nat64 [of "a + i"] by simp
  next
    assume h: "a \<le> unat x \<and> unat x < a + n"
    then have "x = of_nat a + of_nat (unat x - a)"
      by (simp flip: of_nat_add)
    moreover have "unat x - a < n"
      using h by linarith
    ultimately show "x \<in> run_at (of_nat a) n"
      using run_at_offset [of "unat x - a" n "of_nat a"] a by simp
  qed
qed

text \<open>Two headers are apart when they are 16 bytes from each other.\<close>

definition apart16 :: "uint64 \<Rightarrow> uint64 \<Rightarrow> bool" where
  "apart16 p q \<longleftrightarrow> run_at p 16 \<inter> run_at q 16 = {}"

lemma apart16_nat: "a + 16 \<le> b \<or> b + 16 \<le> a \<Longrightarrow> a + 16 \<le> 2 ^ 64 \<Longrightarrow> b + 16 \<le> 2 ^ 64 \<Longrightarrow> apart16 (of_nat a) (of_nat b)"
  by (auto simp: apart16_def run_at_nat)

lemma run_at_header: "run_at p 8 \<subseteq> run_at p 16" "run_at (p + 8) 4 \<subseteq> run_at p 16"
proof -
  show "run_at p 8 \<subseteq> run_at p 16"
    by (auto simp: run_at_def)
  show "run_at (p + 8) 4 \<subseteq> run_at p 16"
  proof
    fix x
    assume "x \<in> run_at (p + 8) 4"
    then obtain i where "i < 4" "x = p + of_nat (8 + i)"
      by (auto elim: run_atE simp: add_ac)
    then show "x \<in> run_at p 16"
      using run_at_offset [of "8 + i" 16 p] by simp
  qed
qed

lemma header_halves: "run_at p 8 \<inter> run_at (p + 8) 4 = {}"
proof -
  have "\<not> unat (y + 8) < 8" if "unat y < 4" for y :: uint64
    using that by (simp add: unat_word_ariths)
  from this [of "x - (p + 8)" for x] show ?thesis
    by (auto simp: run_at_def algebra_simps)
qed

lemma header_same [simp]:
  "hptr (set_hptr p v s) p = v" "hsize (set_hsize p w s) p = w" "hptr (set_hsize p w s) p = hptr s p" "hsize (set_hptr p v s) p = hsize s p"
proof -
  show "hptr (set_hptr p v s) p = v"
    by (simp add: hptr_def set_hptr_def mem_simps)
  show "hsize (set_hsize p w s) p = w"
    using load_store_bytes_same [of "le_bytes 4 w" "umem s" "p + 8"] by (simp add: hsize_def set_hsize_def)
  show "hptr (set_hsize p w s) p = hptr s p"
    using header_halves [of p] by (simp add: hptr_def set_hsize_def mem_simps)
  show "hsize (set_hptr p v s) p = hsize s p"
    using header_halves [of p] by (simp add: hsize_def set_hptr_def store64_def mem_simps Int_commute)
qed

lemma header_apart:
  assumes "apart16 p q"
  shows "hptr (set_hptr p v s) q = hptr s q" "hsize (set_hsize p w s) q = hsize s q"
    "hptr (set_hsize p w s) q = hptr s q" "hsize (set_hptr p v s) q = hsize s q"
proof -
  have d: "run_at q 8 \<inter> run_at p 8 = {}" "run_at (q + 8) 4 \<inter> run_at (p + 8) 4 = {}"
    "run_at q 8 \<inter> run_at (p + 8) 4 = {}" "run_at (q + 8) 4 \<inter> run_at p 8 = {}"
    using assms run_at_header [of p] run_at_header [of q] unfolding apart16_def by blast+
  show "hptr (set_hptr p v s) q = hptr s q" "hsize (set_hsize p w s) q = hsize s q"
    "hptr (set_hsize p w s) q = hptr s q" "hsize (set_hptr p v s) q = hsize s q"
    by (simp_all add: hptr_def hsize_def set_hptr_def set_hsize_def store64_def load64_store_bytes_disjoint
        load_store_bytes_disjoint d)
qed

lemma header_frame:
  assumes "x \<notin> run_at p 16"
  shows "umem (set_hptr p v s) x = umem s x" "umem (set_hsize p w s) x = umem s x"
proof -
  have "x \<notin> run_at p 8" "x \<notin> run_at (p + 8) 4"
    using assms run_at_header [of p] by blast+
  then show "umem (set_hptr p v s) x = umem s x" "umem (set_hsize p w s) x = umem s x"
    by (simp_all add: set_hptr_def set_hsize_def store64_out store_bytes_out)
qed

subsection \<open>Lists of blocks\<close>

text \<open>
  A block is its address and its size in units of 16 bytes, its header included. \<open>chain s bs z\<close>: the
  headers of \<open>bs\<close> are linked in this order, the last one to \<open>z\<close>.
\<close>

type_synonym blk = "nat \<times> nat"

fun haddr :: "blk list \<Rightarrow> nat \<Rightarrow> nat" where
  "haddr [] z = z"
| "haddr (b # bs) z = fst b"

fun chain :: "'a useg_scheme \<Rightarrow> blk list \<Rightarrow> nat \<Rightarrow> bool" where
  "chain s [] z \<longleftrightarrow> True"
| "chain s (b # bs) z \<longleftrightarrow>
     hptr s (of_nat (fst b)) = of_nat (haddr bs z) \<and> hsize s (of_nat (fst b)) = of_nat (snd b) \<and> chain s bs z"

lemma haddr_append [simp]: "haddr (xs @ ys) z = haddr xs (haddr ys z)"
  by (cases xs) auto

lemma chain_append [simp]: "chain s (xs @ ys) z \<longleftrightarrow> chain s xs (haddr ys z) \<and> chain s ys z"
  by (induction xs) auto

lemma chain_cong:
  assumes "\<And>b. b \<in> set bs \<Longrightarrow> hptr s' (of_nat (fst b)) = hptr s (of_nat (fst b)) \<and> hsize s' (of_nat (fst b)) = hsize s (of_nat (fst b))"
  shows "chain s' bs z \<longleftrightarrow> chain s bs z"
  using assms by (induction bs) auto

text \<open>The address space of a heap is small enough for sizes in units to fit 32 bits.\<close>

definition heap_max :: nat where "heap_max = 2 ^ 36"

lemma of_nat_heap:
  assumes "a \<le> heap_max" "b \<le> heap_max"
  shows "(of_nat a :: uint64) = of_nat b \<longleftrightarrow> a = b" "(of_nat a :: uint64) < of_nat b \<longleftrightarrow> a < b" "(of_nat a :: uint64) \<le> of_nat b \<longleftrightarrow> a \<le> b"
proof -
  have "a < 2 ^ 64" "b < 2 ^ 64"
    using assms by (simp_all add: heap_max_def)
  then have u: "unat (of_nat a :: uint64) = a" "unat (of_nat b :: uint64) = b"
    by (simp_all add: unat_of_nat64)
  show "(of_nat a :: uint64) = of_nat b \<longleftrightarrow> a = b"
    using u by metis
  show "(of_nat a :: uint64) < of_nat b \<longleftrightarrow> a < b" "(of_nat a :: uint64) \<le> of_nat b \<longleftrightarrow> a \<le> b"
    by (simp_all add: word_less_nat_alt word_le_nat_alt u)
qed

lemma unat_units: "n < 2 ^ 32 \<Longrightarrow> unat (of_nat n :: uint32) = n"
  by (simp add: unat_of_nat take_bit_eq_mod)

lemma hplus_nat: "n < 2 ^ 32 \<Longrightarrow> hplus (of_nat a) (of_nat n) = of_nat (a + 16 * n)"
  unfolding hplus_def by (simp add: unsigned_of_nat take_bit_eq_mod)

text \<open>\<open>before x y\<close>: the block \<open>x\<close> ends where \<open>y\<close> begins, or earlier. The header \<^verbatim>\<open>base\<close> has size 0.\<close>

definition bend :: "blk \<Rightarrow> nat" where
  "bend x = fst x + 16 * max 1 (snd x)"

definition before :: "blk \<Rightarrow> blk \<Rightarrow> bool" where
  "before x y \<longleftrightarrow> bend x \<le> fst y"

definition sep :: "blk \<Rightarrow> blk \<Rightarrow> bool" where
  "sep x y \<longleftrightarrow> before x y \<or> before y x"

lemma before_trans: "before x y \<Longrightarrow> before y z \<Longrightarrow> before x z"
  by (auto simp: before_def bend_def)

lemma before_less: "before x y \<Longrightarrow> fst x < fst y"
  by (auto simp: before_def bend_def)

lemma sep_sym: "sep x y \<longleftrightarrow> sep y x"
  by (auto simp: sep_def)

lemma bend_ge: "fst x + 16 \<le> bend x"
  by (simp add: bend_def)

lemma sep_apart: "sep x y \<Longrightarrow> bend x \<le> heap_max \<Longrightarrow> bend y \<le> heap_max \<Longrightarrow> apart16 (of_nat (fst x)) (of_nat (fst y))"
  using bend_ge [of x] bend_ge [of y] by (intro apart16_nat) (auto simp: sep_def before_def heap_max_def)

text \<open>Block \<open>x\<close> in front of the list \<open>bs\<close>, made one with the first block when they touch.\<close>

fun join :: "blk \<Rightarrow> blk list \<Rightarrow> blk list" where
  "join x [] = [x]"
| "join x (y # ys) = (if fst x + 16 * snd x = fst y then (fst x, snd x + snd y) # ys else x # y # ys)"

lemma haddr_join [simp]: "haddr (join x ys) z = fst x"
  by (cases ys) auto

lemma units_join: "sum_list (map snd (join x ys)) = snd x + sum_list (map snd ys)"
  by (cases ys) auto

text \<open>How \<^verbatim>\<open>free\<close> links a block \<open>p\<close> to its successor \<open>nx\<close>.\<close>

definition link :: "uint64 \<Rightarrow> uint64 \<Rightarrow> 'a useg_scheme \<Rightarrow> 'a useg_scheme" where
  "link p nx s =
     (if hplus p (hsize s p) = nx then
        let s = set_hsize p (hsize s p + hsize s nx) s in set_hptr p (hptr s nx) s
      else set_hptr p nx s)"

lemma link_sel [simp]: "base_hdr (link p nx s) = base_hdr s" "freep (link p nx s) = freep s" "ubrk (link p nx s) = ubrk s"
  by (simp_all add: link_def Let_def)

lemma link_apart: "apart16 p q \<Longrightarrow> hptr (link p nx s) q = hptr s q" "apart16 p q \<Longrightarrow> hsize (link p nx s) q = hsize s q"
  by (simp_all add: link_def Let_def header_apart)

lemma link_frame: "x \<notin> run_at p 16 \<Longrightarrow> umem (link p nx s) x = umem s x"
  by (simp add: link_def Let_def header_frame)

lemma link_chain:
  assumes ch: "chain s ys z" and x: "hsize s (of_nat (fst x)) = of_nat (snd x)" "snd x < 2 ^ 32" "fst x + 16 * snd x \<le> heap_max"
    and ys: "\<And>y. y \<in> set ys \<Longrightarrow> before x y \<and> bend y \<le> heap_max"
    and z: "ys = [] \<Longrightarrow> fst x + 16 * snd x \<noteq> z" "z \<le> heap_max"
  shows "chain (link (of_nat (fst x)) (of_nat (haddr ys z)) s) (join x ys) z"
proof -
  let ?p = "of_nat (fst x) :: uint64"
  have h: "hplus ?p (hsize s ?p) = of_nat (fst x + 16 * snd x)"
    using x by (simp add: hplus_nat)
  have ap: "apart16 ?p (of_nat (fst y))" if "y \<in> set ys" for y
    using ys [OF that] bend_ge [of x] bend_ge [of y] by (intro apart16_nat) (auto simp: before_def heap_max_def)
  have rest: "chain (link ?p nx s) bs w \<longleftrightarrow> chain s bs w" if "set bs \<subseteq> set ys" for bs w nx
    using that ap by (intro chain_cong) (auto simp: link_apart)
  show ?thesis
  proof (cases ys)
    case Nil
    have "(of_nat (fst x + 16 * snd x) :: uint64) \<noteq> of_nat z"
      using of_nat_heap(1) [OF x(3) z(2)] z(1) Nil by blast
    then show ?thesis
      using x(1) Nil by (simp add: link_def hplus_nat [OF x(2)])
  next
    case (Cons y rs)
    have y: "apart16 ?p (of_nat (fst y))" "hsize s (of_nat (fst y)) = of_nat (snd y)" "hptr s (of_nat (fst y)) = of_nat (haddr rs z)"
      using ap ch Cons by auto
    have e: "(of_nat (fst x + 16 * snd x) :: uint64) = of_nat (fst y) \<longleftrightarrow> fst x + 16 * snd x = fst y"
      using ys [of y] bend_ge [of y] Cons by (intro of_nat_heap(1) x(3)) auto
    have r: "chain (link ?p (of_nat (fst y)) s) rs z" "chain (link ?p (of_nat (fst y)) s) ys z"
      using rest [of rs _ z] rest [of ys _ z] ch Cons by auto
    show ?thesis
    proof (cases "fst x + 16 * snd x = fst y")
      case True
      have "link ?p (of_nat (fst y)) s =
          set_hptr ?p (of_nat (haddr rs z)) (set_hsize ?p (of_nat (snd x + snd y)) s)"
        using h True x(1) y by (simp add: link_def header_apart)
      then show ?thesis
        using r(1) True Cons by simp
    next
      case False
      have "link ?p (of_nat (fst y)) s = set_hptr ?p (of_nat (fst y)) s"
        unfolding link_def h using e False by (simp only: if_False)
      then show ?thesis
        using r(2) False Cons x(1) by simp
    qed
  qed
qed

subsection \<open>The shape of the heap\<close>

text \<open>
  \<open>b0\<close> is the address of \<^verbatim>\<open>base\<close>, \<open>fs\<close> the free blocks in the order of their addresses, \<open>live\<close> the blocks in
  the hands of the program: no two blocks overlap, and no two free blocks touch.
\<close>

definition gap :: "blk \<Rightarrow> blk \<Rightarrow> bool" where
  "gap x y \<longleftrightarrow> bend x < fst y"

definition block_ok :: "nat \<Rightarrow> nat \<Rightarrow> blk \<Rightarrow> bool" where
  "block_ok b0 e x \<longleftrightarrow> b0 + 16 \<le> fst x \<and> 0 < snd x \<and> bend x \<le> e"

definition heap_shape :: "nat \<Rightarrow> nat \<Rightarrow> blk list \<Rightarrow> blk list \<Rightarrow> bool" where
  "heap_shape b0 e fs live \<longleftrightarrow> sorted_wrt gap fs \<and> sorted_wrt sep live \<and> (\<forall>x\<in>set live. \<forall>y\<in>set fs. sep x y) \<and>
     (\<forall>x\<in>set fs \<union> set live. block_ok b0 e x)"

lemma bend_pos: "0 < snd x \<Longrightarrow> bend x = fst x + 16 * snd x"
  by (simp add: bend_def)

lemma join_in:
  assumes "y \<in> set (join x ys)"
  obtains "y = x" | "y \<in> set ys" | z where "z \<in> set ys" "y = (fst x, snd x + snd z)" "fst x + 16 * snd x = fst z"
  using assms by (cases ys) (auto split: if_splits)

lemma join_ok:
  assumes "block_ok b0 e x" "\<forall>y\<in>set ys. block_ok b0 e y" "y \<in> set (join x ys)"
  shows "block_ok b0 e y"
  using assms(3) by (rule join_in) (use assms in \<open>auto simp: block_ok_def bend_pos\<close>)

lemma join_fst: "\<forall>y\<in>set ys. before x y \<Longrightarrow> y \<in> set (join x ys) \<Longrightarrow> fst x \<le> fst y"
  by (auto elim!: join_in simp: before_def bend_def)

lemma join_sep:
  assumes "sep l x" "\<forall>y\<in>set ys. sep l y" "\<forall>y\<in>set ys. 0 < snd y" "0 < snd l" "0 < snd x" "y \<in> set (join x ys)"
  shows "sep l y"
  using assms(6) by (rule join_in) (use assms in \<open>fastforce simp: sep_def before_def bend_pos\<close>)+

lemma join_before:
  assumes "before w x" "\<forall>y\<in>set ys. before x y" "y \<in> set (join x ys)"
  shows "before w y"
  using assms(1) join_fst [OF assms(2,3)] by (simp add: before_def)

lemma join_gap:
  assumes "sorted_wrt gap ys" "\<forall>y\<in>set ys. before x y \<and> 0 < snd y" "0 < snd x"
  shows "sorted_wrt gap (join x ys)"
proof (cases ys)
  case (Cons z zs)
  show ?thesis
  proof (cases "fst x + 16 * snd x = fst z")
    case True
    then have "bend (fst x, snd x + snd z) = bend z"
      using assms Cons by (simp add: bend_pos)
    then show ?thesis
      using assms(1) True Cons by (auto simp: gap_def)
  next
    case False
    then have "gap x z"
      using assms Cons by (auto simp: gap_def before_def bend_pos)
    then show ?thesis
      using assms(1) False Cons by (auto simp: gap_def bend_def)
  qed
qed simp

text \<open>Where a block goes when it is freed.\<close>

definition release_blk :: "blk \<Rightarrow> blk list \<Rightarrow> blk list \<Rightarrow> blk list" where
  "release_blk x ls rs = (if ls = [] then join x rs else butlast ls @ join (last ls) (join x rs))"

lemma units_release: "sum_list (map snd (release_blk x ls rs)) = snd x + sum_list (map snd (ls @ rs))"
  by (cases ls rule: rev_cases) (auto simp: release_blk_def units_join)

lemma release_shape:
  assumes sh: "heap_shape b0 e (ls @ rs) (l1 @ x # l2)" and ls: "\<forall>y\<in>set ls. before y x" and rs: "\<forall>y\<in>set rs. before x y"
  shows "heap_shape b0 e (release_blk x ls rs) (l1 @ l2)"
proof -
  have ok: "block_ok b0 e x" "\<forall>y\<in>set rs. block_ok b0 e y" "\<forall>y\<in>set ls. block_ok b0 e y" "\<forall>y\<in>set (l1 @ l2). block_ok b0 e y"
    using sh by (auto simp: heap_shape_def)
  have pos: "0 < snd x" "\<forall>y\<in>set rs. 0 < snd y" "\<forall>y\<in>set ls. 0 < snd y" "\<forall>y\<in>set (l1 @ l2). 0 < snd y"
    using ok by (auto simp: block_ok_def)
  have sx: "sep l x" if "l \<in> set (l1 @ l2)" for l
    using sh that sep_sym [of l x] by (auto simp: heap_shape_def sorted_wrt_append)
  have sy: "sep l y" if "l \<in> set (l1 @ l2)" "y \<in> set (ls @ rs)" for l y
    using sh that by (auto simp: heap_shape_def)
  have live: "sorted_wrt sep (l1 @ l2)"
    using sh by (auto simp: heap_shape_def sorted_wrt_append)
  have g: "sorted_wrt gap (join x rs)"
    using sh rs pos by (intro join_gap) (auto simp: heap_shape_def sorted_wrt_append)
  have jok: "\<forall>y\<in>set (join x rs). block_ok b0 e y"
    using join_ok [OF ok(1,2)] by blast
  then have jpos: "\<forall>y\<in>set (join x rs). 0 < snd y"
    by (simp add: block_ok_def)
  have js: "sep l y" if "l \<in> set (l1 @ l2)" "y \<in> set (join x rs)" for l y
    using join_sep [OF sx [OF that(1)] _ pos(2) _ pos(1) that(2)] sy that(1) pos(4) by auto
  show ?thesis
  proof (cases ls rule: rev_cases)
    case Nil
    then show ?thesis
      using g jok js live ok(4) by (auto simp: heap_shape_def release_blk_def)
  next
    case (snoc ls' t)
    have t: "before t x" "block_ok b0 e t" "0 < snd t" "\<forall>y\<in>set ls'. gap y t"
      using ls ok(3) pos(3) sh snoc by (auto simp: heap_shape_def sorted_wrt_append)
    have tb: "\<forall>y\<in>set (join x rs). before t y"
      using join_before [OF t(1) rs] by blast
    have "sorted_wrt gap (join t (join x rs))"
      by (rule join_gap [OF g]) (use tb jpos t(3) in auto)
    moreover have "gap y z" if "y \<in> set ls'" "z \<in> set (join t (join x rs))" for y z
      using t(4) that(1) join_fst [OF tb that(2)] by (auto simp: gap_def)
    moreover have "block_ok b0 e y" if "y \<in> set (join t (join x rs))" for y
      using join_ok [OF t(2) jok that] .
    moreover have "sep l y" if "l \<in> set (l1 @ l2)" "y \<in> set (join t (join x rs))" for l y
      using join_sep [OF _ _ jpos _ t(3) that(2), of l] js that(1) sy [OF that(1), of t] pos(4) snoc by auto
    moreover have "sorted_wrt gap ls'"
      using sh snoc by (auto simp: heap_shape_def sorted_wrt_append)
    ultimately show ?thesis
      using sy live ok(3,4) snoc by (auto simp: heap_shape_def release_blk_def sorted_wrt_append)
  qed
qed

subsection \<open>Finding the place of a block\<close>

lemma scan_stop:
  assumes "chain s [u] z" "fst u < a" "a \<le> heap_max" "z \<le> heap_max" "a < z \<or> z \<le> fst u"
  shows "free_scan s (of_nat a) (of_nat (fst u)) = Some (of_nat (fst u))"
proof -
  have "fst u \<le> heap_max"
    using assms(2,3) by simp
  then show ?thesis
    using assms by (subst free_scan.simps) (auto simp: of_nat_heap)
qed

lemma scan_go:
  assumes "chain s [u] z" "fst u \<le> heap_max" "a \<le> heap_max" "z \<le> heap_max"
    "fst u < z \<and> (z \<le> a \<or> a \<le> fst u) \<or> z \<le> a \<and> a \<le> fst u"
  shows "free_scan s (of_nat a) (of_nat (fst u)) = free_scan s (of_nat a) (of_nat z)"
  using assms by (subst free_scan.simps) (auto simp: of_nat_heap)

lemma scan_below:
  assumes "chain s us z" "us \<noteq> []" "sorted_wrt before us" "\<forall>u\<in>set us. fst u < a" "a \<le> heap_max" "z \<le> heap_max"
    "a < z \<or> z \<le> fst (last us)"
  shows "free_scan s (of_nat a) (of_nat (fst (hd us))) = Some (of_nat (fst (last us)))"
  using assms
proof (induction us)
  case (Cons u us)
  show ?case
  proof (cases us)
    case Nil
    then show ?thesis
      using scan_stop [of s u z a] Cons.prems by simp
  next
    case (Cons v vs)
    have "fst u < fst v" "fst v < a"
      using Cons.prems(3,4) Cons bend_ge [of u] by (auto simp: before_def)
    then have "free_scan s (of_nat a) (of_nat (fst u)) = free_scan s (of_nat a) (of_nat (fst v))"
      using Cons.prems(1,5) Cons by (intro scan_go) auto
    then show ?thesis
      using Cons.IH Cons.prems Cons by simp
  qed
qed simp

lemma scan_above:
  assumes "chain s us z" "sorted_wrt before us" "\<forall>u\<in>set us. a < fst u \<and> fst u \<le> heap_max" "z \<le> a"
  shows "free_scan s (of_nat a) (of_nat (haddr us z)) = free_scan s (of_nat a) (of_nat z)"
  using assms
proof (induction us)
  case (Cons u us)
  have "fst u < haddr us z \<or> haddr us z = z"
    using Cons.prems(2) bend_ge [of u] by (cases us) (auto simp: before_def)
  moreover have "haddr us z \<le> heap_max"
    using Cons.prems(3,4) by (cases us) auto
  ultimately have "free_scan s (of_nat a) (of_nat (fst u)) = free_scan s (of_nat a) (of_nat (haddr us z))"
    using Cons.prems by (intro scan_go) auto
  then show ?case
    using Cons.IH Cons.prems by simp
qed simp

lemma scan_ring:
  assumes ch: "chain s (us @ vs) z" and us: "us \<noteq> []" "haddr us 0 = z" and so: "sorted_wrt before (us @ vs)"
    and a: "\<forall>u\<in>set us. fst u < a" "\<forall>v\<in>set vs. a < fst v \<and> fst v \<le> heap_max" "a \<le> heap_max" and q: "q \<in> set (us @ vs)"
  shows "free_scan s (of_nat a) (of_nat (fst q)) = Some (of_nat (fst (last us)))"
proof -
  have z: "z = fst (hd us)" "z < a"
    using us a(1) by (cases us; auto)+
  have zl: "z \<le> fst (last us)"
    using so us z(1) bend_ge [of "hd us"] by (cases us) (auto simp: sorted_wrt_append before_def intro: less_imp_le dest!: bspec [of _ _ "last us"])
  have nz: "a < haddr vs z \<or> haddr vs z \<le> fst (last us)" "haddr vs z \<le> heap_max"
    using a(2,3) z(2) zl by (cases vs; auto)+
  have below: "free_scan s (of_nat a) (of_nat (fst (hd ws))) = Some (of_nat (fst (last us)))" if "us = xs @ ws" "ws \<noteq> []" for xs ws
    using scan_below [of s ws "haddr vs z" a] ch so a nz that by (auto simp: sorted_wrt_append)
  show ?thesis
  proof (cases "q \<in> set us")
    case True
    then obtain xs ws where "us = xs @ q # ws"
      by (meson split_list)
    then show ?thesis
      using below [of xs "q # ws"] by simp
  next
    case False
    then obtain xs ws where vs: "vs = xs @ q # ws"
      using q by (auto dest: split_list)
    have "free_scan s (of_nat a) (of_nat (haddr (q # ws) z)) = free_scan s (of_nat a) (of_nat z)"
      using ch so a z(2) vs by (intro scan_above) (auto simp: sorted_wrt_append)
    then show ?thesis
      using below [of "[]" us] us(1) z(1) by simp
  qed
qed

subsection \<open>Freeing\<close>

definition heap_ok :: "'a useg_scheme \<Rightarrow> blk list \<Rightarrow> blk list \<Rightarrow> bool" where
  "heap_ok s fs live \<longleftrightarrow>
     (let b0 = unat (base_hdr s); e = unat (ubrk s) in
      0 < b0 \<and> b0 + 16 \<le> e \<and> e \<le> heap_max \<and> heap_shape b0 e fs live \<and>
      (\<forall>x\<in>set live. hsize s (of_nat (fst x)) = of_nat (snd x)) \<and>
      (if freep s = 0 then fs = [] \<and> live = []
       else chain s ((b0, 0) # fs) b0 \<and> (\<exists>x\<in>set ((b0, 0) # fs). freep s = of_nat (fst x))))"

text \<open>The memory of a block, and that nothing outside the blocks \<open>bs\<close> has changed.\<close>

definition region :: "blk \<Rightarrow> uint64 set" where
  "region x = run_at (of_nat (fst x)) (bend x - fst x)"

definition changes_only :: "blk list \<Rightarrow> 'a useg_scheme \<Rightarrow> 'a useg_scheme \<Rightarrow> bool" where
  "changes_only bs s s' \<longleftrightarrow> (\<forall>y. (\<forall>b\<in>set bs. y \<notin> region b) \<longrightarrow> umem s' y = umem s y)"

lemma header_region: "run_at (of_nat (fst x)) 16 \<subseteq> region x"
  by (auto simp: region_def run_at_def bend_def)

lemma split_at:
  assumes "sorted_wrt gap fs" "\<forall>y\<in>set fs. sep x y"
  obtains ls rs where "fs = ls @ rs" "\<forall>y\<in>set ls. before y x" "\<forall>y\<in>set rs. before x y"
  using assms
proof (induction fs arbitrary: thesis)
  case (Cons y fs)
  show ?case
  proof (cases "before y x")
    case True
    obtain ls rs where "fs = ls @ rs" "\<forall>y\<in>set ls. before y x" "\<forall>y\<in>set rs. before x y"
      using Cons.IH Cons.prems(2,3) by auto
    then show ?thesis
      using Cons.prems(1) [of "y # ls" rs] True by auto
  next
    case False
    then have "before x y"
      using Cons.prems(3) by (auto simp: sep_def)
    moreover have "before x z" if "z \<in> set fs" for z
      using Cons.prems(2) that \<open>before x y\<close> bend_ge [of y] by (auto simp: before_def gap_def)
    ultimately show ?thesis
      using Cons.prems(1) [of "[]" "y # fs"] by auto
  qed
qed simp

lemma gap_before: "sorted_wrt gap fs \<Longrightarrow> sorted_wrt before fs"
  by (rule sorted_wrt_mono_rel) (auto simp: gap_def before_def)

lemma ufree_eq:
  assumes "free_scan s (ap - 16) (freep s) = Some p" "apart16 (ap - 16) p"
  shows "ufree ap s = Some ((link p (ap - 16) (link (ap - 16) (hptr s p) s))\<lparr>freep := p\<rparr>)"
  using assms by (simp add: ufree_def link_def Let_def header_apart)

lemma link_live:
  assumes "sep x y" "bend x \<le> heap_max" "bend y \<le> heap_max"
  shows "hsize (link (of_nat (fst x)) nx s) (of_nat (fst y)) = hsize s (of_nat (fst y))"
  using sep_apart [OF assms] by (simp add: link_apart)

text \<open>The two links that \<^verbatim>\<open>free\<close> makes put the block in its place.\<close>

lemma links_chain:
  assumes ch: "chain s (ps @ t # rs) z" and tx: "before t x" and rs: "\<forall>y\<in>set rs. before x y \<and> bend y \<le> heap_max"
    and x: "hsize s (of_nat (fst x)) = of_nat (snd x)" "0 < snd x" "bend x \<le> heap_max" and z: "z < fst x"
    and ps: "\<forall>y\<in>set ps. before y t"
  shows "chain (link (of_nat (fst t)) (of_nat (fst x)) (link (of_nat (fst x)) (of_nat (haddr rs z)) s)) (ps @ join t (join x rs)) z"
proof -
  let ?s1 = "link (of_nat (fst x)) (of_nat (haddr rs z)) s"
  have big: "bend t \<le> heap_max" "\<forall>y\<in>set ps. bend y \<le> heap_max"
    using tx ps bend_ge [of x] bend_ge [of t] x(3) by (auto simp: before_def)
  have sx: "snd x < 2 ^ 32" "snd t < 2 ^ 32" "fst x + 16 * snd x \<le> heap_max" "fst t + 16 * snd t \<le> heap_max"
    using x(3) big(1) z tx bend_ge [of t] by (auto simp: bend_def before_def heap_max_def)
  have c1: "chain ?s1 (join x rs) z"
    using ch x rs z sx by (intro link_chain) (auto simp: bend_def)
  have keep: "chain ?s1 (ps @ [t]) w \<longleftrightarrow> chain s (ps @ [t]) w" for w
  proof (rule chain_cong)
    fix y
    assume "y \<in> set (ps @ [t])"
    then have "sep x y" "bend y \<le> heap_max"
      using ps tx big by (auto simp: sep_def intro: before_trans)
    then show "hptr ?s1 (of_nat (fst y)) = hptr s (of_nat (fst y)) \<and> hsize ?s1 (of_nat (fst y)) = hsize s (of_nat (fst y))"
      using sep_apart x(3) by (simp add: link_apart)
  qed
  have t1: "hsize ?s1 (of_nat (fst t)) = of_nat (snd t)"
    using keep ch by auto
  have tj: "before t y \<and> bend y \<le> heap_max" if "y \<in> set (join x rs)" for y
    using that join_before [OF tx, of rs y] rs x
    by (auto elim!: join_in simp: bend_pos) (auto simp: bend_def)
  have "chain (link (of_nat (fst t)) (of_nat (haddr (join x rs) z)) ?s1) (join t (join x rs)) z"
  proof (rule link_chain [OF c1 t1 sx(2,4) tj])
    show "fst t + 16 * snd t \<noteq> z" if "join x rs = []"
      using that by (cases rs) (auto split: if_splits)
    show "z \<le> heap_max"
      using z x(3) bend_ge [of x] by linarith
  qed
  moreover have "chain (link (of_nat (fst t)) nx ?s1) ps w \<longleftrightarrow> chain ?s1 ps w" for nx w
    using ps big by (intro chain_cong) (auto simp: link_apart sep_apart sep_def)
  moreover have "chain ?s1 ps (fst t)"
    using keep [of "haddr rs z"] ch by simp
  ultimately show ?thesis
    by simp
qed

lemma shape_block:
  assumes "heap_shape b0 e fs live" "x \<in> set fs \<union> set live"
  shows "b0 + 16 \<le> fst x" "0 < snd x" "bend x \<le> e"
  using assms by (auto simp: heap_shape_def block_ok_def)

lemma heap_okI:
  assumes "unat (base_hdr s) = b0" "unat (ubrk s) = e" "0 < b0" "b0 + 16 \<le> e" "e \<le> heap_max" "heap_shape b0 e fs live"
    "\<forall>x\<in>set live. hsize s (of_nat (fst x)) = of_nat (snd x)" "chain s ((b0, 0) # fs) b0"
    "x \<in> set ((b0, 0) # fs)" "freep s = of_nat (fst x)"
  shows "heap_ok s fs live \<and> freep s \<noteq> 0"
proof -
  have x: "0 < fst x" "fst x \<le> heap_max"
    using assms(3-5,9) shape_block [OF assms(6), of x] bend_ge [of x] by auto
  then have "freep s \<noteq> 0"
    using of_nat_heap(1) [of "fst x" 0] assms(10) by simp
  then show ?thesis
    using assms unfolding heap_ok_def by (auto simp: Let_def)
qed

lemma heap_okD:
  assumes "heap_ok s fs live" "freep s \<noteq> 0"
  obtains b0 e q where "unat (base_hdr s) = b0" "unat (ubrk s) = e" "0 < b0" "b0 + 16 \<le> e" "e \<le> heap_max" "heap_shape b0 e fs live"
    "\<forall>x\<in>set live. hsize s (of_nat (fst x)) = of_nat (snd x)" "chain s ((b0, 0) # fs) b0"
    "q \<in> set ((b0, 0) # fs)" "freep s = of_nat (fst q)"
proof -
  obtain q where "q \<in> set ((unat (base_hdr s), 0) # fs)" "freep s = of_nat (fst q)"
    using assms unfolding heap_ok_def Let_def by (auto simp del: set_simps)
  then show thesis
    using assms unfolding heap_ok_def Let_def by (intro that [OF refl refl, of q]) auto
qed

lemma nodes_before:
  assumes "heap_shape b0 e fs live"
  shows "sorted_wrt before ((b0, 0) # fs)" "\<And>x. x \<in> set fs \<union> set live \<Longrightarrow> before (b0, 0) x"
  using assms gap_before [of fs] by (auto simp: heap_shape_def block_ok_def before_def bend_def)

lemma release_nodes:
  assumes "b0 < fst x"
  shows "butlast ((b0, 0) # ls) @ join (last ((b0, 0) # ls)) (join x rs) = (b0, 0) # release_blk x ls rs"
proof (cases ls rule: rev_cases)
  case Nil
  have "join (b0, 0) (join x rs) = (b0, 0) # join x rs"
    using assms by (cases rs) auto
  then show ?thesis
    using Nil by (simp add: release_blk_def)
qed (simp add: release_blk_def)

lemma join_head: "\<exists>y\<in>set (join x ys). fst y = fst x"
  by (cases ys) auto

lemma join_size: "j \<in> set (x # ys) \<Longrightarrow> \<exists>y\<in>set (join x ys). snd j \<le> snd y"
  by (cases ys) auto

lemma release_size: "\<exists>y\<in>set (release_blk x ls rs). snd x \<le> snd y"
proof -
  obtain j where "j \<in> set (join x rs)" "snd x \<le> snd j"
    using join_size [of x x rs] by auto
  then show ?thesis
    using join_size [of j "last ls" "join x rs"] unfolding release_blk_def by (auto intro: order_trans)
qed

lemma ufree_ok:
  assumes ok: "heap_ok s fs (l1 @ x # l2)"
  shows "\<exists>s' fs'. ufree (of_nat (fst x) + 16) s = Some s' \<and> heap_ok s' fs' (l1 @ l2) \<and> freep s' \<noteq> 0 \<and>
    ubrk s' = ubrk s \<and> base_hdr s' = base_hdr s \<and> sum_list (map snd fs') = snd x + sum_list (map snd fs) \<and>
    changes_only ((unat (base_hdr s), 0) # x # fs) s s' \<and> (\<exists>y\<in>set fs'. snd x \<le> snd y)"
proof -
  have "freep s \<noteq> 0"
    using ok by (auto simp: heap_ok_def Let_def split: if_splits)
  from heap_okD [OF ok this] obtain b0 e q where h: "unat (base_hdr s) = b0" "unat (ubrk s) = e" "0 < b0" "b0 + 16 \<le> e" "e \<le> heap_max"
    "heap_shape b0 e fs (l1 @ x # l2)" "\<forall>x\<in>set (l1 @ x # l2). hsize s (of_nat (fst x)) = of_nat (snd x)"
    "chain s ((b0, 0) # fs) b0" "q \<in> set ((b0, 0) # fs)" "freep s = of_nat (fst q)" .
  have fs: "sorted_wrt gap fs" "\<forall>y\<in>set fs. sep x y"
    using h(6) by (auto simp: heap_shape_def)
  obtain ls rs where sp: "fs = ls @ rs" "\<forall>y\<in>set ls. before y x" "\<forall>y\<in>set rs. before x y"
    using fs by (rule split_at)
  define ps t where pt: "ps = butlast ((b0, 0) # ls)" "t = last ((b0, 0) # ls)"
  have nodes: "(b0, 0) # ls = ps @ [t]"
    by (simp only: pt) (metis append_butlast_last_id list.distinct(1))
  have so: "sorted_wrt before ((ps @ [t]) @ rs)"
    using nodes_before(1) [OF h(6)] sp(1) nodes by (metis append_Cons)
  have le: "bend y \<le> heap_max" if "y \<in> set fs \<union> set (l1 @ x # l2)" for y
    using shape_block(3) [OF h(6) that] h(5) by linarith
  have x: "hsize s (of_nat (fst x)) = of_nat (snd x)" "0 < snd x" "bend x \<le> heap_max" "b0 < fst x" "before (b0, 0) x"
    using h(7) le shape_block [OF h(6), of x] nodes_before(2) [OF h(6), of x] by auto
  have px: "\<forall>y\<in>set (ps @ [t]). before y x"
    using sp(2) x(5) nodes by (metis set_ConsD)
  have scan: "free_scan s (of_nat (fst x)) (freep s) = Some (of_nat (fst t))"
    unfolding h(10)
  proof (rule scan_ring [where us = "ps @ [t]" and vs = rs and z = b0, simplified last_snoc])
    show "chain s ((ps @ [t]) @ rs) b0"
      using h(8) sp(1) nodes by (metis append_Cons)
    show "haddr (ps @ [t]) 0 = b0"
      unfolding nodes [symmetric] by simp
    show "\<forall>u\<in>set (ps @ [t]). fst u < fst x"
      using px before_less by blast
    show "\<forall>v\<in>set rs. fst x < fst v \<and> fst v \<le> heap_max"
    proof
      fix v
      assume "v \<in> set rs"
      then show "fst x < fst v \<and> fst v \<le> heap_max"
        using sp(1,3) le [of v] bend_ge [of v] by (auto intro: before_less)
    qed
    show "fst x \<le> heap_max"
      using x(3) bend_ge [of x] by linarith
    show "q \<in> set ((ps @ [t]) @ rs)"
      using h(9) sp(1) nodes by (metis append_Cons)
  qed (use so in simp_all)
  let ?bp = "of_nat (fst x) :: uint64" and ?p = "of_nat (fst t) :: uint64"
  define s' where "s' = (link ?p ?bp (link ?bp (of_nat (haddr rs b0)) s))\<lparr>freep := ?p\<rparr>"
  have bt: "before t x" "bend t \<le> heap_max"
    using px x(3) bend_ge [of x] by (auto simp: before_def)
  have ap: "apart16 ?bp ?p"
    using bt x(3) by (intro sep_apart) (auto simp: sep_def)
  have hp: "hptr s ?p = of_nat (haddr rs b0)"
  proof -
    have "chain s ((ps @ [t]) @ rs) b0"
      using h(8) sp(1) nodes by (metis append_Cons)
    then show ?thesis
      by simp
  qed
  have e: "ufree (?bp + 16) s = Some s'"
    using ufree_eq [of s "?bp + 16" ?p] scan ap hp by (simp add: s'_def)
  have fs': "ps @ join t (join x rs) = (b0, 0) # release_blk x ls rs"
    unfolding pt using x(4) by (rule release_nodes)
  have tn: "t \<in> set ((b0, 0) # fs)"
    using nodes sp(1) by (metis UnCI append_Cons in_set_conv_decomp set_append)
  have "chain (link ?p ?bp (link ?bp (of_nat (haddr rs b0)) s)) (ps @ join t (join x rs)) b0"
  proof (rule links_chain [OF _ bt(1) _ x(1-4)])
    show "chain s (ps @ t # rs) b0"
      using h(8) sp(1) nodes by (metis append_Cons append_assoc append_Nil)
  qed (use so sp le in \<open>auto simp: sorted_wrt_append\<close>)
  then have ch: "chain s' ((b0, 0) # release_blk x ls rs) b0"
    unfolding fs' s'_def by (subst chain_cong) simp_all
  have liv: "hsize s' (of_nat (fst l)) = of_nat (snd l)" if l: "l \<in> set (l1 @ l2)" for l
  proof -
    have "sep l x \<or> sep x l" "t = (b0, 0) \<or> sep l t" "before (b0, 0) l"
      using h(6) l tn nodes_before(2) [OF h(6), of l] by (auto simp: heap_shape_def sorted_wrt_append)
    then have "sep x l" "sep t l"
      by (auto simp: sep_def)
    then show ?thesis
      using h(7) l le x(3) bt(2) by (auto simp: s'_def link_live)
  qed
  have "changes_only ((b0, 0) # x # fs) s s'"
    unfolding changes_only_def
  proof (intro allI impI)
    fix y
    assume "\<forall>b\<in>set ((b0, 0) # x # fs). y \<notin> region b"
    then have "y \<notin> region x" "y \<notin> region t"
      using tn by auto
    then show "umem s' y = umem s y"
      using header_region [of x] header_region [of t] by (simp add: s'_def link_frame subset_eq) (metis link_frame)
  qed
  moreover obtain q' where q': "q' \<in> set ((b0, 0) # release_blk x ls rs)" "fst q' = fst t"
    using join_head [of t "join x rs"] unfolding fs' [symmetric] by auto
  moreover have "heap_ok s' (release_blk x ls rs) (l1 @ l2) \<and> freep s' \<noteq> 0"
  proof (rule heap_okI [OF _ _ h(3-5) _ _ ch q'(1)], goal_cases)
    case 3
    show ?case
      using release_shape h(6) sp by blast
  qed (use h(1,2) liv q'(2) in \<open>auto simp: s'_def\<close>)
  ultimately show ?thesis
    using e h(1) sp(1) units_release [of x ls rs] release_size [of x ls rs]
    by (intro exI [of _ s'] exI [of _ "release_blk x ls rs"]) (simp add: s'_def)
qed

subsection \<open>Taking a block from the list\<close>

lemma units_less: "heap_shape b0 e fs live \<Longrightarrow> e \<le> heap_max \<Longrightarrow> x \<in> set ((b0, 0) # fs) \<Longrightarrow> snd x < 2 ^ 32"
  using shape_block [of b0 e fs live x] by (auto simp: heap_max_def bend_def)

lemma carve_all:
  assumes ch: "chain s (ps @ pv # x # qs) z" and u: "snd x < 2 ^ 32"
    and so: "sorted_wrt before (ps @ pv # x # qs)" "\<forall>y\<in>set (ps @ pv # x # qs). bend y \<le> heap_max"
  shows "\<exists>s'. carve (of_nat (snd x)) (of_nat (fst pv)) (of_nat (fst x)) s = (of_nat (fst x) + 16, s') \<and> chain s' (ps @ pv # qs) z \<and>
    s' = (set_hptr (of_nat (fst pv)) (of_nat (haddr qs z)) s)\<lparr>freep := of_nat (fst pv)\<rparr>"
proof -
  let ?t = "set_hptr (of_nat (fst pv)) (of_nat (haddr qs z)) s"
  have "apart16 (of_nat (fst pv)) (of_nat (fst y))" if "y \<in> set (ps @ qs)" for y
    using so that by (intro sep_apart) (auto simp: sorted_wrt_append sep_def)
  then have "chain ?t ps w \<longleftrightarrow> chain s ps w" "chain ?t qs w \<longleftrightarrow> chain s qs w" for w
    by (intro chain_cong; simp add: header_apart)+
  then have "chain ?t (ps @ pv # qs) z"
    using ch by simp
  moreover have "chain (?t\<lparr>freep := of_nat (fst pv)\<rparr>) (ps @ pv # qs) z \<longleftrightarrow> chain ?t (ps @ pv # qs) z"
    by (rule chain_cong) simp
  ultimately show ?thesis
    using ch by (auto simp: carve_def)
qed

lemma carve_tail:
  assumes ch: "chain s (ps @ x # qs) z" and u: "snd x < 2 ^ 32" "0 < nu" "nu < snd x"
    and so: "sorted_wrt before (ps @ x # qs)" "\<forall>y\<in>set (ps @ x # qs). bend y \<le> heap_max"
  defines "k \<equiv> snd x - nu" defines "a \<equiv> fst x + 16 * k"
  shows "\<exists>s'. carve (of_nat nu) pv (of_nat (fst x)) s = (of_nat a + 16, s') \<and> chain s' (ps @ (fst x, k) # qs) z \<and>
    s' = (set_hsize (of_nat a) (of_nat nu) (set_hsize (of_nat (fst x)) (of_nat k) s))\<lparr>freep := pv\<rparr>"
proof -
  let ?t = "set_hsize (of_nat (fst x)) (of_nat k) s"
  let ?t' = "set_hsize (of_nat a) (of_nat nu) ?t"
  have k: "0 < k" "k < 2 ^ 32" "k + nu = snd x"
    using u by (auto simp: k_def)
  have x: "hsize s (of_nat (fst x)) = of_nat (snd x)"
    using ch by simp
  have ne: "(of_nat (snd x) :: uint32) \<noteq> of_nat nu"
    using unat_units [OF u(1)] unat_units [of nu] u by (metis less_trans less_irrefl)
  have "(of_nat (snd x) :: uint32) - of_nat nu = of_nat k"
    using u by (simp add: k_def)
  then have e: "carve (of_nat nu) pv (of_nat (fst x)) s = (of_nat a + 16, ?t'\<lparr>freep := pv\<rparr>)"
    using ne x k(2) by (simp add: carve_def Let_def hplus_nat a_def)
  have ax: "fst x + 16 \<le> a" "a + 16 \<le> bend x" "bend x \<le> heap_max"
    using k u so(2) by (auto simp: a_def bend_def)
  have apx: "apart16 (of_nat a) (of_nat (fst x))"
    using ax by (intro apart16_nat) (auto simp: heap_max_def)
  have apy: "apart16 (of_nat (fst x)) (of_nat (fst y)) \<and> apart16 (of_nat a) (of_nat (fst y))" if "y \<in> set (ps @ qs)" for y
  proof -
    have "bend y \<le> fst x \<or> bend x \<le> fst y" "bend y \<le> heap_max"
      using so that by (auto simp: sorted_wrt_append before_def)
    then show ?thesis
      using ax bend_ge [of y] by (intro conjI apart16_nat) (auto simp: heap_max_def)
  qed
  then have "chain ?t' ps w \<longleftrightarrow> chain s ps w" "chain ?t' qs w \<longleftrightarrow> chain s qs w" for w
    by (intro chain_cong; simp add: header_apart)+
  then have "chain ?t' (ps @ (fst x, k) # qs) z"
    using ch apx by (simp add: header_apart)
  moreover have "chain (?t'\<lparr>freep := pv\<rparr>) (ps @ (fst x, k) # qs) z \<longleftrightarrow> chain ?t' (ps @ (fst x, k) # qs) z"
    by (rule chain_cong) simp
  ultimately show ?thesis
    using e by blast
qed

lemma shape_take:
  assumes "heap_shape b0 e (ps @ x # qs) live"
  shows "heap_shape b0 e (ps @ qs) (x # live)"
    "0 < nu \<Longrightarrow> nu < snd x \<Longrightarrow> heap_shape b0 e (ps @ (fst x, snd x - nu) # qs) ((fst x + 16 * (snd x - nu), nu) # live)"
proof -
  have fs: "\<forall>y\<in>set ps. gap y x" "\<forall>y\<in>set qs. gap x y" "sorted_wrt gap (ps @ qs)" "sorted_wrt gap ps" "sorted_wrt gap qs"
      "\<forall>y\<in>set ps. \<forall>z\<in>set qs. gap y z"
    and live: "\<forall>l\<in>set live. \<forall>y\<in>set (ps @ qs). sep l y" "\<forall>l\<in>set live. sep l x" "sorted_wrt sep live"
    and ok: "block_ok b0 e x" "\<forall>y\<in>set (ps @ qs) \<union> set live. block_ok b0 e y"
    using assms by (auto simp: heap_shape_def sorted_wrt_append)
  have gs: "\<forall>y\<in>set (ps @ qs). sep x y" "\<forall>l\<in>set live. sep x l"
    using fs(1,2) live(2) by (auto simp: gap_def sep_def before_def)
  show "heap_shape b0 e (ps @ qs) (x # live)"
    using fs(3) live gs ok by (auto simp: heap_shape_def)
  assume nu: "0 < nu" "nu < snd x"
  let ?y = "(fst x, snd x - nu)" and ?l = "(fst x + 16 * (snd x - nu), nu)"
  have b: "bend ?y = fst x + 16 * (snd x - nu)" "bend ?l = bend x" "bend ?y \<le> bend x" "fst x \<le> fst ?l"
    using nu by (auto simp: bend_def)
  have "sep ?l ?y"
    using b by (auto simp: sep_def before_def)
  moreover have "sep z ?y \<and> sep ?l z" if "sep x z" for z
    using that b by (auto simp: sep_def before_def)
  ultimately show "heap_shape b0 e (ps @ ?y # qs) (?l # live)"
    using fs live gs ok b nu by (auto simp: heap_shape_def sorted_wrt_append gap_def block_ok_def)
qed

lemma in_region: "bend x \<le> heap_max \<Longrightarrow> y \<in> region x \<longleftrightarrow> fst x \<le> unat y \<and> unat y < bend x"
  using bend_ge [of x] by (simp add: region_def run_at_nat heap_max_def)

lemma changes_keep:
  assumes "changes_only bs s s'" "\<And>b. b \<in> set bs \<Longrightarrow> sep b x \<and> bend b \<le> heap_max" "bend x \<le> heap_max"
  shows "y \<in> region x \<Longrightarrow> umem s' y = umem s y" "hsize s' (of_nat (fst x)) = hsize s (of_nat (fst x))"
proof -
  have k: "umem s' y = umem s y" if "y \<in> region x" for y
  proof -
    have "y \<notin> region b" if "b \<in> set bs" for b
      using assms(2) [OF that] assms(3) \<open>y \<in> region x\<close> by (auto simp: in_region sep_def before_def)
    then show ?thesis
      using assms(1) by (simp add: changes_only_def)
  qed
  then show "y \<in> region x \<Longrightarrow> umem s' y = umem s y" .
  show "hsize s' (of_nat (fst x)) = hsize s (of_nat (fst x))"
    unfolding hsize_def using k header_region [of x] run_at_header(2) [of "of_nat (fst x)"]
    by (intro arg_cong [where f = le_word] load_bytes_cong) auto
qed

lemma changes_header:
  assumes "b \<in> set bs" "run_at p 16 \<subseteq> region b" "changes_only bs s t"
  shows "changes_only bs s (set_hptr p v t)" "changes_only bs s (set_hsize p w t)" "changes_only bs s (t\<lparr>freep := q\<rparr>)"
proof -
  have "y \<notin> run_at p 16" if "\<forall>b\<in>set bs. y \<notin> region b" for y
    using that assms(1,2) by blast
  then show "changes_only bs s (set_hptr p v t)" "changes_only bs s (set_hsize p w t)" "changes_only bs s (t\<lparr>freep := q\<rparr>)"
    using assms(3) by (simp_all add: changes_only_def header_frame)
qed

lemma changes_refl [simp]: "changes_only bs s s"
  by (simp add: changes_only_def)

lemma node_facts:
  assumes "heap_shape b0 e fs live" "b0 + 16 \<le> e" "e \<le> heap_max"
  shows "\<And>y. y \<in> set ((b0, 0) # fs) \<Longrightarrow> bend y \<le> heap_max" "\<And>y. y \<in> set live \<Longrightarrow> bend y \<le> heap_max"
    "\<And>y l. y \<in> set ((b0, 0) # fs) \<Longrightarrow> l \<in> set live \<Longrightarrow> sep y l"
proof -
  have "bend (b0, 0) = b0 + 16"
    by (simp add: bend_def)
  then show "bend y \<le> heap_max" if "y \<in> set ((b0, 0) # fs)" for y
    using shape_block(3) [OF assms(1), of y] assms(2,3) that by auto
  show "bend y \<le> heap_max" if "y \<in> set live" for y
    using shape_block(3) [OF assms(1), of y] assms(3) that by auto
  show "sep y l" if "y \<in> set ((b0, 0) # fs)" "l \<in> set live" for y l
    using assms(1) that nodes_before(2) [OF assms(1), of l] sep_sym [of y l] by (auto simp: heap_shape_def) (auto simp: sep_def)
qed

lemma carve_ok:
  assumes ok: "heap_ok s fs live" "freep s \<noteq> 0" and nodes: "(unat (base_hdr s), 0) # fs = ps @ pv # x # qs" and nu: "0 < nu" "nu \<le> snd x"
  shows "\<exists>a s' fs'. carve (of_nat nu) (of_nat (fst pv)) (of_nat (fst x)) s = (of_nat a + 16, s') \<and> a \<noteq> 0 \<and>
    heap_ok s' fs' ((a, nu) # live) \<and> nu + sum_list (map snd fs') = sum_list (map snd fs) \<and> ubrk s' = ubrk s \<and> base_hdr s' = base_hdr s \<and>
    changes_only ((unat (base_hdr s), 0) # fs) s s'"
proof -
  from heap_okD [OF ok] obtain b0 e q where h: "unat (base_hdr s) = b0" "unat (ubrk s) = e" "0 < b0" "b0 + 16 \<le> e" "e \<le> heap_max"
    "heap_shape b0 e fs live" "\<forall>x\<in>set live. hsize s (of_nat (fst x)) = of_nat (snd x)"
    "chain s ((b0, 0) # fs) b0" .
  note nf = node_facts [OF h(6,4,5)]
  have nodes': "(b0, 0) # fs = ps @ pv # x # qs"
    using nodes h(1) by simp
  define ps' where "ps' = tl (ps @ [pv])"
  have fs: "fs = ps' @ x # qs" "ps @ [pv] = (b0, 0) # ps'"
    using nodes' unfolding ps'_def by (cases ps; simp)+
  have x: "x \<in> set fs" "snd x < 2 ^ 32" "0 < fst x"
    using fs(1) units_less [OF h(6,5), of x] shape_block(1) [OF h(6), of x] h(3) by auto
  have so: "sorted_wrt before (ps @ pv # x # qs)" "\<forall>y\<in>set (ps @ pv # x # qs). bend y \<le> heap_max"
    using nodes_before(1) [OF h(6)] nf(1) unfolding nodes' by blast+
  have ch: "chain s (ps @ pv # x # qs) b0"
    using h(8) unfolding nodes' .
  have sh: "heap_shape b0 e (ps' @ x # qs) live"
    using h(6) fs(1) by simp
  have pv: "pv \<in> set ((b0, 0) # ps')"
    unfolding fs(2) [symmetric] by simp
  have fin: ?thesis if "carve (of_nat nu) (of_nat (fst pv)) (of_nat (fst x)) s = (of_nat a + 16, s')" "chain s' ((b0, 0) # fs') b0"
      "heap_shape b0 e fs' ((a, nu) # live)" "freep s' = of_nat (fst pv)" "pv' \<in> set ((b0, 0) # fs')" "fst pv' = fst pv"
      "hsize s' (of_nat a) = of_nat nu" "nu + sum_list (map snd fs') = sum_list (map snd fs)" "ubrk s' = ubrk s" "base_hdr s' = base_hdr s"
      "changes_only ((b0, 0) # fs) s s'" for a s' fs' pv'
  proof -
    have "hsize s' (of_nat (fst l)) = of_nat (snd l)" if "l \<in> set live" for l
      using changes_keep(2) [OF \<open>changes_only ((b0, 0) # fs) s s'\<close>, of l] nf that h(7) by simp
    then have "heap_ok s' fs' ((a, nu) # live) \<and> freep s' \<noteq> 0"
      using heap_okI [of s' b0 e fs' "(a, nu) # live" pv'] that h(1-5) by simp
    moreover have "a \<noteq> 0"
      using shape_block(1) [OF that(3), of "(a, nu)"] by simp
    ultimately show ?thesis
      using that h(1) by blast
  qed
  show ?thesis
  proof (cases "snd x = nu")
    case True
    obtain s' where s': "carve (of_nat nu) (of_nat (fst pv)) (of_nat (fst x)) s = (of_nat (fst x) + 16, s')" "chain s' (ps @ pv # qs) b0"
      "s' = (set_hptr (of_nat (fst pv)) (of_nat (haddr qs b0)) s)\<lparr>freep := of_nat (fst pv)\<rparr>"
      using carve_all [OF ch x(2) so] True by auto
    have ap: "apart16 (of_nat (fst pv)) (of_nat (fst x))"
      using so by (intro sep_apart) (auto simp: sorted_wrt_append sep_def)
    have "pv \<in> set ((b0, 0) # fs)"
      using pv fs(1) by auto
    then have "changes_only ((b0, 0) # fs) s s'"
      unfolding s'(3) using header_region [of pv] by (intro changes_header [where b = pv] changes_refl)
    moreover have "chain s' ((b0, 0) # ps' @ qs) b0"
      using s'(2) fs(2) by (metis append_Cons append_Nil append_assoc)
    moreover have "heap_shape b0 e (ps' @ qs) ((fst x, nu) # live)"
      using shape_take(1) [OF sh] True by auto
    moreover have "pv \<in> set ((b0, 0) # ps' @ qs)"
      using pv by auto
    moreover have "hsize s' (of_nat (fst x)) = of_nat nu"
      using ch ap True by (simp add: s'(3) header_apart)
    ultimately show ?thesis
      using True by (intro fin [OF s'(1), of "ps' @ qs" pv]) (simp_all add: s'(3) fs(1))
  next
    case False
    then have lt: "nu < snd x"
      using nu by simp
    let ?k = "snd x - nu" and ?a = "fst x + 16 * (snd x - nu)"
    have ch2: "chain s ((ps @ [pv]) @ x # qs) b0" and so2: "sorted_wrt before ((ps @ [pv]) @ x # qs)" "\<forall>y\<in>set ((ps @ [pv]) @ x # qs). bend y \<le> heap_max"
      using ch so by simp_all
    obtain s' where s': "carve (of_nat nu) (of_nat (fst pv)) (of_nat (fst x)) s = (of_nat ?a + 16, s')" "chain s' ((ps @ [pv]) @ (fst x, ?k) # qs) b0"
      "s' = (set_hsize (of_nat ?a) (of_nat nu) (set_hsize (of_nat (fst x)) (of_nat ?k) s))\<lparr>freep := of_nat (fst pv)\<rparr>"
      using carve_tail [OF ch2 x(2) nu(1) lt so2] by blast
    have "run_at (of_nat ?a) 16 \<subseteq> region x"
    proof
      fix y
      have a: "?a + 16 \<le> bend x" "bend x \<le> heap_max"
        using lt nu nf(1) [of x] x(1) by (auto simp: bend_def)
      assume "y \<in> run_at (of_nat ?a) 16"
      then show "y \<in> region x"
        using a by (subst (asm) run_at_nat) (auto simp: in_region heap_max_def)
    qed
    then have "changes_only ((b0, 0) # fs) s s'"
      unfolding s'(3) using header_region [of x] x(1) by (intro changes_header [where b = x] changes_refl) auto
    moreover have "chain s' ((b0, 0) # ps' @ (fst x, ?k) # qs) b0"
      using s'(2) fs(2) by (metis append_Cons)
    moreover have "pv \<in> set ((b0, 0) # ps' @ (fst x, ?k) # qs)"
      using pv by auto
    ultimately show ?thesis
      using shape_take(2) [OF sh nu(1) lt] lt
      by (intro fin [OF s'(1), of "ps' @ (fst x, ?k) # qs" pv]) (simp_all add: s'(3) fs(1))
  qed
qed

subsection \<open>Searching the list\<close>

lemma malloc_scan:
  assumes "chain s (w # ws) z" "ws \<noteq> []" "\<forall>x\<in>set ws. snd x < 2 ^ 32 \<and> fst x \<le> heap_max" "nu < 2 ^ 32"
    "freep s = of_nat (fst (last ws))" "\<forall>x\<in>set (butlast ws). fst x \<noteq> fst (last ws)"
  obtains xs pv y ys where "w # ws = xs @ pv # y # ys" "nu \<le> snd y"
      "malloc_loop sbrk (of_nat nu) (of_nat (fst w)) (of_nat (fst (hd ws))) s = Some (carve (of_nat nu) (of_nat (fst pv)) (of_nat (fst y)) s)"
    | "\<forall>x\<in>set ws. snd x < nu"
      "malloc_loop sbrk (of_nat nu) (of_nat (fst w)) (of_nat (fst (hd ws))) s =
         (case morecore sbrk (of_nat nu) s of None \<Rightarrow> None
          | Some (p, s) \<Rightarrow> if p = 0 then Some (0, s) else malloc_loop sbrk (of_nat nu) p (hptr s p) s)"
  using assms
proof (induction ws arbitrary: w thesis)
  case (Cons v vs)
  have v: "hsize s (of_nat (fst v)) = of_nat (snd v)" "hptr s (of_nat (fst v)) = of_nat (haddr vs z)" "snd v < 2 ^ 32"
    using Cons.prems(3,5) by auto
  have le: "(of_nat nu :: uint32) \<le> of_nat (snd v) \<longleftrightarrow> nu \<le> snd v"
    using v(3) Cons.prems(6) by (simp add: word_le_nat_alt unat_units)
  show ?case
  proof (cases "nu \<le> snd v")
    case True
    show ?thesis
      by (rule Cons.prems(1) [of "[]" w v vs]) (use True le v in \<open>simp_all add: malloc_loop.simps [of _ _ _ "of_nat (fst v)"]\<close>)
  next
    case False
    show ?thesis
    proof (cases vs)
      case Nil
      show ?thesis
        by (rule Cons.prems(2)) (use Nil False le v Cons.prems(7) in \<open>simp_all add: malloc_loop.simps [of _ _ _ "of_nat (fst v)"]\<close>)
    next
      case (Cons u us)
      have "(of_nat (fst v) :: uint64) \<noteq> of_nat (fst (last vs))"
        using Cons.prems(5,8) Cons by (subst of_nat_heap(1)) auto
      then have st: "malloc_loop sbrk (of_nat nu) (of_nat (fst w)) (of_nat (fst v)) s =
          malloc_loop sbrk (of_nat nu) (of_nat (fst v)) (of_nat (fst (hd vs))) s"
        using False le v Cons.prems(7) Cons by (subst malloc_loop.simps) simp
      show ?thesis
      proof (rule Cons.IH [of v])
        fix xs pv y ys
        assume y: "v # vs = xs @ pv # y # ys" "nu \<le> snd y"
          "malloc_loop sbrk (of_nat nu) (of_nat (fst v)) (of_nat (fst (hd vs))) s = Some (carve (of_nat nu) (of_nat (fst pv)) (of_nat (fst y)) s)"
        have "w # v # vs = (w # xs) @ pv # y # ys"
          using y(1) by simp
        then show thesis
          using Cons.prems(1) y(2,3) unfolding list.sel st by blast
      next
        assume "\<forall>x\<in>set vs. snd x < nu"
          "malloc_loop sbrk (of_nat nu) (of_nat (fst v)) (of_nat (fst (hd vs))) s =
         (case morecore sbrk (of_nat nu) s of None \<Rightarrow> None
          | Some (p, s) \<Rightarrow> if p = 0 then Some (0, s) else malloc_loop sbrk (of_nat nu) p (hptr s p) s)"
        then show thesis
          using Cons.prems(2) st False by simp
      qed (use Cons.prems Cons in auto)
    qed
  qed
qed simp

lemma split_pair:
  "A @ B = xs @ a # b # ys \<Longrightarrow> (\<exists>zs. A = xs @ a # b # zs) \<or> (\<exists>zs. B = zs @ a # b # ys) \<or> B \<noteq> [] \<and> b = hd B"
proof (induction xs arbitrary: A)
  case Nil
  then show ?case
    by (cases A; cases "tl A") auto
next
  case (Cons x xs)
  then show ?case
    by (cases A) auto
qed

text \<open>The search visits every block once, from the one after \<^verbatim>\<open>freep\<close> to \<^verbatim>\<open>freep\<close> itself.\<close>

lemma malloc_search:
  assumes ok: "heap_ok s fs live" "freep s \<noteq> 0" and nu: "0 < nu" "nu < 2 ^ 32"
  obtains ps pv x qs where "(unat (base_hdr s), 0) # fs = ps @ pv # x # qs" "nu \<le> snd x"
      "malloc_loop sbrk (of_nat nu) (freep s) (hptr s (freep s)) s = Some (carve (of_nat nu) (of_nat (fst pv)) (of_nat (fst x)) s)"
    | "\<forall>x\<in>set fs. snd x < nu"
      "malloc_loop sbrk (of_nat nu) (freep s) (hptr s (freep s)) s =
         (case morecore sbrk (of_nat nu) s of None \<Rightarrow> None
          | Some (p, s) \<Rightarrow> if p = 0 then Some (0, s) else malloc_loop sbrk (of_nat nu) p (hptr s p) s)"
proof -
  from heap_okD [OF ok] obtain b0 e q where h: "unat (base_hdr s) = b0" "unat (ubrk s) = e" "0 < b0" "b0 + 16 \<le> e" "e \<le> heap_max"
    "heap_shape b0 e fs live" "chain s ((b0, 0) # fs) b0" "q \<in> set ((b0, 0) # fs)" "freep s = of_nat (fst q)" .
  obtain us vs where n: "(b0, 0) # fs = us @ q # vs"
    using h(8) by (meson split_list)
  let ?ws = "vs @ us @ [q]"
  have so: "sorted_wrt before (us @ q # vs)"
    using nodes_before(1) [OF h(6)] unfolding n .
  have b0: "haddr (us @ [q]) b0 = b0" "hd (us @ [q]) = (b0, 0)"
    using n by (cases us; auto)+
  have ch: "chain s (q # ?ws) (haddr vs b0)"
    using h(7) b0(1) unfolding n by simp
  have bd: "\<forall>x\<in>set ?ws. snd x < 2 ^ 32 \<and> fst x \<le> heap_max"
  proof
    fix x
    assume "x \<in> set ?ws"
    then have "x \<in> set ((b0, 0) # fs)"
      unfolding n by auto
    then show "snd x < 2 ^ 32 \<and> fst x \<le> heap_max"
      using units_less [OF h(6,5)] node_facts(1) [OF h(6,4,5)] bend_ge [of x] by (meson add_leD1 order_trans)
  qed
  have "fst x \<noteq> fst q" if "x \<in> set (vs @ us)" for x
    using so that before_less [of x q] before_less [of q x] by (auto simp: sorted_wrt_append)
  then have other: "\<forall>x\<in>set (butlast ?ws). fst x \<noteq> fst (last ?ws)"
    by (simp add: butlast_append)
  have hd: "hptr s (freep s) = of_nat (fst (hd ?ws))"
    using ch h(9) by (cases vs; cases us) auto
  show thesis
  proof (rule malloc_scan [OF ch _ bd nu(2) _ other])
    fix xs pv y ys
    assume y: "q # ?ws = xs @ pv # y # ys" "nu \<le> snd y"
      "malloc_loop sbrk (of_nat nu) (of_nat (fst q)) (of_nat (fst (hd ?ws))) s = Some (carve (of_nat nu) (of_nat (fst pv)) (of_nat (fst y)) s)"
    have "(q # vs) @ (us @ [q]) = xs @ pv # y # ys" "y \<noteq> (b0, 0)"
      using y(1,2) nu(1) by auto
    from split_pair [OF this(1)] this(2) b0(2)
    obtain zs where "q # vs = xs @ pv # y # zs \<or> us @ [q] = zs @ pv # y # ys"
      by auto
    then have "\<exists>ps qs. us @ q # vs = ps @ pv # y # qs"
    proof
      assume "q # vs = xs @ pv # y # zs"
      then have "us @ q # vs = (us @ xs) @ pv # y # zs"
        by simp
      then show ?thesis
        by blast
    next
      assume "us @ [q] = zs @ pv # y # ys"
      then have "us @ q # vs = zs @ pv # y # (ys @ vs)"
        by (metis append_Cons append_Nil append_assoc)
      then show ?thesis
        by blast
    qed
    then obtain ps qs where "(unat (base_hdr s), 0) # fs = ps @ pv # y # qs"
      using n h(1) by auto
    then show thesis
      by (rule that(1) [OF _ y(2)]) (use y(3) h(9) hd in simp)
  next
    assume "\<forall>x\<in>set ?ws. snd x < nu"
      "malloc_loop sbrk (of_nat nu) (of_nat (fst q)) (of_nat (fst (hd ?ws))) s =
         (case morecore sbrk (of_nat nu) s of None \<Rightarrow> None
          | Some (p, s) \<Rightarrow> if p = 0 then Some (0, s) else malloc_loop sbrk (of_nat nu) p (hptr s p) s)"
    moreover have "x \<in> set ?ws" if "x \<in> set fs" for x
    proof -
      have "x \<in> set ((b0, 0) # fs)"
        using that by simp
      then show ?thesis
        unfolding n by auto
    qed
    ultimately have "\<forall>x\<in>set fs. snd x < nu" "malloc_loop sbrk (of_nat nu) (freep s) (hptr s (freep s)) s =
         (case morecore sbrk (of_nat nu) s of None \<Rightarrow> None
          | Some (p, s) \<Rightarrow> if p = 0 then Some (0, s) else malloc_loop sbrk (of_nat nu) p (hptr s p) s)"
      unfolding hd unfolding h(9) by blast+
    then show thesis
      by (rule that(2))
  qed (use h(9) in auto)
qed

subsection \<open>Asking the kernel for memory\<close>

text \<open>
  What the allocator relies on: \<^verbatim>\<open>sbrk\<close> fails and changes nothing, or it returns the old end of the memory and moves
  the end, changing only the memory in between. Memory ends far below \<open>heap_max\<close>: the machine has 128 megabytes.
\<close>

definition sbrk_ok :: "'a sbrk_call \<Rightarrow> bool" where
  "sbrk_ok sbrk \<longleftrightarrow>
     (\<forall>n s. 0 \<le> n \<longrightarrow> sbrk n s = (-1, s) \<or>
        (\<exists>s'. sbrk n s = (ubrk s, s') \<and> unat (ubrk s') = unat (ubrk s) + nat n \<and> unat (ubrk s') \<le> heap_max \<and>
           base_hdr s' = base_hdr s \<and> freep s' = freep s \<and>
           (\<forall>y. \<not> (unat (ubrk s) \<le> unat y \<and> unat y < unat (ubrk s')) \<longrightarrow> umem s' y = umem s y)))"

lemma header_below:
  assumes "\<forall>y. unat y < e \<longrightarrow> umem s' y = umem s y" "a + 16 \<le> e" "e \<le> heap_max"
  shows "hptr s' (of_nat a) = hptr s (of_nat a)" "hsize s' (of_nat a) = hsize s (of_nat a)"
proof -
  have k: "umem s' y = umem s y" if "y \<in> run_at (of_nat a) 16" for y
    using assms that by (subst (asm) run_at_nat) (auto simp: heap_max_def)
  show "hptr s' (of_nat a) = hptr s (of_nat a)"
    unfolding hptr_def using k run_at_header(1) [of "of_nat a"] by (intro load64_cong) auto
  show "hsize s' (of_nat a) = hsize s (of_nat a)"
    unfolding hsize_def using k run_at_header(2) [of "of_nat a"] by (intro arg_cong [where f = le_word] load_bytes_cong) auto
qed

lemma shape_grow:
  assumes "heap_shape b0 e fs live" "b0 + 16 \<le> e" "0 < nu"
  shows "heap_shape b0 (e + 16 * nu) fs ((e, nu) # live)"
proof -
  have "sep (e, nu) y" if "y \<in> set fs \<union> set live" for y
    using shape_block(3) [OF assms(1) that] by (simp add: sep_def before_def)
  moreover have "block_ok b0 (e + 16 * nu) y" if "y \<in> set fs \<union> set live" for y
    using shape_block [OF assms(1) that] by (simp add: block_ok_def)
  moreover have "block_ok b0 (e + 16 * nu) (e, nu)"
    using assms(2,3) by (simp add: block_ok_def bend_def)
  ultimately show ?thesis
    using assms(1) by (auto simp: heap_shape_def)
qed

text \<open>New memory, made a block of the program's with its header.\<close>

lemma grow_ok:
  assumes ok: "heap_ok s fs live" "freep s \<noteq> 0" and nu: "0 < nu"
    and s1: "unat (ubrk s1) = unat (ubrk s) + 16 * nu" "unat (ubrk s1) \<le> heap_max" "base_hdr s1 = base_hdr s" "freep s1 = freep s"
      "\<forall>y. unat y < unat (ubrk s) \<longrightarrow> umem s1 y = umem s y"
  shows "heap_ok (set_hsize (ubrk s) (of_nat nu) s1) fs ((unat (ubrk s), nu) # live)"
proof -
  from heap_okD [OF ok] obtain b0 e q where h: "unat (base_hdr s) = b0" "unat (ubrk s) = e" "0 < b0" "b0 + 16 \<le> e" "e \<le> heap_max"
    "heap_shape b0 e fs live" "\<forall>x\<in>set live. hsize s (of_nat (fst x)) = of_nat (snd x)"
    "chain s ((b0, 0) # fs) b0" "q \<in> set ((b0, 0) # fs)" "freep s = of_nat (fst q)" .
  let ?t = "set_hsize (ubrk s) (of_nat nu) s1"
  have ub: "ubrk s = of_nat e"
    using h(2) by auto
  have le: "bend x \<le> e" if "x \<in> set ((b0, 0) # fs) \<union> set live" for x
    using that shape_block(3) [OF h(6), of x] h(4) by (auto simp: bend_def)
  have keep: "hptr ?t (of_nat (fst x)) = hptr s (of_nat (fst x)) \<and> hsize ?t (of_nat (fst x)) = hsize s (of_nat (fst x))"
    if "x \<in> set ((b0, 0) # fs) \<union> set live" for x
  proof -
    have x: "fst x + 16 \<le> e"
      using le [OF that] bend_ge [of x] by linarith
    moreover have "apart16 (of_nat e) (of_nat (fst x))"
      using x s1(1,2) h(2) nu by (intro apart16_nat) (auto simp: heap_max_def)
    ultimately show ?thesis
      using header_below [of e s1 s "fst x"] s1(5) h(2,5) by (simp add: ub header_apart)
  qed
  have "chain ?t ((b0, 0) # fs) b0 \<longleftrightarrow> chain s ((b0, 0) # fs) b0"
    using keep by (intro chain_cong) auto
  then have "heap_ok ?t fs ((e, nu) # live) \<and> freep ?t \<noteq> 0"
    using h(1-4,7-10) s1(1-4) keep shape_grow [OF h(6,4) nu] nu
    by (intro heap_okI [of ?t b0 "e + 16 * nu" fs _ q]) (auto simp: ub)
  then show ?thesis
    using h(2) by simp
qed

lemma morecore_ok:
  assumes sb: "sbrk_ok sbrk" and ok: "heap_ok s fs live" "freep s \<noteq> 0" and nu: "0 < nu" "16 * nu < 2 ^ 31"
  obtains "morecore sbrk (of_nat nu) s = Some (0, s)"
    | s' fs' where "morecore sbrk (of_nat nu) s = Some (freep s', s')" "freep s' \<noteq> 0" "heap_ok s' fs' live"
      "\<exists>y\<in>set fs'. nu \<le> snd y" "sum_list (map snd fs') = max 4096 nu + sum_list (map snd fs)"
      "unat (ubrk s') = unat (ubrk s) + 16 * max 4096 nu" "base_hdr s' = base_hdr s"
      "changes_only ((unat (base_hdr s), 0) # (unat (ubrk s), max 4096 nu) # fs) s s'"
proof -
  let ?n = "max 4096 nu"
  have n: "unat (of_nat nu :: uint32) = nu" "(if (of_nat nu :: uint32) < 4096 then 4096 else of_nat nu) = (of_nat ?n :: uint32)"
    using nu unat_units [of nu] by (auto simp: word_less_nat_alt max_def)
  have a: "sint (ucast (ucast (of_nat ?n :: uint32) * 16 :: uint64) :: uint32) = int (16 * ?n)"
  proof -
    have "(ucast (of_nat ?n :: uint32) :: uint64) = of_nat ?n"
      using nu(2) by (simp add: unsigned_of_nat take_bit_eq_mod)
    moreover have "(ucast (of_nat (?n * 16) :: uint64) :: uint32) = of_nat (?n * 16)"
      using nu(2) by (simp add: unsigned_of_nat take_bit_eq_mod del: of_nat_mult)
    moreover have "sint (of_nat (?n * 16) :: uint32) = int (?n * 16)"
      using nu(2) by (simp add: signed_of_nat signed_take_bit_int_eq_self del: of_nat_mult)
    ultimately show ?thesis
      by (simp add: mult.commute)
  qed
  have m: "morecore sbrk (of_nat nu) s = (case sbrk (int (16 * ?n)) s of (p, s) \<Rightarrow>
      if p = -1 then Some (0, s)
      else case ufree (p + 16) (set_hsize p (of_nat ?n) s) of None \<Rightarrow> None | Some s \<Rightarrow> Some (freep s, s))"
    unfolding morecore_def Let_def n(2) a ..
  consider "sbrk (int (16 * ?n)) s = (-1, s)"
    | s1 where "sbrk (int (16 * ?n)) s = (ubrk s, s1)" "unat (ubrk s1) = unat (ubrk s) + 16 * ?n" "unat (ubrk s1) \<le> heap_max"
      "base_hdr s1 = base_hdr s" "freep s1 = freep s"
      "\<forall>y. \<not> (unat (ubrk s) \<le> unat y \<and> unat y < unat (ubrk s1)) \<longrightarrow> umem s1 y = umem s y"
    using sb [unfolded sbrk_ok_def, rule_format, of "int (16 * ?n)" s] by auto
  then show thesis
  proof cases
    case 1
    then show thesis
      using that(1) m by simp
  next
    case (2 s1)
    let ?t = "set_hsize (ubrk s) (of_nat ?n) s1"
    have g: "heap_ok ?t fs ([] @ (unat (ubrk s), ?n) # live)"
      using grow_ok [OF ok _ 2(2-5)] 2(6) by simp
    obtain s' fs' where f: "ufree (of_nat (unat (ubrk s)) + 16) ?t = Some s'" "heap_ok s' fs' ([] @ live)" "freep s' \<noteq> 0" "ubrk s' = ubrk ?t"
      "base_hdr s' = base_hdr ?t" "sum_list (map snd fs') = ?n + sum_list (map snd fs)"
      "changes_only ((unat (base_hdr ?t), 0) # (unat (ubrk s), ?n) # fs) ?t s'" "\<exists>y\<in>set fs'. ?n \<le> snd y"
      using ufree_ok [OF g] by auto
    have "(ubrk s :: uint64) \<noteq> -1"
    proof
      assume "ubrk s = -1"
      then have "unat (ubrk s) = 2 ^ 64 - 1"
        by (simp add: unsigned_minus_1_eq_mask mask_eq_exp_minus_1)
      then show False
        using 2(2,3) by (simp add: heap_max_def)
    qed
    then have "morecore sbrk (of_nat nu) s = Some (freep s', s')"
      using m 2(1) f(1) by simp
    moreover have "changes_only ((unat (base_hdr s), 0) # (unat (ubrk s), ?n) # fs) s s'"
      unfolding changes_only_def
    proof (intro allI impI)
      fix y
      assume y: "\<forall>b\<in>set ((unat (base_hdr s), 0) # (unat (ubrk s), ?n) # fs). y \<notin> region b"
      have "bend (unat (ubrk s), ?n) = unat (ubrk s1)"
        using 2(2) by (simp add: bend_def)
      then have "umem s1 y = umem s y" "y \<notin> run_at (ubrk s) 16"
        using y 2(3,6) header_region [of "(unat (ubrk s), ?n)"] in_region [of "(unat (ubrk s), ?n)" y] by auto
      then show "umem s' y = umem s y"
        using y f(7) 2(4) by (simp add: changes_only_def header_frame)
    qed
    ultimately show thesis
      using that(2) [of s' fs'] f 2(2,4) by (auto intro: order_trans)
  qed
qed

subsection \<open>malloc and free\<close>

definition units :: "uint32 \<Rightarrow> nat" where
  "units nbytes = (unat nbytes + 15) div 16 + 1"

lemma nunits_eq: "(ucast ((ucast nbytes + 16 - 1) div 16 + 1 :: uint64) :: uint32) = of_nat (units nbytes)" "units nbytes < 2 ^ 32"
proof -
  have u: "unat nbytes < 2 ^ 32"
    using unsigned_less [where 'a = nat, of nbytes] by simp
  then show l: "units nbytes < 2 ^ 32"
    by (simp add: units_def)
  have "(ucast nbytes + 16 - 1 :: uint64) = of_nat (unat nbytes + 15)"
    by (simp add: algebra_simps)
  moreover have "unat (of_nat (unat nbytes + 15) :: uint64) = unat nbytes + 15"
    using u by (intro unat_of_nat64) simp
  ultimately have w: "unat (ucast nbytes + 16 - 1 :: uint64) = unat nbytes + 15"
    by (simp only:)
  have "unat ((ucast nbytes + 16 - 1) div 16 :: uint64) = (unat nbytes + 15) div 16"
    unfolding unat_div w by simp
  then have "unat ((ucast nbytes + 16 - 1) div 16 + 1 :: uint64) = units nbytes"
    using u unfolding units_def unat_word_ariths(1) by simp
  then have "((ucast nbytes + 16 - 1) div 16 + 1 :: uint64) = of_nat (units nbytes)"
    by (rule unat_eq_of_nat64)
  then show "(ucast ((ucast nbytes + 16 - 1) div 16 + 1 :: uint64) :: uint32) = of_nat (units nbytes)"
    using l by (simp add: unsigned_of_nat take_bit_eq_mod)
qed

definition keeps_live :: "blk list \<Rightarrow> 'a useg_scheme \<Rightarrow> 'a useg_scheme \<Rightarrow> bool" where
  "keeps_live live s s' \<longleftrightarrow> (\<forall>x\<in>set live. \<forall>y\<in>region x. umem s' y = umem s y)"

lemma keeps_live_trans: "keeps_live live s s1 \<Longrightarrow> keeps_live live s1 s2 \<Longrightarrow> keeps_live live s s2"
  by (simp add: keeps_live_def)

lemma changes_keeps_live:
  assumes "changes_only bs s s'" "\<And>b x. b \<in> set bs \<Longrightarrow> x \<in> set live \<Longrightarrow> sep b x \<and> bend b \<le> heap_max \<and> bend x \<le> heap_max"
  shows "bs \<noteq> [] \<Longrightarrow> keeps_live live s s'"
  unfolding keeps_live_def
proof (intro ballI)
  fix x y
  assume ne: "bs \<noteq> []" and x: "x \<in> set live" "y \<in> region x"
  have "bend x \<le> heap_max"
    using assms(2) [of "hd bs" x] ne x(1) by simp
  then show "umem s' y = umem s y"
    using assms(2) x by (intro changes_keep(1) [OF assms(1)]) auto
qed

lemma regions_apart: "sep x y \<Longrightarrow> bend x \<le> heap_max \<Longrightarrow> bend y \<le> heap_max \<Longrightarrow> region x \<inter> region y = {}"
  by (auto simp: in_region sep_def before_def)

text \<open>A new block \<open>p\<close> of \<open>nu\<close> units, apart from the others.\<close>

definition handed_out :: "uint64 \<Rightarrow> nat \<Rightarrow> 'a useg_scheme \<Rightarrow> blk list \<Rightarrow> blk list \<Rightarrow> bool" where
  "handed_out p nu s' fs' live \<longleftrightarrow>
     (\<exists>a. p = of_nat a + 16 \<and> p \<noteq> 0 \<and> heap_ok s' fs' ((a, nu) # live) \<and> (\<forall>x\<in>set live. region x \<inter> region (a, nu) = {}))"

lemma carve_found:
  assumes ok: "heap_ok s fs live" "freep s \<noteq> 0" and nodes: "(unat (base_hdr s), 0) # fs = ps @ pv # x # qs" and nu: "0 < nu" "nu \<le> snd x"
  shows "\<exists>p s' fs'. carve (of_nat nu) (of_nat (fst pv)) (of_nat (fst x)) s = (p, s') \<and> handed_out p nu s' fs' live \<and>
    nu + sum_list (map snd fs') = sum_list (map snd fs) \<and> ubrk s' = ubrk s \<and> base_hdr s' = base_hdr s \<and> keeps_live live s s'"
proof -
  obtain a s' fs' where c: "carve (of_nat nu) (of_nat (fst pv)) (of_nat (fst x)) s = (of_nat a + 16, s')" "heap_ok s' fs' ((a, nu) # live)"
    "nu + sum_list (map snd fs') = sum_list (map snd fs)" "ubrk s' = ubrk s" "base_hdr s' = base_hdr s"
    "changes_only ((unat (base_hdr s), 0) # fs) s s'"
    using carve_ok [OF ok nodes nu] by blast
  from heap_okD [OF ok] obtain b0 e where h: "unat (base_hdr s) = b0" "b0 + 16 \<le> e" "e \<le> heap_max" "heap_shape b0 e fs live" .
  have k: "keeps_live live s s'"
    using node_facts [OF h(4,2,3)] c(6) h(1) by (intro changes_keeps_live) auto
  have sh: "heap_shape (unat (base_hdr s')) (unat (ubrk s')) fs' ((a, nu) # live)" "unat (ubrk s') \<le> heap_max"
    using c(2) by (simp_all add: heap_ok_def Let_def)
  have bl: "bend y \<le> heap_max" if "y \<in> set ((a, nu) # live)" for y
    using shape_block(3) [OF sh(1), of y] sh(2) that by auto
  have "region y \<inter> region (a, nu) = {}" if "y \<in> set live" for y
  proof -
    have "sep (a, nu) y"
      using sh(1) that by (auto simp: heap_shape_def)
    then show ?thesis
      using regions_apart [of "(a, nu)" y] bl that by auto
  qed
  moreover have "of_nat a + 16 \<noteq> (0 :: uint64)"
  proof -
    have "a + 16 \<le> heap_max"
      using bl [of "(a, nu)"] bend_ge [of "(a, nu)"] by simp
    then show ?thesis
      using of_nat_heap(1) [of "a + 16" 0] by simp
  qed
  ultimately have "handed_out (of_nat a + 16) nu s' fs' live"
    using c(2) unfolding handed_out_def by blast
  then show ?thesis
    using c k by blast
qed

lemma malloc_loop_ok:
  assumes sb: "sbrk_ok sbrk" and ok: "heap_ok s fs live" "freep s \<noteq> 0" and nu: "0 < nu" "16 * nu < 2 ^ 31"
  shows "\<exists>p s' fs'. malloc_loop sbrk (of_nat nu) (freep s) (hptr s (freep s)) s = Some (p, s') \<and> base_hdr s' = base_hdr s \<and>
    keeps_live live s s' \<and>
    (p = 0 \<and> (\<forall>x\<in>set fs. snd x < nu) \<and> s' = s \<or>
     handed_out p nu s' fs' live \<and> unat (ubrk s) \<le> unat (ubrk s') \<and>
       16 * (nu + sum_list (map snd fs')) = 16 * sum_list (map snd fs) + (unat (ubrk s') - unat (ubrk s)))"
proof -
  have nu2: "nu < 2 ^ 32"
    using nu(2) by simp
  show ?thesis
  proof (rule malloc_search [OF ok nu(1) nu2, of sbrk])
    fix ps pv x qs
    assume hit: "(unat (base_hdr s), 0) # fs = ps @ pv # x # qs" "nu \<le> snd x"
      "malloc_loop sbrk (of_nat nu) (freep s) (hptr s (freep s)) s = Some (carve (of_nat nu) (of_nat (fst pv)) (of_nat (fst x)) s)"
    then show ?thesis
      using carve_found [OF ok hit(1) nu(1) hit(2)] by fastforce
  next
    assume miss: "\<forall>x\<in>set fs. snd x < nu"
      "malloc_loop sbrk (of_nat nu) (freep s) (hptr s (freep s)) s =
         (case morecore sbrk (of_nat nu) s of None \<Rightarrow> None
          | Some (p, s) \<Rightarrow> if p = 0 then Some (0, s) else malloc_loop sbrk (of_nat nu) p (hptr s p) s)"
    show ?thesis
      using sb ok nu
    proof (cases rule: morecore_ok)
      case 1
      then show ?thesis
        using miss by (intro exI [of _ 0] exI [of _ s]) (simp add: keeps_live_def)
    next
      case (2 s1 fs1)
      note m = this
      from heap_okD [OF ok] obtain b0 e where h: "unat (base_hdr s) = b0" "unat (ubrk s) = e" "b0 + 16 \<le> e" "e \<le> heap_max" "heap_shape b0 e fs live" .
      have "keeps_live live s s1"
      proof (rule changes_keeps_live [OF 2(8)])
        fix b x
        assume b: "b \<in> set ((unat (base_hdr s), 0) # (unat (ubrk s), max 4096 nu) # fs)" and x: "x \<in> set live"
        have "sep (e, max 4096 nu) x"
          using shape_block(3) [OF h(5), of x] x by (auto simp: sep_def before_def)
        moreover have "e + 16 * max 4096 nu \<le> heap_max"
          using 2(3,6) h(2) by (simp add: heap_ok_def Let_def)
        ultimately have "sep b x \<and> bend b \<le> heap_max" if "b = (e, max 4096 nu)"
          using that by (simp add: bend_def)
        moreover have "b = (e, max 4096 nu) \<or> b \<in> set ((b0, 0) # fs)"
          using b h(1,2) by auto
        ultimately show "sep b x \<and> bend b \<le> heap_max \<and> bend x \<le> heap_max"
          using x node_facts [OF h(5,3,4)] by blast
      qed simp
      have e1: "malloc_loop sbrk (of_nat nu) (freep s) (hptr s (freep s)) s = malloc_loop sbrk (of_nat nu) (freep s1) (hptr s1 (freep s1)) s1"
        using miss(2) 2(1,2) by simp
      show ?thesis
      proof (rule malloc_search [OF 2(3,2) nu(1) nu2, of sbrk])
        fix ps pv x qs
        assume hit: "(unat (base_hdr s1), 0) # fs1 = ps @ pv # x # qs" "nu \<le> snd x"
          "malloc_loop sbrk (of_nat nu) (freep s1) (hptr s1 (freep s1)) s1 = Some (carve (of_nat nu) (of_nat (fst pv)) (of_nat (fst x)) s1)"
        obtain p s' fs' where c: "carve (of_nat nu) (of_nat (fst pv)) (of_nat (fst x)) s1 = (p, s')" "handed_out p nu s' fs' live"
          "nu + sum_list (map snd fs') = sum_list (map snd fs1)" "ubrk s' = ubrk s1" "base_hdr s' = base_hdr s1" "keeps_live live s1 s'"
          using carve_found [OF 2(3,2) hit(1) nu(1) hit(2)] by blast
        show ?thesis
          using c e1 hit(3) 2(5-7) keeps_live_trans [OF \<open>keeps_live live s s1\<close> c(6)]
          by (intro exI [of _ p] exI [of _ s'] exI [of _ fs']) simp
      next
        assume "\<forall>x\<in>set fs1. snd x < nu"
        then show ?thesis
          using 2(4) by auto
      qed
    qed
  qed
qed

text \<open>The first call makes \<^verbatim>\<open>base\<close> the only block of the list.\<close>

definition start_heap :: "'a useg_scheme \<Rightarrow> 'a useg_scheme" where
  "start_heap s =
     (if freep s = 0 then set_hsize (base_hdr s) 0 ((set_hptr (base_hdr s) (base_hdr s) s)\<lparr>freep := base_hdr s\<rparr>) else s)"

lemma start_heap:
  assumes "heap_ok s fs live"
  shows "heap_ok (start_heap s) fs live \<and> freep (start_heap s) \<noteq> 0" "keeps_live live s (start_heap s)"
    "ubrk (start_heap s) = ubrk s" "base_hdr (start_heap s) = base_hdr s"
proof -
  let ?b = "base_hdr s"
  show "heap_ok (start_heap s) fs live \<and> freep (start_heap s) \<noteq> 0"
  proof (cases "freep s = 0")
    case True
    then have h: "fs = []" "live = []" "0 < unat ?b" "unat ?b + 16 \<le> unat (ubrk s)" "unat (ubrk s) \<le> heap_max"
      using assms by (simp_all add: heap_ok_def Let_def)
    show ?thesis
      by (rule heap_okI [of _ "unat ?b" "unat (ubrk s)" _ _ "(unat ?b, 0)"])
        (use h True in \<open>simp_all add: start_heap_def heap_shape_def\<close>)
  qed (use assms in \<open>simp add: start_heap_def\<close>)
  show "keeps_live live s (start_heap s)"
    using assms by (auto simp: keeps_live_def start_heap_def heap_ok_def Let_def)
  show "ubrk (start_heap s) = ubrk s" "base_hdr (start_heap s) = base_hdr s"
    by (simp_all add: start_heap_def)
qed

text \<open>
  C12: \<^verbatim>\<open>malloc\<close> of fewer than two gigabytes returns, whatever the blocks of the list and wherever \<^verbatim>\<open>freep\<close> points, and keeps the heap
  in order: all blocks apart, no two free blocks touching, the list linked in the order of the addresses.
  Either it returns a new block with room for \<open>nbytes\<close> bytes that overlaps no block in use; then no memory
  is lost: free blocks and new block together are what was free and what the kernel added. Or it returns
  0, when no free block is large enough and the kernel gives no more memory, and the heap is as before. The
  contents of the blocks in use never change.
\<close>

theorem malloc_correct:
  assumes "sbrk_ok sbrk" "heap_ok s fs live" "unat nbytes < 2 ^ 31 - 32"
  shows "\<exists>p s' fs'. malloc sbrk nbytes s = Some (p, s') \<and> keeps_live live s s' \<and> unat nbytes \<le> 16 * (units nbytes - 1) \<and>
    (p = 0 \<and> (\<forall>x\<in>set fs. snd x < units nbytes) \<and> heap_ok s' fs live \<and> ubrk s' = ubrk s \<or>
     handed_out p (units nbytes) s' fs' live \<and>
       16 * (units nbytes + sum_list (map snd fs')) = 16 * sum_list (map snd fs) + (unat (ubrk s') - unat (ubrk s)))"
proof -
  let ?s = "start_heap s"
  note st = start_heap [OF assms(2)]
  have nu: "0 < units nbytes" "16 * units nbytes < 2 ^ 31" "unat nbytes \<le> 16 * (units nbytes - 1)"
    using assms(3) by (auto simp: units_def)
  have e: "malloc sbrk nbytes s = malloc_loop sbrk (of_nat (units nbytes)) (freep ?s) (hptr ?s (freep ?s)) ?s"
    unfolding malloc_def start_heap_def [symmetric] nunits_eq(1) Let_def ..
  obtain p s' fs' where m: "malloc sbrk nbytes s = Some (p, s')" "keeps_live live ?s s'"
    "p = 0 \<and> (\<forall>x\<in>set fs. snd x < units nbytes) \<and> s' = ?s \<or>
     handed_out p (units nbytes) s' fs' live \<and> unat (ubrk ?s) \<le> unat (ubrk s') \<and>
       16 * (units nbytes + sum_list (map snd fs')) = 16 * sum_list (map snd fs) + (unat (ubrk s') - unat (ubrk ?s))"
    using malloc_loop_ok [OF assms(1) conjunct1 [OF st(1)] conjunct2 [OF st(1)] nu(1,2)] unfolding e by blast
  show ?thesis
    using m(1,3) st nu(3) keeps_live_trans [OF st(2) m(2)] by (intro exI [of _ p] exI [of _ s'] exI [of _ fs']) auto
qed

text \<open>
  C39: \<^verbatim>\<open>free\<close> of a block in use always returns, wherever \<^verbatim>\<open>freep\<close> points: the search of the circular list finds the
  block's place. The block joins the free blocks and is made one with its neighbours where they touch, so
  that the heap stays in order and nothing is lost; the contents of all other blocks in use stay as they are.
\<close>

theorem free_correct:
  assumes "heap_ok s fs (l1 @ x # l2)"
  shows "\<exists>s' fs'. ufree (of_nat (fst x) + 16) s = Some s' \<and> heap_ok s' fs' (l1 @ l2) \<and> keeps_live (l1 @ l2) s s' \<and>
    sum_list (map snd fs') = snd x + sum_list (map snd fs) \<and> ubrk s' = ubrk s"
proof -
  obtain s' fs' where f: "ufree (of_nat (fst x) + 16) s = Some s'" "heap_ok s' fs' (l1 @ l2)" "ubrk s' = ubrk s"
    "sum_list (map snd fs') = snd x + sum_list (map snd fs)" "changes_only ((unat (base_hdr s), 0) # x # fs) s s'"
    using ufree_ok [OF assms] by blast
  have "freep s \<noteq> 0"
    using assms by (auto simp: heap_ok_def Let_def split: if_splits)
  from heap_okD [OF assms this] obtain b0 e where h: "unat (base_hdr s) = b0" "b0 + 16 \<le> e" "e \<le> heap_max" "heap_shape b0 e fs (l1 @ x # l2)" .
  note nf = node_facts [OF h(4,2,3)]
  have "sep x l" if "l \<in> set (l1 @ l2)" for l
    using h(4) that sep_sym [of x l] by (auto simp: heap_shape_def sorted_wrt_append)
  then have "keeps_live (l1 @ l2) s s'"
    using nf h(1) by (intro changes_keeps_live [OF f(5)]) auto
  then show ?thesis
    using f by blast
qed

text \<open>A program with no memory allocated yet, and a kernel that gives memory up to a limit.\<close>

definition fresh_seg :: useg where
  "fresh_seg = \<lparr>umem = \<lambda>_. 0, base_hdr = 0x2000, freep = 0, ubrk = 0x3000\<rparr>"

definition limit_sbrk :: "unit sbrk_call" where
  "limit_sbrk n s = (if unat (ubrk s) + nat n \<le> heap_max then (ubrk s, s\<lparr>ubrk := ubrk s + of_nat (nat n)\<rparr>) else (-1, s))"

lemma fresh_ok: "heap_ok fresh_seg [] []"
  by (simp add: heap_ok_def fresh_seg_def Let_def heap_max_def heap_shape_def)

lemma limit_sbrk_ok: "sbrk_ok limit_sbrk"
  unfolding sbrk_ok_def
proof (intro allI impI)
  fix n :: int and s :: useg
  have "unat (ubrk s + of_nat (nat n)) = unat (ubrk s) + nat n" if "unat (ubrk s) + nat n \<le> heap_max"
    using that unat_of_nat64 [of "unat (ubrk s) + nat n"] by (simp add: heap_max_def)
  then show "limit_sbrk n s = (-1, s) \<or>
      (\<exists>s'. limit_sbrk n s = (ubrk s, s') \<and> unat (ubrk s') = unat (ubrk s) + nat n \<and> unat (ubrk s') \<le> heap_max \<and>
         base_hdr s' = base_hdr s \<and> freep s' = freep s \<and>
         (\<forall>y. \<not> (unat (ubrk s) \<le> unat y \<and> unat y < unat (ubrk s')) \<longrightarrow> umem s' y = umem s y))"
    by (auto simp: limit_sbrk_def)
qed

theorem malloc_correct_witness:
  "\<exists>p s' fs'. malloc limit_sbrk 100 fresh_seg = Some (p, s') \<and>
    (p = 0 \<and> ubrk s' = ubrk fresh_seg \<or> handed_out p (units 100) s' fs' [] \<and>
       16 * (units 100 + sum_list (map snd fs')) = unat (ubrk s') - unat (ubrk fresh_seg))"
proof -
  have "unat (100 :: uint32) < 2 ^ 31 - 32"
    by simp
  from malloc_correct [OF limit_sbrk_ok fresh_ok this] show ?thesis
    by auto
qed

text \<open>The same program with one block of 4096 units in use.\<close>

definition one_block :: useg where
  "one_block = set_hsize 0x3000 4096 ((start_heap fresh_seg)\<lparr>ubrk := 0x13000\<rparr>)"

lemma one_block_ok: "heap_ok one_block [] ([] @ (0x3000, 4096) # [])"
proof -
  note st = start_heap [OF fresh_ok]
  have b: "ubrk (start_heap fresh_seg) = 0x3000"
    using st(3) by (simp add: fresh_seg_def)
  show ?thesis
    using grow_ok [OF conjunct1 [OF st(1)] conjunct2 [OF st(1)], of 4096 "(start_heap fresh_seg)\<lparr>ubrk := 0x13000\<rparr>"]
    unfolding b one_block_def by (simp add: heap_max_def)
qed

theorem free_correct_witness:
  "\<exists>s' fs'. ufree (of_nat (fst (0x3000, 4096 :: nat)) + 16) one_block = Some s' \<and> heap_ok s' fs' ([] @ []) \<and>
    sum_list (map snd fs') = 4096"
  using free_correct [OF one_block_ok] by auto

text \<open>
  From two gigabytes on, the number of bytes does not fit the \<^verbatim>\<open>int\<close> that \<^verbatim>\<open>sbrk\<close> takes: \<^verbatim>\<open>morecore\<close> asks the kernel for a
  negative amount, and the process's memory shrinks.
\<close>

lemma morecore_shrinks:
  assumes "2 ^ 31 \<le> 16 * nu" "16 * nu < 2 ^ 32" "sbrk (16 * int nu - 2 ^ 32) s = (-1, s1)"
  shows "morecore sbrk (of_nat nu) s = Some (0, s1)"
proof -
  have n: "(if (of_nat nu :: uint32) < 4096 then 4096 else of_nat nu) = (of_nat nu :: uint32)"
    using assms unat_units [of nu] by (auto simp: word_less_nat_alt)
  have "(ucast (ucast (of_nat nu :: uint32) * 16 :: uint64) :: uint32) = of_nat (nu * 16)"
  proof -
    have "(ucast (of_nat nu :: uint32) :: uint64) * 16 = of_nat (nu * 16)"
      using assms by (simp add: unsigned_of_nat take_bit_eq_mod)
    then show ?thesis
      using assms by (simp add: unsigned_of_nat take_bit_eq_mod del: of_nat_mult)
  qed
  moreover have "sint (of_nat (nu * 16) :: uint32) = 16 * int nu - 2 ^ 32"
  proof -
    have "(of_nat (nu * 16) :: uint32) = of_int (16 * int nu - 2 ^ 32)"
      by simp
    then show ?thesis
      using assms by (simp only: signed_of_int) (simp add: signed_take_bit_int_eq_self)
  qed
  ultimately show ?thesis
    using assms(3) unfolding morecore_def Let_def n by simp
qed

end
