(* ===== verification/Ulib.thy ===== *)
theory Ulib
  imports KString KPrintf
begin

section \<open>The user library (user/ulib.c, user/printf.c)\<close>

text \<open>
  \<^verbatim>\<open>riscv/user/ulib.c\<close> and \<^verbatim>\<open>riscv/user/printf.c\<close>. As in the kernel's library the memory routines work on the byte memory and
  the string routines on arrays of bytes; a loop that would run on past the end of a string that has no NUL
  is \<open>None\<close>. What standard input delivers, a byte at a time, is a list. The system call stubs are generated
  when the system is built and are parameters of \<open>ustat\<close>.
\<close>

subsection \<open>Strings\<close>

partial_function (option) ustrcpy_from :: "bytes \<Rightarrow> bytes \<Rightarrow> nat \<Rightarrow> bytes option" where
  "ustrcpy_from s t i =
     (let s = s(i := t i) in if t i \<noteq> 0 then ustrcpy_from s t (Suc i) else Some s)"

definition ustrcpy :: "bytes \<Rightarrow> bytes \<Rightarrow> bytes option" where
  "ustrcpy s t = ustrcpy_from s t 0"

partial_function (option) ustrcmp_from :: "bytes \<Rightarrow> bytes \<Rightarrow> nat \<Rightarrow> int option" where
  "ustrcmp_from p q i =
     (if p i \<noteq> 0 \<and> p i = q i then ustrcmp_from p q (Suc i) else Some (uint (p i) - uint (q i)))"

definition ustrcmp :: "bytes \<Rightarrow> bytes \<Rightarrow> int option" where
  "ustrcmp p q = ustrcmp_from p q 0"

partial_function (option) ustrlen_from :: "bytes \<Rightarrow> nat \<Rightarrow> nat option" where
  "ustrlen_from s n = (if s n \<noteq> 0 then ustrlen_from s (Suc n) else Some n)"

definition ustrlen :: "bytes \<Rightarrow> nat option" where
  "ustrlen s = ustrlen_from s 0"

text \<open>The pointer that \<^verbatim>\<open>strchr\<close> returns is an offset, or null.\<close>

partial_function (option) ustrchr_from :: "bytes \<Rightarrow> uint8 \<Rightarrow> nat \<Rightarrow> nat option option" where
  "ustrchr_from s c i =
     (if s i = 0 then Some None else if s i = c then Some (Some i) else ustrchr_from s c (Suc i))"

definition ustrchr :: "bytes \<Rightarrow> uint8 \<Rightarrow> nat option option" where
  "ustrchr s c = ustrchr_from s c 0"

partial_function (option) atoi_from :: "bytes \<Rightarrow> nat \<Rightarrow> uint32 \<Rightarrow> uint32 option" where
  "atoi_from s i n =
     (if 48 \<le> s i \<and> s i \<le> 57 then atoi_from s (Suc i) (n * 10 + ucast (s i) - 48) else Some n)"

definition atoi :: "bytes \<Rightarrow> uint32 option" where
  "atoi s = atoi_from s 0 0"

text \<open>\<^verbatim>\<open>gets\<close>: the new contents of the buffer and the rest of the input.\<close>

primrec gets_loop :: "int \<Rightarrow> uint8 list \<Rightarrow> bytes \<Rightarrow> nat \<Rightarrow> bytes \<times> nat \<times> uint8 list" where
  "gets_loop mx [] buf i = (buf, i, [])"
| "gets_loop mx (c # inp) buf i =
     (if int i + 1 < mx then
        let buf = buf(i := c); i = Suc i in
        if c = 10 \<or> c = 13 then (buf, i, inp) else gets_loop mx inp buf i
      else (buf, i, c # inp))"

definition gets :: "bytes \<Rightarrow> int \<Rightarrow> uint8 list \<Rightarrow> bytes \<times> uint8 list" where
  "gets buf mx inp = (case gets_loop mx inp buf 0 of (buf, i, inp) \<Rightarrow> (buf(i := 0), inp))"

subsection \<open>Memory\<close>

function umemset_loop :: "memory \<Rightarrow> uint64 \<Rightarrow> uint8 \<Rightarrow> nat \<Rightarrow> nat \<Rightarrow> memory" where
  "umemset_loop m cdst c i n =
     (if i < n then umemset_loop (m(cdst + of_nat i := c)) cdst c (Suc i) n else m)"
  by pat_completeness auto
termination
  by (relation "measure (\<lambda>(m, cdst, c, i, n). n - i)") auto

definition umemset :: "memory \<Rightarrow> uint64 \<Rightarrow> uint32 \<Rightarrow> uint32 \<Rightarrow> memory" where
  "umemset m dst c n = umemset_loop m dst (ucast c) 0 (unat n)"

text \<open>The copying loops are those of the kernel's \<^verbatim>\<open>memmove\<close>; what decides between them is different.\<close>

definition umemmove :: "memory \<Rightarrow> uint64 \<Rightarrow> uint64 \<Rightarrow> int \<Rightarrow> memory" where
  "umemmove m vdst vsrc n =
     (if vsrc > vdst then copy_forward m vdst vsrc (nat n)
      else copy_backward m (vdst + of_int n) (vsrc + of_int n) (nat n))"

primrec umemcmp_loop :: "memory \<Rightarrow> nat \<Rightarrow> uint64 \<Rightarrow> uint64 \<Rightarrow> int" where
  "umemcmp_loop m 0 p1 p2 = 0"
| "umemcmp_loop m (Suc n) p1 p2 =
     (if m p1 \<noteq> m p2 then uint (m p1) - uint (m p2) else umemcmp_loop m n (p1 + 1) (p2 + 1))"

definition umemcmp :: "memory \<Rightarrow> uint64 \<Rightarrow> uint64 \<Rightarrow> uint32 \<Rightarrow> int" where
  "umemcmp m s1 s2 n = umemcmp_loop m (unat n) s1 s2"

definition umemcpy :: "memory \<Rightarrow> uint64 \<Rightarrow> uint64 \<Rightarrow> uint32 \<Rightarrow> memory" where
  "umemcpy m dst src n = umemmove m dst src (sint n)"

subsection \<open>Files\<close>

definition ustat :: "('p \<Rightarrow> int \<Rightarrow> 'w \<Rightarrow> int \<times> 'w) \<Rightarrow> (int \<Rightarrow> 'w \<Rightarrow> (int \<times> 'st) \<times> 'w) \<Rightarrow> (int \<Rightarrow> 'w \<Rightarrow> int \<times> 'w) \<Rightarrow>
    'p \<Rightarrow> 'st \<Rightarrow> 'w \<Rightarrow> (int \<times> 'st) \<times> 'w" where
  "ustat u_open u_fstat u_close n st w =
     (let (fd, w) = u_open n 0 w in
      if fd < 0 then ((-1, st), w)
      else
        let (r, w) = u_fstat fd w; (_, w) = u_close fd w
        in (r, w))"

subsection \<open>Formatted output\<close>

definition upper_digits :: "uint8 list" where
  "upper_digits = map chr ''0123456789ABCDEF''"

text \<open>The magnitude of the number is kept in an \<^verbatim>\<open>uint\<close>.\<close>

definition uprintint :: "uint64 \<Rightarrow> nat \<Rightarrow> bool \<Rightarrow> uint8 list" where
  "uprintint xx base sign =
     (let neg = (sign \<and> sint xx < 0);
          x = (ucast (if neg then - xx else xx) :: uint32);
          buf = digit_loop upper_digits base (unat x);
          buf = (if neg then buf @ [chr (CHR ''-'')] else buf)
      in rev buf)"

fun uprintptr_loop :: "nat \<Rightarrow> uint64 \<Rightarrow> uint8 list" where
  "uprintptr_loop 0 x = []"
| "uprintptr_loop (Suc i) x = upper_digits ! unat (drop_bit 60 x) # uprintptr_loop i (push_bit 4 x)"

definition uprintptr :: "uint64 \<Rightarrow> uint8 list" where
  "uprintptr x = chr (CHR ''0'') # chr (CHR ''x'') # uprintptr_loop 16 x"

definition udirective :: "uint8 \<Rightarrow> uint8 \<Rightarrow> uint8 \<Rightarrow> nat \<times> (varg list \<Rightarrow> (uint8 list \<times> varg list) option)" where
  "udirective c0 c1 c2 =
     (let l = chr (CHR ''l'') in
      if c0 = chr (CHR ''d'') then (0, conv (\<lambda>x. uprintint x 10 True) va_int)
      else if c0 = l \<and> c1 = chr (CHR ''d'') then (1, conv (\<lambda>x. uprintint x 10 True) va_uint64)
      else if c0 = l \<and> c1 = l \<and> c2 = chr (CHR ''d'') then (2, conv (\<lambda>x. uprintint x 10 True) va_uint64)
      else if c0 = chr (CHR ''u'') then (0, conv (\<lambda>x. uprintint x 10 False) va_uint32)
      else if c0 = l \<and> c1 = chr (CHR ''u'') then (1, conv (\<lambda>x. uprintint x 10 False) va_uint64)
      else if c0 = l \<and> c1 = l \<and> c2 = chr (CHR ''u'') then (2, conv (\<lambda>x. uprintint x 10 False) va_uint64)
      else if c0 = chr (CHR ''x'') then (0, conv (\<lambda>x. uprintint x 16 False) va_uint32)
      else if c0 = l \<and> c1 = chr (CHR ''x'') then (1, conv (\<lambda>x. uprintint x 16 False) va_uint64)
      else if c0 = l \<and> c1 = l \<and> c2 = chr (CHR ''x'') then (2, conv (\<lambda>x. uprintint x 16 False) va_uint64)
      else if c0 = chr (CHR ''p'') then (0, conv uprintptr va_uint64)
      else if c0 = chr (CHR ''c'') then (0, conv (\<lambda>x. [ucast x]) va_uint32)
      else if c0 = chr (CHR ''s'') then (0, conv (\<lambda>x. x) va_str)
      else if c0 = chr (CHR ''%'') then (0, \<lambda>as. Some ([c0], as))
      else (0, \<lambda>as. Some ([chr (CHR ''%''), c0], as)))"

text \<open>The bytes that \<^verbatim>\<open>vprintf\<close> writes, one \<^verbatim>\<open>write\<close> each.\<close>

function vprintf :: "uint8 list \<Rightarrow> varg list \<Rightarrow> uint8 list option" where
  "vprintf fmt as =
     (case fmt of
        [] \<Rightarrow> Some []
      | c0 # fmt \<Rightarrow>
          if c0 \<noteq> chr (CHR ''%'') then map_option (\<lambda>out. c0 # out) (vprintf fmt as)
          else if fmt = [] then Some []
          else
            case udirective (byte_at fmt 0) (byte_at fmt 1) (byte_at fmt 2) of
              (k, f) \<Rightarrow>
                case f as of
                  None \<Rightarrow> None
                | Some (out, as) \<Rightarrow> map_option (\<lambda>out'. out @ out') (vprintf (drop (Suc k) fmt) as))"
  by pat_completeness auto
termination
  by (relation "measure (\<lambda>(fmt, as). length fmt)") auto

declare vprintf.simps [simp del] umemset_loop.simps [simp del]

subsection \<open>The string in an array\<close>

fun cstr_at :: "bytes \<Rightarrow> nat \<Rightarrow> uint8 list \<Rightarrow> bool" where
  "cstr_at p i [] \<longleftrightarrow> p i = 0"
| "cstr_at p i (c # cs) \<longleftrightarrow> p i = c \<and> c \<noteq> 0 \<and> cstr_at p (Suc i) cs"

definition is_cstr :: "bytes \<Rightarrow> uint8 list \<Rightarrow> bool" where
  "is_cstr p cs \<longleftrightarrow> cstr_at p 0 cs"

lemma ustrcpy_from_ok:
  "cstr_at t i cs \<Longrightarrow> \<exists>s'. ustrcpy_from s t i = Some s' \<and> cstr_at s' i cs \<and> (\<forall>k. k < i \<or> i + length cs < k \<longrightarrow> s' k = s k)"
proof (induction cs arbitrary: s i)
  case Nil
  then show ?case
    by (subst ustrcpy_from.simps) auto
next
  case (Cons c cs)
  then obtain s' where s': "ustrcpy_from (s(i := c)) t (Suc i) = Some s'" "cstr_at s' (Suc i) cs"
    "\<forall>k. k < Suc i \<or> Suc i + length cs < k \<longrightarrow> s' k = (s(i := c)) k"
    using Cons.IH [of "Suc i" "s(i := c)"] unfolding cstr_at.simps by blast
  have "ustrcpy_from s t i = Some s'"
    using Cons.prems s'(1) by (subst ustrcpy_from.simps) (simp add: Let_def)
  moreover have "s' i = c"
    using s'(3) by simp
  ultimately show ?case
    using Cons.prems s'(2,3) by (intro exI [of _ s']) auto
qed

lemma ustrlen_from_ok: "cstr_at s i cs \<Longrightarrow> ustrlen_from s i = Some (i + length cs)"
  by (induction cs arbitrary: i) (subst ustrlen_from.simps; simp)+

lemma ustrcmp_from_ok:
  "cstr_at p i cs \<Longrightarrow> cstr_at q i ds \<Longrightarrow> \<exists>r. ustrcmp_from p q i = Some r \<and> (r = 0 \<longleftrightarrow> cs = ds) \<and> (r < 0 \<longleftrightarrow> (cs, ds) \<in> lexord {(a, b). a < b})"
proof (induction cs arbitrary: i ds)
  case Nil
  have "q i = hd (ds @ [0])"
    using Nil by (cases ds) auto
  moreover have "hd (ds @ [0]) = 0 \<longleftrightarrow> ds = []"
    using Nil by (cases ds) auto
  ultimately have "0 < uint (q i) \<longleftrightarrow> ds \<noteq> []" "uint (q i) = 0 \<longleftrightarrow> ds = []"
    using uint_nonnegative [of "q i"] by (auto simp: word_uint_eq_iff order_less_le)
  moreover have "ustrcmp_from p q i = Some (- uint (q i))"
    using Nil by (subst ustrcmp_from.simps) simp
  ultimately show ?case
    by (cases ds) auto
next
  case (Cons c cs)
  show ?case
  proof (cases "\<exists>es. ds = c # es")
    case True
    then obtain es where ds: "ds = c # es" ..
    have "ustrcmp_from p q i = ustrcmp_from p q (Suc i)"
      using Cons.prems ds by (subst ustrcmp_from.simps) simp
    then show ?thesis
      using Cons.IH [of "Suc i" es] Cons.prems ds by auto
  next
    case False
    have "p i = c" "c \<noteq> 0" "q i \<noteq> c"
      using Cons.prems False by (cases ds; auto)+
    then have "ustrcmp_from p q i = Some (uint c - uint (q i))"
      by (subst ustrcmp_from.simps) simp
    moreover have "uint c - uint (q i) < 0 \<longleftrightarrow> c < q i" "uint c - uint (q i) \<noteq> 0"
      using \<open>q i \<noteq> c\<close> by (auto simp: word_less_alt word_uint_eq_iff)
    ultimately show ?thesis
      using Cons.prems False by (cases ds) auto
  qed
qed

subsection \<open>Memory and input\<close>

lemma umemmove_store:
  assumes "0 \<le> n" "unat src + nat n < 2 ^ 64" "unat dst + nat n < 2 ^ 64"
  shows "umemmove m dst src n = store_bytes m dst (load_bytes m src (nat n))"
proof -
  have off: "unat (a + of_nat i) = unat a + i" if "unat a + nat n < 2 ^ 64" "i \<le> nat n" for a :: uint64 and i
    using that by (subst unat_add_lem [THEN iffD1]) (auto simp: unat_of_nat64)
  have small: "nat n \<le> 2 ^ 64"
    using assms(2) by simp
  have nn: "(of_int n :: uint64) = of_nat (nat n)"
    using assms(1) by simp
  show ?thesis
  proof (cases "dst < src")
    case True
    have "copy_forward m dst src (nat n) = store_bytes m dst (load_bytes m src (nat n))"
    proof (rule copy_forward_store [OF small])
      fix i j
      assume "i < j" "j < nat n"
      then have "unat (dst + of_nat i) \<noteq> unat (src + of_nat j)"
        using True off [OF assms(3), of i] off [OF assms(2), of j] by (simp add: word_less_nat_alt)
      then show "dst + of_nat i \<noteq> src + of_nat j"
        by metis
    qed
    then show ?thesis
      using True by (simp add: umemmove_def)
  next
    case False
    have "copy_backward m (dst + of_nat (nat n)) (src + of_nat (nat n)) (nat n) = store_bytes m dst (load_bytes m src (nat n))"
    proof (rule copy_backward_store [OF small])
      fix i j
      assume "i < j" "j < nat n"
      then have "unat (dst + of_nat j) \<noteq> unat (src + of_nat i)"
        using False off [OF assms(3), of j] off [OF assms(2), of i] by (simp add: word_less_nat_alt)
      then show "dst + of_nat j \<noteq> src + of_nat i"
        by metis
    qed
    then show ?thesis
      using False by (simp add: umemmove_def nn)
  qed
qed

text \<open>A line of at most \<open>m\<close> characters, its newline or carriage return included.\<close>

fun gets_line :: "nat \<Rightarrow> uint8 list \<Rightarrow> uint8 list" where
  "gets_line 0 inp = []"
| "gets_line (Suc m) [] = []"
| "gets_line (Suc m) (c # inp) = c # (if c = 10 \<or> c = 13 then [] else gets_line m inp)"

lemma gets_line_length: "length (gets_line m inp) \<le> m"
  by (induction m inp rule: gets_line.induct) auto

lemma gets_line_0 [simp]: "gets_line m [] = []"
  by (cases m) auto

definition put_at :: "bytes \<Rightarrow> nat \<Rightarrow> uint8 list \<Rightarrow> bytes" where
  "put_at buf i xs = (\<lambda>k. if i \<le> k \<and> k < i + length xs then xs ! (k - i) else buf k)"

lemma put_at_Nil [simp]: "put_at buf i [] = buf"
  by (auto simp: put_at_def fun_eq_iff)

lemma put_at_Cons: "put_at buf i (c # xs) = put_at (buf(i := c)) (Suc i) xs"
  by (auto simp: put_at_def fun_eq_iff nth_Cons' Suc_diff_le)

lemma gets_loop_eq:
  "nat (mx - 1 - int i) = m \<Longrightarrow>
   gets_loop mx inp buf i = (put_at buf i (gets_line m inp), i + length (gets_line m inp), drop (length (gets_line m inp)) inp)"
proof (induction inp arbitrary: buf i m)
  case (Cons c inp)
  show ?case
  proof (cases m)
    case 0
    then have "\<not> int i + 1 < mx"
      using Cons.prems by simp
    then show ?thesis
      using 0 by simp
  next
    case (Suc m')
    then have i: "int i + 1 < mx" "nat (mx - 1 - int (Suc i)) = m'"
      using Cons.prems by simp_all
    show ?thesis
    proof (cases "c = 10 \<or> c = 13")
      case True
      then show ?thesis
        using i Suc by (auto simp: put_at_Cons)
    next
      case False
      then show ?thesis
        using Cons.IH [OF i(2), of "buf(i := c)"] i Suc by (simp add: put_at_Cons del: fun_upd_apply)
    qed
  qed
qed simp

text \<open>
  \<^verbatim>\<open>gets\<close> puts into the buffer exactly one line of the input, cut off so that with the NUL that ends it the string has
  no more than \<open>max\<close> bytes; it writes nothing behind the NUL and takes from the input
  just the bytes it has stored.
\<close>

theorem gets_correct:
  assumes "0 < mx"
  shows "\<exists>buf'. gets buf mx inp = (buf', drop (length (gets_line (nat mx - 1) inp)) inp) \<and>
    (\<forall>k<length (gets_line (nat mx - 1) inp). buf' k = gets_line (nat mx - 1) inp ! k) \<and> buf' (length (gets_line (nat mx - 1) inp)) = 0 \<and>
    (\<forall>k>length (gets_line (nat mx - 1) inp). buf' k = buf k) \<and> int (length (gets_line (nat mx - 1) inp)) < mx"
proof -
  have "gets_loop mx inp buf 0 = (put_at buf 0 (gets_line (nat mx - 1) inp), length (gets_line (nat mx - 1) inp), drop (length (gets_line (nat mx - 1) inp)) inp)"
    using gets_loop_eq [of mx 0 "nat mx - 1" inp buf] by simp
  moreover have "int (length (gets_line (nat mx - 1) inp)) < mx"
    using gets_line_length [of "nat mx - 1" inp] assms by linarith
  ultimately show ?thesis
    by (simp add: gets_def put_at_def)
qed

theorem gets_correct_witness:
  "\<exists>buf'. gets (\<lambda>_. 1) 100 [104, 105, 10, 106] = (buf', [106]) \<and> buf' 0 = 104 \<and> buf' 3 = 0 \<and> buf' 4 = 1"
proof -
  have "nat 100 - 1 = Suc (Suc (Suc 96))"
    by simp
  then have "gets_line (nat 100 - 1) [104, 105, 10, 106] = [104, 105, 10 :: uint8]"
    by (simp only: gets_line.simps) simp
  then show ?thesis
    using gets_correct [of 100 "\<lambda>_. 1" "[104, 105, 10, 106]"] by (auto simp: nth_Cons' numeral_3_eq_3)
qed

subsection \<open>Numbers\<close>

lemma upper_digits_list:
  "upper_digits = [48, 49, 50, 51, 52, 53, 54, 55, 56, 57, 65, 66, 67, 68, 69, 70]"
  by (simp add: upper_digits_def chr_def)

lemma decimal_digit: "d < 10 \<Longrightarrow> upper_digits ! d = of_nat (48 + d) \<and> lower_digits ! d = of_nat (48 + d)"
proof -
  have "\<forall>d\<in>set [0..<10]. upper_digits ! d = of_nat (48 + d) \<and> lower_digits ! d = of_nat (48 + d)"
    unfolding upper_digits_list lower_digits_list by (simp add: upt_rec)
  then show "d < 10 \<Longrightarrow> upper_digits ! d = of_nat (48 + d) \<and> lower_digits ! d = of_nat (48 + d)"
    by auto
qed

lemma digit_loop_upper: "digit_loop upper_digits 10 x = digit_loop lower_digits 10 x"
proof (induction x rule: less_induct)
  case (less x)
  have "x mod 10 < 10"
    by simp
  then show ?case
    using less [of "x div 10"] decimal_digit [of "x mod 10"]
    by (subst (1 2) digit_loop.simps) (auto simp: Let_def)
qed

lemma digit_loop_decimal: "c \<in> set (digit_loop upper_digits 10 x) \<Longrightarrow> \<exists>d<10. c = of_nat (48 + d)"
proof (induction x rule: less_induct)
  case (less x)
  show ?case
  proof (cases "x div 10 = 0")
    case True
    then have "c = upper_digits ! (x mod 10)"
      using less.prems by (subst (asm) digit_loop.simps) (simp add: Let_def)
    then show ?thesis
      using decimal_digit [of "x mod 10"] by (intro exI [of _ "x mod 10"]) auto
  next
    case False
    then have "c = upper_digits ! (x mod 10) \<or> c \<in> set (digit_loop upper_digits 10 (x div 10))"
      using less.prems by (subst (asm) digit_loop.simps) (simp add: Let_def)
    then show ?thesis
      using decimal_digit [of "x mod 10"] less.IH [of "x div 10"] False by (auto intro: exI [of _ "x mod 10"])
  qed
qed

text \<open>What \<^verbatim>\<open>atoi\<close> makes of a run of digits.\<close>

lemma atoi_from_digits:
  assumes "\<forall>i<length cs. s (k + i) = cs ! i" "s (k + length cs) = 0" "\<forall>c\<in>set cs. \<exists>d<10. c = of_nat (48 + d)"
  shows "atoi_from s k (of_nat n) = Some (of_nat (foldl (\<lambda>n c. n * 10 + (unat c - 48)) n cs))"
  using assms
proof (induction cs arbitrary: k n)
  case Nil
  then show ?case
    by (subst atoi_from.simps) simp
next
  case (Cons c cs)
  obtain d where d: "d < 10" "c = of_nat (48 + d)"
    using Cons.prems(3) by auto
  have u: "unat c = 48 + d"
    using d by (simp add: unat_of_nat take_bit_eq_mod del: of_nat_add)
  have sk: "s k = c" "\<forall>i<length cs. s (Suc k + i) = cs ! i" "s (Suc k + length cs) = 0"
    using Cons.prems(1) [rule_format, of 0] Cons.prems(1) [rule_format, of "Suc i" for i] Cons.prems(2) by auto
  have "48 \<le> c \<and> c \<le> 57"
    using d(1) by (simp add: word_le_nat_alt u)
  moreover have "(of_nat n * 10 + ucast c - 48 :: uint32) = of_nat (n * 10 + (unat c - 48))"
  proof -
    have "(ucast c :: uint32) = of_nat (unat c)"
      by simp
    then show ?thesis
      by (simp add: u)
  qed
  ultimately have "atoi_from s k (of_nat n) = atoi_from s (Suc k) (of_nat (n * 10 + (unat c - 48)))"
    using sk(1) by (subst atoi_from.simps) (simp only: simp_thms if_True)
  then show ?case
    using Cons.IH [OF sk(2,3), of "n * 10 + (unat c - 48)"] Cons.prems(3) by simp
qed

lemma digits_value: "foldl (\<lambda>n c. n * 10 + (unat c - 48)) 0 (rev (digit_loop upper_digits 10 x)) = x"
proof (induction x rule: less_induct)
  case (less x)
  have d: "unat (upper_digits ! (x mod 10)) - 48 = x mod 10"
  proof -
    have "48 + x mod 10 < 256"
      using mod_less_divisor [of 10 x] by linarith
    then have "unat (of_nat (48 + x mod 10) :: uint8) = 48 + x mod 10"
      by (simp add: unat_of_nat take_bit_eq_mod del: of_nat_add)
    then show ?thesis
      using decimal_digit [of "x mod 10"] by simp
  qed
  show ?case
  proof (cases "x div 10 = 0")
    case True
    then show ?thesis
      using d by (subst digit_loop.simps) (simp add: Let_def)
  next
    case False
    have "digit_loop upper_digits 10 x = upper_digits ! (x mod 10) # digit_loop upper_digits 10 (x div 10)"
      using False by (subst digit_loop.simps) (simp add: Let_def)
    then show ?thesis
      using less [of "x div 10"] False d by simp
  qed
qed

lemma cstr_at_nth: "cstr_at s k cs \<Longrightarrow> (\<forall>i<length cs. s (k + i) = cs ! i) \<and> s (k + length cs) = 0"
proof (induction cs arbitrary: k)
  case (Cons c cs)
  then have "(\<forall>i<length cs. s (Suc k + i) = cs ! i) \<and> s (Suc k + length cs) = 0" "s k = c"
    unfolding cstr_at.simps by blast+
  then show ?case
    by (auto simp: less_Suc_eq_0_disj)
qed simp

text \<open>
  C40: A number that a program prints with \<^verbatim>\<open>%d\<close> and that is not negative is read back by \<^verbatim>\<open>atoi\<close> as the same number: the string that
  \<^verbatim>\<open>printf\<close> writes, put into memory with its NUL, makes \<^verbatim>\<open>atoi\<close> return the argument, for all values of an \<^verbatim>\<open>int\<close>.
\<close>

theorem printf_atoi:
  assumes "0 \<le> sint (ucast x :: uint32)"
  shows "\<exists>out. vprintf (map chr ''%d'') [VInt x] = Some out \<and> (\<forall>s. is_cstr s out \<longrightarrow> atoi s = Some (ucast x))"
proof -
  let ?y = "scast (ucast x :: uint32) :: uint64"
  let ?ds = "digit_loop upper_digits 10 (unat (ucast x :: uint32))"
  have "sint ?y = sint (ucast x :: uint32)"
    using sint_greater_eq [of "ucast x :: uint32"] sint_lt [of "ucast x :: uint32"]
    by (simp add: signed_scast_eq signed_take_bit_int_eq_self)
  moreover have u: "(ucast ?y :: uint32) = ucast x"
    by (rule bit_word_eqI) (simp add: bit_simps)
  ultimately have "uprintint ?y 10 True = rev ?ds"
    using assms by (simp add: uprintint_def Let_def)
  then have "vprintf (map chr ''%d'') [VInt x] = Some (rev ?ds)"
    by (simp add: vprintf.simps udirective_def byte_at_def chr_def conv_def)
  moreover have "atoi s = Some (ucast x)" if "is_cstr s (rev ?ds)" for s
  proof -
    have "atoi_from s 0 (of_nat 0) = Some (of_nat (unat (ucast x :: uint32)))"
      using atoi_from_digits [of "rev ?ds" s 0 0] cstr_at_nth [of s 0 "rev ?ds"] that digit_loop_decimal
      by (simp add: is_cstr_def digits_value)
    then show ?thesis
      by (simp add: atoi_def)
  qed
  ultimately show ?thesis
    by blast
qed

theorem printf_atoi_witness:
  "\<exists>out. vprintf (map chr ''%d'') [VInt 1024] = Some out \<and> (\<nexists>s. is_cstr s out \<and> atoi s \<noteq> Some 1024)"
proof -
  have "0 \<le> sint (ucast (1024 :: uint64) :: uint32)"
    by simp
  from printf_atoi [OF this] show ?thesis
    by auto
qed

text \<open>
  The magnitude is an \<^verbatim>\<open>uint\<close>: a number that does not fit 32 bits is printed modulo \<open>2 ^ 32\<close>, also by \<^verbatim>\<open>%ld\<close> and \<^verbatim>\<open>%lx\<close>;
  the others print as in the kernel.
\<close>

lemma uprintint_kernel:
  assumes "unat (if sign \<and> sint xx < 0 then - xx else xx) < 2 ^ 32"
  shows "uprintint xx 10 sign = printint xx 10 sign"
proof -
  have "unat (ucast (if sign \<and> sint xx < 0 then - xx else xx) :: uint32) = unat (if sign \<and> sint xx < 0 then - xx else xx)"
    using assms by (simp add: unsigned_ucast_eq take_bit_eq_mod)
  then show ?thesis
    unfolding uprintint_def printint_def Let_def digit_loop_upper by (simp only:)
qed

lemma uprintint_truncates: "uprintint (0x100000000 + xx) 10 False = uprintint xx 10 False"
proof -
  have "(ucast (0x100000000 + xx) :: uint32) = ucast xx"
    by (simp add: word_unat_eq_iff unsigned_ucast_eq unat_word_ariths take_bit_eq_mod mod_mod_cancel)
  then show ?thesis
    by (simp add: uprintint_def)
qed

end
