(* ===== verification/UTools.thy ===== *)
theory UTools
  imports Ulib
begin

section \<open>Small programs (user/wc.c, user/cat.c, user/echo.c, user/ls.c)\<close>

text \<open>
  The loops of \<^verbatim>\<open>wc\<close>, \<^verbatim>\<open>cat\<close> and \<^verbatim>\<open>echo\<close> and the name formatting of \<^verbatim>\<open>ls\<close>. What \<^verbatim>\<open>read\<close> delivers is a list of
  chunks followed by the end of the file or an error; a string is the list of its bytes.
\<close>

definition str_arr :: "uint8 list \<Rightarrow> bytes" where
  "str_arr cs = byte_at cs"

subsection \<open>wc\<close>

record wcst =
  wl :: uint32
  ww :: uint32
  wcc :: uint32
  inword :: bool

definition wc_space :: "uint8 list" where
  "wc_space = [32, 13, 9, 10, 11]"

definition wc_byte :: "uint8 \<Rightarrow> wcst \<Rightarrow> wcst option" where
  "wc_byte b s =
     (let s = s\<lparr>wcc := wcc s + 1\<rparr>;
          s = (if b = 10 then s\<lparr>wl := wl s + 1\<rparr> else s)
      in map_option (\<lambda>r.
           if r \<noteq> None then s\<lparr>inword := False\<rparr>
           else if \<not> inword s then s\<lparr>ww := ww s + 1, inword := True\<rparr>
           else s) (ustrchr (str_arr wc_space) b))"

primrec wc_chunk :: "uint8 list \<Rightarrow> wcst \<Rightarrow> wcst option" where
  "wc_chunk [] s = Some s"
| "wc_chunk (b # bs) s = (case wc_byte b s of None \<Rightarrow> None | Some s \<Rightarrow> wc_chunk bs s)"

primrec wc_loop :: "uint8 list list \<Rightarrow> wcst \<Rightarrow> wcst option" where
  "wc_loop [] s = Some s"
| "wc_loop (ch # chs) s = (case wc_chunk ch s of None \<Rightarrow> None | Some s \<Rightarrow> wc_loop chs s)"

text \<open>What \<^verbatim>\<open>wc\<close> prints, and the status when it exits.\<close>

definition wc :: "uint8 list list \<Rightarrow> bool \<Rightarrow> uint8 list \<Rightarrow> (uint8 list \<times> nat option) option" where
  "wc chunks failed name =
     (case wc_loop chunks \<lparr>wl = 0, ww = 0, wcc = 0, inword = False\<rparr> of
        None \<Rightarrow> None
      | Some s \<Rightarrow>
          if failed then Some (map chr ''wc: read error'' @ [10], Some 1)
          else map_option (\<lambda>out. (out, None))
            (vprintf (map chr ''%d %d %d %s'' @ [10]) [VInt (scast (wl s)), VInt (scast (ww s)), VInt (scast (wcc s)), VStr (Some name)]))"

text \<open>A word begins at a byte that is no blank and comes first or after a blank.\<close>

definition blank :: "uint8 \<Rightarrow> bool" where
  "blank b \<longleftrightarrow> b \<in> set wc_space"

definition word_starts :: "uint8 list \<Rightarrow> nat" where
  "word_starts bs = card {i. i < length bs \<and> \<not> blank (bs ! i) \<and> (i = 0 \<or> blank (bs ! (i - 1)))}"

lemma ustrchr_space: "ustrchr (str_arr wc_space) b = Some (if blank b then Some (length (takeWhile (\<lambda>c. c \<noteq> b) wc_space)) else None)"
  unfolding ustrchr_def str_arr_def wc_space_def blank_def
  by (subst ustrchr_from.simps, simp add: byte_at_def)+

lemma wc_byte_eq:
  "wc_byte b s = Some (s\<lparr>wl := wl s + (if b = 10 then 1 else 0), ww := ww s + (if \<not> blank b \<and> \<not> inword s then 1 else 0), wcc := wcc s + 1,
     inword := \<not> blank b\<rparr>)"
  by (simp add: wc_byte_def ustrchr_space Let_def)

lemma wc_loop_concat: "wc_loop chs s = wc_chunk (concat chs) s"
proof -
  have "wc_chunk (xs @ ys) s = (case wc_chunk xs s of None \<Rightarrow> None | Some s \<Rightarrow> wc_chunk ys s)" for xs ys s
    by (induction xs arbitrary: s) (auto split: option.splits)
  then show ?thesis
    by (induction chs arbitrary: s) (auto split: option.splits)
qed

text \<open>Words that begin in \<open>bs\<close>, given whether a word is already going on.\<close>

fun words_from :: "bool \<Rightarrow> uint8 list \<Rightarrow> nat" where
  "words_from w [] = 0"
| "words_from w (b # bs) = (if \<not> blank b \<and> \<not> w then 1 else 0) + words_from (\<not> blank b) bs"

lemma wc_chunk_eq:
  "wc_chunk bs s = Some (s\<lparr>wl := wl s + of_nat (count_list bs 10), ww := ww s + of_nat (words_from (inword s) bs),
     wcc := wcc s + of_nat (length bs), inword := (if bs = [] then inword s else \<not> blank (last bs))\<rparr>)"
  by (induction bs arbitrary: s) (auto simp: wc_byte_eq algebra_simps)

lemma words_from_card:
  "words_from w bs = card {i. i < length bs \<and> \<not> blank (bs ! i) \<and> (if i = 0 then \<not> w else blank (bs ! (i - 1)))}"
proof (induction bs arbitrary: w)
  case (Cons b bs)
  let ?S = "\<lambda>w bs. {i. i < length bs \<and> \<not> blank (bs ! i) \<and> (if i = 0 then \<not> w else blank (bs ! (i - 1)))}"
  have "?S w (b # bs) = (if \<not> blank b \<and> \<not> w then {0} else {}) \<union> Suc ` ?S (\<not> blank b) bs"
  proof (rule set_eqI)
    fix i
    show "i \<in> ?S w (b # bs) \<longleftrightarrow> i \<in> (if \<not> blank b \<and> \<not> w then {0} else {}) \<union> Suc ` ?S (\<not> blank b) bs"
      by (cases i) (auto simp: nth_Cons')
  qed
  moreover have "card ((if \<not> blank b \<and> \<not> w then {0} else {}) \<union> Suc ` ?S (\<not> blank b) bs) =
      (if \<not> blank b \<and> \<not> w then 1 else 0) + card (?S (\<not> blank b) bs)"
    by (subst card_Un_disjoint) (auto simp: card_image)
  ultimately show ?case
    using Cons.IH by simp
qed simp

lemma wc_counts:
  "wc_loop chs \<lparr>wl = 0, ww = 0, wcc = 0, inword = False\<rparr> =
     Some \<lparr>wl = of_nat (count_list (concat chs) 10), ww = of_nat (word_starts (concat chs)), wcc = of_nat (length (concat chs)),
       inword = (concat chs \<noteq> [] \<and> \<not> blank (last (concat chs)))\<rparr>"
proof -
  have "words_from False bs = word_starts bs" for bs
    unfolding words_from_card word_starts_def by (rule arg_cong [where f = card]) auto
  then show ?thesis
    unfolding wc_loop_concat by (simp add: wc_chunk_eq)
qed

subsection \<open>cat\<close>

text \<open>
  Each chunk comes with what \<^verbatim>\<open>write\<close> returns for it; a write puts out the bytes it counts. The result is what is
  written to standard output and to standard error, and the status if the program exits.
\<close>

primrec cat :: "(uint8 list \<times> int) list \<Rightarrow> bool \<Rightarrow> uint8 list \<times> uint8 list \<times> nat option" where
  "cat [] failed = (if failed then ([], map chr ''cat: read error'' @ [10], Some 1) else ([], [], None))"
| "cat (ch # chs) failed =
     (if snd ch \<noteq> int (length (fst ch)) then (take (nat (snd ch)) (fst ch), map chr ''cat: write error'' @ [10], Some 1)
      else case cat chs failed of (out, err, st) \<Rightarrow> (fst ch @ out, err, st))"

lemma cat_copies:
  assumes "\<forall>ch\<in>set chs. snd ch = int (length (fst ch))"
  shows "cat chs False = (concat (map fst chs), [], None)"
  using assms by (induction chs) auto

lemma cat_prefix: "\<exists>rest. concat (map fst chs) = fst (cat chs failed) @ rest"
proof (induction chs)
  case (Cons ch chs)
  then obtain rest where "concat (map fst chs) = fst (cat chs failed) @ rest" ..
  then have full: "concat (map fst (ch # chs)) = (fst ch @ fst (cat chs failed)) @ rest"
    by simp
  have "concat (map fst (ch # chs)) = take (nat (snd ch)) (fst ch) @ drop (nat (snd ch)) (fst ch) @ concat (map fst chs)"
    by simp
  then have "\<exists>r. concat (map fst (ch # chs)) = take (nat (snd ch)) (fst ch) @ r"
    by blast
  with full show ?case
    by (cases "cat chs failed") auto
qed simp

subsection \<open>echo\<close>

text \<open>The bytes written for \<^verbatim>\<open>argv[1]\<close> up to \<^verbatim>\<open>argv[argc - 1]\<close>.\<close>

primrec echo :: "uint8 list list \<Rightarrow> uint8 list" where
  "echo [] = []"
| "echo (a # as) = a @ (if as \<noteq> [] then [32] else [10]) @ echo as"

lemma echo_joined: "as \<noteq> [] \<Longrightarrow> echo as = concat (map (\<lambda>a. a @ [32]) (butlast as)) @ last as @ [10]"
  by (induction as) auto

subsection \<open>ls\<close>

text \<open>The scan runs back from the end of the path until the pointer is before it or at a slash.\<close>

primrec fmt_scan :: "uint8 list \<Rightarrow> nat \<Rightarrow> nat" where
  "fmt_scan path 0 = 0"
| "fmt_scan path (Suc p) = (if byte_at path p = SLASH then Suc p else fmt_scan path p)"

definition fmtname :: "uint8 list \<Rightarrow> uint8 list" where
  "fmtname path =
     (let p = drop (fmt_scan path (length path + 1)) path in
      if length p \<ge> DIRSIZ then p else p @ replicate (DIRSIZ - length p) 32)"

lemma fmt_scan_last: "n \<le> length path \<Longrightarrow> drop (fmt_scan path n) (take n path) = rev (takeWhile (\<lambda>c. c \<noteq> SLASH) (rev (take n path)))"
proof (induction n)
  case (Suc n)
  then have t: "take (Suc n) path = take n path @ [path ! n]" "byte_at path n = path ! n"
    by (simp_all add: take_Suc_conv_app_nth byte_at_def)
  have "fmt_scan path n \<le> n" for n
    by (induction n) auto
  then show ?case
    using Suc t by (auto simp: min_def)
qed simp

lemma fmtname_correct:
  "fmtname path = (let name = rev (takeWhile (\<lambda>c. c \<noteq> SLASH) (rev path)) in
     if length name \<ge> DIRSIZ then name else name @ replicate (DIRSIZ - length name) 32)"
proof -
  have "byte_at path (length path) \<noteq> SLASH"
    by (simp add: byte_at_def)
  then have "drop (fmt_scan path (length path + 1)) path = rev (takeWhile (\<lambda>c. c \<noteq> SLASH) (rev path))"
    using fmt_scan_last [of "length path" path] by simp
  then show ?thesis
    by (simp add: fmtname_def Let_def)
qed

end
