(* ===== verification/Spec2Isabelle.thy ===== *)
theory Spec2Isabelle
  imports Prelude Riscv KString Spinlock Sched Kalloc Vm PageTable UserVm Bio Block Log Fs FsTx FsData FsName
    Ring VmFrame UserMem Uart KPrintf Console File Proc Syscall Exec Sysfile Virtio VirtioSafe PipeQueue Trap Fair Grep Sh ShParse Umalloc Ulib UTools
begin

text \<open>
  A verification of xv6 for RISC-V: the kernel (\<^verbatim>\<open>src/riscv/kernel\<close>) and the programs of
  \<^verbatim>\<open>src/riscv/user\<close> that have an algorithm of their own. Definitions are translated from the C sources function by
  function; what follows says which theory models what, how, and what is proved.

  \<^bold>\<open>How C becomes HOL.\<close> Machine integers are words of their width, so that arithmetic wraps where
  C's does; sizes and indices that cannot overflow are \<open>nat\<close>. A structure is a record, and the kernel's state is a
  chain of record extensions, each component adding its fields: \<open>hart\<close> (locks held), \<open>ptable\<close> (process
  table), \<open>machine\<close> (physical memory, free list), \<open>bcache\<close>, \<open>logst\<close>, \<open>fsst\<close>, \<open>consst\<close>, \<open>filest\<close>, \<open>vdiskst\<close>,
  \<open>kernst\<close>. An operation takes the state and returns an \<open>outcome\<close> (theory Prelude): \<open>Ret\<close> with a value and the new
  state, \<open>Panic\<close> with the kernel's message (a null dereference in the kernel is
  the panic of \<^verbatim>\<open>kerneltrap\<close>), or \<open>Sleep\<close> when the thread gives up the CPU on a channel; operations are sequenced with \<open>bnd\<close>. A
  loop around \<^verbatim>\<open>sleep\<close> is split at the sleep: \<open>X_from\<close> is the loop entered with the lock held, \<open>X\<close> the
  call and \<open>X_resume\<close> what runs when the thread is scheduled again. Loops are recursive functions with a
  termination proof; searches through linked lists that need not end (\<open>bscan\<close> of the buffer cache, the lists of \<^verbatim>\<open>malloc\<close>, C strings) are
  \<open>partial_function (option)\<close>, with \<open>None\<close> for a loop that does not end, and theorems show that they end. No
  theorem depends on fuel; the depth 3 of \<open>freewalk_depth\<close> is the number of page-table levels.

  \<^bold>\<open>Locks, scheduling, interleaving.\<close> Spinlock models the lock words of several harts with an inductive step relation at the
  granularity of the memory operations of \<^verbatim>\<open>acquire\<close> and \<^verbatim>\<open>release\<close> (mutual exclusion, C2) and a sequential view
  with the set of held locks that refines it, which the rest of the kernel uses. Sched has the process table, \<^verbatim>\<open>sleep\<close>, \<^verbatim>\<open>wakeup\<close>,
  sleep locks, one pass of the scheduler, and the interleaving of waiters and wakers in which no wakeup is lost (C4); Fair
  shows that a pass runs every runnable process, and that lazy growth past \<^verbatim>\<open>MAXVA\<close> makes the kernel panic.

  \<^bold>\<open>Memory.\<close> Riscv: constants and page-table macros. KString: \<^verbatim>\<open>string.c\<close>. Kalloc: the free list threaded through
  physical memory, refining a set of pages. Vm: \<^verbatim>\<open>vm.c\<close>; its invariant (pages of a table and of its
  leaves are distinct and not free) is developed in PageTable, UserVm and VmFrame, with mapping, unmapping and freeing of whole
  address spaces without leaks. UserMem: \<^verbatim>\<open>copyin\<close> and \<^verbatim>\<open>copyout\<close>, with pages allocated on demand, against the memory the
  process sees (C5).

  \<^bold>\<open>Disk and file system.\<close> Bio: \<^verbatim>\<open>bio.c\<close>, the cache as a doubly linked list, refining a map from blocks to contents (C6). Log: \<^verbatim>\<open>log.c\<close>;
  the disk is the sequence of its writes, a crash is a prefix of it, and after recovery a transaction has happened
  entirely or not at all (C1); the log never overflows, however operations interleave (C7). Fs: all of \<^verbatim>\<open>fs.c\<close>; Block holds
  the encoding of words in blocks, FsTx the block allocator and transactions, FsData inodes and file contents (C3), FsName the inode table,
  directories and path names. Virtio and VirtioSafe: the disk driver with its descriptor rings, for any device that obeys the virtio
  contract \<open>serves\<close> (C8).

  \<^bold>\<open>Devices, files, processes, traps.\<close> Uart, KPrintf, Console: serial port, kernel \<^verbatim>\<open>printf\<close>, and the line discipline,
  refining two lists of characters (C10); Ring has the shared facts on ring buffers with wrapping counters, a locale that
  the console, pipes and the virtio rings interpret. File: \<^verbatim>\<open>file.c\<close>, \<^verbatim>\<open>pipe.c\<close>; PipeQueue: a pipe is a queue of bytes (C9). Proc, Exec: the rest
  of \<^verbatim>\<open>proc.c\<close>, \<^verbatim>\<open>exec.c\<close>. Syscall, Sysfile: \<^verbatim>\<open>syscall.c\<close>, \<^verbatim>\<open>sysproc.c\<close>, \<^verbatim>\<open>sysfile.c\<close>. Trap: \<^verbatim>\<open>trap.c\<close>, \<^verbatim>\<open>plic.c\<close>, \<^verbatim>\<open>start.c\<close>, \<^verbatim>\<open>main.c\<close>.

  \<^bold>\<open>Programs.\<close> Grep: the matcher and the splitting of the input into lines. Sh and ShParse: the shell, whose parser ends on
  every input and inverts a printer of commands. Umalloc: the allocator, on the bytes of the process's memory. Ulib, UTools: the
  library, \<^verbatim>\<open>printf\<close>, and the loops of \<^verbatim>\<open>wc\<close>, \<^verbatim>\<open>cat\<close>, \<^verbatim>\<open>echo\<close> and \<^verbatim>\<open>ls\<close>.

  \<^bold>\<open>Bounds.\<close> \<open>NBUF\<close>, \<open>NPROC\<close>, \<open>LOGBLOCKS\<close> and the others are those of \<^verbatim>\<open>param.h\<close>. File-system theorems assume an image whose
  metadata is in range, which the examples at the end of the theories show to exist; \<open>heap_max\<close> of Umalloc (64 gigabytes) is far above the
  memory of the machine.

  \<^bold>\<open>Parameters.\<close> The disk device (\<open>serves\<close>), the system call stub \<^verbatim>\<open>sbrk\<close> (\<open>sbrk_ok\<close>), the kernel thread between two context
  switches (locale \<open>kthread\<close>), addresses that the linker assigns (\<open>ksyms\<close>), bytes that arrive at the serial port, and uninitialised
  stack bytes that \<^verbatim>\<open>exec\<close> and \<^verbatim>\<open>stat\<close> copy out are arguments of the definitions.

  \<^bold>\<open>Not modelled.\<close> Assembly (\<^verbatim>\<open>entry.S\<close>, \<^verbatim>\<open>swtch.S\<close>, \<^verbatim>\<open>trampoline.S\<close>, \<^verbatim>\<open>kernelvec.S\<close> and the inline assembly of \<^verbatim>\<open>riscv.h\<close>), for
  which there is no instruction semantics here; weak memory ordering (the fences of \<^verbatim>\<open>spinlock.c\<close> and
  \<^verbatim>\<open>virtio_disk.c\<close>); the interleaving of whole system calls of different harts beyond locks, wakeups, log reservations and disk
  requests; the test programs of \<^verbatim>\<open>src/riscv/user\<close>, which have no specification other than that they end; programs that only pass their
  arguments to a system call; and the tree \<^verbatim>\<open>src/x86\<close>, an earlier version of the same system.
\<close>

end
